(* ===== verification/C_Prelude.thy ===== *)
theory C_Prelude
  imports Main "HOL-Library.Word"
begin

text \<open>
  The part of C that the sources rely on, shared by every component: results that may be
  a run-time error, the \<open>int\<close> type and its conversions, heap arrays with uninitialised
  cells, \<^verbatim>\<open>malloc\<close>/\<^verbatim>\<open>realloc\<close>/\<^verbatim>\<open>memcpy\<close>, and the string functions of
  \<^verbatim>\<open><string.h>\<close> and \<^verbatim>\<open><stdlib.h>\<close> (\<^verbatim>\<open>strlen\<close>, \<^verbatim>\<open>strcmp\<close>, \<^verbatim>\<open>strncmp\<close>,
  \<^verbatim>\<open>strtol\<close>, \<^verbatim>\<open>atoi\<close>, the \<^verbatim>\<open>%d\<close> conversion of \<^verbatim>\<open>printf\<close>).  The data model is LP64:
  \<open>int\<close> has 32 bits, \<open>long\<close> and \<open>size_t\<close> have 64.
\<close>

section \<open>Lemma collections\<close>

named_theorems c_simps \<open>evaluation of the C primitives under their side conditions\<close>
named_theorems wf_intros \<open>each operation keeps the well-formedness of its component\<close>

section \<open>Results\<close>

text \<open>
  A run either produces a value or stops.  \<open>Exit n\<close> is the call \<^verbatim>\<open>exit(n)\<close>;
  \<open>Assert_failure\<close> a failing \<^verbatim>\<open>assert\<close>; \<open>Out_of_memory\<close> an allocation that does not
  succeed (the sources use the pointer without a test); \<open>No_return\<close> a loop that runs
  forever.  The others are the undefined behaviours of C that the code could run into.  \<open>No_answer\<close> is not a behaviour of the
  program: the script of system-call results that drives a run has ended, or holds a
  result that the operating system cannot give.
\<close>

datatype c_error =
    Assert_failure
  | Out_of_bounds
  | Uninit_read
  | Null_deref
  | Use_after_free
  | Div_by_zero
  | Bad_shift
  | No_return
  | Overlap
  | Signed_overflow
  | Out_of_memory
  | Exit int
  | No_answer

type_synonym 'a result = "c_error + 'a"

definition bindE :: "'a result \<Rightarrow> ('a \<Rightarrow> 'b result) \<Rightarrow> 'b result" where
  "bindE m f = (case m of Inl e \<Rightarrow> Inl e | Inr x \<Rightarrow> f x)"

lemma bindE_simps [simp]:
  "bindE (Inl e) f = Inl e"
  "bindE (Inr x) f = f x"
  by (simp_all add: bindE_def)

lemma bindE_eq_Inr: "bindE m f = Inr y \<longleftrightarrow> (\<exists>x. m = Inr x \<and> f x = Inr y)"
  by (cases m) auto

lemma bindE_eq_Inl:
  "bindE m f = Inl e \<longleftrightarrow> m = Inl e \<or> (\<exists>x. m = Inr x \<and> f x = Inl e)"
  by (cases m) auto

lemma bindE_assoc: "bindE (bindE m f) g = bindE m (\<lambda>x. bindE (f x) g)"
  by (cases m) auto

lemma bindE_cong [fundef_cong]:
  "m = m' \<Longrightarrow> (\<And>x. m' = Inr x \<Longrightarrow> f x = f' x) \<Longrightarrow> bindE m f = bindE m' f'"
  by (cases m') auto

definition c_assert :: "bool \<Rightarrow> unit result" where
  "c_assert b = (if b then Inr () else Inl Assert_failure)"

lemma c_assert_simps [simp]:
  "c_assert True = Inr ()"
  "c_assert False = Inl Assert_failure"
  "c_assert b = Inr u \<longleftrightarrow> b"
  "c_assert b = Inl e \<longleftrightarrow> \<not> b \<and> e = Assert_failure"
  by (auto simp: c_assert_def)

section \<open>The type \<open>int\<close>\<close>

text \<open>
  A value of type \<open>int\<close> is a HOL integer.  Arithmetic that may leave the type goes
  through \<open>ck_int\<close> (signed overflow is undefined behaviour); conversions from wider
  types go through \<open>c_int\<close> (the value is reduced modulo \<open>2^32\<close>).
\<close>

definition is_int :: "int \<Rightarrow> bool" where
  "is_int x \<longleftrightarrow> - (2 ^ 31) \<le> x \<and> x < 2 ^ 31"

definition ck_int :: "int \<Rightarrow> int result" where
  "ck_int x = (if is_int x then Inr x else Inl Signed_overflow)"

definition c_int :: "int \<Rightarrow> int" where
  "c_int x = (x + 2 ^ 31) mod 2 ^ 32 - 2 ^ 31"

definition size_t_of :: "int \<Rightarrow> nat" where
  "size_t_of x = nat (x mod 2 ^ 64)"

definition uint_of :: "int \<Rightarrow> 32 word" where
  "uint_of x = word_of_int x"

definition c_umod :: "'w::len word \<Rightarrow> 'w word \<Rightarrow> 'w word result" where
  "c_umod a b = (if b = 0 then Inl Div_by_zero else Inr (a mod b))"

lemma c_umod_Inr [c_simps]: "b \<noteq> 0 \<Longrightarrow> c_umod a b = Inr (a mod b)"
  by (simp add: c_umod_def)

lemma ck_int_eq_Inr [simp]: "ck_int x = Inr y \<longleftrightarrow> is_int x \<and> y = x"
  by (auto simp: ck_int_def)

lemma ck_int_eq_Inl [simp]: "ck_int x = Inl e \<longleftrightarrow> \<not> is_int x \<and> e = Signed_overflow"
  by (auto simp: ck_int_def)

lemma ck_int_Inr: "is_int x \<Longrightarrow> ck_int x = Inr x"
  by simp

lemma c_int_id [simp]: "is_int x \<Longrightarrow> c_int x = x"
  by (simp add: c_int_def is_int_def)

lemma is_int_c_int [simp]: "is_int (c_int x)"
proof -
  have "0 \<le> (x + 2 ^ 31) mod 2 ^ 32" "(x + 2 ^ 31) mod 2 ^ 32 < 2 ^ 32"
    by simp_all
  then show ?thesis unfolding c_int_def is_int_def by simp
qed

lemma size_t_of_nonneg: "0 \<le> x \<Longrightarrow> x < 2 ^ 64 \<Longrightarrow> size_t_of x = nat x"
  by (simp add: size_t_of_def)

lemma size_t_of_is_int [simp]: "is_int x \<Longrightarrow> 0 \<le> x \<Longrightarrow> size_t_of x = nat x"
  by (rule size_t_of_nonneg) (simp_all add: is_int_def)

lemma unat_uint_of: "0 \<le> x \<Longrightarrow> x < 2 ^ 32 \<Longrightarrow> unat (uint_of x) = nat x"
  by (simp add: uint_of_def unat_eq_nat_uint uint_word_of_int)

section \<open>Heap arrays\<close>

text \<open>
  A block of \<open>n\<close> elements is a list of \<open>n\<close> cells; a cell that was never written holds
  \<open>None\<close>.  Blocks of \<open>max_alloc\<close> bytes (16 GiB) or more cannot be allocated.
\<close>

type_synonym 'a carray = "'a option list"

definition max_alloc :: nat where
  "max_alloc = 2 ^ 34"

definition c_malloc :: "nat \<Rightarrow> nat \<Rightarrow> 'a carray result" where
  "c_malloc esize n =
     (if esize * n < max_alloc then Inr (replicate n None) else Inl Out_of_memory)"

definition c_realloc :: "nat \<Rightarrow> 'a carray \<Rightarrow> nat \<Rightarrow> 'a carray result" where
  "c_realloc esize xs n =
     (if esize * n < max_alloc then Inr (take n xs @ replicate (n - length xs) None)
      else Inl Out_of_memory)"

definition c_read :: "'a carray \<Rightarrow> nat \<Rightarrow> 'a result" where
  "c_read xs i =
     (if i < length xs then (case xs ! i of None \<Rightarrow> Inl Uninit_read | Some v \<Rightarrow> Inr v)
      else Inl Out_of_bounds)"

definition c_write :: "'a carray \<Rightarrow> nat \<Rightarrow> 'a \<Rightarrow> 'a carray result" where
  "c_write xs i v = (if i < length xs then Inr (xs[i := Some v]) else Inl Out_of_bounds)"

text \<open>\<^verbatim>\<open>memcpy(xs + dst, xs + src, n)\<close> inside one block.\<close>

definition c_memcpy :: "'a carray \<Rightarrow> nat \<Rightarrow> nat \<Rightarrow> nat \<Rightarrow> 'a carray result" where
  "c_memcpy xs dst src n =
     (if src + n \<le> length xs \<and> dst + n \<le> length xs then
        if n = 0 \<or> dst + n \<le> src \<or> src + n \<le> dst then
          Inr (take dst xs @ take n (drop src xs) @ drop (dst + n) xs)
        else Inl Overlap
      else Inl Out_of_bounds)"

text \<open>A run of elements stored from position \<open>off\<close> on, as \<^verbatim>\<open>read(2)\<close> fills a buffer.\<close>

definition c_store :: "'a carray \<Rightarrow> nat \<Rightarrow> 'a list \<Rightarrow> 'a carray result" where
  "c_store xs off ys =
     (if off + length ys \<le> length xs
      then Inr (take off xs @ map Some ys @ drop (off + length ys) xs)
      else Inl Out_of_bounds)"

text \<open>Array accesses whose index is an \<open>int\<close>.\<close>

definition c_read_i :: "'a carray \<Rightarrow> int \<Rightarrow> 'a result" where
  "c_read_i xs i = (if i < 0 then Inl Out_of_bounds else c_read xs (nat i))"

definition c_write_i :: "'a carray \<Rightarrow> int \<Rightarrow> 'a \<Rightarrow> 'a carray result" where
  "c_write_i xs i v = (if i < 0 then Inl Out_of_bounds else c_write xs (nat i) v)"

lemma c_malloc_eq_Inr:
  "c_malloc k n = Inr xs \<longleftrightarrow> k * n < max_alloc \<and> xs = replicate n None"
  by (auto simp: c_malloc_def)

lemma c_malloc_eq_Inl: "c_malloc k n = Inl e \<longleftrightarrow> max_alloc \<le> k * n \<and> e = Out_of_memory"
  by (auto simp: c_malloc_def)

lemma c_realloc_eq_Inr:
  "c_realloc k xs n = Inr ys \<longleftrightarrow>
     k * n < max_alloc \<and> ys = take n xs @ replicate (n - length xs) None"
  by (auto simp: c_realloc_def)

lemma c_realloc_eq_Inl: "c_realloc k xs n = Inl e \<longleftrightarrow> max_alloc \<le> k * n \<and> e = Out_of_memory"
  by (auto simp: c_realloc_def)

lemma c_read_Some [c_simps]: "i < length xs \<Longrightarrow> xs ! i = Some v \<Longrightarrow> c_read xs i = Inr v"
  by (simp add: c_read_def)

lemma c_read_eq_Inr: "c_read xs i = Inr v \<longleftrightarrow> i < length xs \<and> xs ! i = Some v"
  by (auto simp: c_read_def split: option.splits)

lemma c_write_Inr [c_simps]: "i < length xs \<Longrightarrow> c_write xs i v = Inr (xs[i := Some v])"
  by (simp add: c_write_def)

lemma c_write_eq_Inr: "c_write xs i v = Inr ys \<longleftrightarrow> i < length xs \<and> ys = xs[i := Some v]"
  by (auto simp: c_write_def)

lemma c_write_eq_Inl: "c_write xs i v = Inl e \<longleftrightarrow> length xs \<le> i \<and> e = Out_of_bounds"
  by (auto simp: c_write_def)

lemma c_read_i_nonneg [c_simps]: "0 \<le> i \<Longrightarrow> c_read_i xs i = c_read xs (nat i)"
  by (simp add: c_read_i_def)

lemma c_write_i_nonneg [c_simps]: "0 \<le> i \<Longrightarrow> c_write_i xs i v = c_write xs (nat i) v"
  by (simp add: c_write_i_def)

section \<open>Strings\<close>

text \<open>
  A \<^verbatim>\<open>char*\<close> that is only used as a C string is the list of its characters up to,
  and without, the first NUL.  \<open>cstring\<close> gives that list for the bytes of a buffer.
\<close>

abbreviation NUL :: char where
  "NUL \<equiv> CHR 0x00"

definition cstring :: "char list \<Rightarrow> string" where
  "cstring bs = takeWhile (\<lambda>c. c \<noteq> NUL) bs"

definition is_cstring :: "char list \<Rightarrow> bool" where
  "is_cstring s \<longleftrightarrow> NUL \<notin> set s"

fun strncmp :: "string \<Rightarrow> string \<Rightarrow> nat \<Rightarrow> int" where
  "strncmp s t 0 = 0"
| "strncmp [] [] (Suc n) = 0"
| "strncmp [] (d # t) (Suc n) = - int (of_char d)"
| "strncmp (c # s) [] (Suc n) = int (of_char c)"
| "strncmp (c # s) (d # t) (Suc n) =
     (if c = d then strncmp s t n else int (of_char c) - int (of_char d))"

definition strcmp :: "string \<Rightarrow> string \<Rightarrow> int" where
  "strcmp s t = strncmp s t (Suc (max (length s) (length t)))"

lemma cstring_id [simp]: "is_cstring s \<Longrightarrow> cstring s = s"
  unfolding cstring_def is_cstring_def by (rule takeWhile_eq_all_conv [THEN iffD2]) auto

lemma is_cstring_cstring [simp]: "is_cstring (cstring s)"
  unfolding cstring_def is_cstring_def by (auto dest: set_takeWhileD)

lemma cstring_NUL [simp]: "cstring (s @ NUL # t) = cstring s"
  by (induction s) (auto simp: cstring_def)

lemma is_cstring_simps [simp]:
  "is_cstring []"
  "is_cstring (c # s) \<longleftrightarrow> c \<noteq> NUL \<and> is_cstring s"
  "is_cstring (s @ t) \<longleftrightarrow> is_cstring s \<and> is_cstring t"
  by (auto simp: is_cstring_def)

lemma of_char_nonzero: "c \<noteq> NUL \<Longrightarrow> (of_char c :: nat) \<noteq> 0"
proof
  assume "c \<noteq> NUL" "(of_char c :: nat) = 0"
  then have "(of_char c :: nat) = of_char NUL" by simp
  with \<open>c \<noteq> NUL\<close> show False by (simp only: of_char_eq_iff)
qed

lemma strncmp_eq_0:
  assumes "is_cstring s" "is_cstring t" "length s < n \<or> length t < n"
  shows "strncmp s t n = 0 \<longleftrightarrow> s = t"
  using assms
  by (induction s t n rule: strncmp.induct) (auto dest: of_char_nonzero)

lemma strcmp_eq_0:
  "is_cstring s \<Longrightarrow> is_cstring t \<Longrightarrow> strcmp s t = 0 \<longleftrightarrow> s = t"
  unfolding strcmp_def by (rule strncmp_eq_0) auto

section \<open>Numbers as text\<close>

text \<open>
  \<^verbatim>\<open>strtol(s, &end, 10)\<close>: white space, a sign, digits; a value that does not fit the
  type \<open>long\<close> is clamped.  The second component is the text from \<^verbatim>\<open>end\<close> on.
  \<^verbatim>\<open>atoi\<close> is \<^verbatim>\<open>(int) strtol(s, NULL, 10)\<close>.
\<close>

definition is_space :: "char \<Rightarrow> bool" where
  "is_space c \<longleftrightarrow> of_char c = (32::nat) \<or> 9 \<le> (of_char c :: nat) \<and> (of_char c :: nat) \<le> 13"

definition is_digit :: "char \<Rightarrow> bool" where
  "is_digit c \<longleftrightarrow> 48 \<le> (of_char c :: nat) \<and> (of_char c :: nat) \<le> 57"

definition digits_value :: "string \<Rightarrow> nat" where
  "digits_value ds = foldl (\<lambda>v c. 10 * v + (of_char c - 48)) 0 ds"

definition clamp_long :: "int \<Rightarrow> int" where
  "clamp_long x = max (- (2 ^ 63)) (min (2 ^ 63 - 1) x)"

definition strtol :: "string \<Rightarrow> int \<times> string" where
  "strtol s =
     (let t = dropWhile is_space s;
          neg = (t \<noteq> [] \<and> hd t = CHR ''-'');
          u = (if t \<noteq> [] \<and> (hd t = CHR ''-'' \<or> hd t = CHR ''+'') then tl t else t);
          ds = takeWhile is_digit u;
          v = int (digits_value ds)
      in if ds = [] then (0, s)
         else (clamp_long (if neg then - v else v), dropWhile is_digit u))"

definition atoi :: "string \<Rightarrow> int" where
  "atoi s = c_int (fst (strtol s))"

text \<open>The \<^verbatim>\<open>%d\<close> and \<^verbatim>\<open>%lu\<close> conversions.\<close>

fun dec_digits :: "nat \<Rightarrow> string" where
  "dec_digits n =
     (if n < 10 then [char_of (48 + n)] else dec_digits (n div 10) @ [char_of (48 + n mod 10)])"

declare dec_digits.simps [simp del]

definition show_int :: "int \<Rightarrow> string" where
  "show_int x = (if x < 0 then CHR ''-'' # dec_digits (nat (- x)) else dec_digits (nat x))"

lemma of_char_digit [simp]: "n < 10 \<Longrightarrow> (of_char (char_of (48 + n)) :: nat) = 48 + n"
  by (simp add: of_char_of)

lemma digits_value_snoc:
  "digits_value (ds @ [c]) = 10 * digits_value ds + (of_char c - 48)"
  by (simp add: digits_value_def)

lemma digits_value_dec_digits [simp]: "digits_value (dec_digits n) = n"
proof (induction n rule: dec_digits.induct)
  case (1 n)
  show ?case
  proof (cases "n < 10")
    case True
    then show ?thesis by (simp add: dec_digits.simps [of n] digits_value_def)
  next
    case False
    with "1.IH" show ?thesis
      by (simp add: dec_digits.simps [of n] digits_value_snoc)
  qed
qed

lemma dec_digits_nonempty [simp]: "dec_digits n \<noteq> []"
  by (subst dec_digits.simps) simp

lemma dec_digits_are_digits: "c \<in> set (dec_digits n) \<Longrightarrow> is_digit c"
proof (induction n rule: dec_digits.induct)
  case (1 n)
  then show ?case
    by (cases "n < 10") (auto simp: dec_digits.simps [of n] is_digit_def)
qed

lemma length_dec_digits: "n < 10 ^ k \<Longrightarrow> 0 < k \<Longrightarrow> length (dec_digits n) \<le> k"
proof (induction n arbitrary: k rule: dec_digits.induct)
  case (1 n)
  show ?case
  proof (cases "n < 10")
    case True
    with "1.prems" show ?thesis by (simp add: dec_digits.simps [of n])
  next
    case False
    with "1.prems" obtain j where k: "k = Suc j" "0 < j"
      by (cases k; cases "k - 1") auto
    with "1.prems" have "n div 10 < 10 ^ j" by (simp add: div_less_iff_less_mult mult.commute)
    with "1.IH" False k show ?thesis by (simp add: dec_digits.simps [of n])
  qed
qed

lemma is_digit_not_special:
  "is_digit c \<Longrightarrow> \<not> is_space c \<and> c \<noteq> CHR ''-'' \<and> c \<noteq> CHR ''+'' \<and> c \<noteq> NUL \<and> c \<noteq> CHR '';'' \<and> c \<noteq> CHR 0x0A"
  by (auto simp: is_digit_def is_space_def)

lemma dec_digits_split: "\<exists>d ds. dec_digits n = d # ds \<and> is_digit d"
  using dec_digits_nonempty [of n] dec_digits_are_digits [of _ n]
  by (cases "dec_digits n") auto

lemma digits_span [simp]:
  "takeWhile is_digit (dec_digits n) = dec_digits n"
  "dropWhile is_digit (dec_digits n) = []"
  by (auto simp: dec_digits_are_digits)

lemma strtol_dec_digits: "strtol (dec_digits n) = (clamp_long (int n), [])"
proof -
  obtain d ds where d: "dec_digits n = d # ds" "is_digit d" using dec_digits_split by blast
  have "takeWhile is_digit ds = ds" "dropWhile is_digit ds = []" "digits_value (d # ds) = n"
    using digits_span [of n] digits_value_dec_digits [of n] by (simp_all add: d)
  then show ?thesis
    using is_digit_not_special [OF d(2)] d(2)
    by (simp add: strtol_def d(1) Let_def del: takeWhile_eq_all_conv dropWhile_eq_Nil_conv)
qed

lemma strtol_neg_dec_digits:
  "strtol (CHR ''-'' # dec_digits n) = (clamp_long (- int n), [])"
  by (simp add: strtol_def is_space_def Let_def)

lemma clamp_long_id [simp]: "is_int x \<Longrightarrow> clamp_long x = x"
  by (simp add: clamp_long_def is_int_def)

lemma atoi_show_int [simp]: "is_int x \<Longrightarrow> atoi (show_int x) = x"
  by (auto simp: atoi_def show_int_def strtol_dec_digits strtol_neg_dec_digits)

lemma show_int_chars:
  "c \<in> set (show_int x) \<Longrightarrow> c \<noteq> NUL \<and> c \<noteq> CHR '';'' \<and> c \<noteq> CHR 0x0A"
  by (auto simp: show_int_def split: if_splits dest!: dec_digits_are_digits is_digit_not_special)

lemma is_cstring_show_int [simp]: "is_cstring (show_int x)"
  using show_int_chars by (auto simp: is_cstring_def)

section \<open>Lists\<close>

lemma count_list_filter: "count_list xs x = length (filter (\<lambda>y. y = x) xs)"
  by (induction xs) auto

lemma takeWhile_upto: "x \<notin> set xs \<Longrightarrow> takeWhile (\<lambda>c. c \<noteq> x) (xs @ x # ys) = xs"
  by (induction xs) auto

lemma dropWhile_upto: "x \<notin> set xs \<Longrightarrow> dropWhile (\<lambda>c. c \<noteq> x) (xs @ x # ys) = x # ys"
  by (induction xs) auto

text \<open>
  The result of \<^verbatim>\<open>snprintf\<close>: the length of the whole text, or a negative number when that length is not an \<open>int\<close>.
\<close>

definition snprintf_result :: "string \<Rightarrow> int" where
  "snprintf_result t = (if is_int (int (length t)) then int (length t) else - 1)"

end
