(* ===== verification/C_Options.thy ===== *)
theory C_Options
  imports C_Prelude
begin

text \<open>
  The command-line options of \<^verbatim>\<open>src/server/options.c\<close>, the log file of
  \<^verbatim>\<open>src/server/logging.c\<close>, and the global variables of both.  The functions work on
  every extension of the record of globals, so the server states defined later are
  passed to them as they are.

  \<^verbatim>\<open>getopt_long\<close> belongs to the C library: \<open>parse_options\<close> takes the values it returns,
  one \<open>(c, optarg)\<close> for every call before the one that returns \<open>-1\<close>, and the final value
  of \<^verbatim>\<open>optind\<close>.  Whether \<^verbatim>\<open>strtol\<close> sets \<^verbatim>\<open>errno\<close> to \<^verbatim>\<open>EINVAL\<close> on a text without
  digits is left open by POSIX and is a parameter.
\<close>

record globals =
  parallel :: int
  socketname :: "string option"
  logging :: bool
  single_client :: bool
  logfile :: "string list option"

text \<open>The initial values of the global variables.\<close>

definition init_globals :: globals where
  "init_globals = \<lparr>parallel = 1, socketname = None, logging = False, single_client = False,
     logfile = None\<rparr>"

section \<open>Options\<close>

text \<open>The \<^verbatim>\<open>switch\<close> on one option.\<close>

definition parse_option ::
  "(string \<Rightarrow> bool) \<Rightarrow> int \<Rightarrow> string \<Rightarrow> 'z globals_scheme \<Rightarrow> 'z globals_scheme result" where
  "parse_option einval c optarg g =
     (if c = 0 then Inl (Exit 1)
      else if c = int (of_char CHR ''i'') then Inr (g\<lparr>single_client := True\<rparr>)
      else if c = int (of_char CHR ''j'') then
        (let p = c_int (fst (strtol optarg)) in
         if einval optarg then Inl (Exit 1)
         else if p \<le> 0 then Inl (Exit 1)
         else Inr (g\<lparr>parallel := p\<rparr>))
      else if c = int (of_char CHR ''l'') then Inr (g\<lparr>logging := True\<rparr>)
      else if c = int (of_char CHR ''s'') then Inr (g\<lparr>socketname := Some optarg\<rparr>)
      else if c = int (of_char CHR ''?'') then Inl (Exit 1)
      else Inl (Exit 1))"

fun parse_option_list ::
  "(string \<Rightarrow> bool) \<Rightarrow> (int \<times> string) list \<Rightarrow> 'z globals_scheme \<Rightarrow> 'z globals_scheme result" where
  "parse_option_list einval [] g = Inr g"
| "parse_option_list einval ((c, optarg) # os) g =
     bindE (parse_option einval c optarg g) (\<lambda>g. parse_option_list einval os g)"

definition parse_options ::
  "(string \<Rightarrow> bool) \<Rightarrow> (int \<times> string) list \<Rightarrow> int \<Rightarrow> int \<Rightarrow> 'z globals_scheme \<Rightarrow>
   'z globals_scheme result" where
  "parse_options einval os optind argc g =
     bindE (parse_option_list einval os g) (\<lambda>g.
     if optind < argc then Inl (Exit 1)
     else if socketname g = None then Inl (Exit 1)
     else Inr g)"

definition valid_options :: "'z globals_scheme \<Rightarrow> bool" where
  "valid_options g \<longleftrightarrow> 1 \<le> parallel g \<and> is_int (parallel g)"

lemma parse_option_valid:
  "valid_options g \<Longrightarrow> parse_option einval c a g = Inr g' \<Longrightarrow> valid_options g'"
  by (auto simp: parse_option_def valid_options_def Let_def split: if_splits)

lemma parse_option_list_valid:
  "valid_options g \<Longrightarrow> parse_option_list einval os g = Inr g' \<Longrightarrow> valid_options g'"
  by (induction einval os g rule: parse_option_list.induct)
    (auto simp: bindE_eq_Inr dest: parse_option_valid)

lemma parse_option_Inl: "parse_option einval c a g = Inl e \<Longrightarrow> e = Exit 1"
  by (auto simp: parse_option_def Let_def split: if_splits)

lemma parse_option_list_Inl: "parse_option_list einval os g = Inl e \<Longrightarrow> e = Exit 1"
  by (induction einval os g rule: parse_option_list.induct)
    (auto simp: bindE_eq_Inl dest: parse_option_Inl)

lemma parse_options_Inl: "parse_options einval os optind argc g = Inl e \<Longrightarrow> e = Exit 1"
  by (auto simp: parse_options_def bindE_eq_Inl dest: parse_option_list_Inl split: if_splits)

section \<open>Logging\<close>

text \<open>
  The log file holds a list of lines; \<^verbatim>\<open>fopen\<close> may fail, and then \<^verbatim>\<open>logfile\<close> is null.
  The text of a message is the result of the \<^verbatim>\<open>printf\<close> conversion; it is only computed
  when logging is on.
\<close>

definition init_logging :: "bool \<Rightarrow> 'z globals_scheme \<Rightarrow> 'z globals_scheme" where
  "init_logging fopen_ok g =
     (if logging g then g\<lparr>logfile := (if fopen_ok then Some [] else None)\<rparr> else g)"

definition log_msg :: "string result \<Rightarrow> 'z globals_scheme \<Rightarrow> 'z globals_scheme result" where
  "log_msg msg g =
     (if logging g then
        (case logfile g of
           None \<Rightarrow> Inl Null_deref
         | Some lines \<Rightarrow> bindE msg (\<lambda>t. Inr (g\<lparr>logfile := Some (lines @ [t])\<rparr>)))
      else Inr g)"

text \<open>\<^verbatim>\<open>logging_shutdown\<close> does not return: it gives the way the program stops.\<close>

definition logging_shutdown :: "string \<Rightarrow> 'z globals_scheme \<Rightarrow> c_error \<times> 'z globals_scheme" where
  "logging_shutdown s g =
     (case log_msg (Inr s) g of Inl e \<Rightarrow> (e, g) | Inr g' \<Rightarrow> (Exit 1, g'))"

definition log_ready :: "'z globals_scheme \<Rightarrow> bool" where
  "log_ready g \<longleftrightarrow> (logging g \<longrightarrow> logfile g \<noteq> None)"

lemma log_msg_ready:
  assumes "log_ready g"
  shows "log_msg (Inr t) g = Inr (g\<lparr>logfile :=
    (if logging g then Some (the (logfile g) @ [t]) else logfile g)\<rparr>)"
  using assms by (auto simp: log_msg_def log_ready_def)

lemma log_msg_frame:
  assumes "log_msg m g = Inr g'"
  shows "g' = g\<lparr>logfile := logfile g'\<rparr>" "log_ready g'"
  using assms by (auto simp: log_msg_def log_ready_def bindE_eq_Inr split: if_splits option.splits)

lemma logging_shutdown_ready: "log_ready g \<Longrightarrow> fst (logging_shutdown s g) = Exit 1"
  by (simp add: logging_shutdown_def log_msg_ready)

lemma init_logging_ready: "init_logging True g = g' \<Longrightarrow> log_ready g'"
  by (auto simp: init_logging_def log_ready_def)

end
