(* ===== verification/C_Monad.thy ===== *)
theory C_Monad
  imports C_Prelude
begin

text \<open>
  Programs with a state: a computation from a state either returns a value and a new
  state or stops with an error in the state it had reached.  The servers are written with
  these combinators; \<open>runs\<close> is the notion of correctness used for their invariants.
\<close>

type_synonym ('s, 'a) prog = "'s \<Rightarrow> (c_error \<times> 's) + ('a \<times> 's)"

definition ret :: "'a \<Rightarrow> ('s, 'a) prog" where
  "ret a s = Inr (a, s)"

definition stop :: "c_error \<Rightarrow> ('s, 'a) prog" where
  "stop e s = Inl (e, s)"

definition bindS :: "('s, 'a) prog \<Rightarrow> ('a \<Rightarrow> ('s, 'b) prog) \<Rightarrow> ('s, 'b) prog" where
  "bindS m f s = (case m s of Inl x \<Rightarrow> Inl x | Inr (a, s') \<Rightarrow> f a s')"

definition lift :: "'a result \<Rightarrow> ('s, 'a) prog" where
  "lift r s = (case r of Inl e \<Rightarrow> Inl (e, s) | Inr a \<Rightarrow> Inr (a, s))"

definition gets :: "('s \<Rightarrow> 'a) \<Rightarrow> ('s, 'a) prog" where
  "gets f s = Inr (f s, s)"

definition modify :: "('s \<Rightarrow> 's) \<Rightarrow> ('s, unit) prog" where
  "modify f s = Inr ((), f s)"

definition whenS :: "bool \<Rightarrow> ('s, unit) prog \<Rightarrow> ('s, unit) prog" where
  "whenS b m = (if b then m else ret ())"

text \<open>The target of a pointer that may be null.\<close>

definition deref :: "'a option \<Rightarrow> ('s, 'a) prog" where
  "deref p = (case p of None \<Rightarrow> stop Null_deref | Some x \<Rightarrow> ret x)"

text \<open>A fallible function of the state as a program.\<close>

definition lift_state :: "('s \<Rightarrow> ('a \<times> 's) result) \<Rightarrow> ('s, 'a) prog" where
  "lift_state f s = (case f s of Inl e \<Rightarrow> Inl (e, s) | Inr p \<Rightarrow> Inr p)"

lemma lift_state_eq_Inr: "lift_state f s = Inr y \<longleftrightarrow> f s = Inr y"
  by (simp add: lift_state_def split: sum.splits)

lemma lift_state_eq_Inl: "lift_state f s = Inl y \<longleftrightarrow> (\<exists>e. f s = Inl e \<and> y = (e, s))"
  by (auto simp: lift_state_def split: sum.splits)

lemma prog_simps [simp]:
  "ret a s = Inr (a, s)"
  "stop e s = Inl (e, s)"
  "lift (Inl e) s = Inl (e, s)"
  "lift (Inr a) s = Inr (a, s)"
  "gets f s = Inr (f s, s)"
  "modify u s = Inr ((), u s)"
  "whenS True m = m"
  "whenS False m = ret ()"
  "deref (Some x) = ret x"
  "deref None = stop Null_deref"
  by (simp_all add: ret_def stop_def lift_def gets_def modify_def whenS_def deref_def fun_eq_iff)

lemma bindS_ret [simp]: "bindS (ret a) f = f a"
  by (simp add: bindS_def fun_eq_iff)

lemma bindS_stop [simp]: "bindS (stop e) f = stop e"
  by (simp add: bindS_def fun_eq_iff)

lemma bindS_assoc: "bindS (bindS m f) g = bindS m (\<lambda>a. bindS (f a) g)"
  by (simp add: bindS_def fun_eq_iff split: sum.splits prod.splits)

lemma bindS_run:
  "m s = Inr (a, s') \<Longrightarrow> bindS m f s = f a s'"
  "m s = Inl x \<Longrightarrow> bindS m f s = Inl x"
  by (simp_all add: bindS_def)

lemma bindS_run_simps [simp]:
  "bindS (gets g) f s = f (g s) s"
  "bindS (modify u) f' s = f' () (u s)"
  "bindS (lift (Inr a)) f s = f a s"
  "bindS (lift (Inl e)) f s = Inl (e, s)"
  by (simp_all add: bindS_def)

lemma bindS_eq_Inr:
  "bindS m f s = Inr y \<longleftrightarrow> (\<exists>a s'. m s = Inr (a, s') \<and> f a s' = Inr y)"
  by (auto simp: bindS_def split: sum.splits prod.splits)

lemma bindS_eq_Inl:
  "bindS m f s = Inl y \<longleftrightarrow> m s = Inl y \<or> (\<exists>a s'. m s = Inr (a, s') \<and> f a s' = Inl y)"
  by (auto simp: bindS_def split: sum.splits prod.splits)

lemma lift_eq_Inr: "lift r s = Inr y \<longleftrightarrow> (\<exists>a. r = Inr a \<and> y = (a, s))"
  by (cases r) auto

lemma lift_eq_Inl: "lift r s = Inl y \<longleftrightarrow> (\<exists>e. r = Inl e \<and> y = (e, s))"
  by (cases r) auto

lemma bindS_cong [fundef_cong]:
  "m = m' \<Longrightarrow> s = s' \<Longrightarrow> (\<And>a t. m' s' = Inr (a, t) \<Longrightarrow> f a t = f' a t) \<Longrightarrow>
   bindS m f s = bindS m' f' s'"
  by (auto simp: bindS_def split: sum.splits prod.splits)

section \<open>Weakest preconditions\<close>

text \<open>
  \<open>runs E m Q s\<close>: from the state \<open>s\<close>, the program \<open>m\<close> either returns a value and a state
  with \<open>Q\<close>, or stops with an error in \<open>E\<close>.
\<close>

definition runs :: "(c_error \<Rightarrow> bool) \<Rightarrow> ('s, 'a) prog \<Rightarrow> ('a \<Rightarrow> 's \<Rightarrow> bool) \<Rightarrow> 's \<Rightarrow> bool" where
  "runs E m Q s \<longleftrightarrow> (case m s of Inl (e, s') \<Rightarrow> E e | Inr (a, s') \<Rightarrow> Q a s')"

lemma runs_simps [simp]:
  "runs E (ret a) Q s \<longleftrightarrow> Q a s"
  "runs E (stop e) Q s \<longleftrightarrow> E e"
  "runs E (gets f) Q s \<longleftrightarrow> Q (f s) s"
  "runs E (modify u) Q' s \<longleftrightarrow> Q' () (u s)"
  "runs E (whenS b m) Q' s \<longleftrightarrow> (if b then runs E m Q' s else Q' () s)"
  by (auto simp: runs_def whenS_def)

lemma runs_bind [simp]: "runs E (bindS m k) Q s \<longleftrightarrow> runs E m (\<lambda>a. runs E (k a) Q) s"
  by (auto simp: runs_def bindS_def split: sum.splits prod.splits)

lemma runs_lift:
  "(\<And>e. r = Inl e \<Longrightarrow> E e) \<Longrightarrow> (\<And>a. r = Inr a \<Longrightarrow> Q a s) \<Longrightarrow> runs E (lift r) Q s"
  by (cases r) (auto simp: runs_def)

lemma runs_lift_Inr [simp]: "runs E (lift (Inr a)) Q s \<longleftrightarrow> Q a s"
  by (simp add: runs_def)

lemma runs_lift_state:
  "(\<And>e. f s = Inl e \<Longrightarrow> E e) \<Longrightarrow> (\<And>a s'. f s = Inr (a, s') \<Longrightarrow> Q a s') \<Longrightarrow>
   runs E (lift_state f) Q s"
  by (auto simp: runs_def lift_state_def split: sum.splits)

lemma runs_mono:
  "runs E m R s \<Longrightarrow> (\<And>a s'. R a s' \<Longrightarrow> Q a s') \<Longrightarrow> runs E m Q s"
  by (auto simp: runs_def split: sum.splits)

lemma runs_Inr: "runs E m Q s \<Longrightarrow> m s = Inr (a, s') \<Longrightarrow> Q a s'"
  by (simp add: runs_def)

lemma runs_Inl: "runs E m Q s \<Longrightarrow> m s = Inl (e, s') \<Longrightarrow> E e"
  by (simp add: runs_def)

lemma runsI:
  "(\<And>e s'. m s = Inl (e, s') \<Longrightarrow> E e) \<Longrightarrow> (\<And>a s'. m s = Inr (a, s') \<Longrightarrow> Q a s') \<Longrightarrow> runs E m Q s"
  by (auto simp: runs_def split: sum.splits)

section \<open>Frames\<close>

text \<open>Programs that leave a part of the state alone, or never increase a quantity.\<close>

definition keeps :: "('s \<Rightarrow> 'v) \<Rightarrow> ('s, 'a) prog \<Rightarrow> bool" where
  "keeps f m \<longleftrightarrow> (\<forall>s a s'. m s = Inr (a, s') \<longrightarrow> f s' = f s)"

definition nongrowing :: "('s \<Rightarrow> int) \<Rightarrow> ('s, 'a) prog \<Rightarrow> bool" where
  "nongrowing f m \<longleftrightarrow> (\<forall>s a s'. m s = Inr (a, s') \<longrightarrow> f s' \<le> f s)"

named_theorems frame_intros \<open>rules for \<open>keeps\<close> and \<open>nongrowing\<close>\<close>

lemma keepsD: "keeps f m \<Longrightarrow> m s = Inr (a, s') \<Longrightarrow> f s' = f s"
  by (auto simp: keeps_def)

lemma nongrowingD: "nongrowing f m \<Longrightarrow> m s = Inr (a, s') \<Longrightarrow> f s' \<le> f s"
  by (auto simp: nongrowing_def)

lemma frame_basic [frame_intros]:
  "keeps f (ret a)" "keeps f (stop e)" "keeps f (lift r)" "keeps f (gets g)" "keeps f (deref p)"
  "nongrowing h (ret a)" "nongrowing h (stop e)" "nongrowing h (lift r)"
  "nongrowing h (gets g)" "nongrowing h (deref p)"
  by (auto simp: keeps_def nongrowing_def lift_eq_Inr deref_def split: option.splits)

lemma frame_modify [frame_intros]:
  "(\<And>s. f (u s) = f s) \<Longrightarrow> keeps f (modify u)"
  "(\<And>s. h (u s) \<le> h s) \<Longrightarrow> nongrowing h (modify u)"
  by (auto simp: keeps_def nongrowing_def)

lemma frame_bind [frame_intros]:
  "keeps f m \<Longrightarrow> (\<And>a. keeps f (k a)) \<Longrightarrow> keeps f (bindS m k)"
  "nongrowing h m \<Longrightarrow> (\<And>a. nongrowing h (k a)) \<Longrightarrow> nongrowing h (bindS m k)"
  by (auto simp: keeps_def nongrowing_def bindS_eq_Inr) (meson order_trans)

lemma frame_if [frame_intros]:
  "(b \<Longrightarrow> keeps f m) \<Longrightarrow> (\<not> b \<Longrightarrow> keeps f m') \<Longrightarrow> keeps f (if b then m else m')"
  "(b \<Longrightarrow> nongrowing h m) \<Longrightarrow> (\<not> b \<Longrightarrow> nongrowing h m') \<Longrightarrow> nongrowing h (if b then m else m')"
  by simp_all

lemma frame_when [frame_intros]:
  "(b \<Longrightarrow> keeps f m) \<Longrightarrow> keeps f (whenS b m)"
  "(b \<Longrightarrow> nongrowing h m) \<Longrightarrow> nongrowing h (whenS b m)"
  by (cases b; simp add: frame_basic)+

lemma frame_option [frame_intros]:
  "(x = None \<Longrightarrow> keeps f m) \<Longrightarrow> (\<And>y. x = Some y \<Longrightarrow> keeps f (k y)) \<Longrightarrow>
     keeps f (case x of None \<Rightarrow> m | Some y \<Rightarrow> k y)"
  "(x = None \<Longrightarrow> nongrowing h m) \<Longrightarrow> (\<And>y. x = Some y \<Longrightarrow> nongrowing h (k y)) \<Longrightarrow>
     nongrowing h (case x of None \<Rightarrow> m | Some y \<Rightarrow> k y)"
  by (cases x; simp)+

lemma frame_prod [frame_intros]:
  "(\<And>a b. p = (a, b) \<Longrightarrow> keeps f (k a b)) \<Longrightarrow> keeps f (case p of (a, b) \<Rightarrow> k a b)"
  "(\<And>a b. p = (a, b) \<Longrightarrow> nongrowing h (k a b)) \<Longrightarrow> nongrowing h (case p of (a, b) \<Rightarrow> k a b)"
  by (cases p; simp)+

section \<open>Loops that may not end\<close>

text \<open>\<open>while (b) body\<close>: a loop that does not end stops with \<open>No_return\<close>.\<close>

partial_function (option) while_run ::
  "('c \<Rightarrow> bool) \<Rightarrow> ('c \<Rightarrow> ('s, 'c) prog) \<Rightarrow> 'c \<Rightarrow> 's \<Rightarrow> ((c_error \<times> 's) + ('c \<times> 's)) option" where
  "while_run b body c s =
     (if b c then (case body c s of Inl e \<Rightarrow> Some (Inl e) | Inr (c', s') \<Rightarrow> while_run b body c' s')
      else Some (Inr (c, s)))"

definition whileS :: "('c \<Rightarrow> bool) \<Rightarrow> ('c \<Rightarrow> ('s, 'c) prog) \<Rightarrow> 'c \<Rightarrow> ('s, 'c) prog" where
  "whileS b body c s = (case while_run b body c s of None \<Rightarrow> Inl (No_return, s) | Some r \<Rightarrow> r)"

lemma while_run_total:
  assumes "\<And>c s. P c s \<Longrightarrow> b c \<Longrightarrow> \<exists>c' s'. body c s = Inr (c', s') \<and> P c' s' \<and> m c' s' < (m c s :: nat)" "P c s"
  shows "\<exists>c' s'. while_run b body c s = Some (Inr (c', s')) \<and> P c' s' \<and> \<not> b c'"
  using assms(2)
proof (induction "m c s" arbitrary: c s rule: less_induct)
  case less
  show ?case
  proof (cases "b c")
    case True
    then obtain c' s' where "body c s = Inr (c', s')" "P c' s'" "m c' s' < m c s" using assms(1) less.prems by blast
    then show ?thesis using less.hyps True by (subst while_run.simps) simp
  qed (use less.prems in \<open>simp add: while_run.simps\<close>)
qed

lemma whileS_total:
  assumes "\<And>c s. P c s \<Longrightarrow> b c \<Longrightarrow> \<exists>c' s'. body c s = Inr (c', s') \<and> P c' s' \<and> m c' s' < (m c s :: nat)" "P c s"
  shows "\<exists>c' s'. whileS b body c s = Inr (c', s') \<and> P c' s' \<and> \<not> b c'"
  using while_run_total [of P b body m, OF assms] by (auto simp: whileS_def)

lemma while_run_forever:
  assumes "\<And>c s. P c s \<Longrightarrow> b c \<and> (\<exists>c' s'. body c s = Inr (c', s') \<and> P c' s')" "P c s"
  shows "while_run b body c s = None"
proof (rule ccontr)
  assume "while_run b body c s \<noteq> None"
  then obtain r where r: "while_run b body c s = Some r" by blast
  have "\<not> P c s"
    by (rule while_run.raw_induct [where P = "\<lambda>b' body' c s r. b' = b \<longrightarrow> body' = body \<longrightarrow> \<not> P c s", THEN mp, THEN mp, OF _ r refl refl])
      (use assms(1) in \<open>(fastforce split: if_splits sum.splits prod.splits)+\<close>)
  with assms(2) show False by blast
qed

lemma whileS_forever:
  assumes "\<And>c s. P c s \<Longrightarrow> b c \<and> (\<exists>c' s'. body c s = Inr (c', s') \<and> P c' s')" "P c s"
  shows "whileS b body c s = Inl (No_return, s)"
  using while_run_forever [of P, OF assms] by (simp add: whileS_def)

lemma while_run_ends:
  assumes "\<And>c s c' s'. b c \<Longrightarrow> body c s = Inr (c', s') \<Longrightarrow> m s' < (m s :: nat)"
  shows "\<exists>r. while_run b body c s = Some r"
proof (induction "m s" arbitrary: c s rule: less_induct)
  case less
  show ?case
  proof (cases "b c \<and> (\<exists>c' s'. body c s = Inr (c', s'))")
    case True
    then obtain c' s' where "b c" "body c s = Inr (c', s')" by blast
    then show ?thesis using less assms by (subst while_run.simps) simp
  qed (subst while_run.simps, auto split: sum.splits)
qed

lemma while_run_keeps:
  assumes r: "while_run b body c s = Some r" and step: "\<And>c s c' s'. P s \<Longrightarrow> body c s = Inr (c', s') \<Longrightarrow> P s'"
  shows "P s \<Longrightarrow> r = Inr (c', s') \<Longrightarrow> P s'"
proof -
  have "P s \<longrightarrow> (\<forall>c' s'. r = Inr (c', s') \<longrightarrow> P s')"
  proof (rule while_run.raw_induct [where P = "\<lambda>b' body' c s r. b' = b \<longrightarrow> body' = body \<longrightarrow>
          P s \<longrightarrow> (\<forall>c' s'. r = Inr (c', s') \<longrightarrow> P s')", THEN mp, THEN mp, OF _ r refl refl], intro impI allI)
    fix w b' body' c s r c' s'
    assume IH: "\<And>b' body' c s r. w b' body' c s = Some r \<Longrightarrow> b' = b \<longrightarrow> body' = body \<longrightarrow>
        P s \<longrightarrow> (\<forall>c' s'. r = Inr (c', s') \<longrightarrow> P s')"
      and eq: "(if b' c then (case body' c s of Inl e \<Rightarrow> Some (Inl e) | Inr (c', s') \<Rightarrow> w b' body' c' s') else Some (Inr (c, s))) = Some r"
      and h: "b' = b" "body' = body" "P s" "r = Inr (c', s')"
    show "P s'"
    proof (cases "b' c")
      case False
      with eq h show ?thesis by simp
    next
      case True
      with eq h obtain c1 s1 where "body c s = Inr (c1, s1)" "w b body c1 s1 = Some (Inr (c', s'))"
        by (cases "body c s") (auto split: prod.splits)
      with IH [of b body c1 s1 "Inr (c', s')"] step [OF h(3)] show ?thesis by simp
    qed
  qed
  then show "P s \<Longrightarrow> r = Inr (c', s') \<Longrightarrow> P s'" by blast
qed

lemma whileS_keeps:
  assumes "whileS b body c s = Inr (c', s')" "P s"
    "\<And>c s c' s'. P s \<Longrightarrow> body c s = Inr (c', s') \<Longrightarrow> P s'"
  shows "P s'"
proof -
  from assms(1) have "while_run b body c s = Some (Inr (c', s'))" by (auto simp: whileS_def split: option.splits)
  then show ?thesis by (rule while_run_keeps [where P = P]) (use assms(2,3) in blast)+
qed

end
