(* ===== verification/Unix_Sys.thy ===== *)
theory Unix_Sys
  imports C_Options C_Monad
begin

text \<open>
  The system calls of the Unix programs.  The kernel is not part of the sources: a run is
  driven by a script of answers, one for every call whose result the code looks at, and
  the calls that other processes can see are recorded in a trace.  A call takes the next
  answer; an answer that the documented behaviour of the call rules out ends the run with
  \<open>No_answer\<close>.  For this the state keeps the open descriptors and the children that have
  not been waited for.  The rules are:
  \<^item> \<^verbatim>\<open>accept\<close> and \<^verbatim>\<open>mkstemp\<close> return -1 or a descriptor that is not open;
  \<^item> \<^verbatim>\<open>fork\<close> returns -1 or, in the parent, a positive process id that no child has;
  \<^item> \<^verbatim>\<open>wait3\<close> returns a value \<open>\<le> 0\<close> or the id of a child;
  \<^item> \<^verbatim>\<open>read\<close> and \<^verbatim>\<open>write\<close> return -1 or transfer at most the number of bytes asked for;
  \<^item> \<^verbatim>\<open>poll\<close> sets in \<^verbatim>\<open>revents\<close> only requested events and \<^verbatim>\<open>POLLERR\<close>, \<^verbatim>\<open>POLLHUP\<close>,
    \<^verbatim>\<open>POLLNVAL\<close>, and nothing for a negative descriptor.
\<close>

text \<open>The argument vector a child passes to \<^verbatim>\<open>execvp\<close>: \<open>None\<close> is the null pointer.\<close>

datatype child_call =
    C_setrlimit_cpu nat nat
  | C_setrlimit_as nat nat
  | C_setrlimit_core nat nat
  | C_open_stdin string
  | C_dup2 int int
  | C_execvp string "string option list"

datatype event =
    Ev_fork int "child_call list result"
  | Ev_write int string
  | Ev_close int
  | Ev_kill int
  | Ev_unlink string

datatype wstatus = Signaled int | Exited int | Other_status

datatype answer =
    Ans_call int int
  | Ans_pipe int int int
  | Ans_accept int
  | Ans_fork int
  | Ans_mkstemp int string
  | Ans_read "string option"
  | Ans_write int
  | Ans_wait int wstatus nat nat
  | Ans_poll int int "16 word list"
  | Ans_cwd string
  | Ans_fopen bool

record sys = globals +
  answers :: "answer list"
  open_fds :: "int list"
  children :: "int list"
  trace :: "event list"

definition next_answer :: "('z sys_scheme, answer) prog" where
  "next_answer s =
     (case answers s of [] \<Rightarrow> Inl (No_answer, s) | a # as \<Rightarrow> Inr (a, s\<lparr>answers := as\<rparr>))"

definition note_event :: "event \<Rightarrow> ('z sys_scheme, unit) prog" where
  "note_event e = modify (\<lambda>s. s\<lparr>trace := trace s @ [e]\<rparr>)"

text \<open>Accept an answer only if the kernel can give it in the current state.\<close>

definition possible :: "('z sys_scheme \<Rightarrow> bool) \<Rightarrow> ('z sys_scheme, unit) prog" where
  "possible p = bindS (gets p) (\<lambda>ok. if ok then ret () else stop No_answer)"

text \<open>A call of which only the result and \<^verbatim>\<open>errno\<close> matter.\<close>

definition sys_call :: "('z sys_scheme, int \<times> int) prog" where
  "sys_call = bindS next_answer (\<lambda>a.
     case a of Ans_call res err \<Rightarrow> ret (res, err) | _ \<Rightarrow> stop No_answer)"

definition sys_accept :: "('z sys_scheme, int) prog" where
  "sys_accept = bindS next_answer (\<lambda>a.
     case a of
       Ans_accept fd \<Rightarrow>
         if fd = - 1 then ret fd
         else bindS (possible (\<lambda>s. 0 \<le> fd \<and> fd \<notin> set (open_fds s))) (\<lambda>_.
              bindS (modify (\<lambda>s. s\<lparr>open_fds := fd # open_fds s\<rparr>)) (\<lambda>_. ret fd))
     | _ \<Rightarrow> stop No_answer)"

definition sys_close :: "int \<Rightarrow> ('z sys_scheme, unit) prog" where
  "sys_close fd =
     bindS (modify (\<lambda>s. s\<lparr>open_fds := removeAll fd (open_fds s)\<rparr>)) (\<lambda>_.
     note_event (Ev_close fd))"

text \<open>
  \<^verbatim>\<open>mkstemp\<close> replaces the last six characters of its template, which the answer gives.
\<close>

definition sys_mkstemp :: "string \<Rightarrow> ('z sys_scheme, int \<times> string) prog" where
  "sys_mkstemp template = bindS next_answer (\<lambda>a.
     case a of
       Ans_mkstemp fd six \<Rightarrow>
         if fd = - 1 then ret (fd, template)
         else bindS (possible (\<lambda>s. 0 \<le> fd \<and> fd \<notin> set (open_fds s)
                       \<and> length six = 6 \<and> is_cstring six)) (\<lambda>_.
              bindS (modify (\<lambda>s. s\<lparr>open_fds := fd # open_fds s\<rparr>)) (\<lambda>_.
              ret (fd, take (length template - 6) template @ six)))
     | _ \<Rightarrow> stop No_answer)"

text \<open>\<^verbatim>\<open>fork\<close>, with the calls the child is going to make; the parent's view.\<close>

definition sys_fork :: "child_call list result \<Rightarrow> ('z sys_scheme, int) prog" where
  "sys_fork plan = bindS next_answer (\<lambda>a.
     case a of
       Ans_fork pid \<Rightarrow>
         if pid = - 1 then ret pid
         else bindS (possible (\<lambda>s. 0 < pid \<and> pid \<notin> set (children s))) (\<lambda>_.
              bindS (modify (\<lambda>s. s\<lparr>children := pid # children s\<rparr>)) (\<lambda>_.
              bindS (note_event (Ev_fork pid plan)) (\<lambda>_. ret pid)))
     | _ \<Rightarrow> stop No_answer)"

definition sys_read :: "nat \<Rightarrow> ('z sys_scheme, string option) prog" where
  "sys_read n = bindS next_answer (\<lambda>a.
     case a of
       Ans_read None \<Rightarrow> ret None
     | Ans_read (Some bs) \<Rightarrow> if length bs \<le> n then ret (Some bs) else stop No_answer
     | _ \<Rightarrow> stop No_answer)"

definition sys_write :: "int \<Rightarrow> string \<Rightarrow> int \<Rightarrow> ('z sys_scheme, int) prog" where
  "sys_write fd buf n = bindS next_answer (\<lambda>a.
     case a of
       Ans_write k \<Rightarrow>
         if k = - 1 then ret k
         else if 0 \<le> k \<and> k \<le> n then
           bindS (note_event (Ev_write fd (take (nat k) buf))) (\<lambda>_. ret k)
         else stop No_answer
     | _ \<Rightarrow> stop No_answer)"

definition sys_wait3 :: "('z sys_scheme, int \<times> wstatus \<times> nat \<times> nat) prog" where
  "sys_wait3 = bindS next_answer (\<lambda>a.
     case a of
       Ans_wait pid st sec usec \<Rightarrow>
         if pid \<le> 0 then ret (pid, st, sec, usec)
         else bindS (possible (\<lambda>s. pid \<in> set (children s) \<and> usec < 1000000)) (\<lambda>_.
              bindS (modify (\<lambda>s. s\<lparr>children := removeAll pid (children s)\<rparr>)) (\<lambda>_.
              ret (pid, st, sec, usec)))
     | _ \<Rightarrow> stop No_answer)"

section \<open>What a call changes\<close>

text \<open>
  A call consumes at most one answer, never adds one, and changes only the kernel part of
  the state.
\<close>

named_theorems sys_defs \<open>definitions of the system calls\<close>

lemmas [sys_defs] = next_answer_def note_event_def possible_def sys_call_def sys_accept_def
  sys_close_def sys_mkstemp_def sys_fork_def sys_read_def sys_write_def sys_wait3_def

lemma sys_wait3_shorter:
  "sys_wait3 s = Inr (p, s') \<Longrightarrow> length (answers s') < length (answers s)"
  by (auto simp: sys_defs bindS_eq_Inr split: list.splits answer.splits if_splits)

lemma sys_call_shorter:
  "sys_call s = Inr (p, s') \<Longrightarrow> length (answers s') < length (answers s)"
  by (auto simp: sys_defs bindS_eq_Inr split: list.splits answer.splits if_splits)

end
