(* ===== verification/C_Readbuf.thy ===== *)
theory C_Readbuf
  imports C_Prelude
begin

text \<open>
  The read buffer of \<^verbatim>\<open>src/server/readbuf.c\<close>.  Sizes are of type \<^verbatim>\<open>size_t\<close>; a buffer
  has fewer than \<open>max_alloc\<close> bytes, so their sums and the doubling stay far from
  \<open>2^64\<close> and are natural numbers here.  \<open>readbuf_bytes\<close> is the text received and not
  yet taken out.
\<close>

section \<open>The code\<close>

record t_readbuf =
  rb_data :: "char carray"
  rb_len :: nat
  rb_capacity :: nat

definition init_readbuf :: "nat \<Rightarrow> t_readbuf result" where
  "init_readbuf capacity =
     bindE (c_assert (capacity > 0)) (\<lambda>_.
     bindE (c_malloc 1 capacity) (\<lambda>d.
     Inr \<lparr>rb_data = d, rb_len = 0, rb_capacity = capacity\<rparr>))"

definition resize_readbuf :: "t_readbuf \<Rightarrow> nat \<Rightarrow> t_readbuf result" where
  "resize_readbuf b newcapacity =
     bindE (c_realloc 1 (rb_data b) newcapacity) (\<lambda>d.
     Inr (b\<lparr>rb_data := d, rb_capacity := newcapacity\<rparr>))"

text \<open>The pointer \<^verbatim>\<open>b->data + b->len\<close> that is returned is an offset into \<^verbatim>\<open>b->data\<close>.\<close>

definition prepare_read :: "t_readbuf \<Rightarrow> nat \<Rightarrow> (nat \<times> t_readbuf) result" where
  "prepare_read b sz =
     bindE (if rb_len b + sz > rb_capacity b
            then resize_readbuf b ((rb_capacity b + sz) * 2) else Inr b) (\<lambda>b.
     Inr (rb_len b, b))"

definition have_read :: "t_readbuf \<Rightarrow> nat \<Rightarrow> t_readbuf result" where
  "have_read b sz =
     bindE (c_assert (rb_capacity b \<ge> rb_len b + sz)) (\<lambda>_.
     Inr (b\<lparr>rb_len := rb_len b + sz\<rparr>))"

definition have_taken :: "t_readbuf \<Rightarrow> nat \<Rightarrow> t_readbuf result" where
  "have_taken b sz =
     bindE (c_assert (sz \<le> rb_len b)) (\<lambda>_.
     bindE (c_memcpy (rb_data b) 0 sz (rb_len b - sz)) (\<lambda>d.
     Inr (b\<lparr>rb_data := d, rb_len := rb_len b - sz\<rparr>)))"

definition clear_readbuf :: "t_readbuf \<Rightarrow> t_readbuf" where
  "clear_readbuf b = b\<lparr>rb_len := 0\<rparr>"

section \<open>Correctness\<close>

definition readbuf_bytes :: "t_readbuf \<Rightarrow> char list" where
  "readbuf_bytes b = map the (take (rb_len b) (rb_data b))"

definition wf_readbuf :: "t_readbuf \<Rightarrow> bool" where
  "wf_readbuf b \<longleftrightarrow>
     length (rb_data b) = rb_capacity b \<and> 0 < rb_capacity b \<and> rb_len b \<le> rb_capacity b \<and>
     take (rb_len b) (rb_data b) = map Some (readbuf_bytes b)"

lemma wf_readbufI:
  assumes "length (rb_data b) = rb_capacity b" "0 < rb_capacity b" "rb_len b \<le> rb_capacity b"
    "take (rb_len b) (rb_data b) = map Some s"
  shows "wf_readbuf b" "readbuf_bytes b = s"
  using assms by (simp_all add: wf_readbuf_def readbuf_bytes_def comp_def)

lemma wf_readbufD:
  assumes "wf_readbuf b"
  shows "length (rb_data b) = rb_capacity b" "0 < rb_capacity b" "rb_len b \<le> rb_capacity b"
    "take (rb_len b) (rb_data b) = map Some (readbuf_bytes b)"
    "length (readbuf_bytes b) = rb_len b"
  using assms by (auto simp: wf_readbuf_def readbuf_bytes_def)

lemma wf_readbuf_data:
  assumes "wf_readbuf b"
  shows "rb_data b = map Some (readbuf_bytes b) @ drop (rb_len b) (rb_data b)"
  using wf_readbufD(4) [OF assms] by (metis append_take_drop_id)

lemma init_readbuf_spec:
  "0 < c \<Longrightarrow> init_readbuf c = Inl Out_of_memory \<or>
     (\<exists>b. init_readbuf c = Inr b \<and> wf_readbuf b \<and> readbuf_bytes b = [])"
  by (auto simp: init_readbuf_def c_malloc_def wf_readbuf_def readbuf_bytes_def)

lemma prepare_read_spec:
  assumes "wf_readbuf b"
  shows "prepare_read b n = Inl Out_of_memory \<or>
    (\<exists>b'. prepare_read b n = Inr (rb_len b, b') \<and> wf_readbuf b' \<and>
       readbuf_bytes b' = readbuf_bytes b \<and> rb_len b' = rb_len b \<and>
       rb_len b + n \<le> rb_capacity b')"
proof (cases "rb_len b + n > rb_capacity b \<and> \<not> (rb_capacity b + n) * 2 < max_alloc")
  case True
  then show ?thesis by (auto simp: prepare_read_def resize_readbuf_def c_realloc_def)
next
  case False
  note w = wf_readbufD [OF assms]
  let ?c = "(rb_capacity b + n) * 2"
  let ?b = "b\<lparr>rb_data := rb_data b @ replicate (?c - rb_capacity b) None, rb_capacity := ?c\<rparr>"
  have "take (rb_len ?b) (rb_data ?b) = map Some (readbuf_bytes b)" using w by simp
  then have "wf_readbuf ?b" "readbuf_bytes ?b = readbuf_bytes b"
    using w by (auto intro!: wf_readbufI simp del: map_eq_conv)
  with False w assms show ?thesis
    by (auto simp: prepare_read_def resize_readbuf_def c_realloc_def)
qed

text \<open>A read of \<open>s\<close> into the prepared region, then \<open>have_read\<close>.\<close>

lemma store_have_read:
  assumes wf: "wf_readbuf b" and room: "rb_len b + length s \<le> rb_capacity b"
  shows "\<exists>d b'. c_store (rb_data b) (rb_len b) s = Inr d \<and>
    have_read (b\<lparr>rb_data := d\<rparr>) (length s) = Inr b' \<and> wf_readbuf b' \<and>
    readbuf_bytes b' = readbuf_bytes b @ s"
proof -
  note w = wf_readbufD [OF wf]
  let ?d = "map Some (readbuf_bytes b) @ map Some s @ drop (rb_len b + length s) (rb_data b)"
  let ?b = "b\<lparr>rb_data := ?d, rb_len := rb_len b + length s\<rparr>"
  have st: "c_store (rb_data b) (rb_len b) s = Inr ?d"
    using w room by (simp add: c_store_def)
  have hr: "have_read (b\<lparr>rb_data := ?d\<rparr>) (length s) = Inr ?b"
    using room by (simp add: have_read_def)
  have "take (rb_len ?b) (rb_data ?b) = map Some (readbuf_bytes b @ s)"
    using w by simp
  then have "wf_readbuf ?b" "readbuf_bytes ?b = readbuf_bytes b @ s"
    using w room by (auto intro!: wf_readbufI simp del: map_eq_conv map_append)
  with st hr show ?thesis by blast
qed

text \<open>
  Taking out the first \<open>n\<close> bytes.  The two regions of the \<^verbatim>\<open>memcpy\<close> overlap exactly when
  more bytes stay than are taken.
\<close>

lemma have_taken_overlap:
  assumes "wf_readbuf b" "n \<le> rb_len b"
  shows "have_taken b n = Inl Overlap \<longleftrightarrow> 2 * n < rb_len b"
  using wf_readbufD [OF assms(1)] assms(2)
  by (auto simp: have_taken_def c_memcpy_def)

lemma have_taken_spec:
  assumes wf: "wf_readbuf b" and n: "n \<le> rb_len b" and far: "rb_len b \<le> 2 * n"
  shows "\<exists>b'. have_taken b n = Inr b' \<and> wf_readbuf b' \<and>
    readbuf_bytes b' = drop n (readbuf_bytes b)"
proof -
  note w = wf_readbufD [OF wf]
  let ?k = "rb_len b - n"
  let ?d = "take ?k (drop n (rb_data b)) @ drop ?k (rb_data b)"
  let ?b = "b\<lparr>rb_data := ?d, rb_len := ?k\<rparr>"
  have "rb_len b - n \<le> n" using far by simp
  then have ht: "have_taken b n = Inr ?b"
    using w n by (simp add: have_taken_def c_memcpy_def)
  have "take ?k (drop n (rb_data b)) = map Some (drop n (readbuf_bytes b))"
    using w(4) n by (metis drop_map take_drop le_add_diff_inverse2 add.commute)
  then have "take (rb_len ?b) (rb_data ?b) = map Some (drop n (readbuf_bytes b))"
    using w n by simp
  then have "wf_readbuf ?b" "readbuf_bytes ?b = drop n (readbuf_bytes b)"
    using w n by (auto intro!: wf_readbufI simp del: map_eq_conv)
  with ht show ?thesis by blast
qed

lemma clear_readbuf_spec:
  "wf_readbuf b \<Longrightarrow> wf_readbuf (clear_readbuf b) \<and> readbuf_bytes (clear_readbuf b) = []"
  by (simp add: wf_readbuf_def clear_readbuf_def readbuf_bytes_def)

end
