(* ===== verification/C_Queue.thy ===== *)
theory C_Queue
  imports C_Prelude
begin

text \<open>
  The resizable ring buffer of \<^verbatim>\<open>src/server/queue.c\<close>: the record \<open>t_queue\<close> with its
  \<open>unsigned int\<close> fields kept at 32 bits, one definition per function, the invariant
  \<open>wf_queue\<close>, the abstraction \<open>queue_list\<close> to the sequence of enqueued elements, and the
  interface \<open>fifo\<close> that the request queue and the write buffers rely on.
\<close>

section \<open>The code\<close>

record 'a t_queue =
  q_data :: "'a carray"
  q_pointer :: "32 word"
  q_len :: "32 word"
  q_capacity :: "32 word"

definition init_queue :: "32 word \<Rightarrow> 'a t_queue result" where
  "init_queue capacity =
     bindE (c_assert (0 < capacity)) (\<lambda>_.
     bindE (c_malloc 8 (unat capacity)) (\<lambda>d.
     Inr \<lparr>q_data = d, q_pointer = 0, q_len = 0, q_capacity = capacity\<rparr>))"

definition queue_pop :: "'a t_queue \<Rightarrow> ('a \<times> 'a t_queue) result" where
  "queue_pop q =
     bindE (c_assert (0 < q_len q)) (\<lambda>_.
     bindE (c_read (q_data q) (unat (q_pointer q))) (\<lambda>tmp.
     bindE (c_umod (q_pointer q + 1) (q_capacity q)) (\<lambda>p.
     Inr (tmp, q\<lparr>q_len := q_len q - 1, q_pointer := p\<rparr>))))"

definition simple_push :: "'a t_queue \<Rightarrow> 'a \<Rightarrow> 'a t_queue result" where
  "simple_push q elt =
     bindE (c_umod (q_pointer q + q_len q) (q_capacity q)) (\<lambda>i.
     bindE (c_write (q_data q) (unat i) elt) (\<lambda>d.
     Inr (q\<lparr>q_data := d, q_len := q_len q + 1\<rparr>)))"

definition resize_queue :: "'a t_queue \<Rightarrow> 'a t_queue result" where
  "resize_queue q =
     (let old_cap = q_capacity q;
          old_p = q_pointer q;
          new_cap = 2 * old_cap;
          new_p = new_cap - old_cap + old_p
      in bindE (c_realloc 8 (q_data q) (unat new_cap)) (\<lambda>d.
         bindE (c_memcpy d (unat new_p) (unat old_p) (unat (old_cap - old_p))) (\<lambda>d'.
         Inr (q\<lparr>q_data := d', q_capacity := new_cap, q_pointer := new_p\<rparr>))))"

definition queue_push :: "'a t_queue \<Rightarrow> 'a \<Rightarrow> 'a t_queue result" where
  "queue_push q elt =
     bindE (if q_len q = q_capacity q then resize_queue q else Inr q) (\<lambda>q'.
     simple_push q' elt)"

definition queue_is_empty :: "'a t_queue \<Rightarrow> bool" where
  "queue_is_empty q \<longleftrightarrow> q_len q = 0"

definition queue_length :: "'a t_queue \<Rightarrow> 32 word" where
  "queue_length q = q_len q"

definition free_queue :: "'a t_queue \<Rightarrow> unit result" where
  "free_queue q = c_assert (queue_is_empty q)"

section \<open>The interface\<close>

text \<open>Sequences of operations, on a queue and on the list it stands for.\<close>

datatype 'a queue_op = Push 'a | Pop

fun run_ops ::
  "('q \<Rightarrow> 'a \<Rightarrow> 'q result) \<Rightarrow> ('q \<Rightarrow> ('a \<times> 'q) result) \<Rightarrow> 'a queue_op list \<Rightarrow> 'q \<Rightarrow>
   ('a list \<times> 'q) result" where
  "run_ops push pop [] q = Inr ([], q)"
| "run_ops push pop (Push x # ops) q = bindE (push q x) (\<lambda>q'. run_ops push pop ops q')"
| "run_ops push pop (Pop # ops) q =
     bindE (pop q) (\<lambda>(x, q').
     bindE (run_ops push pop ops q') (\<lambda>(out, q'').
     Inr (x # out, q'')))"

definition list_push :: "'a list \<Rightarrow> 'a \<Rightarrow> 'a list result" where
  "list_push xs x = Inr (xs @ [x])"

definition list_pop :: "'a list \<Rightarrow> ('a \<times> 'a list) result" where
  "list_pop xs = (case xs of [] \<Rightarrow> Inl Assert_failure | x # xs' \<Rightarrow> Inr (x, xs'))"

text \<open>
  What the clients of a queue rely on.  \<open>room\<close> is the number of elements the queue
  holds before it has to grow; a push within the room cannot fail, any other push may
  fail only for lack of memory.
\<close>

locale fifo =
  fixes push :: "'q \<Rightarrow> 'a \<Rightarrow> 'q result"
    and pop :: "'q \<Rightarrow> ('a \<times> 'q) result"
    and is_empty :: "'q \<Rightarrow> bool"
    and contents :: "'q \<Rightarrow> 'a list"
    and room :: "'q \<Rightarrow> nat"
    and invar :: "'q \<Rightarrow> bool"
  assumes push_Inr: "invar q \<Longrightarrow> push q x = Inr q' \<Longrightarrow>
      invar q' \<and> contents q' = contents q @ [x] \<and> room q \<le> room q'"
    and push_Inl: "invar q \<Longrightarrow> push q x = Inl e \<Longrightarrow> e = Out_of_memory"
    and push_small: "invar q \<Longrightarrow> length (contents q) < 2 ^ 30 \<Longrightarrow> \<exists>q'. push q x = Inr q'"
    and push_room: "invar q \<Longrightarrow> length (contents q) < room q \<Longrightarrow>
      \<exists>q'. push q x = Inr q' \<and> room q' = room q"
    and pop_hd: "invar q \<Longrightarrow> contents q = x # xs \<Longrightarrow>
      \<exists>q'. pop q = Inr (x, q') \<and> invar q' \<and> contents q' = xs \<and> room q' = room q"
    and pop_empty: "invar q \<Longrightarrow> contents q = [] \<Longrightarrow> pop q = Inl Assert_failure"
    and is_empty_iff: "invar q \<Longrightarrow> is_empty q \<longleftrightarrow> contents q = []"
begin

lemma push_Inr_contents: "invar q \<Longrightarrow> push q x = Inr q' \<Longrightarrow> contents q' = contents q @ [x]"
  using push_Inr by blast

lemma push_Inr_invar: "invar q \<Longrightarrow> push q x = Inr q' \<Longrightarrow> invar q'"
  using push_Inr by blast

text \<open>A push within the room: it succeeds, appends, and keeps the room.\<close>

lemma push_within:
  assumes "invar q" "length (contents q) < room q"
  obtains q' where "push q x = Inr q'" "invar q'" "contents q' = contents q @ [x]"
    "room q' = room q"
  using push_room [OF assms, of x] push_Inr [OF assms(1), of x] by blast

text \<open>A pop on a non-empty queue, in the form the clients' loops use.\<close>

lemma pop_nonempty:
  assumes "invar q" "\<not> is_empty q"
  obtains x q' where "pop q = Inr (x, q')" "invar q'" "contents q = x # contents q'"
    "room q' = room q"
proof -
  from assms is_empty_iff obtain x xs where "contents q = x # xs"
    by (cases "contents q") auto
  with pop_hd [OF assms(1) this] show ?thesis using that by auto
qed

lemma pop_never_uninit: "invar q \<Longrightarrow> pop q = Inl e \<Longrightarrow> e = Assert_failure \<and> is_empty q"
  using pop_empty pop_hd is_empty_iff by (cases "contents q") fastforce+

text \<open>
  Refinement: as long as the queue stays below the size at which memory may run out, every
  sequence of operations gives the elements and the errors that the list gives.
\<close>

lemma run_ops_list:
  assumes "invar q" "length (contents q) + length ops \<le> 2 ^ 30"
  shows "case run_ops list_push list_pop ops (contents q) of
      Inl e \<Rightarrow> run_ops push pop ops q = Inl e
    | Inr (out, xs) \<Rightarrow>
        \<exists>q'. run_ops push pop ops q = Inr (out, q') \<and> invar q' \<and> contents q' = xs"
  using assms
proof (induction ops arbitrary: q)
  case (Cons op ops)
  show ?case
  proof (cases op)
    case (Push x)
    from Cons.prems obtain q' where q': "push q x = Inr q'" using push_small [of q x] by auto
    from q' push_Inr [OF Cons.prems(1) q'] have
      "invar q'" "list_push (contents q) x = Inr (contents q')"
      "length (contents q') = Suc (length (contents q))"
      by (simp_all add: list_push_def)
    with q' Cons.IH [of q'] Cons.prems Push show ?thesis
      by (auto simp: list_push_def split: sum.splits)
  next
    case Pop
    show ?thesis
    proof (cases "contents q")
      case Nil
      with pop_empty [OF Cons.prems(1) Nil] Pop show ?thesis by (simp add: list_pop_def)
    next
      fix x xs
      assume xs: "contents q = x # xs"
      with pop_hd [OF Cons.prems(1) this] obtain q' where
        "pop q = Inr (x, q')" "invar q'" "contents q' = xs" by auto
      with Cons.IH [of q'] Cons.prems Pop xs show ?thesis
        by (auto simp: list_pop_def split: sum.splits)
    qed
  qed
qed simp

end

section \<open>Correctness of the ring buffer\<close>

definition wf_queue :: "'a t_queue \<Rightarrow> bool" where
  "wf_queue q \<longleftrightarrow>
     length (q_data q) = unat (q_capacity q) \<and>
     0 < unat (q_capacity q) \<and> unat (q_capacity q) < 2 ^ 31 \<and>
     unat (q_pointer q) < unat (q_capacity q) \<and>
     unat (q_len q) \<le> unat (q_capacity q) \<and>
     (\<forall>i < unat (q_len q).
        q_data q ! ((unat (q_pointer q) + i) mod unat (q_capacity q)) \<noteq> None)"

definition queue_list :: "'a t_queue \<Rightarrow> 'a list" where
  "queue_list q =
     map (\<lambda>i. the (q_data q ! ((unat (q_pointer q) + i) mod unat (q_capacity q))))
       [0..<unat (q_len q)]"

definition queue_room :: "'a t_queue \<Rightarrow> nat" where
  "queue_room q = unat (q_capacity q)"

lemma length_queue_list [simp]: "length (queue_list q) = unat (q_len q)"
  by (simp add: queue_list_def)

lemma queue_list_Nil_iff: "queue_list q = [] \<longleftrightarrow> q_len q = 0"
  by (simp add: queue_list_def unat_eq_0)

lemma wf_queueD:
  assumes "wf_queue q"
  shows "length (q_data q) = unat (q_capacity q)" "0 < unat (q_capacity q)"
    "unat (q_capacity q) < 2 ^ 31" "unat (q_pointer q) < unat (q_capacity q)"
    "unat (q_len q) \<le> unat (q_capacity q)"
    "i < unat (q_len q) \<Longrightarrow>
       q_data q ! ((unat (q_pointer q) + i) mod unat (q_capacity q)) \<noteq> None"
  using assms by (auto simp: wf_queue_def)

lemma wf_capacity_nonzero: "wf_queue q \<Longrightarrow> q_capacity q \<noteq> 0"
  by (auto simp: wf_queue_def)

lemma unat_add_small:
  fixes a b :: "32 word"
  assumes "unat a + unat b < 2 ^ 32"
  shows "unat (a + b) = unat a + unat b"
  using assms by (simp add: unat_word_ariths)

text \<open>The position where the next element goes, without wrap-around.\<close>

lemma wf_slot:
  assumes "wf_queue q" "unat k \<le> unat (q_capacity q)"
  shows "unat ((q_pointer q + k) mod q_capacity q)
           = (unat (q_pointer q) + unat k) mod unat (q_capacity q)"
  using wf_queueD [OF assms(1)] assms(2) by (simp add: unat_mod unat_add_small)

subsection \<open>Initialisation and pop\<close>

lemma init_queue_wf:
  assumes "init_queue c = Inr q"
  shows "wf_queue q" "queue_list q = []" "queue_room q = unat c"
  using assms
  by (auto simp: init_queue_def bindE_eq_Inr c_malloc_eq_Inr wf_queue_def queue_list_def
      queue_room_def max_alloc_def word_greater_zero_iff unat_gt_0)

lemma init_queue_Inl:
  "init_queue c = Inl e \<longleftrightarrow>
     c = 0 \<and> e = Assert_failure \<or> 2 ^ 31 \<le> unat c \<and> e = Out_of_memory"
  by (auto simp: init_queue_def bindE_eq_Inl c_malloc_eq_Inl max_alloc_def
      word_greater_zero_iff)

lemma queue_pop_len: "queue_pop q = Inr (x, q') \<Longrightarrow> unat (q_len q') < unat (q_len q)"
  by (auto simp: queue_pop_def bindE_eq_Inr word_greater_zero_iff unat_minus_one unat_gt_0
      intro: diff_less)

lemma queue_pop_spec:
  assumes wf: "wf_queue q" and ne: "queue_list q = x # xs"
  shows "\<exists>q'. queue_pop q = Inr (x, q') \<and> wf_queue q' \<and> queue_list q' = xs
           \<and> queue_room q' = queue_room q"
proof -
  note w = wf_queueD [OF wf]
  let ?P = "unat (q_pointer q)" and ?C = "unat (q_capacity q)" and ?L = "unat (q_len q)"
  from ne have L: "?L = Suc (length xs)" using length_queue_list [of q] by simp
  then have pos: "0 < q_len q" by (simp add: word_greater_zero_iff unat_gt_0 [symmetric])
  have "queue_list q ! 0 = the (q_data q ! ?P)"
    using L w(4) by (simp add: queue_list_def del: upt_Suc)
  then have cell: "q_data q ! ?P = Some x"
    using ne w(4) w(6) [of 0] L by auto
  let ?q = "q\<lparr>q_len := q_len q - 1, q_pointer := (q_pointer q + 1) mod q_capacity q\<rparr>"
  have pop: "queue_pop q = Inr (x, ?q)"
    using w pos cell wf_capacity_nonzero [OF wf] by (simp add: queue_pop_def c_simps)
  have ptr: "unat ((q_pointer q + 1) mod q_capacity q) = Suc ?P mod ?C"
    using wf_slot [OF wf, of 1] w(2) by simp
  have len: "unat (q_len q - 1) = length xs"
    using L pos by (simp add: unat_minus_one word_greater_zero_iff)
  have shift: "(Suc ?P mod ?C + i) mod ?C = (?P + Suc i) mod ?C" for i
    by (simp add: mod_add_left_eq)
  have "queue_list ?q = map (\<lambda>i. the (q_data q ! ((?P + Suc i) mod ?C))) [0..<length xs]"
    by (simp add: queue_list_def ptr len shift)
  also have "\<dots> = xs"
    using ne L by (simp add: queue_list_def map_upt_Suc del: upt_Suc)
  finally have ql: "queue_list ?q = xs" .
  have "q_data q ! ((?P + Suc i) mod ?C) \<noteq> None" if "i < length xs" for i
    using w(6) [of "Suc i"] L that by simp
  then have "wf_queue ?q"
    using w(1-5) L by (simp add: wf_queue_def ptr len shift)
  with pop ql show ?thesis by (auto simp: queue_room_def)
qed

lemma queue_pop_empty: "queue_list q = [] \<Longrightarrow> queue_pop q = Inl Assert_failure"
  by (simp add: queue_list_Nil_iff queue_pop_def)

subsection \<open>Push\<close>

lemma simple_push_spec:
  assumes wf: "wf_queue q" and room: "unat (q_len q) < unat (q_capacity q)"
  shows "\<exists>q'. simple_push q x = Inr q' \<and> wf_queue q' \<and> queue_list q' = queue_list q @ [x]
           \<and> queue_room q' = queue_room q"
proof -
  note w = wf_queueD [OF wf]
  let ?P = "unat (q_pointer q)" and ?C = "unat (q_capacity q)" and ?L = "unat (q_len q)"
  let ?i = "(?P + ?L) mod ?C"
  have i: "unat ((q_pointer q + q_len q) mod q_capacity q) = ?i"
    using wf_slot [OF wf, of "q_len q"] w(5) by simp
  have "?i < length (q_data q)" using w by simp
  then have push: "simple_push q x
      = Inr (q\<lparr>q_data := (q_data q)[?i := Some x], q_len := q_len q + 1\<rparr>)"
    using wf_capacity_nonzero [OF wf] by (simp add: simple_push_def i c_simps)
  have len: "unat (q_len q + 1) = Suc ?L"
    using room w(3) by (simp add: unat_add_small)
  have other: "(?P + j) mod ?C \<noteq> ?i" if "j < ?L" for j
  proof
    assume "(?P + j) mod ?C = (?P + ?L) mod ?C"
    then have "?C dvd (?P + ?L) - (?P + j)"
      using that by (subst mod_eq_dvd_iff_nat [symmetric]) auto
    then show False using that room nat_dvd_not_less [of "?L - j" ?C] by simp
  qed
  let ?q = "q\<lparr>q_data := (q_data q)[?i := Some x], q_len := q_len q + 1\<rparr>"
  have "queue_list ?q = queue_list q @ [x]"
    using w(1,2) by (simp add: queue_list_def len other [THEN not_sym])
  moreover have "wf_queue ?q"
    using w room by (auto simp: wf_queue_def len less_Suc_eq nth_list_update)
  ultimately show ?thesis using push by (simp add: queue_room_def)
qed

text \<open>
  Doubling the ring: the elements from the read position to the end of the old block are
  copied to the end of the new one, which keeps the cyclic order.
\<close>

definition grown :: "'a carray \<Rightarrow> nat \<Rightarrow> 'a carray" where
  "grown xs p = xs @ replicate p None @ drop p xs"

lemma length_grown [simp]: "p \<le> length xs \<Longrightarrow> length (grown xs p) = 2 * length xs"
  by (simp add: grown_def)

lemma grown_nth:
  assumes "p < length xs" "i < length xs"
  shows "grown xs p ! ((length xs + p + i) mod (2 * length xs)) = xs ! ((p + i) mod length xs)"
proof (cases "p + i < length xs")
  case True
  then show ?thesis by (simp add: grown_def nth_append add.assoc)
next
  case False
  then obtain k where k: "p + i = length xs + k" by (auto simp: not_less le_iff_add)
  then have "k < length xs" "k < p" using assms by simp_all
  moreover have "(length xs + p + i) mod (2 * length xs) = k"
  proof -
    have eq: "length xs + p + i = k + 2 * length xs" using k by simp
    show ?thesis unfolding eq using \<open>k < length xs\<close> by simp
  qed
  ultimately show ?thesis using k assms by (simp add: grown_def nth_append)
qed

lemma memcpy_grown:
  assumes "p < length xs"
  shows "c_memcpy (xs @ replicate (length xs) None) (length xs + p) p (length xs - p)
           = Inr (grown xs p)"
  using assms by (simp add: c_memcpy_def grown_def)

lemma resize_queue_spec:
  assumes wf: "wf_queue q" and full: "q_len q = q_capacity q"
  shows "resize_queue q = Inl Out_of_memory \<or>
    (\<exists>q'. resize_queue q = Inr q' \<and> wf_queue q' \<and> queue_list q' = queue_list q
       \<and> q_len q' = q_len q \<and> queue_room q' = 2 * queue_room q)"
proof (cases "8 * (2 * unat (q_capacity q)) < max_alloc")
  case False
  have "unat (2 * q_capacity q) = 2 * unat (q_capacity q)"
    using wf_queueD(3) [OF wf] by (simp add: unat_word_ariths)
  with False show ?thesis by (simp add: resize_queue_def c_realloc_def)
next
  case True
  note w = wf_queueD [OF wf]
  let ?p = "q_pointer q" and ?c = "q_capacity q"
  have cap: "unat (2 * ?c) = 2 * unat ?c" using w(3) by (simp add: unat_word_ariths)
  have np: "2 * ?c - ?c + ?p = ?c + ?p" by simp
  have ptr: "unat (?c + ?p) = unat ?c + unat ?p"
    using w(3,4) by (simp add: unat_add_small)
  have cnt: "unat (?c - ?p) = unat ?c - unat ?p"
    using w(4) by (simp add: unat_sub word_le_nat_alt)
  let ?q = "q\<lparr>q_data := grown (q_data q) (unat ?p), q_capacity := 2 * ?c,
              q_pointer := ?c + ?p\<rparr>"
  have resize: "resize_queue q = Inr ?q"
    using True w memcpy_grown [of "unat ?p" "q_data q"]
    by (simp add: resize_queue_def Let_def c_realloc_def cap np ptr cnt)
  have cell: "grown (q_data q) (unat ?p) ! ((unat ?c + unat ?p + i) mod (2 * unat ?c))
      = q_data q ! ((unat ?p + i) mod unat ?c)" if "i < unat ?c" for i
    using grown_nth [of "unat ?p" "q_data q" i] that w by simp
  have "queue_list ?q = queue_list q"
    using full by (simp add: queue_list_def cap ptr cell)
  moreover have "wf_queue ?q"
    using w full True by (auto simp: wf_queue_def cap ptr cell max_alloc_def)
  ultimately show ?thesis using resize by (auto simp: queue_room_def cap)
qed

lemma queue_push_spec:
  assumes wf: "wf_queue q"
  shows "queue_push q x = Inl Out_of_memory \<and> unat (q_len q) = queue_room q \<or>
    (\<exists>q'. queue_push q x = Inr q' \<and> wf_queue q' \<and> queue_list q' = queue_list q @ [x]
       \<and> queue_room q \<le> queue_room q'
       \<and> (unat (q_len q) < queue_room q \<longrightarrow> queue_room q' = queue_room q))"
proof (cases "q_len q = q_capacity q")
  case False
  then have "unat (q_len q) < unat (q_capacity q)"
    using wf_queueD(5) [OF wf] by (metis le_neq_implies_less word_unat_eq_iff)
  with simple_push_spec [OF wf this, of x] False show ?thesis
    by (auto simp: queue_push_def)
next
  case True
  from resize_queue_spec [OF wf True] show ?thesis
  proof
    assume "resize_queue q = Inl Out_of_memory"
    with True show ?thesis by (simp add: queue_push_def queue_room_def)
  next
    assume "\<exists>q'. resize_queue q = Inr q' \<and> wf_queue q' \<and> queue_list q' = queue_list q
       \<and> q_len q' = q_len q \<and> queue_room q' = 2 * queue_room q"
    then obtain q' where q': "resize_queue q = Inr q'" "wf_queue q'"
      "queue_list q' = queue_list q" "q_len q' = q_len q" "queue_room q' = 2 * queue_room q"
      by blast
    have "unat (q_len q') < unat (q_capacity q')"
      using q' True wf_queueD(2) [OF wf] by (simp add: queue_room_def)
    with simple_push_spec [OF q'(2) this, of x] q' True show ?thesis
      by (auto simp: queue_push_def queue_room_def)
  qed
qed

lemma queue_push_small:
  assumes "wf_queue q" "unat (q_len q) < 2 ^ 30"
  shows "\<exists>q'. queue_push q x = Inr q'"
proof -
  have ok: "resize_queue q \<noteq> Inl Out_of_memory" if full: "q_len q = q_capacity q"
  proof -
    have "unat (2 * q_capacity q) = 2 * unat (q_capacity q)"
      using wf_queueD(3) [OF assms(1)] by (simp add: unat_word_ariths)
    then have "8 * unat (2 * q_capacity q) < max_alloc"
      using assms(2) full by (simp add: max_alloc_def)
    then show ?thesis
      by (auto simp: resize_queue_def Let_def c_realloc_def bindE_eq_Inl c_memcpy_def split: if_splits)
  qed
  show ?thesis
  proof (cases "q_len q = q_capacity q")
    case True
    with ok resize_queue_spec [OF assms(1)] obtain q' where q': "resize_queue q = Inr q'"
      "wf_queue q'" "q_len q' = q_len q" "queue_room q' = 2 * queue_room q" by blast
    then have "unat (q_len q') < unat (q_capacity q')"
      using True wf_queueD(2) [OF assms(1)] by (simp add: queue_room_def)
    with simple_push_spec [OF q'(2) this, of x] q'(1) True show ?thesis
      by (auto simp: queue_push_def)
  next
    case False
    then have "unat (q_len q) \<noteq> queue_room q" by (simp add: queue_room_def word_unat_eq_iff)
    with queue_push_spec [OF assms(1), of x] show ?thesis by blast
  qed
qed

text \<open>The ring buffer provides the queue interface.\<close>

interpretation ring: fifo queue_push queue_pop queue_is_empty queue_list queue_room wf_queue
proof
  fix q q' :: "'a t_queue" and x :: 'a
  assume "wf_queue q" "queue_push q x = Inr q'"
  then show "wf_queue q' \<and> queue_list q' = queue_list q @ [x] \<and> queue_room q \<le> queue_room q'"
    using queue_push_spec [of q x] by auto
next
  fix q :: "'a t_queue" and x :: 'a and e
  assume "wf_queue q" "queue_push q x = Inl e"
  then show "e = Out_of_memory" using queue_push_spec [of q x] by auto
next
  fix q :: "'a t_queue" and x :: 'a
  assume "wf_queue q" "length (queue_list q) < 2 ^ 30"
  then show "\<exists>q'. queue_push q x = Inr q'" by (intro queue_push_small) simp_all
next
  fix q :: "'a t_queue" and x :: 'a
  assume "wf_queue q" "length (queue_list q) < queue_room q"
  then show "\<exists>q'. queue_push q x = Inr q' \<and> queue_room q' = queue_room q"
    using queue_push_spec [of q x] by auto
next
  fix q :: "'a t_queue" and x :: 'a and xs
  assume "wf_queue q" "queue_list q = x # xs"
  then show "\<exists>q'. queue_pop q = Inr (x, q') \<and> wf_queue q' \<and> queue_list q' = xs
      \<and> queue_room q' = queue_room q"
    by (rule queue_pop_spec)
next
  fix q :: "'a t_queue"
  assume "queue_list q = []"
  then show "queue_pop q = Inl Assert_failure" by (rule queue_pop_empty)
next
  fix q :: "'a t_queue"
  show "queue_is_empty q \<longleftrightarrow> queue_list q = []"
    by (simp add: queue_is_empty_def queue_list_Nil_iff)
qed

section \<open>Properties\<close>

text \<open>
  C1. The ring buffer of queue.c is a first-in first-out queue: from a fresh queue, every
  sequence of at most 2^30 pushes and pops returns the same elements in the same order as the
  same operations on a list, fails exactly where the list fails (a pop of an empty queue, by
  its assertion), and leaves a well-formed buffer whose contents are the remaining list.  In
  particular no wrap-around of the unsigned positions and no growth loses an element.
\<close>

theorem queue_refines_list:
  assumes "init_queue c = Inr q" "length ops \<le> 2 ^ 30"
  shows "case run_ops list_push list_pop ops [] of
      Inl e \<Rightarrow> run_ops queue_push queue_pop ops q = Inl e
    | Inr (out, xs) \<Rightarrow>
        \<exists>q'. run_ops queue_push queue_pop ops q = Inr (out, q') \<and> wf_queue q' \<and> queue_list q' = xs"
  using ring.run_ops_list [of q ops] init_queue_wf [OF assms(1)] assms(2) by simp

lemma init_queue_one: "init_queue 1 = Inr \<lparr>q_data = [None], q_pointer = 0, q_len = 0, q_capacity = 1\<rparr>"
  by (simp add: init_queue_def c_malloc_def max_alloc_def)

theorem queue_refines_list_witness:
  "\<exists>q q'. init_queue 1 = Inr q \<and>
     run_ops queue_push queue_pop [Push (1::int), Push 2, Push 3, Pop, Push 4, Pop] q = Inr ([1, 2], q') \<and>
     wf_queue q' \<and> queue_list q' = [3, 4]"
  using queue_refines_list [OF init_queue_one,
      of "[Push (1::int), Push 2, Push 3, Pop, Push 4, Pop]"]
  by (simp add: init_queue_one list_push_def list_pop_def)

end
