(* ===== verification/C_Writebuf.thy ===== *)
theory C_Writebuf
  imports C_Queue
begin

text \<open>
  The write buffer of \<^verbatim>\<open>src/server/writebuf.c\<close>: the message being written, with the
  position reached in it, and a queue of further messages.  \<open>pending\<close> is the stream of
  bytes still to be written.
\<close>

section \<open>The code\<close>

record t_writebuf =
  wb_data :: "string option"
  wb_len :: int
  wb_pointer :: int
  is_writing :: bool
  writequeue :: "string t_queue"

definition c_strlen :: "string \<Rightarrow> int" where
  "c_strlen s = c_int (int (length s))"

definition init_writebuf :: "int \<Rightarrow> t_writebuf result" where
  "init_writebuf capacity =
     bindE (init_queue (uint_of capacity)) (\<lambda>q.
     Inr \<lparr>wb_data = None, wb_len = 0, wb_pointer = 0, is_writing = False, writequeue = q\<rparr>)"

definition can_write :: "t_writebuf \<Rightarrow> bool" where
  "can_write b \<longleftrightarrow> \<not> is_writing b"

definition has_write_data :: "t_writebuf \<Rightarrow> bool" where
  "has_write_data b \<longleftrightarrow> wb_data b \<noteq> None"

text \<open>
  The result is the memory \<^verbatim>\<open>b->data + b->pointer\<close> points to, the value stored in
  \<^verbatim>\<open>*size\<close>, and the changed buffer.
\<close>

definition prepare_write :: "t_writebuf \<Rightarrow> (string \<times> int \<times> t_writebuf) result" where
  "prepare_write b =
     bindE (c_assert (can_write b)) (\<lambda>_.
     bindE (c_assert (has_write_data b)) (\<lambda>_.
     bindE (ck_int (wb_len b - wb_pointer b)) (\<lambda>size.
     Inr (drop (nat (wb_pointer b)) (the (wb_data b)), size, b\<lparr>is_writing := True\<rparr>))))"

definition have_written :: "t_writebuf \<Rightarrow> int \<Rightarrow> t_writebuf result" where
  "have_written b sz =
     bindE (c_assert (is_writing b)) (\<lambda>_.
     bindE (ck_int (wb_pointer b + sz)) (\<lambda>p.
     bindE (c_assert (p \<le> wb_len b)) (\<lambda>_.
     if p < wb_len b then Inr (b\<lparr>is_writing := False, wb_pointer := p\<rparr>)
     else if \<not> queue_is_empty (writequeue b) then
       bindE (queue_pop (writequeue b)) (\<lambda>(d, q).
       Inr (b\<lparr>is_writing := False, wb_pointer := 0, wb_data := Some d, wb_len := c_strlen d,
              writequeue := q\<rparr>))
     else Inr (b\<lparr>is_writing := False, wb_pointer := 0, wb_data := None, wb_len := 0\<rparr>))))"

definition push_write_data :: "t_writebuf \<Rightarrow> string \<Rightarrow> t_writebuf result" where
  "push_write_data b data =
     (if has_write_data b then
        bindE (queue_push (writequeue b) data) (\<lambda>q. Inr (b\<lparr>writequeue := q\<rparr>))
      else Inr (b\<lparr>wb_data := Some data, wb_pointer := 0, wb_len := c_strlen data\<rparr>))"

text \<open>The loop of \<^verbatim>\<open>free_writebuf\<close>: every queued message is popped and freed.\<close>

function free_writequeue :: "string t_queue \<Rightarrow> string t_queue result" where
  "free_writequeue q =
     (if \<not> queue_is_empty q then bindE (queue_pop q) (\<lambda>p. free_writequeue (snd p)) else Inr q)"
  by pat_completeness auto
termination
  by (relation "measure (\<lambda>q. unat (q_len q))") (auto simp: queue_pop_len)

declare free_writequeue.simps [simp del]

definition free_writebuf :: "t_writebuf \<Rightarrow> unit result" where
  "free_writebuf b = bindE (free_writequeue (writequeue b)) free_queue"

section \<open>The interface\<close>

text \<open>
  Sequences of operations: sending a message, and a write that transfers at most a given
  number of bytes, which happens only when something is pending.
\<close>

datatype write_op = Send string | Transfer nat

fun run_writes ::
  "('b \<Rightarrow> string \<Rightarrow> 'b result) \<Rightarrow> ('b \<Rightarrow> (string \<times> int \<times> 'b) result) \<Rightarrow> ('b \<Rightarrow> int \<Rightarrow> 'b result) \<Rightarrow>
   ('b \<Rightarrow> bool) \<Rightarrow> write_op list \<Rightarrow> 'b \<Rightarrow> (string \<times> 'b) result" where
  "run_writes psh ofr wrt ldd [] b = Inr ([], b)"
| "run_writes psh ofr wrt ldd (Send m # ops) b =
     bindE (psh b m) (\<lambda>b'. run_writes psh ofr wrt ldd ops b')"
| "run_writes psh ofr wrt ldd (Transfer k # ops) b =
     (if ldd b then
        bindE (ofr b) (\<lambda>(buf, n, b').
        bindE (wrt b' (min (int k) n)) (\<lambda>b''.
        bindE (run_writes psh ofr wrt ldd ops b'') (\<lambda>(out, c).
        Inr (take (nat (min (int k) n)) buf @ out, c))))
      else run_writes psh ofr wrt ldd ops b)"

fun sent_bytes :: "write_op list \<Rightarrow> string" where
  "sent_bytes [] = []"
| "sent_bytes (Send m # ops) = m @ sent_bytes ops"
| "sent_bytes (Transfer k # ops) = sent_bytes ops"

fun small_messages :: "write_op list \<Rightarrow> bool" where
  "small_messages [] = True"
| "small_messages (Send m # ops) = (length m < 2 ^ 31 \<and> small_messages ops)"
| "small_messages (Transfer k # ops) = small_messages ops"

text \<open>
  A sink of bytes: messages are pushed, a prefix of what is pending is offered for
  writing, and the number of bytes that were written is reported.
\<close>

locale byte_sink =
  fixes push :: "'b \<Rightarrow> string \<Rightarrow> 'b result"
    and offer :: "'b \<Rightarrow> (string \<times> int \<times> 'b) result"
    and written :: "'b \<Rightarrow> int \<Rightarrow> 'b result"
    and pend :: "'b \<Rightarrow> string"
    and loaded :: "'b \<Rightarrow> bool"
    and busy :: "'b \<Rightarrow> bool"
    and invar :: "'b \<Rightarrow> bool"
  assumes push_Inr: "invar b \<Longrightarrow> length m < 2 ^ 31 \<Longrightarrow> push b m = Inr b' \<Longrightarrow>
      invar b' \<and> pend b' = pend b @ m \<and> busy b' = busy b \<and> loaded b'"
    and push_Inl: "invar b \<Longrightarrow> push b m = Inl e \<Longrightarrow> e = Out_of_memory"
    and offer_Inr: "invar b \<Longrightarrow> \<not> busy b \<Longrightarrow> loaded b \<Longrightarrow>
      \<exists>buf n b'. offer b = Inr (buf, n, b') \<and> invar b' \<and> busy b' \<and> pend b' = pend b \<and>
         0 \<le> n \<and> n = int (length buf) \<and> (\<exists>rest. pend b = buf @ rest)"
    and written_Inr: "invar b \<Longrightarrow> \<not> busy b \<Longrightarrow> loaded b \<Longrightarrow> offer b = Inr (buf, n, b') \<Longrightarrow>
      0 \<le> k \<Longrightarrow> k \<le> n \<Longrightarrow>
      \<exists>b''. written b' k = Inr b'' \<and> invar b'' \<and> \<not> busy b'' \<and> pend b'' = drop (nat k) (pend b)"
    and unloaded: "invar b \<Longrightarrow> \<not> loaded b \<Longrightarrow> pend b = []"
begin

text \<open>One write cycle: the bytes that left are the first ones of the pending stream.\<close>

lemma write_cycle:
  assumes "invar b" "\<not> busy b" "loaded b" "offer b = Inr (buf, n, b')" "0 \<le> k" "k \<le> n"
  shows "\<exists>b''. written b' k = Inr b'' \<and> invar b'' \<and> \<not> busy b'' \<and>
    take (nat k) buf @ pend b'' = pend b"
proof -
  from offer_Inr [OF assms(1-3)] assms(4) obtain rest where
    "n = int (length buf)" "pend b = buf @ rest" by auto
  then have "take (nat k) buf = take (nat k) (pend b)" using assms(6) by simp
  with written_Inr [OF assms] show ?thesis by (metis append_take_drop_id)
qed

text \<open>Bytes leave in the order in which they were sent, none lost and none twice.\<close>

lemma run_writes_stream:
  assumes "invar b" "\<not> busy b" "small_messages ops"
  shows "run_writes push offer written loaded ops b = Inl Out_of_memory \<or>
    (\<exists>out b'. run_writes push offer written loaded ops b = Inr (out, b') \<and> invar b' \<and> \<not> busy b' \<and>
       out @ pend b' = pend b @ sent_bytes ops)"
  using assms
proof (induction ops arbitrary: b)
  case (Cons op ops)
  show ?case
  proof (cases op)
    case (Send m)
    show ?thesis
    proof (cases "push b m")
      case (Inl e)
      with push_Inl [OF Cons.prems(1) Inl] Send show ?thesis by simp
    next
      case (Inr b')
      with push_Inr [OF Cons.prems(1) _ Inr] Cons.IH [of b'] Cons.prems Send show ?thesis
        by auto
    qed
  next
    case (Transfer k)
    show ?thesis
    proof (cases "loaded b")
      case True
      from offer_Inr [OF Cons.prems(1,2) True] obtain buf n b' where
        o: "offer b = Inr (buf, n, b')" "0 \<le> n" by blast
      have k: "0 \<le> min (int k) n" "min (int k) n \<le> n" using o(2) by simp_all
      from write_cycle [OF Cons.prems(1,2) True o(1) k] obtain b'' where
        w: "written b' (min (int k) n) = Inr b''" "invar b''" "\<not> busy b''"
        and eq: "take (nat (min (int k) n)) buf @ pend b'' = pend b" by blast
      from Cons.IH [OF w(2,3)] Cons.prems(3) Transfer show ?thesis
        using True o(1) w(1) eq [symmetric] by auto
    qed (use Cons Transfer in simp)
  qed
qed simp

end

section \<open>Correctness\<close>

definition pending :: "t_writebuf \<Rightarrow> string" where
  "pending b = (case wb_data b of None \<Rightarrow> []
     | Some d \<Rightarrow> drop (nat (wb_pointer b)) d @ concat (queue_list (writequeue b)))"

definition wf_writebuf :: "t_writebuf \<Rightarrow> bool" where
  "wf_writebuf b \<longleftrightarrow>
     wf_queue (writequeue b) \<and>
     (\<forall>m \<in> set (queue_list (writequeue b)). length m < 2 ^ 31) \<and>
     (case wb_data b of
        None \<Rightarrow> wb_len b = 0 \<and> wb_pointer b = 0 \<and> queue_list (writequeue b) = []
      | Some d \<Rightarrow> length d < 2 ^ 31 \<and> wb_len b = int (length d) \<and>
          0 \<le> wb_pointer b \<and> wb_pointer b \<le> wb_len b)"

lemma is_writing_frame [simp]:
  "wf_writebuf (b\<lparr>is_writing := w\<rparr>) = wf_writebuf b"
  "pending (b\<lparr>is_writing := w\<rparr>) = pending b"
  by (cases "wb_data b"; simp add: wf_writebuf_def pending_def)+

lemma wf_writebuf_queue: "wf_writebuf b \<Longrightarrow> wf_queue (writequeue b)"
  by (simp add: wf_writebuf_def)

lemma pending_unloaded: "\<not> has_write_data b \<Longrightarrow> pending b = []"
  by (simp add: pending_def has_write_data_def)

lemma c_strlen_small: "length s < 2 ^ 31 \<Longrightarrow> c_strlen s = int (length s)"
  unfolding c_strlen_def by (rule c_int_id) (simp add: is_int_def)

lemma init_writebuf_spec:
  assumes "0 < c" "is_int c"
  shows "init_writebuf c = Inl Out_of_memory \<or>
    (\<exists>b. init_writebuf c = Inr b \<and> wf_writebuf b \<and> pending b = [] \<and> \<not> is_writing b)"
proof (cases "init_queue (uint_of c) :: string t_queue result")
  case (Inl e)
  have "unat (uint_of c) = nat c"
    using assms by (intro unat_uint_of) (auto simp: is_int_def)
  then have "uint_of c \<noteq> 0" using assms(1) by (auto simp flip: unat_eq_0)
  with Inl have "e = Out_of_memory" by (auto simp: init_queue_Inl)
  with Inl show ?thesis by (simp add: init_writebuf_def)
next
  case (Inr q)
  with init_queue_wf [OF Inr] show ?thesis
    by (auto simp: init_writebuf_def wf_writebuf_def pending_def)
qed

lemma init_writebuf_Inr:
  "init_writebuf c = Inr b \<Longrightarrow> wf_writebuf b \<and> pending b = [] \<and> \<not> is_writing b"
  by (auto simp: init_writebuf_def bindE_eq_Inr wf_writebuf_def pending_def init_queue_wf)

lemma push_write_data_spec:
  assumes wf: "wf_writebuf b" and m: "length m < 2 ^ 31"
    and push: "push_write_data b m = Inr b'"
  shows "wf_writebuf b' \<and> pending b' = pending b @ m \<and> is_writing b' = is_writing b
    \<and> has_write_data b'"
proof (cases "wb_data b")
  case None
  then show ?thesis
    using assms by (auto simp: push_write_data_def has_write_data_def wf_writebuf_def
        pending_def c_strlen_small)
next
  case (Some d)
  with push obtain q where q: "queue_push (writequeue b) m = Inr q"
    "b' = b\<lparr>writequeue := q\<rparr>"
    by (auto simp: push_write_data_def has_write_data_def bindE_eq_Inr)
  moreover have "wf_queue q" "queue_list q = queue_list (writequeue b) @ [m]"
    using ring.push_Inr [OF _ q(1)] wf by (auto simp: wf_writebuf_def)
  ultimately show ?thesis
    using wf m Some by (auto simp: wf_writebuf_def pending_def has_write_data_def)
qed

lemma push_write_data_Inl:
  "wf_queue (writequeue b) \<Longrightarrow> push_write_data b m = Inl e \<Longrightarrow> e = Out_of_memory"
  by (auto simp: push_write_data_def bindE_eq_Inl ring.push_Inl split: if_splits)

lemma prepare_write_spec:
  assumes "wf_writebuf b" "\<not> is_writing b" "wb_data b = Some d"
  shows "prepare_write b =
    Inr (drop (nat (wb_pointer b)) d, wb_len b - wb_pointer b, b\<lparr>is_writing := True\<rparr>)"
  using assms
  by (auto simp: prepare_write_def can_write_def has_write_data_def wf_writebuf_def
      is_int_def bindE_def ck_int_def)

lemma have_written_spec:
  assumes wf: "wf_writebuf b" and b: "is_writing b" "wb_data b = Some d"
    and k: "0 \<le> k" "k \<le> wb_len b - wb_pointer b"
  shows "\<exists>b'. have_written b k = Inr b' \<and> wf_writebuf b' \<and> \<not> is_writing b' \<and>
    pending b' = drop (nat k) (pending b)"
proof -
  from wf b have w: "wf_queue (writequeue b)" "length d < 2 ^ 31" "wb_len b = int (length d)"
    "0 \<le> wb_pointer b" "wb_pointer b \<le> wb_len b"
    "\<forall>m \<in> set (queue_list (writequeue b)). length m < 2 ^ 31"
    by (auto simp: wf_writebuf_def)
  have ck: "is_int (wb_pointer b + k)" using w k by (simp add: is_int_def)
  show ?thesis
  proof (cases "wb_pointer b + k < wb_len b")
    case True
    let ?b = "b\<lparr>is_writing := False, wb_pointer := wb_pointer b + k\<rparr>"
    have "have_written b k = Inr ?b"
      using b ck k True by (simp add: have_written_def ck_int_Inr)
    moreover have "wf_writebuf ?b" using wf b k True by (auto simp: wf_writebuf_def)
    moreover have "pending ?b = drop (nat k) (pending b)"
    proof -
      have "nat (wb_pointer b + k) = nat k + nat (wb_pointer b)" using w k by simp
      moreover have "nat k \<le> length (drop (nat (wb_pointer b)) d)" using w k by simp
      ultimately show ?thesis using b by (simp add: pending_def)
    qed
    ultimately show ?thesis by auto
  next
    case False
    then have fin: "wb_pointer b + k = wb_len b" using k by simp
    have rest: "drop (nat k) (pending b) = concat (queue_list (writequeue b))"
      using b w k fin by (simp add: pending_def)
    show ?thesis
    proof (cases "queue_is_empty (writequeue b)")
      case True
      then have "queue_list (writequeue b) = []" using ring.is_empty_iff [OF w(1)] by simp
      moreover have "have_written b k =
          Inr (b\<lparr>is_writing := False, wb_pointer := 0, wb_data := None, wb_len := 0\<rparr>)"
        using True b ck fin by (simp add: have_written_def ck_int_Inr)
      ultimately show ?thesis
        using w rest by (simp add: wf_writebuf_def pending_def)
    next
      case False
      from ring.pop_nonempty [OF w(1) False] obtain m q where
        q: "queue_pop (writequeue b) = Inr (m, q)" "wf_queue q"
          "queue_list (writequeue b) = m # queue_list q" by blast
      with w(6) have m: "length m < 2 ^ 31" by simp
      let ?b = "b\<lparr>is_writing := False, wb_pointer := 0, wb_data := Some m,
          wb_len := int (length m), writequeue := q\<rparr>"
      have "have_written b k = Inr ?b"
        using False q(1) b ck fin by (simp add: have_written_def ck_int_Inr c_strlen_small [OF m])
      moreover have "wf_writebuf ?b"
        using q(2) m w(6) unfolding q(3) wf_writebuf_def by simp
      moreover have "pending ?b = drop (nat k) (pending b)"
        unfolding rest q(3) by (simp add: pending_def)
      ultimately show ?thesis by auto
    qed
  qed
qed

lemma free_writequeue_spec:
  "wf_queue q \<Longrightarrow> \<exists>q'. free_writequeue q = Inr q' \<and> queue_is_empty q'"
proof (induction q rule: free_writequeue.induct)
  case (1 q)
  show ?case
  proof (cases "queue_is_empty q")
    case True
    then show ?thesis by (simp add: free_writequeue.simps [of q])
  next
    case False
    from ring.pop_nonempty [OF "1.prems" False] obtain m q' where
      "queue_pop q = Inr (m, q')" "wf_queue q'" by blast
    with "1.IH" [OF False, of "(m, q')"] False show ?thesis
      by (simp add: free_writequeue.simps [of q])
  qed
qed

lemma free_writebuf_spec: "wf_queue (writequeue b) \<Longrightarrow> free_writebuf b = Inr ()"
  using free_writequeue_spec [of "writequeue b"] by (auto simp: free_writebuf_def free_queue_def)

text \<open>The laws of the interface.\<close>

lemma offer_spec:
  assumes b: "wf_writebuf b" "\<not> is_writing b" "has_write_data b"
  shows "\<exists>buf n b'. prepare_write b = Inr (buf, n, b') \<and> wf_writebuf b' \<and> is_writing b' \<and>
    pending b' = pending b \<and> 0 \<le> n \<and> n = int (length buf) \<and> (\<exists>rest. pending b = buf @ rest)"
proof -
  from b(3) obtain d where d: "wb_data b = Some d" by (auto simp: has_write_data_def)
  have "0 \<le> wb_len b - wb_pointer b"
    "wb_len b - wb_pointer b = int (length (drop (nat (wb_pointer b)) d))"
    using b(1) d by (auto simp: wf_writebuf_def)
  moreover have "\<exists>rest. pending b = drop (nat (wb_pointer b)) d @ rest"
    using d by (simp add: pending_def)
  ultimately show ?thesis using prepare_write_spec [OF b(1,2) d] b(1) by auto
qed

lemma written_spec:
  assumes b: "wf_writebuf b" "\<not> is_writing b" "has_write_data b"
    and p: "prepare_write b = Inr (buf, n, b')" and k: "0 \<le> k" "k \<le> n"
  shows "\<exists>b''. have_written b' k = Inr b'' \<and> wf_writebuf b'' \<and> \<not> is_writing b'' \<and>
    pending b'' = drop (nat k) (pending b)"
proof -
  from b(3) obtain d where d: "wb_data b = Some d" by (auto simp: has_write_data_def)
  with p prepare_write_spec [OF b(1,2) d] have b': "b' = b\<lparr>is_writing := True\<rparr>"
    "n = wb_len b - wb_pointer b" by auto
  with have_written_spec [of b' d k] b(1) d k show ?thesis by simp
qed

lemma push_law: "wf_writebuf b \<Longrightarrow> push_write_data b m = Inl e \<Longrightarrow> e = Out_of_memory"
  by (blast intro: push_write_data_Inl wf_writebuf_queue)

lemma unloaded_law: "wf_writebuf b \<Longrightarrow> \<not> has_write_data b \<Longrightarrow> pending b = []"
  by (rule pending_unloaded)

interpretation wbuf: byte_sink push_write_data prepare_write have_written pending
  has_write_data is_writing wf_writebuf
  by unfold_locales (fact push_write_data_spec push_law offer_spec written_spec unloaded_law)+

section \<open>Properties\<close>

text \<open>
  C3. The write buffer of writebuf.c keeps the byte stream of a client intact.  From a
  fresh buffer, whatever messages are pushed and however many bytes each write call takes, the
  bytes handed to write so far followed by the bytes still pending are exactly the
  concatenation of the messages in the order they were pushed, the buffer stays well-formed
  and is never left in the middle of a write; the only possible failure is lack of memory.
\<close>

theorem writebuf_stream:
  assumes "init_writebuf par = Inr b" "small_messages ops"
  shows "run_writes push_write_data prepare_write have_written has_write_data ops b
      = Inl Out_of_memory \<or>
    (\<exists>out b'. run_writes push_write_data prepare_write have_written has_write_data ops b
        = Inr (out, b') \<and>
       wf_writebuf b' \<and> \<not> is_writing b' \<and> out @ pending b' = sent_bytes ops)"
  using wbuf.run_writes_stream [of b ops] init_writebuf_Inr [OF assms(1)] assms(2)
  by auto

lemma init_writebuf_one:
  "init_writebuf 1 = Inr \<lparr>wb_data = None, wb_len = 0, wb_pointer = 0, is_writing = False,
     writequeue = \<lparr>q_data = [None], q_pointer = 0, q_len = 0, q_capacity = 1\<rparr>\<rparr>"
  by (simp add: init_writebuf_def uint_of_def init_queue_one)

theorem writebuf_stream_witness:
  "\<exists>b out b'. init_writebuf 1 = Inr b \<and>
     run_writes push_write_data prepare_write have_written has_write_data
       [Send ''abc'', Send ''de'', Transfer 2, Transfer 9, Send ''f'', Transfer 1] b = Inr (out, b') \<and>
     out @ pending b' = ''abcdef''"
  using writebuf_stream [OF init_writebuf_one,
      of "[Send ''abc'', Send ''de'', Transfer 2, Transfer 9, Send ''f'', Transfer 1]"]
  by (simp add: init_writebuf_one push_write_data_def has_write_data_def prepare_write_def
      have_written_def can_write_def queue_push_def simple_push_def queue_pop_def queue_is_empty_def
      c_simps ck_int_def is_int_def c_strlen_def c_int_def c_umod_def)

end
