(* ===== verification/C_Arraylist.thy ===== *)
theory C_Arraylist
  imports C_Prelude "HOL-Library.Multiset"
begin

text \<open>
  The keyed list of \<^verbatim>\<open>src/server/arraylist.c\<close>, used for the table of clients and
  the table of running processes: two parallel heap arrays, linear search, removal by
  moving the last element into the hole.  \<open>list_entries\<close> is the sequence of
  (key, data) pairs; the interface \<open>keyed_table\<close> is what the servers rely on.
\<close>

section \<open>The code\<close>

record 'a t_list =
  l_key :: "int carray"
  l_data :: "'a carray"
  l_len :: int
  l_capacity :: int

definition INVALID_INDEX :: int where
  "INVALID_INDEX = - 1"

definition init_list :: "int \<Rightarrow> 'a t_list result" where
  "init_list capacity =
     bindE (c_malloc 4 (size_t_of capacity)) (\<lambda>k.
     bindE (c_malloc 8 (size_t_of capacity)) (\<lambda>d.
     Inr \<lparr>l_key = k, l_data = d, l_len = 0, l_capacity = capacity\<rparr>))"

definition list_is_empty :: "'a t_list \<Rightarrow> bool" where
  "list_is_empty l \<longleftrightarrow> l_len l = 0"

text \<open>The loop \<^verbatim>\<open>for (int i = ...; i < l->len; i++)\<close> of the search.\<close>

function lookup_index_from :: "'a t_list \<Rightarrow> int \<Rightarrow> int \<Rightarrow> int result" where
  "lookup_index_from l key i =
     (if i < l_len l then
        bindE (c_read_i (l_key l) i) (\<lambda>k.
        if k = key then Inr i else lookup_index_from l key (i + 1))
      else Inr INVALID_INDEX)"
  by pat_completeness auto
termination
  by (relation "measure (\<lambda>(l, key, i). nat (l_len l - i))") auto

declare lookup_index_from.simps [simp del]

definition list_lookup_index :: "'a t_list \<Rightarrow> int \<Rightarrow> int result" where
  "list_lookup_index l key = lookup_index_from l key 0"

text \<open>\<open>None\<close> is the null pointer.\<close>

definition list_lookup :: "'a t_list \<Rightarrow> int \<Rightarrow> 'a option result" where
  "list_lookup l key =
     bindE (list_lookup_index l key) (\<lambda>i.
     if i = INVALID_INDEX then Inr None
     else bindE (c_read_i (l_data l) i) (\<lambda>x. Inr (Some x)))"

definition list_remove :: "'a t_list \<Rightarrow> int \<Rightarrow> 'a t_list result" where
  "list_remove l key =
     bindE (list_lookup_index l key) (\<lambda>i.
     if i \<noteq> INVALID_INDEX then
       bindE (c_assert (\<not> list_is_empty l)) (\<lambda>_.
       let len = l_len l - 1 in
       bindE (c_read_i (l_key l) len) (\<lambda>k.
       bindE (c_write_i (l_key l) i k) (\<lambda>ks.
       bindE (c_read_i (l_data l) len) (\<lambda>d.
       bindE (c_write_i (l_data l) i d) (\<lambda>ds.
       Inr (l\<lparr>l_len := len, l_key := ks, l_data := ds\<rparr>))))))
     else Inr l)"

definition free_list :: "'a t_list \<Rightarrow> unit result" where
  "free_list l = c_assert (list_is_empty l)"

definition list_resize :: "'a t_list \<Rightarrow> 'a t_list result" where
  "list_resize l =
     bindE (ck_int (l_capacity l * 2)) (\<lambda>newcap.
     bindE (c_realloc 4 (l_key l) (size_t_of newcap)) (\<lambda>k.
     bindE (c_realloc 8 (l_data l) (size_t_of newcap)) (\<lambda>d.
     Inr (l\<lparr>l_capacity := newcap, l_key := k, l_data := d\<rparr>))))"

definition list_append :: "'a t_list \<Rightarrow> int \<Rightarrow> 'a \<Rightarrow> 'a t_list result" where
  "list_append l key elt =
     bindE (if l_len l = l_capacity l then list_resize l else Inr l) (\<lambda>l.
     bindE (c_write_i (l_key l) (l_len l) key) (\<lambda>ks.
     bindE (c_write_i (l_data l) (l_len l) elt) (\<lambda>ds.
     bindE (ck_int (l_len l + 1)) (\<lambda>len.
     Inr (l\<lparr>l_key := ks, l_data := ds, l_len := len\<rparr>)))))"

definition list_length :: "'a t_list \<Rightarrow> int" where
  "list_length l = l_len l"

section \<open>The interface\<close>

text \<open>
  Sequences of operations, on a table and on the finite map it stands for.  On the map,
  adding a key that is already bound is not allowed: the array list would then hold the key
  twice, and no caller does that.
\<close>

datatype 'a table_op = Append int 'a | Remove int | Lookup int

fun run_table ::
  "('l \<Rightarrow> int \<Rightarrow> 'a \<Rightarrow> 'l result) \<Rightarrow> ('l \<Rightarrow> int \<Rightarrow> 'l result) \<Rightarrow>
   ('l \<Rightarrow> int \<Rightarrow> 'a option result) \<Rightarrow> 'a table_op list \<Rightarrow> 'l \<Rightarrow> ('a option list \<times> 'l) result" where
  "run_table app rm lk [] l = Inr ([], l)"
| "run_table app rm lk (Append k x # ops) l = bindE (app l k x) (\<lambda>l'. run_table app rm lk ops l')"
| "run_table app rm lk (Remove k # ops) l = bindE (rm l k) (\<lambda>l'. run_table app rm lk ops l')"
| "run_table app rm lk (Lookup k # ops) l =
     bindE (lk l k) (\<lambda>r.
     bindE (run_table app rm lk ops l) (\<lambda>(out, l').
     Inr (r # out, l')))"

fun run_map :: "'a table_op list \<Rightarrow> (int \<rightharpoonup> 'a) \<Rightarrow> ('a option list \<times> (int \<rightharpoonup> 'a)) option" where
  "run_map [] m = Some ([], m)"
| "run_map (Append k x # ops) m = (if m k = None then run_map ops (m(k \<mapsto> x)) else None)"
| "run_map (Remove k # ops) m = run_map ops (m(k := None))"
| "run_map (Lookup k # ops) m =
     (case run_map ops m of None \<Rightarrow> None | Some (out, m') \<Rightarrow> Some (m k # out, m'))"

text \<open>
  A table of (key, data) entries.  The laws speak of every table; the lemmas of the
  locale add the assumption that keys are distinct, which the servers maintain.
\<close>

locale keyed_table =
  fixes append :: "'l \<Rightarrow> int \<Rightarrow> 'a \<Rightarrow> 'l result"
    and lookup :: "'l \<Rightarrow> int \<Rightarrow> 'a option result"
    and remove :: "'l \<Rightarrow> int \<Rightarrow> 'l result"
    and count :: "'l \<Rightarrow> int"
    and entries :: "'l \<Rightarrow> (int \<times> 'a) list"
    and invar :: "'l \<Rightarrow> bool"
  assumes lookup_map: "invar l \<Longrightarrow> lookup l k = Inr (map_of (entries l) k)"
    and append_Inr: "invar l \<Longrightarrow> append l k x = Inr l' \<Longrightarrow>
      invar l' \<and> entries l' = entries l @ [(k, x)]"
    and append_Inl: "invar l \<Longrightarrow> append l k x = Inl e \<Longrightarrow>
      e = Out_of_memory \<or> e = Signed_overflow"
    and append_small: "invar l \<Longrightarrow> length (entries l) < 2 ^ 30 \<Longrightarrow> \<exists>l'. append l k x = Inr l'"
    and remove_absent: "invar l \<Longrightarrow> map_of (entries l) k = None \<Longrightarrow> remove l k = Inr l"
    and remove_present: "invar l \<Longrightarrow> map_of (entries l) k = Some x \<Longrightarrow>
      \<exists>l'. remove l k = Inr l' \<and> invar l' \<and>
           mset (entries l) = add_mset (k, x) (mset (entries l'))"
    and count_entries: "invar l \<Longrightarrow> count l = int (length (entries l))"
begin

definition table :: "'l \<Rightarrow> int \<rightharpoonup> 'a" where
  "table l = map_of (entries l)"

definition keys :: "'l \<Rightarrow> int list" where
  "keys l = map fst (entries l)"

lemma dom_table: "dom (table l) = set (keys l)"
  by (simp add: table_def keys_def dom_map_of_conv_image_fst)

lemma append_table:
  assumes "invar l" "k \<notin> set (keys l)" "append l k x = Inr l'"
  shows "table l' = (table l)(k \<mapsto> x)"
proof -
  from assms append_Inr have "entries l' = entries l @ [(k, x)]" by blast
  moreover have "map_of (entries l) k = None"
    using assms(2) by (simp add: keys_def map_of_eq_None_iff)
  ultimately show ?thesis by (auto simp: table_def map_add_def fun_eq_iff split: option.splits)
qed

lemma append_distinct:
  "invar l \<Longrightarrow> distinct (keys l) \<Longrightarrow> k \<notin> set (keys l) \<Longrightarrow> append l k x = Inr l' \<Longrightarrow>
     distinct (keys l') \<and> set (keys l') = insert k (set (keys l))"
  using append_Inr [of l k x l'] by (simp add: keys_def)

lemma remove_total:
  assumes "invar l"
  obtains l' where "remove l k = Inr l'" "invar l'"
  using assms remove_absent [OF assms, of k] remove_present [OF assms, of k]
  by (cases "map_of (entries l) k") auto

lemma remove_no_error: "invar l \<Longrightarrow> remove l k \<noteq> Inl e"
  by (rule remove_total [of l k]) auto

text \<open>Removing a key of a table with distinct keys removes exactly that entry.\<close>

lemma remove_entries:
  assumes "invar l" "distinct (keys l)" "map_of (entries l) k = Some x" "remove l k = Inr l'"
  shows "distinct (keys l')" "set (entries l) = insert (k, x) (set (entries l'))"
    "k \<notin> set (keys l')" "Suc (length (entries l')) = length (entries l)"
proof -
  from remove_present [OF assms(1,3)] assms(4)
  have m: "mset (entries l) = add_mset (k, x) (mset (entries l'))" by auto
  then have "mset (keys l) = add_mset k (mset (keys l'))"
    unfolding keys_def by (metis fst_conv image_mset_add_mset mset_map)
  then have "mset (keys l) = mset (k # keys l')" by simp
  with assms(2) have "distinct (k # keys l')" by (metis mset_eq_imp_distinct_iff)
  then show "distinct (keys l')" "k \<notin> set (keys l')" by simp_all
  show "set (entries l) = insert (k, x) (set (entries l'))"
    using m by (metis set_mset_add_mset_insert set_mset_mset)
  show "Suc (length (entries l')) = length (entries l)"
    using m by (metis size_add_mset size_mset)
qed

lemma remove_table:
  assumes "invar l" "distinct (keys l)" "remove l k = Inr l'"
  shows "table l' = (table l)(k := None)"
proof (cases "map_of (entries l) k")
  case None
  with remove_absent [OF assms(1)] assms(3) show ?thesis by (auto simp: table_def fun_eq_iff)
next
  case (Some x)
  note r = remove_entries [OF assms(1,2) Some assms(3)]
  have "map_of (entries l') j = (if j = k then None else map_of (entries l) j)" for j
  proof (cases "j = k")
    case True
    then show ?thesis using r(3) by (simp add: keys_def map_of_eq_None_iff)
  next
    case False
    then have "map_of (entries l') j = Some y \<longleftrightarrow> map_of (entries l) j = Some y" for y
      using r(1,2) assms(2) by (simp add: keys_def)
    with False show ?thesis by (metis not_None_eq)
  qed
  then show ?thesis by (auto simp: table_def fun_eq_iff)
qed

lemma remove_distinct:
  assumes "invar l" "distinct (keys l)" "remove l k = Inr l'"
  shows "distinct (keys l')" "set (keys l') = set (keys l) - {k}"
proof -
  show "distinct (keys l')"
  proof (cases "map_of (entries l) k")
    case None
    with remove_absent [OF assms(1)] assms show ?thesis by auto
  next
    case (Some x)
    from remove_entries(1) [OF assms(1,2) Some assms(3)] show ?thesis .
  qed
  show "set (keys l') = set (keys l) - {k}"
    using remove_table [OF assms] dom_table [of l] dom_table [of l'] by auto
qed

lemma remove_count:
  assumes "invar l" "distinct (keys l)" "remove l k = Inr l'"
  shows "count l' = count l - (if k \<in> set (keys l) then 1 else 0)"
proof -
  have i': "invar l'" using remove_total [OF assms(1), of k] assms(3) by auto
  show ?thesis
  proof (cases "map_of (entries l) k")
    case None
    with remove_absent [OF assms(1)] assms(3) have "l' = l" by auto
    with None show ?thesis by (auto simp: keys_def map_of_eq_None_iff)
  next
    case (Some x)
    then have "k \<in> set (keys l)" by (force simp: keys_def dest: map_of_SomeD)
    with remove_entries(4) [OF assms(1,2) Some assms(3)] show ?thesis
      by (simp add: count_entries assms(1) i')
  qed
qed

lemma remove_shorter:
  assumes "invar l" "remove l k = Inr l'"
  shows "length (entries l') \<le> length (entries l)"
proof (cases "map_of (entries l) k")
  case None
  with remove_absent [OF assms(1)] assms(2) show ?thesis by auto
next
  case (Some x)
  from remove_present [OF assms(1) Some] assms(2)
  have "mset (entries l) = add_mset (k, x) (mset (entries l'))" by auto
  then show ?thesis by (metis add_leD2 le_refl plus_1_eq_Suc size_add_mset size_mset)
qed

text \<open>
  Refinement: a legal sequence of operations that cannot exhaust the memory gives the
  answers of the map.
\<close>

lemma run_table_map:
  assumes "invar l" "distinct (keys l)" "run_map ops (table l) = Some (out, m)"
    "length (entries l) + length ops \<le> 2 ^ 30"
  shows "\<exists>l'. run_table append remove lookup ops l = Inr (out, l') \<and> invar l' \<and>
    distinct (keys l') \<and> table l' = m"
  using assms
proof (induction ops arbitrary: l out)
  case (Cons op ops)
  show ?case
  proof (cases op)
    case (Append k x)
    with Cons.prems have k: "k \<notin> set (keys l)" and run: "run_map ops ((table l)(k \<mapsto> x)) = Some (out, m)"
      by (auto simp: dom_table [symmetric] split: if_splits)
    from Cons.prems obtain l' where l': "append l k x = Inr l'" using append_small [of l k x] by auto
    from run have "run_map ops (table l') = Some (out, m)"
      unfolding append_table [OF Cons.prems(1) k l'] .
    then show ?thesis
      using Cons.IH [of l' out] append_Inr [OF Cons.prems(1) l']
        append_distinct [OF Cons.prems(1,2) k l'] l' Cons.prems(4) Append by simp
  next
    case (Remove k)
    from remove_total [OF Cons.prems(1)] obtain l' where l': "remove l k = Inr l'" "invar l'" by blast
    from Cons.prems(3) Remove have "run_map ops (table l') = Some (out, m)"
      unfolding remove_table [OF Cons.prems(1,2) l'(1)] by simp
    then show ?thesis
      using Cons.IH [of l' out] l' remove_distinct(1) [OF Cons.prems(1,2) l'(1)]
        remove_shorter [OF Cons.prems(1) l'(1)] Cons.prems(4) Remove by simp
  next
    case (Lookup k)
    with Cons.prems(3) obtain out' where
      "run_map ops (table l) = Some (out', m)" "out = table l k # out'"
      by (auto split: option.splits)
    then show ?thesis
      using Cons.IH [of l out'] Cons.prems lookup_map [OF Cons.prems(1), of k] Lookup
      by (auto simp: table_def)
  qed
qed simp

end

section \<open>Correctness of the array list\<close>

definition wf_list :: "'a t_list \<Rightarrow> bool" where
  "wf_list l \<longleftrightarrow>
     0 < l_capacity l \<and> is_int (l_capacity l) \<and>
     length (l_key l) = nat (l_capacity l) \<and> length (l_data l) = nat (l_capacity l) \<and>
     0 \<le> l_len l \<and> l_len l \<le> l_capacity l \<and>
     (\<forall>i < nat (l_len l). l_key l ! i \<noteq> None \<and> l_data l ! i \<noteq> None)"

definition list_entries :: "'a t_list \<Rightarrow> (int \<times> 'a) list" where
  "list_entries l = map (\<lambda>i. (the (l_key l ! i), the (l_data l ! i))) [0..<nat (l_len l)]"

lemma wf_listD:
  assumes "wf_list l"
  shows "0 < l_capacity l" "is_int (l_capacity l)"
    "length (l_key l) = nat (l_capacity l)" "length (l_data l) = nat (l_capacity l)"
    "0 \<le> l_len l" "l_len l \<le> l_capacity l"
    "i < nat (l_len l) \<Longrightarrow> l_key l ! i \<noteq> None"
    "i < nat (l_len l) \<Longrightarrow> l_data l ! i \<noteq> None"
  using assms by (auto simp: wf_list_def)

lemma length_list_entries [simp]: "length (list_entries l) = nat (l_len l)"
  by (simp add: list_entries_def)

lemma list_entries_nth:
  "i < nat (l_len l) \<Longrightarrow> list_entries l ! i = (the (l_key l ! i), the (l_data l ! i))"
  by (simp add: list_entries_def)

lemma init_list_wf:
  assumes "init_list c = Inr l" "0 < c" "is_int c"
  shows "wf_list l" "list_entries l = []"
  using assms by (auto simp: init_list_def bindE_eq_Inr c_malloc_eq_Inr wf_list_def
      list_entries_def)

lemma init_list_Inl: "init_list c = Inl e \<Longrightarrow> e = Out_of_memory"
  by (auto simp: init_list_def bindE_eq_Inl c_malloc_eq_Inl)

subsection \<open>Search\<close>

text \<open>The position of the first entry with a key, or the number of entries.\<close>

definition key_pos :: "(int \<times> 'a) list \<Rightarrow> int \<Rightarrow> nat" where
  "key_pos es k = length (takeWhile (\<lambda>e. fst e \<noteq> k) es)"

lemma key_pos_nth: "key_pos es k < length es \<Longrightarrow> fst (es ! key_pos es k) = k"
  unfolding key_pos_def using nth_length_takeWhile [of "\<lambda>e. fst e \<noteq> k" es] by simp

lemma key_pos_le: "key_pos es k \<le> length es"
  by (simp add: key_pos_def length_takeWhile_le)

lemma key_pos_present:
  "map_of es k = Some x \<Longrightarrow> key_pos es k < length es \<and> snd (es ! key_pos es k) = x"
  by (induction es) (auto simp: key_pos_def split: if_splits)

lemma key_pos_absent: "map_of es k = None \<longleftrightarrow> key_pos es k = length es"
  by (induction es) (auto simp: key_pos_def split: if_splits)

lemma lookup_index_from_spec:
  assumes "wf_list l" "0 \<le> i" "i \<le> int (key_pos (list_entries l) k)"
  shows "lookup_index_from l k i =
    Inr (if key_pos (list_entries l) k < nat (l_len l)
         then int (key_pos (list_entries l) k) else INVALID_INDEX)"
  using assms
proof (induction l k i rule: lookup_index_from.induct)
  case (1 l k i)
  note w = wf_listD [OF "1.prems"(1)]
  let ?pos = "key_pos (list_entries l) k"
  show ?case
  proof (cases "i < l_len l")
    case False
    then have "?pos = nat (l_len l)"
      using "1.prems" key_pos_le [of "list_entries l" k] by simp
    with False show ?thesis by (simp add: lookup_index_from.simps [of l k i])
  next
    case True
    let ?i = "nat i"
    have i: "?i < nat (l_len l)" using True "1.prems"(2) by simp
    then obtain kk where kk: "l_key l ! ?i = Some kk" using w(7) by blast
    then have fst: "fst (list_entries l ! ?i) = kk" using i by (simp add: list_entries_nth)
    have read: "c_read_i (l_key l) i = Inr kk"
      using "1.prems"(2) i w kk by (simp add: c_simps)
    show ?thesis
    proof (cases "kk = k")
      case eq: True
      have "?pos \<le> ?i"
      proof (rule ccontr)
        assume "\<not> ?pos \<le> ?i"
        then have "list_entries l ! ?i \<in> set (takeWhile (\<lambda>e. fst e \<noteq> k) (list_entries l))"
          unfolding key_pos_def by (metis linorder_not_le nth_mem takeWhile_nth)
        with fst eq show False by (auto dest: set_takeWhileD)
      qed
      with "1.prems"(2,3) have "?pos = ?i" by simp
      with True read eq i "1.prems"(2) show ?thesis
        by (simp add: lookup_index_from.simps [of l k i])
    next
      case False
      have "?pos \<noteq> ?i" using False fst i key_pos_nth [of "list_entries l" k] by auto
      then have "i + 1 \<le> int ?pos" using "1.prems"(2,3) by simp
      with "1.IH" [OF True read False] "1.prems" True read False show ?thesis
        by (simp add: lookup_index_from.simps [of l k i])
    qed
  qed
qed

lemma list_lookup_index_spec:
  "wf_list l \<Longrightarrow> list_lookup_index l k =
     Inr (if key_pos (list_entries l) k < nat (l_len l)
          then int (key_pos (list_entries l) k) else INVALID_INDEX)"
  unfolding list_lookup_index_def by (rule lookup_index_from_spec) simp_all

lemma list_lookup_spec:
  assumes "wf_list l"
  shows "list_lookup l k = Inr (map_of (list_entries l) k)"
proof (cases "map_of (list_entries l) k")
  case None
  then show ?thesis
    using assms key_pos_absent [of "list_entries l" k]
    by (simp add: list_lookup_def list_lookup_index_spec)
next
  case (Some x)
  note w = wf_listD [OF assms]
  let ?pos = "key_pos (list_entries l) k"
  from key_pos_present [OF Some] have p: "?pos < nat (l_len l)"
    "snd (list_entries l ! ?pos) = x" by simp_all
  then have "l_data l ! ?pos = Some x" using w(8) by (auto simp: list_entries_nth)
  with p w Some show ?thesis
    by (simp add: list_lookup_def list_lookup_index_spec assms INVALID_INDEX_def c_simps)
qed

subsection \<open>Removal\<close>

lemma mset_hole:
  assumes "i < length xs"
  shows "mset xs = add_mset (xs ! i) (mset (butlast (xs[i := last xs])))"
proof (cases "i = length xs - 1")
  case True
  then show ?thesis using assms by (cases xs rule: rev_cases) auto
next
  case False
  obtain ys y where xs: "xs = ys @ [y]" using assms by (cases xs rule: rev_cases) auto
  with assms False have i: "i < length ys" by simp
  then have "mset (ys[i := y]) = add_mset y (mset ys - {#ys ! i#})" by (rule mset_update)
  with xs i show ?thesis by (simp add: list_update_append nth_append)
qed

lemma list_remove_present:
  assumes "wf_list l" "map_of (list_entries l) k = Some x"
  shows "\<exists>l'. list_remove l k = Inr l' \<and> wf_list l' \<and>
    mset (list_entries l) = add_mset (k, x) (mset (list_entries l'))"
proof -
  note w = wf_listD [OF assms(1)]
  let ?es = "list_entries l" and ?p = "key_pos (list_entries l) k" and ?m = "nat (l_len l) - 1"
  from key_pos_present [OF assms(2)] key_pos_nth [of ?es k]
  have p: "?p < nat (l_len l)" "?es ! ?p = (k, x)" by (auto simp: prod_eq_iff)
  have m: "nat (l_len l - 1) = ?m" "?m < nat (l_len l)" "0 < l_len l" using p w(5) by simp_all
  obtain kk d where kd: "l_key l ! ?m = Some kk" "l_data l ! ?m = Some d"
    using w(7,8) m(2) by blast
  let ?l = "l\<lparr>l_len := l_len l - 1, l_key := (l_key l)[?p := Some kk],
              l_data := (l_data l)[?p := Some d]\<rparr>"
  have rem: "list_remove l k = Inr ?l"
    using w p m kd
    by (simp add: list_remove_def list_lookup_index_spec assms(1) INVALID_INDEX_def
        list_is_empty_def c_simps Let_def)
  have "list_entries ?l = butlast (?es[?p := last ?es])"
  proof (rule nth_equalityI)
    show "length (list_entries ?l) = length (butlast (?es[?p := last ?es]))"
      using m by simp
    fix i assume "i < length (list_entries ?l)"
    then have i: "i < ?m" using m by simp
    have "last ?es = (kk, d)"
      using m kd by (subst last_conv_nth) (auto simp: list_entries_nth simp flip: length_0_conv)
    then show "list_entries ?l ! i = butlast (?es[?p := last ?es]) ! i"
      using i m p w by (auto simp: list_entries_nth nth_butlast nth_list_update)
  qed
  then have "mset ?es = add_mset (k, x) (mset (list_entries ?l))"
    using mset_hole [of ?p ?es] p by simp
  moreover have "wf_list ?l"
    using w m p by (auto simp: wf_list_def nth_list_update)
  ultimately show ?thesis using rem by blast
qed

lemma list_remove_absent:
  "wf_list l \<Longrightarrow> map_of (list_entries l) k = None \<Longrightarrow> list_remove l k = Inr l"
  by (simp add: list_remove_def list_lookup_index_spec key_pos_absent)

subsection \<open>Appending\<close>

lemma list_resize_wf:
  assumes "wf_list l" "list_resize l = Inr l'"
  shows "wf_list l'" "list_entries l' = list_entries l" "l_len l' = l_len l"
    "l_len l' < l_capacity l'"
proof -
  note w = wf_listD [OF assms(1)]
  let ?n = "nat (l_capacity l)"
  have big: "is_int (l_capacity l * 2)" and
    l': "l' = l\<lparr>l_capacity := l_capacity l * 2,
      l_key := l_key l @ replicate ?n None, l_data := l_data l @ replicate ?n None\<rparr>"
    using assms(2) w by (auto simp: list_resize_def bindE_eq_Inr c_realloc_eq_Inr)
  show "l_len l' = l_len l" "l_len l' < l_capacity l'" using w l' by simp_all
  show "list_entries l' = list_entries l"
    using w l' by (auto simp: list_entries_def nth_append)
  show "wf_list l'"
    using w l' big by (auto simp: wf_list_def nth_append)
qed

lemma list_resize_Inl:
  "list_resize l = Inl e \<Longrightarrow> e = Out_of_memory \<or> e = Signed_overflow"
  by (auto simp: list_resize_def bindE_eq_Inl c_realloc_eq_Inl)

lemma list_append_room:
  assumes "wf_list l" "l_len l < l_capacity l"
  shows "\<exists>l'. list_append l k x = Inr l' \<and> wf_list l' \<and>
    list_entries l' = list_entries l @ [(k, x)]"
proof -
  note w = wf_listD [OF assms(1)]
  let ?n = "nat (l_len l)"
  let ?l = "l\<lparr>l_key := (l_key l)[?n := Some k], l_data := (l_data l)[?n := Some x],
              l_len := l_len l + 1\<rparr>"
  have len: "is_int (l_len l + 1)" "nat (l_len l + 1) = Suc ?n" "?n < nat (l_capacity l)"
    using assms(2) w by (auto simp: is_int_def)
  have app: "list_append l k x = Inr ?l"
    using w assms(2) len by (simp add: list_append_def c_simps ck_int_Inr)
  have "list_entries ?l = list_entries l @ [(k, x)]"
    using w len by (simp add: list_entries_def)
  moreover have "wf_list ?l"
    using w len assms(2) by (auto simp: wf_list_def nth_list_update less_Suc_eq)
  ultimately show ?thesis using app by blast
qed

lemma list_append_spec:
  assumes "wf_list l"
  shows "list_append l k x = Inl Out_of_memory \<or> list_append l k x = Inl Signed_overflow \<or>
    (\<exists>l'. list_append l k x = Inr l' \<and> wf_list l' \<and>
       list_entries l' = list_entries l @ [(k, x)])"
proof (cases "l_len l = l_capacity l")
  case False
  with wf_listD(6) [OF assms] have "l_len l < l_capacity l" by simp
  with list_append_room [OF assms this] show ?thesis by blast
next
  case True
  show ?thesis
  proof (cases "list_resize l")
    case (Inl e)
    with True list_resize_Inl [OF Inl] show ?thesis by (auto simp: list_append_def)
  next
    case (Inr l')
    note r = list_resize_wf [OF assms Inr]
    from r(4) have "list_append l k x = list_append l' k x"
      using True Inr by (simp add: list_append_def)
    with list_append_room [OF r(1,4), of k x] r(2) show ?thesis by auto
  qed
qed

lemma list_append_small:
  assumes "wf_list l" "nat (l_len l) < 2 ^ 30"
  shows "\<exists>l'. list_append l k x = Inr l'"
proof (cases "l_len l = l_capacity l")
  case False
  with wf_listD(6) [OF assms(1)] have "l_len l < l_capacity l" by simp
  with list_append_room [OF assms(1) this] show ?thesis by blast
next
  case True
  note w = wf_listD [OF assms(1)]
  have "list_resize l \<noteq> Inl e" for e
    using True assms(2) w(1)
    by (auto simp: list_resize_def bindE_eq_Inl c_realloc_eq_Inl ck_int_def is_int_def max_alloc_def
        split: if_splits)
  then obtain l' where l': "list_resize l = Inr l'" by (cases "list_resize l") auto
  note r = list_resize_wf [OF assms(1) l']
  from r(4) have "list_append l k x = list_append l' k x"
    using True l' by (simp add: list_append_def)
  with list_append_room [OF r(1,4), of k x] show ?thesis by auto
qed

interpretation tbl: keyed_table list_append list_lookup list_remove list_length list_entries wf_list
proof
  fix l l' :: "'a t_list" and k x
  assume "wf_list l" "list_append l k x = Inr l'"
  then show "wf_list l' \<and> list_entries l' = list_entries l @ [(k, x)]"
    using list_append_spec [of l k x] by auto
next
  fix l :: "'a t_list" and k x e
  assume "wf_list l" "list_append l k x = Inl e"
  then show "e = Out_of_memory \<or> e = Signed_overflow"
    using list_append_spec [of l k x] by auto
next
  fix l :: "'a t_list"
  assume "wf_list l"
  then show "list_length l = int (length (list_entries l))"
    by (simp add: list_length_def wf_listD)
qed (simp_all add: list_lookup_spec list_remove_absent list_remove_present list_append_small)

section \<open>Properties\<close>

text \<open>
  C2. The array list of arraylist.c is a finite map: from a fresh list of positive
  capacity, every sequence of at most 2^30 appends of new keys, removals and lookups succeeds,
  every lookup returns what the map returns (the null pointer for an unbound key), and the
  final list is well-formed with exactly one entry per key of the map.
\<close>

theorem list_refines_map:
  assumes "init_list c = Inr l" "0 < c" "is_int c" "length ops \<le> 2 ^ 30"
    "run_map ops (\<lambda>_. None) = Some (out, m)"
  shows "\<exists>l'. run_table list_append list_remove list_lookup ops l = Inr (out, l') \<and> wf_list l' \<and>
    distinct (map fst (list_entries l')) \<and> map_of (list_entries l') = m \<and>
    list_length l' = int (card (dom m))"
proof -
  note i = init_list_wf [OF assms(1-3)]
  from tbl.run_table_map [OF i(1), of ops out m] assms i obtain l' where
    l': "run_table list_append list_remove list_lookup ops l = Inr (out, l')" "wf_list l'"
    "distinct (map fst (list_entries l'))" "map_of (list_entries l') = m"
    by (auto simp: tbl.keys_def tbl.table_def)
  have "length (list_entries l') = card (dom m)"
    using distinct_card [OF l'(3)] l'(4) by (auto simp: dom_map_of_conv_image_fst)
  with l' tbl.count_entries [OF l'(2)] show ?thesis by auto
qed

lemma init_list_one:
  "init_list 1 = Inr \<lparr>l_key = [None], l_data = [None], l_len = 0, l_capacity = 1\<rparr>"
  by (simp add: init_list_def c_malloc_def max_alloc_def size_t_of_def)

theorem list_refines_map_witness:
  "\<exists>l l'. init_list 1 = Inr l \<and>
     run_table list_append list_remove list_lookup
       [Append 7 (1::int), Append 9 2, Remove 7, Lookup 7, Append 3 5, Lookup 9] l
       = Inr ([None, Some 2], l') \<and>
     wf_list l' \<and> list_length l' = 2"
  using list_refines_map [OF init_list_one,
      of "[Append 7 (1::int), Append 9 2, Remove 7, Lookup 7, Append 3 5, Lookup 9]"]
  by (simp add: init_list_one is_int_def) (auto simp: card_insert_if)

end
