(* ===== verification/C_Request.thy ===== *)
theory C_Request
  imports C_Queue C_Options
begin

text \<open>
  The requests of \<^verbatim>\<open>src/server/request.c\<close>: parsing a line of the client protocol
  (semicolon-separated fields), and the global queue of requests that wait for a free
  process slot.
\<close>

section \<open>The code\<close>

datatype request_type = REQ_RUN | REQ_INTERRUPT

text \<open>
  The fields of the C struct that \<open>parse_request\<close> assigns for a run request only are
  grouped in a record; \<open>None\<close> stands for fields that are not assigned.
\<close>

record run_fields =
  r_timeout :: int
  r_memlimit :: "32 word"
  r_usestdin :: bool
  r_cmd :: string
  r_numargs :: int
  r_args :: "string list"

record request =
  req_key :: int
  req_type :: request_type
  req_id :: string
  req_run :: "run_fields option"

text \<open>The loop of \<^verbatim>\<open>count_semicolons\<close>, from index \<open>i\<close> with the count so far.\<close>

function count_semicolons_from :: "char carray \<Rightarrow> int \<Rightarrow> int \<Rightarrow> int \<Rightarrow> int result" where
  "count_semicolons_from buf len i cnt =
     (if i < len then
        bindE (c_read_i buf i) (\<lambda>c.
        count_semicolons_from buf len (i + 1) (if c = CHR '';'' then cnt + 1 else cnt))
      else Inr cnt)"
  by pat_completeness auto
termination
  by (relation "measure (\<lambda>(buf, len, i, cnt). nat (len - i))") auto

declare count_semicolons_from.simps [simp del]

definition count_semicolons :: "char carray \<Rightarrow> int \<Rightarrow> int result" where
  "count_semicolons buf len = count_semicolons_from buf len 0 0"

function find_semicolon :: "char carray \<Rightarrow> int \<Rightarrow> int \<Rightarrow> int result" where
  "find_semicolon buf len i =
     (if i < len then
        bindE (c_read_i buf i) (\<lambda>c.
        if c = CHR '';'' then Inr i else find_semicolon buf len (i + 1))
      else Inr i)"
  by pat_completeness auto
termination
  by (relation "measure (\<lambda>(buf, len, i). nat (len - i))") auto

declare find_semicolon.simps [simp del]

text \<open>The bytes that \<^verbatim>\<open>memcpy\<close> copies out of a buffer.\<close>

definition c_bytes :: "'a carray \<Rightarrow> int \<Rightarrow> int \<Rightarrow> 'a list result" where
  "c_bytes xs off n =
     (if 0 \<le> off \<and> 0 \<le> n \<and> off + n \<le> int (length xs) then
        let cells = take (nat n) (drop (nat off) xs)
        in if None \<in> set cells then Inl Uninit_read else Inr (map the cells)
      else Inl Out_of_bounds)"

text \<open>The new position and the copied string, which ends at its first NUL.\<close>

definition copy_up_to_semicolon ::
  "char carray \<Rightarrow> int \<Rightarrow> int \<Rightarrow> (int \<times> string) result" where
  "copy_up_to_semicolon buf begin' len =
     bindE (find_semicolon buf len begin') (\<lambda>i.
     bindE (c_malloc 1 (size_t_of (i - begin' + 1)) :: char carray result) (\<lambda>_.
     bindE (c_bytes buf begin' (i - begin')) (\<lambda>bytes.
     Inr (if i = len then 0 else i + 1, cstring (bytes @ [NUL])))))"

fun copy_args :: "char carray \<Rightarrow> int \<Rightarrow> int \<Rightarrow> nat \<Rightarrow> string list result" where
  "copy_args buf pos len 0 = Inr []"
| "copy_args buf pos len (Suc n) =
     bindE (copy_up_to_semicolon buf pos len) (\<lambda>(pos, a).
     bindE (copy_args buf pos len n) (\<lambda>as.
     Inr (a # as)))"

text \<open>
  The text \<^verbatim>\<open>printf("%.*s", len, buf)\<close> prints: up to the first NUL and at most \<open>len\<close>
  bytes; a negative precision counts as none.
\<close>

fun c_text :: "char carray \<Rightarrow> nat \<Rightarrow> string result" where
  "c_text xs 0 = Inr []"
| "c_text [] (Suc n) = Inl Out_of_bounds"
| "c_text (None # xs) (Suc n) = Inl Uninit_read"
| "c_text (Some c # xs) (Suc n) =
     (if c = NUL then Inr [] else bindE (c_text xs n) (\<lambda>t. Inr (c # t)))"

definition c_text_prec :: "char carray \<Rightarrow> int \<Rightarrow> string result" where
  "c_text_prec buf len = c_text buf (if len < 0 then Suc (length buf) else nat len)"

definition query_text :: "string \<Rightarrow> string" where
  "query_text t = ''received query '' @ t"

text \<open>
  The commands with one semicolon, \<^verbatim>\<open>parallel;num\<close> and \<^verbatim>\<open>interrupt;id\<close>, and the run
  commands.  The variable \<^verbatim>\<open>parallel\<close> is in the record of globals.
\<close>

definition parse_control ::
  "char carray \<Rightarrow> int \<Rightarrow> int \<Rightarrow> 'z globals_scheme \<Rightarrow>
   (request option \<times> 'z globals_scheme) result" where
  "parse_control str_req len key g =
     bindE (copy_up_to_semicolon str_req 0 len) (\<lambda>(pos, tmp).
     if strncmp tmp ''parallel'' (size_t_of pos) = 0 then
       bindE (copy_up_to_semicolon str_req pos len) (\<lambda>(pos, tmp).
       let parallel_arg = atoi tmp in
       Inr (None, if parallel_arg \<ge> 1 then g\<lparr>parallel := parallel_arg\<rparr> else g))
     else if strncmp tmp ''interrupt'' (size_t_of pos) = 0 then
       bindE (copy_up_to_semicolon str_req pos len) (\<lambda>(pos, ident).
       Inr (Some \<lparr>req_key = key, req_type = REQ_INTERRUPT, req_id = ident, req_run = None\<rparr>, g))
     else Inr (None, g))"

definition parse_run ::
  "char carray \<Rightarrow> int \<Rightarrow> int \<Rightarrow> int \<Rightarrow> int \<Rightarrow> bool \<Rightarrow> request result" where
  "parse_run str_req len key pos numargs runstdin =
     bindE (copy_up_to_semicolon str_req pos len) (\<lambda>(pos, ident).
     bindE (copy_up_to_semicolon str_req pos len) (\<lambda>(pos, tmp).
     let tmo = atoi tmp in
     bindE (copy_up_to_semicolon str_req pos len) (\<lambda>(pos, tmp).
     let mem = uint_of (atoi tmp) in
     bindE (copy_up_to_semicolon str_req pos len) (\<lambda>(pos, command).
     bindE (c_malloc 8 (size_t_of numargs) :: string carray result) (\<lambda>_.
     bindE (copy_args str_req pos len (nat numargs)) (\<lambda>args.
     Inr \<lparr>req_key = key, req_type = REQ_RUN, req_id = ident,
          req_run = Some \<lparr>r_timeout = tmo, r_memlimit = mem, r_usestdin = runstdin,
            r_cmd = command, r_numargs = numargs, r_args = args\<rparr>\<rparr>))))))"

definition parse_request ::
  "char carray \<Rightarrow> int \<Rightarrow> int \<Rightarrow> 'z globals_scheme \<Rightarrow>
   (request option \<times> 'z globals_scheme) result" where
  "parse_request str_req len key g =
     bindE (log_msg (bindE (c_text_prec str_req len)
                       (\<lambda>t. Inr (query_text t))) g) (\<lambda>g.
     bindE (count_semicolons str_req len) (\<lambda>semic.
     if semic = 0 then Inr (None, g)
     else if semic = 1 then parse_control str_req len key g
     else
       let numargs = semic - 4 in
       if numargs < 0 then Inr (None, g)
       else
         bindE (copy_up_to_semicolon str_req 0 len) (\<lambda>(pos, tmp).
         if strncmp tmp ''run'' (size_t_of pos) \<noteq> 0 then
           if strncmp tmp ''runstdin'' (size_t_of pos) = 0 then
             bindE (parse_run str_req len key pos numargs True) (\<lambda>r. Inr (Some r, g))
           else Inr (None, g)
         else bindE (parse_run str_req len key pos numargs False) (\<lambda>r. Inr (Some r, g)))))"

text \<open>The text \<^verbatim>\<open>print_request\<close> writes to the standard output.\<close>

definition print_request :: "request option \<Rightarrow> string" where
  "print_request r =
     (case r of
        None \<Rightarrow> ''<null request>''
      | Some r \<Rightarrow>
          (case req_type r of
             REQ_RUN \<Rightarrow>
               (case req_run r of
                  None \<Rightarrow> ''request.print_request: ill-formed request''
                | Some f \<Rightarrow> ''req_type=REQ_RUN, timeout='' @ show_int (r_timeout f) @
                    '', memlimit='' @ dec_digits (unat (r_memlimit f)) @
                    '', cmd='' @ r_cmd f @ concat (map (\<lambda>a. CHR '' '' # a) (r_args f)))
           | REQ_INTERRUPT \<Rightarrow> ''req_type=REQ_INTERRUPT, id='' @ req_id r))"

text \<open>
  The strings whose memory \<^verbatim>\<open>free_request\<close> gives back.  The identifier of a run request
  is not among them: \<open>run_request\<close> hands it over to the process entry.
\<close>

definition free_request :: "request option \<Rightarrow> string list" where
  "free_request r =
     (case r of
        None \<Rightarrow> []
      | Some r \<Rightarrow>
          (case req_type r of
             REQ_RUN \<Rightarrow> (case req_run r of None \<Rightarrow> [] | Some f \<Rightarrow> r_cmd f # r_args f)
           | REQ_INTERRUPT \<Rightarrow> [req_id r]))"

definition init_request_queue :: "request t_queue result" where
  "init_request_queue = init_queue 100"

text \<open>The two loops of \<^verbatim>\<open>remove_from_queue\<close>.\<close>

function remove_loop ::
  "string \<Rightarrow> request t_queue \<Rightarrow> request t_queue \<Rightarrow> (request t_queue \<times> request t_queue) result" where
  "remove_loop ident q tmp =
     (if \<not> queue_is_empty q then
        bindE (queue_pop q) (\<lambda>(r, q').
        bindE (if strcmp (req_id r) ident \<noteq> 0 then queue_push tmp r else Inr tmp) (\<lambda>tmp'.
        remove_loop ident q' tmp'))
      else Inr (q, tmp))"
  by pat_completeness auto
termination
  by (relation "measure (\<lambda>(ident, q, tmp). unat (q_len q))") (auto simp: queue_pop_len)

function move_loop ::
  "request t_queue \<Rightarrow> request t_queue \<Rightarrow> (request t_queue \<times> request t_queue) result" where
  "move_loop tmp q =
     (if \<not> queue_is_empty tmp then
        bindE (queue_pop tmp) (\<lambda>(r, tmp').
        bindE (queue_push q r) (\<lambda>q'.
        move_loop tmp' q'))
      else Inr (tmp, q))"
  by pat_completeness auto
termination
  by (relation "measure (\<lambda>(tmp, q). unat (q_len tmp))") (auto simp: queue_pop_len)

declare remove_loop.simps [simp del] move_loop.simps [simp del]

definition remove_from_queue :: "string \<Rightarrow> request t_queue \<Rightarrow> request t_queue result" where
  "remove_from_queue ident q =
     bindE (init_queue (q_capacity q)) (\<lambda>tmp.
     bindE (remove_loop ident q tmp) (\<lambda>(q, tmp).
     bindE (move_loop tmp q) (\<lambda>(tmp, q).
     bindE (free_queue tmp) (\<lambda>_.
     Inr q))))"

section \<open>Fields\<close>

text \<open>
  The reference view of a line: the list of the texts between its semicolons.
\<close>

fun split_fields :: "string \<Rightarrow> string list" where
  "split_fields [] = [[]]"
| "split_fields (c # s) =
     (if c = CHR '';'' then [] # split_fields s
      else (case split_fields s of [] \<Rightarrow> [[c]] | f # fs \<Rightarrow> (c # f) # fs))"

fun join_fields :: "string list \<Rightarrow> string" where
  "join_fields [] = []"
| "join_fields [f] = f"
| "join_fields (f # g # fs) = f @ CHR '';'' # join_fields (g # fs)"

lemma fields_nonempty [simp]: "split_fields s \<noteq> []"
  by (cases s) (auto split: list.splits)

lemma length_fields: "length (split_fields s) = Suc (count_list s CHR '';'')"
  by (induction s) (auto split: list.splits)

lemma fields_hd: "CHR '';'' \<notin> set f \<Longrightarrow> split_fields f = [f]"
  by (induction f) auto

lemma fields_append:
  "CHR '';'' \<notin> set f \<Longrightarrow> split_fields (f @ CHR '';'' # s) = f # split_fields s"
  by (induction f) auto

lemma fields_join:
  "fs \<noteq> [] \<Longrightarrow> (\<And>f. f \<in> set fs \<Longrightarrow> CHR '';'' \<notin> set f) \<Longrightarrow> split_fields (join_fields fs) = fs"
  by (induction fs rule: join_fields.induct) (auto simp: fields_hd fields_append)

lemma join_fields_fields: "join_fields (split_fields s) = s"
proof (induction s)
  case (Cons c s)
  obtain f fs where "split_fields s = f # fs" by (cases "split_fields s") auto
  with Cons show ?case by (cases fs) auto
qed simp

text \<open>The first field ends before the first semicolon, or is the whole line.\<close>

lemma fields_cases:
  assumes "split_fields s = f # fs"
  obtains "CHR '';'' \<notin> set f" "fs = []" "s = f"
  | t where "CHR '';'' \<notin> set f" "s = f @ CHR '';'' # t" "fs = split_fields t"
  using assms
proof (induction s arbitrary: f thesis)
  case Nil
  then show ?case by auto
next
  case (Cons c s)
  show ?case
  proof (cases "c = CHR '';''")
    case True
    with Cons.prems show ?thesis by auto
  next
    case False
    with Cons.prems(3) obtain f' where f': "split_fields s = f' # fs" "f = c # f'"
      by (auto split: list.splits)
    show ?thesis
      by (rule Cons.IH [of f']) (use Cons.prems f' False in auto)
  qed
qed

section \<open>The scanner\<close>

text \<open>A buffer whose first bytes are \<open>s\<close>.\<close>

definition holds :: "char carray \<Rightarrow> string \<Rightarrow> bool" where
  "holds buf s \<longleftrightarrow> take (length s) buf = map Some s"

lemma holdsI [simp]: "holds (map Some s @ rest) s"
  by (simp add: holds_def)

lemma holds_length: "holds buf s \<Longrightarrow> length s \<le> length buf"
  unfolding holds_def by (metis length_map length_take min.cobounded2 min.commute)

lemma holds_nth: "holds buf s \<Longrightarrow> i < length s \<Longrightarrow> buf ! i = Some (s ! i)"
  unfolding holds_def by (metis nth_map nth_take)

lemma holds_read:
  "holds buf s \<Longrightarrow> 0 \<le> i \<Longrightarrow> nat i < length s \<Longrightarrow> c_read_i buf i = Inr (s ! nat i)"
  using holds_length [of buf s] holds_nth [of buf s "nat i"] by (simp add: c_simps)

lemma holds_bytes:
  assumes "holds buf s" "a + n \<le> length s"
  shows "c_bytes buf (int a) (int n) = Inr (take n (drop a s))"
proof -
  have "take n (drop a buf) = take n (drop a (take (length s) buf))"
    using assms(2) by (simp add: drop_take min_def)
  also have "\<dots> = map Some (take n (drop a s))"
    using assms(1) by (simp add: holds_def drop_map take_map)
  finally show ?thesis
    using assms holds_length [OF assms(1)] by (auto simp: c_bytes_def comp_def)
qed

lemma count_semicolons_from_spec:
  assumes "holds buf s"
  shows "0 \<le> i \<Longrightarrow> i \<le> int (length s) \<Longrightarrow> count_semicolons_from buf (int (length s)) i cnt
    = Inr (cnt + int (count_list (drop (nat i) s) CHR '';''))"
proof (induction "nat (int (length s) - i)" arbitrary: i cnt)
  case 0
  then show ?case by (subst count_semicolons_from.simps) simp
next
  case (Suc n)
  then have i: "i < int (length s)" by simp
  then have "drop (nat i) s = s ! nat i # drop (nat (i + 1)) s"
    using Suc.prems(1) by (simp add: Cons_nth_drop_Suc nat_add_distrib)
  with Suc i holds_read [OF assms, of i] show ?case
    by (subst count_semicolons_from.simps) simp
qed

lemma count_semicolons_spec:
  "holds buf s \<Longrightarrow> count_semicolons buf (int (length s)) = Inr (int (count_list s CHR '';''))"
  by (simp add: count_semicolons_def count_semicolons_from_spec)

lemma find_semicolon_spec:
  assumes "holds buf s"
  shows "0 \<le> i \<Longrightarrow> i \<le> int (length s) \<Longrightarrow> find_semicolon buf (int (length s)) i
    = Inr (i + int (length (takeWhile (\<lambda>c. c \<noteq> CHR '';'') (drop (nat i) s))))"
proof (induction "nat (int (length s) - i)" arbitrary: i)
  case 0
  then show ?case by (subst find_semicolon.simps) simp
next
  case (Suc n)
  then have i: "i < int (length s)" by simp
  then have "drop (nat i) s = s ! nat i # drop (nat (i + 1)) s"
    using Suc.prems(1) by (simp add: Cons_nth_drop_Suc nat_add_distrib)
  with Suc i holds_read [OF assms, of i] show ?case
    by (subst find_semicolon.simps) simp
qed

text \<open>A position of the line and the fields from there on.\<close>

definition at_fields :: "string \<Rightarrow> int \<Rightarrow> string list \<Rightarrow> bool" where
  "at_fields s pos fs \<longleftrightarrow>
     0 \<le> pos \<and> pos \<le> int (length s) \<and> split_fields (drop (nat pos) s) = fs"

lemma at_fields_0: "at_fields s 0 (split_fields s)"
  by (simp add: at_fields_def)

lemma fields_split:
  assumes "split_fields t = f # fs"
  shows "takeWhile (\<lambda>c. c \<noteq> CHR '';'') t = f" "length f \<le> length t" "take (length f) t = f"
    "fs = [] \<Longrightarrow> t = f"
    "fs \<noteq> [] \<Longrightarrow> length f < length t \<and> split_fields (drop (Suc (length f)) t) = fs"
proof -
  show w: "takeWhile (\<lambda>c. c \<noteq> CHR '';'') t = f"
    by (rule fields_cases [OF assms]) (auto simp: takeWhile_upto)
  show "length f \<le> length t" using w by (metis length_takeWhile_le)
  show "take (length f) t = f" using w by (metis takeWhile_eq_take)
  show "fs = [] \<Longrightarrow> t = f" by (rule fields_cases [OF assms]) auto
  show "fs \<noteq> [] \<Longrightarrow> length f < length t \<and> split_fields (drop (Suc (length f)) t) = fs"
    by (rule fields_cases [OF assms]) auto
qed

lemma copy_field:
  assumes buf: "holds buf s" and small: "length s < 2 ^ 31" and at: "at_fields s pos (f # fs)"
  obtains pos' where "copy_up_to_semicolon buf pos (int (length s)) = Inr (pos', cstring f)"
    "fs \<noteq> [] \<Longrightarrow> at_fields s pos' fs \<and> pos' = pos + int (length f) + 1"
proof -
  let ?t = "drop (nat pos) s" and ?L = "int (length s)"
  from at have pos: "0 \<le> pos" "pos \<le> ?L" "split_fields ?t = f # fs" by (auto simp: at_fields_def)
  note sp = fields_split [OF pos(3)]
  from sp(2) have len: "nat pos + length f \<le> length s" using pos(1,2) by simp
  have find: "find_semicolon buf ?L pos = Inr (pos + int (length f))"
    using find_semicolon_spec [OF buf pos(1,2)] sp(1) by simp
  have bytes: "c_bytes buf pos (int (length f)) = Inr f"
    using holds_bytes [OF buf, of "nat pos" "length f"] len pos(1) sp(3) by simp
  have "size_t_of (int (length f) + 1) = Suc (length f)"
    using len small by (subst size_t_of_nonneg) auto
  then have copy: "copy_up_to_semicolon buf pos ?L =
      Inr (if pos + int (length f) = ?L then 0 else pos + int (length f) + 1, cstring f)"
    using find bytes len small
    by (simp add: copy_up_to_semicolon_def c_malloc_def max_alloc_def)
  show thesis
  proof (cases "fs = []")
    case True
    with copy show thesis by (auto intro: that)
  next
    case False
    with sp(5) have l: "length f < length ?t" "split_fields (drop (Suc (length f)) ?t) = fs"
      by simp_all
    have "nat (pos + int (length f) + 1) = Suc (length f) + nat pos" using pos(1) by simp
    then have "at_fields s (pos + int (length f) + 1) fs"
      using l pos(1) by (auto simp: at_fields_def)
    with copy l(1) pos(1) show thesis
      by (intro that [of "pos + int (length f) + 1"]) auto
  qed
qed

lemma copy_args_spec:
  assumes "holds buf s" "length s < 2 ^ 31"
  shows "fs = [] \<or> at_fields s pos fs \<Longrightarrow>
    copy_args buf pos (int (length s)) (length fs) = Inr (map cstring fs)"
proof (induction fs arbitrary: pos)
  case (Cons f fs)
  then have "at_fields s pos (f # fs)" by simp
  then obtain pos' where
    "copy_up_to_semicolon buf pos (int (length s)) = Inr (pos', cstring f)"
    "fs = [] \<or> at_fields s pos' fs"
    by (rule copy_field [OF assms]) auto
  with Cons.IH [of pos'] show ?case by auto
qed simp

lemma c_text_spec: "holds buf s \<Longrightarrow> c_text buf (length s) = Inr (cstring s)"
proof (induction s arbitrary: buf)
  case (Cons c s)
  from Cons.prems obtain buf' where "buf = Some c # buf'" "holds buf' s"
    by (cases buf) (auto simp: holds_def)
  with Cons.IH show ?case by (simp add: cstring_def)
qed (simp add: cstring_def)

section \<open>The parser against its reference\<close>

definition run_of :: "int \<Rightarrow> bool \<Rightarrow> string \<Rightarrow> string \<Rightarrow> string \<Rightarrow> string \<Rightarrow> string list \<Rightarrow> request" where
  "run_of key std i t m c as =
     \<lparr>req_key = key, req_type = REQ_RUN, req_id = cstring i,
      req_run = Some \<lparr>r_timeout = atoi (cstring t), r_memlimit = uint_of (atoi (cstring m)),
        r_usestdin = std, r_cmd = cstring c, r_numargs = int (length as),
        r_args = map cstring as\<rparr>\<rparr>"

definition interrupt_of :: "int \<Rightarrow> string \<Rightarrow> request" where
  "interrupt_of key i =
     \<lparr>req_key = key, req_type = REQ_INTERRUPT, req_id = cstring i, req_run = None\<rparr>"

definition parse_fields ::
  "int \<Rightarrow> string list \<Rightarrow> 'z globals_scheme \<Rightarrow> request option \<times> 'z globals_scheme" where
  "parse_fields key fs g =
     (case fs of
        [c, a] \<Rightarrow>
          if cstring c = ''parallel'' then
            (None, if atoi (cstring a) \<ge> 1 then g\<lparr>parallel := atoi (cstring a)\<rparr> else g)
          else if cstring c = ''interrupt'' then (Some (interrupt_of key a), g)
          else (None, g)
      | c # i # t # m # p # as \<Rightarrow>
          if cstring c = ''run'' then (Some (run_of key False i t m p as), g)
          else if cstring c = ''runstdin'' then (Some (run_of key True i t m p as), g)
          else (None, g)
      | _ \<Rightarrow> (None, g))"

definition log_line :: "string \<Rightarrow> 'z globals_scheme \<Rightarrow> 'z globals_scheme" where
  "log_line t g =
     g\<lparr>logfile := (if logging g then Some (the (logfile g) @ [t]) else logfile g)\<rparr>"

lemma length_cstring_le: "length (cstring s) \<le> length s"
  by (simp add: cstring_def length_takeWhile_le)

lemma keyword_match:
  assumes "pos = pos0 + int (length f) + 1" "0 \<le> pos0" "pos < 2 ^ 64" "is_cstring k"
  shows "strncmp (cstring f) k (size_t_of pos) = 0 \<longleftrightarrow> cstring f = k"
proof (rule strncmp_eq_0)
  have "size_t_of pos = nat pos" using assms by (intro size_t_of_nonneg) auto
  then show "length (cstring f) < size_t_of pos \<or> length k < size_t_of pos"
    using length_cstring_le [of f] assms by auto
qed (use assms in auto)

lemma parse_run_spec:
  assumes h: "holds buf s" "length s < 2 ^ 31" and at: "at_fields s pos (i # t # m # c # as)"
    and n: "length as < 2 ^ 31"
  shows "parse_run buf (int (length s)) key pos (int (length as)) std
    = Inr (run_of key std i t m c as)"
proof -
  obtain p1 where p1: "copy_up_to_semicolon buf pos (int (length s)) = Inr (p1, cstring i)"
    "at_fields s p1 (t # m # c # as)"
    using at by (rule copy_field [OF h]) auto
  obtain p2 where p2: "copy_up_to_semicolon buf p1 (int (length s)) = Inr (p2, cstring t)"
    "at_fields s p2 (m # c # as)"
    using p1(2) by (rule copy_field [OF h]) auto
  obtain p3 where p3: "copy_up_to_semicolon buf p2 (int (length s)) = Inr (p3, cstring m)"
    "at_fields s p3 (c # as)"
    using p2(2) by (rule copy_field [OF h]) auto
  obtain p4 where p4: "copy_up_to_semicolon buf p3 (int (length s)) = Inr (p4, cstring c)"
    "as = [] \<or> at_fields s p4 as"
    using p3(2) by (rule copy_field [OF h]) auto
  have "size_t_of (int (length as)) = length as" using n by (subst size_t_of_nonneg) auto
  then show ?thesis
    using p1(1) p2(1) p3(1) p4(1) copy_args_spec [OF h p4(2)] n
    by (simp add: parse_run_def run_of_def c_malloc_def max_alloc_def Let_def)
qed

lemma parse_control_spec:
  assumes h: "holds buf s" "length s < 2 ^ 31" and f: "split_fields s = [c, a]"
  shows "parse_control buf (int (length s)) key g = Inr (parse_fields key (split_fields s) g)"
proof -
  have at: "at_fields s 0 [c, a]" using at_fields_0 [of s] f by simp
  obtain p1 where p1: "copy_up_to_semicolon buf 0 (int (length s)) = Inr (p1, cstring c)"
    "at_fields s p1 [a]" "p1 = 0 + int (length c) + 1"
    using at by (rule copy_field [OF h]) auto
  obtain p2 where p2: "copy_up_to_semicolon buf p1 (int (length s)) = Inr (p2, cstring a)"
    using p1(2) by (rule copy_field [OF h]) auto
  have small: "p1 < 2 ^ 64" using p1(2) h(2) by (simp add: at_fields_def)
  note kw = keyword_match [OF p1(3) _ small]
  show ?thesis
    using p1(1) p2 kw [of "''parallel''"] kw [of "''interrupt''"]
    by (simp add: parse_control_def parse_fields_def f interrupt_of_def Let_def)
qed

theorem parse_request_fields:
  assumes h: "holds buf s" "length s < 2 ^ 31" and g: "log_ready g"
  shows "parse_request buf (int (length s)) key g =
    Inr (parse_fields key (split_fields s) (log_line (query_text (cstring s)) g))"
proof -
  let ?n = "count_list s CHR '';''" and ?L = "int (length s)"
  let ?g = "log_line (query_text (cstring s)) g"
  have log: "log_msg (bindE (c_text_prec buf ?L) (\<lambda>t. Inr (query_text t))) g = Inr ?g"
    using g by (simp add: c_text_prec_def c_text_spec [OF h(1)] log_msg_ready log_line_def)
  have cnt: "count_semicolons buf ?L = Inr (int ?n)" by (rule count_semicolons_spec [OF h(1)])
  have lf: "length (split_fields s) = Suc ?n" by (rule length_fields)
  have "?n \<le> length s" by (rule count_le_length)
  consider "?n = 0" | "?n = 1" | "?n = 2 \<or> ?n = 3" | "4 \<le> ?n" by linarith
  then show ?thesis
  proof cases
    case 1
    then obtain f where "split_fields s = [f]" using lf by (auto simp: length_Suc_conv)
    with 1 show ?thesis by (simp add: parse_request_def log cnt parse_fields_def)
  next
    case 2
    then obtain c a where f: "split_fields s = [c, a]"
      using lf by (auto simp: length_Suc_conv numeral_2_eq_2)
    from 2 parse_control_spec [OF h f, of key ?g] show ?thesis
      by (simp add: parse_request_def log cnt)
  next
    case 3
    then have "length (split_fields s) = 3 \<or> length (split_fields s) = 4" using lf by auto
    then have "parse_fields key (split_fields s) ?g = (None, ?g)"
      by (auto simp: parse_fields_def numeral_3_eq_3 eval_nat_numeral length_Suc_conv)
    with 3 show ?thesis by (auto simp: parse_request_def log cnt Let_def)
  next
    case 4
    then have "Suc (Suc (Suc (Suc (Suc 0)))) \<le> length (split_fields s)" using lf by simp
    then obtain c i t m p as where f: "split_fields s = c # i # t # m # p # as"
      by (auto simp: Suc_le_length_iff)
    then have n: "int ?n - 4 = int (length as)" "length as < 2 ^ 31"
      using lf \<open>?n \<le> length s\<close> h(2) by auto
    have at: "at_fields s 0 (c # i # t # m # p # as)" using at_fields_0 [of s] f by simp
    obtain p1 where p1: "copy_up_to_semicolon buf 0 ?L = Inr (p1, cstring c)"
      "at_fields s p1 (i # t # m # p # as)" "p1 = 0 + int (length c) + 1"
      using at by (rule copy_field [OF h]) auto
    have small: "p1 < 2 ^ 64" using p1(2) h(2) by (simp add: at_fields_def)
    note kw = keyword_match [OF p1(3) _ small]
    have "?n \<noteq> 0" "?n \<noteq> Suc 0" using 4 by auto
    then show ?thesis
      using p1(1) kw [of "''run''"] kw [of "''runstdin''"] parse_run_spec [OF h p1(2) n(2), of key]
      by (simp add: parse_request_def log cnt Let_def n(1) f parse_fields_def)
  qed
qed

text \<open>Lines built from fields that hold no semicolon parse back to these fields.\<close>

lemma parse_request_join:
  assumes "fs \<noteq> []" "\<And>f. f \<in> set fs \<Longrightarrow> CHR '';'' \<notin> set f"
    "length (join_fields fs) < 2 ^ 31" "log_ready g"
  shows "parse_request (map Some (join_fields fs) @ rest) (int (length (join_fields fs))) key g =
    Inr (parse_fields key fs (log_line (query_text (cstring (join_fields fs))) g))"
  using parse_request_fields [OF holdsI assms(3,4)] fields_join [OF assms(1,2)] by simp

lemma parse_fields_frame:
  assumes "parse_fields key fs g = (r, g')"
  shows "g' = g\<lparr>parallel := parallel g'\<rparr>" "valid_options g \<Longrightarrow> valid_options g'"
    "\<And>x. r = Some x \<Longrightarrow> g' = g \<and> is_cstring (req_id x) \<and> req_key x = key"
    "\<And>x. r = Some x \<Longrightarrow> req_type x = REQ_RUN \<longleftrightarrow> req_run x \<noteq> None"
  using assms
  by (auto simp: parse_fields_def valid_options_def atoi_def run_of_def interrupt_of_def
      split: list.splits if_splits)

section \<open>Removing a request from the queue\<close>

text \<open>
  The proofs use the queue interface only: the queue and its temporary copy have room for
  all requests, so no push of the two loops can fail.
\<close>

lemma remove_loop_spec:
  assumes "wf_queue q" "wf_queue tmp" "is_cstring ident"
    "\<forall>r \<in> set (queue_list q). is_cstring (req_id r)"
    "length (queue_list q) + length (queue_list tmp) \<le> queue_room tmp"
  shows "\<exists>q' tmp'. remove_loop ident q tmp = Inr (q', tmp') \<and> wf_queue q' \<and> wf_queue tmp' \<and>
    queue_list q' = [] \<and> queue_room q' = queue_room q \<and>
    queue_list tmp' = queue_list tmp @ filter (\<lambda>r. req_id r \<noteq> ident) (queue_list q)"
  using assms
proof (induction ident q tmp rule: remove_loop.induct)
  case (1 ident q tmp)
  show ?case
  proof (cases "queue_is_empty q")
    case True
    then have "queue_list q = []" using ring.is_empty_iff [OF "1.prems"(1)] by simp
    with True "1.prems" show ?thesis by (simp add: remove_loop.simps [of ident q tmp])
  next
    case False
    from ring.pop_nonempty [OF "1.prems"(1) False] obtain r q1 where
      pop: "queue_pop q = Inr (r, q1)" and q1: "wf_queue q1" "queue_list q = r # queue_list q1"
        "queue_room q1 = queue_room q" by blast
    show ?thesis
    proof (cases "req_id r = ident")
      case True
      then have keep: "strcmp (req_id r) ident = 0" using "1.prems"(3) by (simp add: strcmp_eq_0)
      have "\<exists>q' tmp'. remove_loop ident q1 tmp = Inr (q', tmp') \<and> wf_queue q' \<and> wf_queue tmp' \<and>
        queue_list q' = [] \<and> queue_room q' = queue_room q1 \<and>
        queue_list tmp' = queue_list tmp @ filter (\<lambda>r. req_id r \<noteq> ident) (queue_list q1)"
        by (rule "1.IH" [OF False pop refl]) (use "1.prems" q1 keep in auto)
      with pop False keep q1 True show ?thesis
        by (auto simp: remove_loop.simps [of ident q tmp])
    next
      case ne: False
      then have keep: "strcmp (req_id r) ident \<noteq> 0"
        using "1.prems"(3,4) q1(2) by (simp add: strcmp_eq_0)
      have "length (queue_list tmp) < queue_room tmp" using "1.prems"(5) q1(2) by simp
      from ring.push_within [OF "1.prems"(2) this, of r] obtain t1 where
        push: "queue_push tmp r = Inr t1" and t1: "wf_queue t1"
          "queue_list t1 = queue_list tmp @ [r]" "queue_room t1 = queue_room tmp" by blast
      have "\<exists>q' tmp'. remove_loop ident q1 t1 = Inr (q', tmp') \<and> wf_queue q' \<and> wf_queue tmp' \<and>
        queue_list q' = [] \<and> queue_room q' = queue_room q1 \<and>
        queue_list tmp' = queue_list t1 @ filter (\<lambda>r. req_id r \<noteq> ident) (queue_list q1)"
        by (rule "1.IH" [OF False pop refl]) (use "1.prems" q1 t1 keep push in auto)
      with pop False keep push q1 t1 ne show ?thesis
        by (auto simp: remove_loop.simps [of ident q tmp])
    qed
  qed
qed

lemma move_loop_spec:
  assumes "wf_queue tmp" "wf_queue q"
    "length (queue_list tmp) + length (queue_list q) \<le> queue_room q"
  shows "\<exists>tmp' q'. move_loop tmp q = Inr (tmp', q') \<and> queue_is_empty tmp' \<and> wf_queue q' \<and>
    queue_list q' = queue_list q @ queue_list tmp"
  using assms
proof (induction tmp q rule: move_loop.induct)
  case (1 tmp q)
  show ?case
  proof (cases "queue_is_empty tmp")
    case True
    then have "queue_list tmp = []" using ring.is_empty_iff [OF "1.prems"(1)] by simp
    with True "1.prems" show ?thesis by (simp add: move_loop.simps [of tmp q])
  next
    case False
    from ring.pop_nonempty [OF "1.prems"(1) False] obtain r t1 where
      pop: "queue_pop tmp = Inr (r, t1)" and t1: "wf_queue t1" "queue_list tmp = r # queue_list t1"
      by blast
    have "length (queue_list q) < queue_room q" using "1.prems"(3) t1(2) by simp
    from ring.push_within [OF "1.prems"(2) this, of r] obtain q1 where
      push: "queue_push q r = Inr q1" and q1: "wf_queue q1"
        "queue_list q1 = queue_list q @ [r]" "queue_room q1 = queue_room q" by blast
    have "\<exists>tmp' q'. move_loop t1 q1 = Inr (tmp', q') \<and> queue_is_empty tmp' \<and> wf_queue q' \<and>
      queue_list q' = queue_list q1 @ queue_list t1"
      by (rule "1.IH" [OF False pop refl push]) (use "1.prems" q1 t1 in auto)
    with pop False push q1 t1 show ?thesis by (auto simp: move_loop.simps [of tmp q])
  qed
qed

lemma remove_from_queue_spec:
  assumes wf: "wf_queue q" and ids: "is_cstring ident"
    "\<forall>r \<in> set (queue_list q). is_cstring (req_id r)"
  shows "\<exists>q'. remove_from_queue ident q = Inr q' \<and> wf_queue q' \<and>
    queue_list q' = filter (\<lambda>r. req_id r \<noteq> ident) (queue_list q)"
proof -
  note w = wf_queueD [OF wf]
  have "init_queue (q_capacity q) \<noteq> (Inl e :: request t_queue result)" for e
    using w(2,3) by (auto simp: init_queue_Inl)
  then obtain tmp :: "request t_queue" where init: "init_queue (q_capacity q) = Inr tmp"
    by (cases "init_queue (q_capacity q) :: request t_queue result") auto
  note t = init_queue_wf [OF init]
  have "length (queue_list q) + length (queue_list tmp) \<le> queue_room tmp"
    using t w(5) by simp
  from remove_loop_spec [OF wf t(1) ids this] obtain q1 t1 where
    l1: "remove_loop ident q tmp = Inr (q1, t1)" "wf_queue q1" "wf_queue t1" "queue_list q1 = []"
      "queue_room q1 = queue_room q"
      "queue_list t1 = filter (\<lambda>r. req_id r \<noteq> ident) (queue_list q)"
    using t(2) by auto
  have "length (queue_list t1) + length (queue_list q1) \<le> queue_room q1"
    using l1 w(5) length_filter_le [of "\<lambda>r. req_id r \<noteq> ident" "queue_list q"]
    by (simp add: queue_room_def)
  from move_loop_spec [OF l1(3,2) this] obtain t2 q2 where
    l2: "move_loop t1 q1 = Inr (t2, q2)" "queue_is_empty t2" "wf_queue q2"
      "queue_list q2 = queue_list q1 @ queue_list t1" by blast
  show ?thesis
    using init l1 l2 by (simp add: remove_from_queue_def free_queue_def)
qed

section \<open>Properties\<close>

text \<open>
  C4. The scanner of parse_request, with its positions, its buffer copies and its
  comparison of prefixes, computes exactly the reading of a line by its fields: for every line
  shorter than 2^31 bytes in the first bytes of the receive buffer, whatever follows it there, it
  logs the line, splits it at the semicolons, and gives a run request for run and runstdin with
  at least five fields, an interrupt request or a change of the parallelism for two fields, and
  nothing otherwise.  It never reads outside the line and never fails.
\<close>

theorem parse_request_refines:
  assumes "length line < 2 ^ 31" "log_ready g"
  shows "parse_request (map Some line @ rest) (int (length line)) key g =
    Inr (parse_fields key (split_fields line) (log_line (query_text (cstring line)) g))"
  using parse_request_fields [OF holdsI assms] .

lemma log_line_quiet [simp]: "\<not> logging g \<Longrightarrow> log_line t g = g"
  by (simp add: log_line_def)

theorem parse_request_refines_witness:
  "parse_request (map Some ''run;a;5;0;cvc4;-f;x'' @ [None]) 19 3 init_globals =
     Inr (Some \<lparr>req_key = 3, req_type = REQ_RUN, req_id = ''a'',
       req_run = Some \<lparr>r_timeout = 5, r_memlimit = 0, r_usestdin = False, r_cmd = ''cvc4'',
         r_numargs = 2, r_args = [''-f'', ''x'']\<rparr>\<rparr>, init_globals)"
  using parse_request_refines [of "''run;a;5;0;cvc4;-f;x''" init_globals "[None]" 3]
  by (simp add: log_ready_def init_globals_def log_line_def parse_fields_def run_of_def cstring_def
      atoi_def strtol_def is_space_def is_digit_def digits_value_def clamp_long_def c_int_def uint_of_def)

text \<open>The line a client sends for a run request.\<close>

definition run_line :: "request \<Rightarrow> run_fields \<Rightarrow> string" where
  "run_line r f = join_fields ([if r_usestdin f then ''runstdin'' else ''run'', req_id r,
     show_int (r_timeout f), show_int (uint (r_memlimit f)), r_cmd f] @ r_args f)"

definition plain_text :: "string \<Rightarrow> bool" where
  "plain_text t \<longleftrightarrow> CHR '';'' \<notin> set t \<and> is_cstring t"

lemma plain_show_int: "plain_text (show_int n)"
  using show_int_chars [where x = n] by (auto simp: plain_text_def is_cstring_show_int)

text \<open>
  C5. Every run request survives the protocol: the line that spells it, with the time
  limit and the memory limit in decimal, parses back to the same request, provided that its texts
  contain neither semicolons nor NUL characters, the number of arguments is that of the argument
  list, the time limit is an int and the memory limit is below 2^31.
\<close>

theorem parse_run_line:
  assumes "req_type r = REQ_RUN" "req_run r = Some f" "plain_text (req_id r)" "plain_text (r_cmd f)"
    "list_all plain_text (r_args f)" "r_numargs f = int (length (r_args f))"
    "is_int (r_timeout f)" "uint (r_memlimit f) < 2 ^ 31"
    "length (run_line r f) < 2 ^ 31" "log_ready g"
  shows "\<exists>g'. parse_request (map Some (run_line r f) @ rest) (int (length (run_line r f))) (req_key r) g
    = Inr (Some r, g')"
proof -
  let ?fs = "[if r_usestdin f then ''runstdin'' else ''run'', req_id r,
     show_int (r_timeout f), show_int (uint (r_memlimit f)), r_cmd f] @ r_args f"
  have plain: "list_all plain_text ?fs"
    using assms(3-5) by (simp add: plain_show_int) (simp add: plain_text_def is_cstring_def)
  then have nosemi: "CHR '';'' \<notin> set t" if "t \<in> set ?fs" for t
    using that by (auto simp: plain_text_def list_all_iff)
  have "parse_request (map Some (run_line r f) @ rest) (int (length (run_line r f))) (req_key r) g
    = Inr (parse_fields (req_key r) ?fs (log_line (query_text (cstring (run_line r f))) g))"
    unfolding run_line_def
    by (rule parse_request_join) (use nosemi assms(9,10) in \<open>auto simp: run_line_def\<close>)
  moreover have "map cstring ?fs = ?fs"
    using plain by (intro map_idI) (auto simp: plain_text_def list_all_iff)
  moreover have "atoi (show_int (uint (r_memlimit f))) = uint (r_memlimit f)"
  proof (rule atoi_show_int)
    have "0 \<le> uint (r_memlimit f)" by simp
    with assms(8) show "is_int (uint (r_memlimit f))" unfolding is_int_def by linarith
  qed
  moreover have "uint_of (uint (r_memlimit f)) = r_memlimit f"
    by (simp add: uint_of_def)
  ultimately show ?thesis
    using assms(1,2,6,7) by (cases r; cases f) (auto simp: parse_fields_def run_of_def)
qed

definition sample_run :: "run_fields" where
  "sample_run = \<lparr>r_timeout = 10, r_memlimit = 1000, r_usestdin = True, r_cmd = ''z3'',
     r_numargs = 2, r_args = [''-smt2'', ''f.smt2'']\<rparr>"

theorem parse_run_line_witness:
  "\<exists>g'. parse_request (map Some ''runstdin;t1;10;1000;z3;-smt2;f.smt2'') 35 6 init_globals
    = Inr (Some \<lparr>req_key = 6, req_type = REQ_RUN, req_id = ''t1'', req_run = Some sample_run\<rparr>, g')"
proof -
  let ?r = "\<lparr>req_key = 6, req_type = REQ_RUN, req_id = ''t1'', req_run = Some sample_run\<rparr>"
  have "run_line ?r sample_run = ''runstdin;t1;10;1000;z3;-smt2;f.smt2''"
    by code_simp
  then show ?thesis
    using parse_run_line [of ?r sample_run init_globals "[]"]
    by (simp add: sample_run_def plain_text_def is_cstring_def is_int_def log_ready_def init_globals_def)
qed

text \<open>
  C6. An interrupt removes exactly the requests with its identifier from the queue of
  waiting requests: the two passes of remove_from_queue over a temporary queue never fail, not even
  for lack of memory once the temporary queue exists, and leave the other requests in their order.
\<close>

theorem remove_from_queue_filters:
  assumes "wf_queue q" "is_cstring ident" "list_all (\<lambda>r. is_cstring (req_id r)) (queue_list q)"
  shows "\<exists>q'. remove_from_queue ident q = Inr q' \<and> wf_queue q' \<and>
    queue_list q' = filter (\<lambda>r. req_id r \<noteq> ident) (queue_list q)"
  using remove_from_queue_spec [OF assms(1,2)] assms(3) by (simp add: list_all_iff)

definition sample_queue :: "request t_queue" where
  "sample_queue = \<lparr>q_data = [Some (interrupt_of 1 ''a''), Some (interrupt_of 2 ''b''),
     Some (interrupt_of 3 ''a'')], q_pointer = 1, q_len = 3, q_capacity = 3\<rparr>"

theorem remove_from_queue_filters_witness:
  "\<exists>q'. remove_from_queue ''a'' sample_queue = Inr q' \<and> wf_queue q' \<and>
    queue_list q' = [interrupt_of 2 ''b'']"
proof -
  have l: "queue_list sample_queue = [interrupt_of 2 ''b'', interrupt_of 3 ''a'', interrupt_of 1 ''a'']"
    by (simp add: sample_queue_def queue_list_def upt_rec)
  have three: "i = 0 \<or> i = 1 \<or> i = 2" if "i < 3" for i :: nat
    using that by arith
  have "wf_queue sample_queue"
    by (auto simp: sample_queue_def wf_queue_def dest!: three)
  from remove_from_queue_filters [OF this, of "''a''"] show ?thesis
    by (simp add: l interrupt_of_def is_cstring_def cstring_def)
qed

section \<open>What parsing changes\<close>

lemma parse_request_frame:
  assumes "parse_request buf len key g = Inr (r, g')"
  shows "g' = g\<lparr>logfile := logfile g', parallel := parallel g'\<rparr>"
proof -
  obtain h where h: "h = g\<lparr>logfile := logfile h\<rparr>"
    and eq: "g' = h \<or> (\<exists>p. g' = h\<lparr>parallel := p\<rparr>)"
    using assms
    by (auto simp: parse_request_def parse_control_def bindE_eq_Inr Let_def split: if_splits
        dest!: log_msg_frame(1))
  from eq show ?thesis
    by (subst (asm) (1 2) h) (auto simp: h [symmetric])
qed

lemma log_prog_frame:
  "bindE (log_msg t s) (\<lambda>s'. Inr ((), s')) = Inr (a, s') \<Longrightarrow>
     s' = s\<lparr>logfile := logfile s', parallel := parallel s'\<rparr>"
  by (auto simp: log_msg_def bindE_eq_Inr split: if_splits option.splits)

end
