(* ===== verification/C_Proc.thy ===== *)
theory C_Proc
  imports C_Arraylist C_Options
begin

text \<open>
  The table of running processes of \<^verbatim>\<open>src/server/proc.c\<close>.  The entry of a process has
  fields common to both platforms, extended by the process id on Unix and by two handles
  on Windows; the functions are polymorphic in that extension.
\<close>

section \<open>The code\<close>

record t_proc =
  client_key :: int
  task_id :: string
  outfile :: string

record unix_proc = t_proc +
  proc_id :: int

definition init_process_list :: "'g globals_scheme \<Rightarrow> 'z t_proc_scheme t_list result" where
  "init_process_list g = init_list (parallel g)"

text \<open>
  The loop of \<^verbatim>\<open>kill_processes\<close>.  Its result is the list of entries on which
  \<^verbatim>\<open>os_kill\<close> is called, in the order of the calls.
\<close>

function kill_from ::
  "string \<Rightarrow> 'z t_proc_scheme t_list \<Rightarrow> int \<Rightarrow> 'z t_proc_scheme list result" where
  "kill_from ident l i =
     (if i < l_len l then
        bindE (c_read_i (l_data l) i) (\<lambda>p.
        bindE (kill_from ident l (i + 1)) (\<lambda>ps.
        Inr (if strcmp (task_id p) ident = 0 then p # ps else ps)))
      else Inr [])"
  by pat_completeness auto
termination
  by (relation "measure (\<lambda>(ident, l, i). nat (l_len l - i))") auto

declare kill_from.simps [simp del]

definition kill_processes ::
  "string \<Rightarrow> 'z t_proc_scheme t_list \<Rightarrow> 'z t_proc_scheme list result" where
  "kill_processes ident l = kill_from ident l 0"

text \<open>The strings that \<^verbatim>\<open>free_process\<close> gives back.\<close>

definition free_process :: "'z t_proc_scheme \<Rightarrow> string list" where
  "free_process p = [outfile p, task_id p]"

section \<open>Correctness\<close>

lemma kill_from_spec:
  assumes "wf_list l" "is_cstring ident"
    "\<forall>(k, p) \<in> set (list_entries l). is_cstring (task_id p)" "0 \<le> i" "i \<le> l_len l"
  shows "kill_from ident l i =
    Inr (filter (\<lambda>p. task_id p = ident) (map snd (drop (nat i) (list_entries l))))"
  using assms
proof (induction ident l i rule: kill_from.induct)
  case (1 ident l i)
  note w = wf_listD [OF "1.prems"(1)]
  show ?case
  proof (cases "i < l_len l")
    case False
    then show ?thesis using "1.prems"(5) by (subst kill_from.simps) simp
  next
    case True
    let ?i = "nat i"
    have i: "?i < nat (l_len l)" using True "1.prems"(4) by simp
    then obtain p where p: "l_data l ! ?i = Some p" using w(8) by blast
    then have read: "c_read_i (l_data l) i = Inr p"
      using i w "1.prems"(4) by (simp add: c_simps)
    have e: "snd (list_entries l ! ?i) = p" using i p by (simp add: list_entries_nth)
    have "list_entries l ! ?i \<in> set (list_entries l)" using i by (intro nth_mem) simp
    with e have "is_cstring (task_id p)" using "1.prems"(3) by fastforce
    then have cmp: "strcmp (task_id p) ident = 0 \<longleftrightarrow> task_id p = ident"
      using "1.prems"(2) by (rule strcmp_eq_0)
    have "drop ?i (list_entries l) = list_entries l ! ?i # drop (nat (i + 1)) (list_entries l)"
      using i "1.prems"(4) by (simp add: Cons_nth_drop_Suc nat_add_distrib)
    with "1.IH" [OF True read] "1.prems" True read cmp e show ?thesis
      by (simp add: kill_from.simps [of ident l i])
  qed
qed

lemma kill_processes_spec:
  "wf_list l \<Longrightarrow> is_cstring ident \<Longrightarrow>
   \<forall>(k, p) \<in> set (list_entries l). is_cstring (task_id p) \<Longrightarrow>
   kill_processes ident l =
     Inr (filter (\<lambda>p. task_id p = ident) (map snd (list_entries l)))"
  using kill_from_spec [of l ident 0] wf_listD(5) [of l] by (simp add: kill_processes_def)

end
