(* ===== verification/C_Double.thy ===== *)
theory C_Double
  imports C_Prelude
begin

text \<open>
  The floating-point arithmetic the servers use for CPU times: values of type \<open>double\<close>
  between 0 and \<open>2^53\<close>, rounded to nearest with ties to even, and the \<^verbatim>\<open>%.2f\<close> and
  \<^verbatim>\<open>%f\<close> conversions of \<^verbatim>\<open>printf\<close>.  A pair \<open>(m, k)\<close> stands for the value \<open>m / 2^k\<close>.
\<close>

type_synonym dbl = "nat \<times> nat"

text \<open>The integer nearest to \<open>p / q\<close>.\<close>

definition round_even :: "nat \<Rightarrow> nat \<Rightarrow> nat" where
  "round_even p q =
     (let d = p div q; r = 2 * (p mod q)
      in if r < q then d else if r > q then Suc d else if even d then d else Suc d)"

text \<open>The least \<open>k\<close> from a start on for which \<open>p * 2^k / q\<close> has a 53-bit integer part.\<close>

function d_scale :: "nat \<Rightarrow> nat \<Rightarrow> nat \<Rightarrow> nat" where
  "d_scale p q k = (if p = 0 \<or> 2 ^ 52 * q \<le> p * 2 ^ k then k else d_scale p q (Suc k))"
  by pat_completeness auto
termination
proof (relation "measure (\<lambda>(p, q, k). 2 ^ 52 * q - p * 2 ^ k)")
  fix p q k :: nat
  assume "\<not> (p = 0 \<or> 2 ^ 52 * q \<le> p * 2 ^ k)"
  then have "p * 2 ^ k < 2 ^ 52 * q" "p * 2 ^ k < p * 2 ^ Suc k" by simp_all
  then show "((p, q, Suc k), p, q, k) \<in> measure (\<lambda>(p, q, k). 2 ^ 52 * q - p * 2 ^ k)"
    by (simp add: diff_less_mono2 del: power_Suc)
qed simp

declare d_scale.simps [simp del]

text \<open>The double nearest to \<open>p / q\<close>.\<close>

definition d_round :: "nat \<Rightarrow> nat \<Rightarrow> dbl" where
  "d_round p q = (let k = d_scale p q 0 in (round_even (p * 2 ^ k) q, k))"

text \<open>The double nearest to an integer of 64 bits.\<close>

definition d_of_uint64 :: "64 word \<Rightarrow> dbl" where
  "d_of_uint64 x =
     (let n = unat x; e = length (filter (\<lambda>i. 2 ^ (53 + i) \<le> n) [0..<11])
      in (round_even n (2 ^ e) * 2 ^ e, 0))"

definition d_add :: "dbl \<Rightarrow> dbl \<Rightarrow> dbl" where
  "d_add x y =
     (let k = max (snd x) (snd y)
      in d_round (fst x * 2 ^ (k - snd x) + fst y * 2 ^ (k - snd y)) (2 ^ k))"

text \<open>\<^verbatim>\<open>%.2f\<close> and \<^verbatim>\<open>%f\<close>: the digits of the value rounded to 2 or 6 decimals.\<close>

definition show_fixed :: "nat \<Rightarrow> dbl \<Rightarrow> string" where
  "show_fixed places x =
     (let c = round_even (fst x * 10 ^ places) (2 ^ snd x);
          frac = dec_digits (c mod 10 ^ places)
      in dec_digits (c div 10 ^ places) @ CHR ''.'' #
         replicate (places - length frac) CHR ''0'' @ frac)"

section \<open>Bounds\<close>

lemma round_even_le:
  assumes "p \<le> y * q" "0 < q"
  shows "round_even p q \<le> y"
proof (cases "p div q = y")
  case True
  with assms have "p mod q = 0"
    by (metis add_diff_cancel_left' div_mult_mod_eq le_antisym le_add1 mult.commute diff_self_eq_0)
  with True assms show ?thesis by (simp add: round_even_def)
next
  case False
  have "p div q \<le> y" using assms by (metis div_le_mono div_mult_self_is_m)
  with False have "Suc (p div q) \<le> y" by simp
  then show ?thesis by (auto simp: round_even_def Let_def)
qed

lemma round_even_near:
  assumes "0 < q"
  shows "2 * p \<le> 2 * (round_even p q * q) + q" "2 * (round_even p q * q) \<le> 2 * p + q"
proof -
  obtain d r where d: "p div q = d" "p mod q = r" by blast
  then have "p = d * q + r" "r < q" using assms div_mult_mod_eq [of p q] by auto
  then show "2 * p \<le> 2 * (round_even p q * q) + q" "2 * (round_even p q * q) \<le> 2 * p + q"
    by (simp_all add: round_even_def Let_def d)
qed

text \<open>\<open>d_le x n\<close>: the value of \<open>x\<close> is at most the integer \<open>n\<close>.\<close>

definition d_le :: "dbl \<Rightarrow> nat \<Rightarrow> bool" where
  "d_le x n \<longleftrightarrow> fst x \<le> n * 2 ^ snd x"

lemma d_round_le: "p \<le> n * q \<Longrightarrow> 0 < q \<Longrightarrow> d_le (d_round p q) n"
  by (auto simp: d_le_def d_round_def Let_def ac_simps intro!: round_even_le)

lemma d_add_le:
  assumes "d_le x a" "d_le y b"
  shows "d_le (d_add x y) (a + b)"
proof -
  let ?k = "max (snd x) (snd y)"
  have "fst x * 2 ^ (?k - snd x) \<le> a * 2 ^ snd x * 2 ^ (?k - snd x)"
    "fst y * 2 ^ (?k - snd y) \<le> b * 2 ^ snd y * 2 ^ (?k - snd y)"
    using assms by (simp_all add: d_le_def)
  then have "fst x * 2 ^ (?k - snd x) \<le> a * 2 ^ ?k" "fst y * 2 ^ (?k - snd y) \<le> b * 2 ^ ?k"
    by (simp_all add: mult.assoc flip: power_add)
  then show ?thesis
    by (auto simp: d_add_def Let_def add_mult_distrib intro!: d_round_le)
qed

lemma length_show_fixed:
  assumes "d_le x n" "n < 10 ^ k" "0 < k" "0 < places"
  shows "length (show_fixed places x) \<le> k + places + 1"
proof -
  let ?c = "round_even (fst x * 10 ^ places) (2 ^ snd x)"
  have "?c \<le> n * 10 ^ places"
    using assms(1) by (intro round_even_le) (auto simp: d_le_def algebra_simps)
  then have "?c div 10 ^ places \<le> n" by (metis div_le_mono div_mult_self_is_m zero_less_power zero_less_numeral)
  then have "length (dec_digits (?c div 10 ^ places)) \<le> k"
    using assms(2,3) by (intro length_dec_digits) auto
  moreover have "length (dec_digits (?c mod 10 ^ places)) \<le> places"
    using assms(4) by (intro length_dec_digits) auto
  ultimately show ?thesis by (simp add: show_fixed_def Let_def)
qed

lemma show_fixed_chars:
  "c \<in> set (show_fixed places x) \<Longrightarrow> is_digit c \<or> c = CHR ''.''"
  by (auto simp: show_fixed_def Let_def is_digit_def [of "CHR ''0''"]
      dest: dec_digits_are_digits split: if_splits)

end
