(* ===== verification/Server_Unix.thy ===== *)
theory Server_Unix
  imports Unix_Sys C_Readbuf C_Writebuf C_Arraylist C_Request C_Proc C_Double
begin

text \<open>
  The Unix implementation of the proof server, \<^verbatim>\<open>src/server/server-unix.c\<close>: the whole
  state of the process as one record, and one definition per function of the file.

  Client objects are mutable and are reached both from the table of clients and from
  local variables of the callers, so they live in an explicit store: the table holds
  addresses, and an access to an address that was freed is an error.  Requests and process
  entries are never changed after their creation and are values.
\<close>

unbundle bit_operations_syntax

section \<open>State\<close>

definition READ_ONCE :: nat where "READ_ONCE = 1024"
definition POLLIN :: "16 word" where "POLLIN = 1"
definition POLLOUT :: "16 word" where "POLLOUT = 4"
definition POLLERR :: "16 word" where "POLLERR = 8"
definition POLLHUP :: "16 word" where "POLLHUP = 16"
definition POLLNVAL :: "16 word" where "POLLNVAL = 32"
definition EINTR :: int where "EINTR = 4"
definition EAGAIN :: int where "EAGAIN = 11"
definition ENOENT :: int where "ENOENT = 2"

record t_client =
  cl_fd :: int
  cl_readbuf :: t_readbuf
  cl_writebuf :: t_writebuf

record pollfd =
  pfd :: int
  events :: "16 word"
  revents :: "16 word"

record server = sys +
  server_sock :: int
  poll_list :: "pollfd carray"
  poll_num :: int
  poll_len :: int
  clients :: "nat t_list option"
  current_dir :: string
  cpipe :: "int \<times> int"
  processes :: "unix_proc t_list option"
  queue :: "request t_queue option"
  heap :: "nat \<Rightarrow> t_client option"
  next_addr :: nat

type_synonym 'a srv = "(server, 'a) prog"

definition load_client :: "nat \<Rightarrow> t_client srv" where
  "load_client a s = (case heap s a of None \<Rightarrow> Inl (Use_after_free, s) | Some c \<Rightarrow> Inr (c, s))"

definition store_client :: "nat \<Rightarrow> t_client \<Rightarrow> unit srv" where
  "store_client a c =
     bindS (load_client a) (\<lambda>_. modify (\<lambda>s. s\<lparr>heap := (heap s)(a := Some c)\<rparr>))"

section \<open>Shutting down\<close>

text \<open>\<^verbatim>\<open>for (int i = 0; i < list_length(clients); i++) close(clients->data[i]->fd)\<close>\<close>

function close_clients_from :: "nat t_list \<Rightarrow> int \<Rightarrow> unit srv" where
  "close_clients_from l i =
     (if i < list_length l then
        bindS (lift (c_read_i (l_data l) i)) (\<lambda>a.
        bindS (load_client a) (\<lambda>c.
        bindS (sys_close (cl_fd c)) (\<lambda>_.
        close_clients_from l (i + 1))))
      else ret ())"
  by pat_completeness auto
termination
  by (relation "measure (\<lambda>(l, i). nat (list_length l - i))") auto

declare close_clients_from.simps [simp del]

definition logging_shutdown_prog :: "string \<Rightarrow> 'a srv" where
  "logging_shutdown_prog msg s = Inl (logging_shutdown msg s)"

definition shutdown_with_msg :: "string \<Rightarrow> 'a srv" where
  "shutdown_with_msg msg =
     bindS (gets server_sock) (\<lambda>sock.
     bindS (whenS (sock \<noteq> - 1) (sys_close sock)) (\<lambda>_.
     bindS (gets clients) (\<lambda>cl.
     bindS (case cl of None \<Rightarrow> ret () | Some l \<Rightarrow> close_clients_from l 0) (\<lambda>_.
     logging_shutdown_prog msg))))"

definition get_cur_dir :: "string srv" where
  "get_cur_dir = bindS next_answer (\<lambda>a.
     case a of Ans_cwd d \<Rightarrow> ret d | _ \<Rightarrow> stop No_answer)"

section \<open>The poll list\<close>

definition add_to_poll_list :: "int \<Rightarrow> 16 word \<Rightarrow> unit srv" where
  "add_to_poll_list sock ev =
     bindS (gets poll_num) (\<lambda>n.
     bindS (gets poll_len) (\<lambda>len.
     bindS (whenS (n = len)
       (bindS (lift (ck_int (len * 2))) (\<lambda>len'.
        bindS (gets poll_list) (\<lambda>pl.
        bindS (lift (c_realloc 8 pl (size_t_of len'))) (\<lambda>pl'.
        modify (\<lambda>s. s\<lparr>poll_len := len', poll_list := pl'\<rparr>)))))) (\<lambda>_.
     bindS (gets poll_list) (\<lambda>pl.
     bindS (lift (c_write_i pl n \<lparr>pfd = sock, events = ev, revents = 0\<rparr>)) (\<lambda>pl'.
     bindS (lift (ck_int (n + 1))) (\<lambda>n'.
     modify (\<lambda>s. s\<lparr>poll_list := pl', poll_num := n'\<rparr>)))))))"

text \<open>The index of the first entry of a descriptor.\<close>

function poll_lookup_from :: "pollfd carray \<Rightarrow> int \<Rightarrow> int \<Rightarrow> int \<Rightarrow> int option result" where
  "poll_lookup_from pl num fd i =
     (if i < num then
        bindE (c_read_i pl i) (\<lambda>e.
        if pfd e = fd then Inr (Some i) else poll_lookup_from pl num fd (i + 1))
      else Inr None)"
  by pat_completeness auto
termination
  by (relation "measure (\<lambda>(pl, num, fd, i). nat (num - i))") auto

declare poll_lookup_from.simps [simp del]

definition poll_list_lookup :: "int \<Rightarrow> int option srv" where
  "poll_list_lookup fd =
     bindS (gets poll_list) (\<lambda>pl.
     bindS (gets poll_num) (\<lambda>n.
     lift (poll_lookup_from pl n fd 0)))"

function poll_clean_from :: "pollfd carray \<Rightarrow> int \<Rightarrow> int \<Rightarrow> (pollfd carray \<times> int) result" where
  "poll_clean_from pl num i =
     (if i < num then
        bindE (c_read_i pl i) (\<lambda>e.
        if pfd e = - 1 then
          bindE (c_read_i pl (num - 1)) (\<lambda>e'.
          bindE (c_write_i pl i e') (\<lambda>pl'.
          poll_clean_from pl' (num - 1) i))
        else poll_clean_from pl num (i + 1))
      else Inr (pl, num))"
  by pat_completeness auto
termination
  by (relation "measure (\<lambda>(pl, num, i). nat (num - i))") auto

declare poll_clean_from.simps [simp del]

definition poll_list_clean :: "unit srv" where
  "poll_list_clean =
     bindS (gets poll_list) (\<lambda>pl.
     bindS (gets poll_num) (\<lambda>n.
     bindS (lift (poll_clean_from pl n 0)) (\<lambda>(pl', n').
     modify (\<lambda>s. s\<lparr>poll_list := pl', poll_num := n'\<rparr>))))"

definition poll_list_remove :: "int \<Rightarrow> unit srv" where
  "poll_list_remove fd =
     bindS (gets poll_list) (\<lambda>pl.
     bindS (gets poll_num) (\<lambda>n.
     bindS (lift (poll_lookup_from pl n fd 0)) (\<lambda>i.
     case i of
       None \<Rightarrow> ret ()
     | Some i \<Rightarrow>
         bindS (lift (c_read_i pl i)) (\<lambda>e.
         bindS (lift (c_write_i pl i (e\<lparr>pfd := - 1, revents := 0\<rparr>))) (\<lambda>pl'.
         modify (\<lambda>s. s\<lparr>poll_list := pl'\<rparr>))))))"

section \<open>Clients\<close>

definition open_temp_file :: "string \<Rightarrow> (int \<times> string) srv" where
  "open_temp_file dir =
     bindS (lift (c_malloc 1 (length dir + 12) :: char carray result)) (\<lambda>buf.
     let template = dir @ ''/why3'' @ ''XXXXXX'' in
     if length template + 1 \<le> length buf then sys_mkstemp template else stop Out_of_bounds)"

definition server_accept_client :: "unit srv" where
  "server_accept_client =
     bindS sys_accept (\<lambda>fd.
     bindS (whenS (fd = - 1) (shutdown_with_msg ''error accepting a client'')) (\<lambda>_.
     bindS (lift (init_readbuf READ_ONCE)) (\<lambda>rb.
     bindS (gets parallel) (\<lambda>par.
     bindS (lift (init_writebuf par)) (\<lambda>wb.
     bindS (gets next_addr) (\<lambda>a.
     bindS (modify (\<lambda>s. s\<lparr>next_addr := Suc a,
        heap := (heap s)(a := Some \<lparr>cl_fd = fd, cl_readbuf = rb, cl_writebuf = wb\<rparr>)\<rparr>)) (\<lambda>_.
     bindS (gets clients) (\<lambda>cl.
     bindS (deref cl) (\<lambda>l.
     bindS (lift (list_append l fd a)) (\<lambda>l'.
     bindS (modify (\<lambda>s. s\<lparr>clients := Some l'\<rparr>)) (\<lambda>_.
     add_to_poll_list fd POLLIN)))))))))))"

text \<open>The handler of \<^verbatim>\<open>SIGCHLD\<close>: it writes a byte to the pipe.\<close>

definition sigchld_handle :: "unit srv" where
  "sigchld_handle =
     bindS sys_call (\<lambda>(res, err).
     whenS (res = - 1 \<and> err \<noteq> EAGAIN \<and> err \<noteq> EINTR)
       (shutdown_with_msg ''error writing to pipe''))"

section \<open>Initialisation\<close>

text \<open>A call whose failure is fatal.\<close>

definition check_call :: "string \<Rightarrow> unit srv" where
  "check_call msg = bindS sys_call (\<lambda>(res, err).
     whenS (res = - 1) (shutdown_with_msg msg))"

definition setup_child_pipe :: "unit srv" where
  "setup_child_pipe =
     bindS next_answer (\<lambda>a.
     case a of
       Ans_pipe res r w \<Rightarrow>
         bindS (whenS (res = - 1) (shutdown_with_msg ''error creating pipe'')) (\<lambda>_.
         bindS (possible (\<lambda>s. 0 \<le> r \<and> 0 \<le> w \<and> r \<noteq> w \<and>
                  r \<notin> set (open_fds s) \<and> w \<notin> set (open_fds s))) (\<lambda>_.
         bindS (modify (\<lambda>s. s\<lparr>cpipe := (r, w), open_fds := r # w # open_fds s\<rparr>)) (\<lambda>_.
         bindS (check_call ''error getting flags on pipe'') (\<lambda>_.
         bindS (check_call ''error setting flags on pipe'') (\<lambda>_.
         bindS (check_call ''error getting flags on pipe'') (\<lambda>_.
         bindS (check_call ''error setting flags on pipe'') (\<lambda>_.
         bindS (check_call ''error installing signal handler'') (\<lambda>_.
         add_to_poll_list r POLLIN))))))))
     | _ \<Rightarrow> stop No_answer)"

text \<open>\<^verbatim>\<open>sizeof(struct sockaddr_un) - offsetof(struct sockaddr_un, sun_path)\<close> on Linux.\<close>

definition unix_path_max :: nat where
  "unix_path_max = 108"

text \<open>\<^verbatim>\<open>basename\<close>: the text after the last slash, trailing slashes removed.\<close>

definition c_basename :: "string \<Rightarrow> string" where
  "c_basename p =
     (let t = rev (dropWhile (\<lambda>c. c = CHR ''/'') (rev p))
      in if p = [] then ''.'' else if t = [] then ''/''
         else rev (takeWhile (\<lambda>c. c \<noteq> CHR ''/'') (rev t)))"

text \<open>The segments of \<^verbatim>\<open>server_init_listening\<close>: the directory of the socket, ...\<close>

definition enter_socket_dir :: "unit srv" where
  "enter_socket_dir =
     bindS get_cur_dir (\<lambda>dir.
     bindS (modify (\<lambda>s. s\<lparr>current_dir := dir\<rparr>)) (\<lambda>_.
     bindS (check_call ''error when opening current directory'') (\<lambda>_.
     check_call ''error when switching to socket directory'')))"

text \<open>... the log file and the tables, ...\<close>

definition open_log :: "unit srv" where
  "open_log =
     bindS (gets logging) (\<lambda>l.
     whenS l
       (bindS next_answer (\<lambda>a.
        case a of Ans_fopen ok \<Rightarrow> modify (init_logging ok) | _ \<Rightarrow> stop No_answer)))"

definition init_tables :: "int \<Rightarrow> unit srv" where
  "init_tables par =
     bindS (lift init_request_queue) (\<lambda>q.
     bindS (modify (\<lambda>s. s\<lparr>queue := Some q\<rparr>)) (\<lambda>_.
     bindS (lift (init_list par)) (\<lambda>cl.
     bindS (modify (\<lambda>s. s\<lparr>clients := Some cl\<rparr>)) (\<lambda>_.
     bindS (lift (ck_int (2 + par))) (\<lambda>len.
     bindS (lift (c_malloc 8 (size_t_of len))) (\<lambda>pl.
     modify (\<lambda>s. s\<lparr>poll_len := len, poll_list := pl, poll_num := 0\<rparr>)))))))"

text \<open>... the listening socket, and the way back.\<close>

definition open_socket :: "string \<Rightarrow> unit srv" where
  "open_socket filen =
     bindS (whenS (length filen + 1 > unix_path_max)
              (shutdown_with_msg ''basename of filename too long'')) (\<lambda>_.
     bindS sys_call (\<lambda>(sock, _).
     bindS (possible (\<lambda>s. sock = - 1 \<or> 0 \<le> sock \<and> sock \<notin> set (open_fds s))) (\<lambda>_.
     bindS (modify (\<lambda>s. s\<lparr>server_sock := sock,
        open_fds := (if sock = - 1 then [] else [sock]) @ open_fds s\<rparr>)) (\<lambda>_.
     bindS sys_call (\<lambda>(res, err).
     bindS (note_event (Ev_unlink filen)) (\<lambda>_.
     bindS (whenS (res = - 1 \<and> err \<noteq> ENOENT) (shutdown_with_msg ''error deleting socket'')) (\<lambda>_.
     bindS sys_call (\<lambda>(res, err).
     bindS (possible (\<lambda>_. sock = - 1 \<longrightarrow> res = - 1)) (\<lambda>_.
     whenS (res = - 1) (shutdown_with_msg ''error binding socket''))))))))))"

definition server_init_listening :: "string \<Rightarrow> int \<Rightarrow> unit srv" where
  "server_init_listening sockname par =
     bindS enter_socket_dir (\<lambda>_.
     bindS open_log (\<lambda>_.
     bindS (init_tables par) (\<lambda>_.
     bindS (open_socket (c_basename sockname)) (\<lambda>_.
     bindS (lift (ck_int (par * 2))) (\<lambda>_.
     bindS (check_call ''error listening on socket'') (\<lambda>_.
     bindS (check_call ''error when switching back to current directory'') (\<lambda>_.
     bindS (check_call ''error closing descriptor to current dir'') (\<lambda>_.
     bindS (gets server_sock) (\<lambda>sock.
     bindS (add_to_poll_list sock POLLIN) (\<lambda>_.
     bindS (gets (\<lambda>s. s)) (\<lambda>s.
     bindS (lift (init_process_list s)) (\<lambda>ps.
     bindS (modify (\<lambda>s. s\<lparr>processes := Some ps\<rparr>)) (\<lambda>_.
     setup_child_pipe)))))))))))))"

section \<open>Sending messages\<close>

definition queue_write :: "nat \<Rightarrow> string \<Rightarrow> unit srv" where
  "queue_write client msgbuf =
     bindS (load_client client) (\<lambda>c.
     bindS (lift (push_write_data (cl_writebuf c) msgbuf)) (\<lambda>wb.
     bindS (store_client client (c\<lparr>cl_writebuf := wb\<rparr>)) (\<lambda>_.
     bindS (poll_list_lookup (cl_fd c)) (\<lambda>entry.
     case entry of
       None \<Rightarrow> ret ()
     | Some i \<Rightarrow>
         bindS (gets poll_list) (\<lambda>pl.
         bindS (lift (c_read_i pl i)) (\<lambda>e.
         bindS (lift (c_write_i pl i (e\<lparr>events := events e OR POLLOUT\<rparr>))) (\<lambda>pl'.
         modify (\<lambda>s. s\<lparr>poll_list := pl'\<rparr>))))))))"

definition write_to_client :: "nat \<Rightarrow> int \<Rightarrow> unit srv" where
  "write_to_client client entry =
     bindS (load_client client) (\<lambda>c.
     bindS (lift (prepare_write (cl_writebuf c))) (\<lambda>(buf, need_write, wb).
     bindS (store_client client (c\<lparr>cl_writebuf := wb\<rparr>)) (\<lambda>_.
     bindS (sys_write (cl_fd c) buf need_write) (\<lambda>has_written.
     bindS (whenS (has_written \<noteq> - 1)
       (bindS (lift (have_written wb has_written)) (\<lambda>wb'.
        store_client client (c\<lparr>cl_writebuf := wb'\<rparr>)))) (\<lambda>_.
     bindS (load_client client) (\<lambda>c'.
     whenS (\<not> has_write_data (cl_writebuf c'))
       (bindS (gets poll_list) (\<lambda>pl.
        bindS (lift (c_read_i pl entry)) (\<lambda>e.
        bindS (lift (c_write_i pl entry (e\<lparr>events := events e AND NOT POLLOUT\<rparr>))) (\<lambda>pl'.
        modify (\<lambda>s. s\<lparr>poll_list := pl'\<rparr>)))))))))))"

text \<open>
  The message buffers: \<^verbatim>\<open>malloc\<close> is tested here, and \<^verbatim>\<open>snprintf\<close> stores at most
  \<open>len - 1\<close> characters and returns the length of the whole text, or a negative number when
  that length is not an \<open>int\<close>.  The comparisons with \<open>len\<close> are made in \<^verbatim>\<open>size_t\<close>.
\<close>

definition send_started_msg_to_client :: "nat \<Rightarrow> string \<Rightarrow> unit srv" where
  "send_started_msg_to_client client ident =
     (let len = length ident + 4;
          text = ''S;'' @ ident @ ''\<newline>'';
          used = size_t_of (snprintf_result text)
      in bindS (whenS (max_alloc \<le> len) (shutdown_with_msg ''error when allocating client msg'')) (\<lambda>_.
         bindS (whenS (used \<noteq> len - 1) (shutdown_with_msg ''message for client too long'')) (\<lambda>_.
         queue_write client (take (len - 1) text))))"

definition finished_text :: "string \<Rightarrow> int \<Rightarrow> dbl \<Rightarrow> bool \<Rightarrow> string \<Rightarrow> string" where
  "finished_text ident exitcode cpu_time timeout file =
     ''F;'' @ ident @ '';'' @ show_int exitcode @ '';'' @ show_fixed 2 cpu_time @ '';'' @
     (if timeout then ''1'' else ''0'') @ '';'' @ file @ ''\<newline>''"

definition send_msg_to_client ::
  "nat \<Rightarrow> string \<Rightarrow> int \<Rightarrow> dbl \<Rightarrow> bool \<Rightarrow> string \<Rightarrow> unit srv" where
  "send_msg_to_client client ident exitcode cpu_time timeout file =
     (let len = length ident + 3 + 23 + (length file + 1);
          text = finished_text ident exitcode cpu_time timeout file;
          used = size_t_of (snprintf_result text)
      in bindS (whenS (max_alloc \<le> len) (shutdown_with_msg ''error when allocating client msg'')) (\<lambda>_.
         bindS (whenS (used \<ge> len) (shutdown_with_msg ''message for client too long'')) (\<lambda>_.
         queue_write client (take (len - 1) text))))"

section \<open>Processes\<close>

text \<open>The argument vector and the calls of the child between \<^verbatim>\<open>fork\<close> and \<^verbatim>\<open>execvp\<close>.\<close>

fun copy_argv :: "string carray \<Rightarrow> string option carray \<Rightarrow> int \<Rightarrow> nat \<Rightarrow> string option carray result" where
  "copy_argv argv ua i 0 = Inr ua"
| "copy_argv argv ua i (Suc n) =
     bindE (c_read_i argv i) (\<lambda>a.
     bindE (c_write_i ua (i + 1) (Some a)) (\<lambda>ua.
     copy_argv argv ua (i + 1) n))"

definition unix_argv :: "string \<Rightarrow> int \<Rightarrow> string list \<Rightarrow> string option carray result" where
  "unix_argv cmd cnt argv =
     bindE (c_malloc 8 (size_t_of (cnt + 2))) (\<lambda>ua.
     bindE (c_write_i ua 0 (Some cmd)) (\<lambda>ua.
     bindE (c_write_i ua (cnt + 1) None) (\<lambda>ua.
     copy_argv (map Some argv) ua 0 (nat cnt))))"

definition child_plan ::
  "string \<Rightarrow> int \<Rightarrow> string list \<Rightarrow> bool \<Rightarrow> int \<Rightarrow> int \<Rightarrow> 32 word \<Rightarrow> string option carray \<Rightarrow>
   child_call list result" where
  "child_plan cmd cnt argv usestdin out timelimit memlimit ua =
     (let mem = unat (ucast memlimit * 1024 * 1024 :: 64 word);
          limits =
            (if timelimit > 0 then [C_setrlimit_cpu (nat timelimit) (nat timelimit)] else []) @
            (if memlimit > 0 then [C_setrlimit_as mem mem] else []) @
            (if timelimit > 0 \<or> memlimit > 0 then [C_setrlimit_core 0 0] else []);
          final = [C_dup2 out 1, C_dup2 out 2, C_execvp cmd (map the ua)]
      in if usestdin then
           bindE (c_read_i (map Some argv) cnt) (\<lambda>f.
           Inr (limits @ [C_open_stdin f] @ final))
         else Inr (limits @ final))"

definition create_process ::
  "string \<Rightarrow> int \<Rightarrow> string list \<Rightarrow> bool \<Rightarrow> int \<Rightarrow> int \<Rightarrow> 32 word \<Rightarrow> int srv" where
  "create_process cmd argc argv usestdin out timelimit memlimit =
     (let cnt = (if usestdin then argc - 1 else argc)
      in bindS (lift (unix_argv cmd cnt argv)) (\<lambda>ua.
         bindS (sys_fork (child_plan cmd cnt argv usestdin out timelimit memlimit ua)) (\<lambda>pid.
         bindS (whenS (pid = - 1) (shutdown_with_msg ''failed to fork'')) (\<lambda>_.
         ret pid))))"

definition cpu_seconds :: "nat \<Rightarrow> nat \<Rightarrow> dbl" where
  "cpu_seconds sec usec = d_add (d_round sec 1) (d_round usec 1000000)"

text \<open>One turn of the loop of \<^verbatim>\<open>handle_child_events\<close>, after \<^verbatim>\<open>wait3\<close> returned a child.\<close>

definition child_ended :: "int \<Rightarrow> wstatus \<Rightarrow> nat \<Rightarrow> nat \<Rightarrow> unit srv" where
  "child_ended pid status sec usec =
     (let cpu_time = cpu_seconds sec usec;
          exit_code = (case status of Signaled n \<Rightarrow> n | Exited n \<Rightarrow> n | Other_status \<Rightarrow> 1);
          is_timeout = (case status of Signaled n \<Rightarrow> True | _ \<Rightarrow> False)
      in bindS (gets processes) (\<lambda>ps.
         bindS (deref ps) (\<lambda>pl.
         bindS (lift (list_lookup pl pid)) (\<lambda>child.
         bindS (lift (list_remove pl pid)) (\<lambda>pl'.
         bindS (modify (\<lambda>s. s\<lparr>processes := Some pl'\<rparr>)) (\<lambda>_.
         bindS (deref child) (\<lambda>child.
         bindS (gets clients) (\<lambda>cl.
         bindS (deref cl) (\<lambda>cl.
         bindS (lift (list_lookup cl (client_key child))) (\<lambda>client.
         case client of
           None \<Rightarrow> ret ()
         | Some a \<Rightarrow> send_msg_to_client a (task_id child) exit_code cpu_time is_timeout
                       (outfile child)))))))))))"

definition run_request :: "request \<Rightarrow> unit srv" where
  "run_request r =
     bindS (gets clients) (\<lambda>cl.
     bindS (deref cl) (\<lambda>cl.
     bindS (lift (list_lookup cl (req_key r))) (\<lambda>client.
     case client of
       None \<Rightarrow> ret ()
     | Some client \<Rightarrow>
         bindS (gets current_dir) (\<lambda>dir.
         bindS (open_temp_file dir) (\<lambda>(out_descr, file).
         bindS (case req_run r of None \<Rightarrow> stop Uninit_read | Some f \<Rightarrow> ret f) (\<lambda>f.
         bindS (create_process (r_cmd f) (r_numargs f) (r_args f) (r_usestdin f) out_descr
                  (r_timeout f) (r_memlimit f)) (\<lambda>pid.
         bindS (sys_close out_descr) (\<lambda>_.
         bindS (gets processes) (\<lambda>ps.
         bindS (deref ps) (\<lambda>pl.
         bindS (lift (list_append pl pid \<lparr>client_key = req_key r, task_id = req_id r,
                                         outfile = file, proc_id = pid\<rparr>)) (\<lambda>pl'.
         bindS (modify (\<lambda>s. s\<lparr>processes := Some pl'\<rparr>)) (\<lambda>_.
         send_started_msg_to_client client (req_id r)))))))))))))"

section \<open>Frames\<close>

text \<open>
  What the operations leave alone: none of the operations on messages and processes adds
  entries to the poll list, touches the queue of waiting requests or adds kernel answers.
\<close>

definition quiet :: "'a srv \<Rightarrow> bool" where
  "quiet m \<longleftrightarrow> keeps poll_num m \<and> keeps queue m \<and> nongrowing (\<lambda>s. int (length (answers s))) m"

lemma quietD:
  assumes "quiet m" "m s = Inr (a, s')"
  shows "poll_num s' = poll_num s" "queue s' = queue s" "length (answers s') \<le> length (answers s)"
  using assms unfolding quiet_def by (auto dest: keepsD nongrowingD)

lemma quiet_combinators [frame_intros]:
  "quiet (ret a)" "quiet (stop e)" "quiet (lift r)" "quiet (gets g)" "quiet (deref p)"
  "quiet m \<Longrightarrow> (\<And>a. quiet (k a)) \<Longrightarrow> quiet (bindS m k)"
  "(b \<Longrightarrow> quiet n) \<Longrightarrow> (\<not> b \<Longrightarrow> quiet n') \<Longrightarrow> quiet (if b then n else n')"
  "(b \<Longrightarrow> quiet w) \<Longrightarrow> quiet (whenS b w)"
  unfolding quiet_def by (auto intro!: frame_intros)

lemma quiet_cases [frame_intros]:
  "(x = None \<Longrightarrow> quiet m) \<Longrightarrow> (\<And>y. x = Some y \<Longrightarrow> quiet (k y)) \<Longrightarrow>
     quiet (case x of None \<Rightarrow> m | Some y \<Rightarrow> k y)"
  "(\<And>a b. p = (a, b) \<Longrightarrow> quiet (h a b)) \<Longrightarrow> quiet (case p of (a, b) \<Rightarrow> h a b)"
  by (cases x; simp) (cases p; simp)

lemma quiet_modify [frame_intros]:
  "(\<And>s. poll_num (u s) = poll_num s) \<Longrightarrow> (\<And>s. queue (u s) = queue s) \<Longrightarrow>
   (\<And>s. length (answers (u s)) \<le> length (answers s)) \<Longrightarrow> quiet (modify u)"
  unfolding quiet_def by (auto intro!: frame_intros)

lemma quiet_sys [frame_intros]:
  "quiet next_answer" "quiet (note_event e)" "quiet (possible p)" "quiet sys_call"
  "quiet (sys_close fd)" "quiet (sys_mkstemp t)" "quiet (sys_fork plan)" "quiet (sys_read n)"
  "quiet (sys_write fd buf m)" "quiet sys_wait3" "quiet sys_accept"
  by (auto simp: quiet_def keeps_def nongrowing_def sys_defs bindS_eq_Inr
      split: list.splits answer.splits if_splits option.splits)

lemma quiet_heap [frame_intros]: "quiet (load_client a)" "quiet (store_client a c)"
  by (auto simp: quiet_def keeps_def nongrowing_def load_client_def store_client_def bindS_eq_Inr
      split: option.splits)

lemma quiet_close_clients [frame_intros]: "quiet (close_clients_from l i)"
  by (induction l i rule: close_clients_from.induct)
    (subst close_clients_from.simps, auto intro!: frame_intros)

lemma quiet_shutdown [frame_intros]: "quiet (shutdown_with_msg msg)"
  by (auto simp: quiet_def keeps_def nongrowing_def shutdown_with_msg_def logging_shutdown_prog_def
      bindS_eq_Inr)

lemma quiet_messages [frame_intros]:
  "quiet (poll_list_lookup fd)" "quiet (poll_list_remove fd)" "quiet (queue_write client msg)"
  "quiet (write_to_client client i)" "quiet (open_temp_file dir)"
  "quiet (send_started_msg_to_client client ident)"
  "quiet (send_msg_to_client client ident code cpu timeout file)"
  by (auto simp: poll_list_lookup_def poll_list_remove_def queue_write_def write_to_client_def
      open_temp_file_def send_started_msg_to_client_def send_msg_to_client_def Let_def
      intro!: frame_intros)

lemma quiet_processes [frame_intros]:
  "quiet (create_process cmd argc argv usestdin out timelimit memlimit)"
  "quiet (child_ended pid status sec usec)" "quiet (run_request r)"
  by (auto simp: create_process_def child_ended_def run_request_def Let_def intro!: frame_intros)

section \<open>Handling events\<close>

function handle_child_events :: "unit srv" where
  "handle_child_events s =
     bindS sys_wait3 (\<lambda>w t.
       if fst w \<le> 0 then Inr ((), t)
       else bindS (child_ended (fst w) (fst (snd w)) (fst (snd (snd w))) (snd (snd (snd w))))
              (\<lambda>_ u. handle_child_events u) t) s"
  by pat_completeness auto
termination
  by (relation "measure (\<lambda>s. length (answers s))")
    (auto dest!: sys_wait3_shorter quietD(3) [OF quiet_processes(2)])

declare handle_child_events.simps [simp del]

text \<open>The newline scanner of \<^verbatim>\<open>handle_msg\<close>.\<close>

function find_newline :: "char carray \<Rightarrow> int \<Rightarrow> int \<Rightarrow> int result" where
  "find_newline buf mx cur =
     (if cur < mx then
        bindE (c_read_i buf cur) (\<lambda>c.
        if c = CHR ''\<newline>'' then Inr cur else find_newline buf mx (cur + 1))
      else Inr cur)"
  by pat_completeness auto
termination
  by (relation "measure (\<lambda>(buf, mx, cur). nat (mx - cur))") auto

declare find_newline.simps [simp del]

lemma find_newline_ge: "find_newline buf mx cur = Inr c \<Longrightarrow> cur \<le> c"
proof (induction buf mx cur rule: find_newline.induct)
  case (1 buf mx cur)
  from "1.prems" show ?case
    by (subst (asm) find_newline.simps) (auto simp: bindE_eq_Inr split: if_splits dest: "1.IH")
qed

primrec send_kills :: "unix_proc list \<Rightarrow> unit srv" where
  "send_kills [] = ret ()"
| "send_kills (p # ps) = bindS (note_event (Ev_kill (proc_id p))) (\<lambda>_. send_kills ps)"

definition log_prog :: "string \<Rightarrow> unit srv" where
  "log_prog msg = lift_state (\<lambda>s. bindE (log_msg (Inr msg) s) (\<lambda>s'. Inr ((), s')))"

text \<open>What \<^verbatim>\<open>handle_msg\<close> does with a parsed request.\<close>

definition handle_request :: "request \<Rightarrow> unit srv" where
  "handle_request r =
     (case req_type r of
        REQ_RUN \<Rightarrow>
          bindS (gets processes) (\<lambda>ps.
          bindS (deref ps) (\<lambda>pl.
          bindS (gets parallel) (\<lambda>par.
          if list_length pl < par then run_request r
          else
            bindS (gets queue) (\<lambda>q.
            bindS (deref q) (\<lambda>q.
            bindS (lift (queue_push q r)) (\<lambda>q'.
            modify (\<lambda>s. s\<lparr>queue := Some q'\<rparr>)))))))
      | REQ_INTERRUPT \<Rightarrow>
          bindS (log_prog (''Why3 server: removing id '' @ [CHR 0x27] @ req_id r @
                   [CHR 0x27] @ '' from queue'')) (\<lambda>_.
          bindS (gets queue) (\<lambda>q.
          bindS (deref q) (\<lambda>q.
          bindS (lift (remove_from_queue (req_id r) q)) (\<lambda>q'.
          bindS (modify (\<lambda>s. s\<lparr>queue := Some q'\<rparr>)) (\<lambda>_.
          bindS (gets processes) (\<lambda>ps.
          bindS (deref ps) (\<lambda>pl.
          bindS (lift (kill_processes (req_id r) pl)) (\<lambda>killed.
          send_kills killed)))))))))"

text \<open>One line: parse it and act on the request, if there is one.\<close>

definition handle_line :: "char carray \<Rightarrow> int \<Rightarrow> int \<Rightarrow> unit srv" where
  "handle_line buf len key =
     bindS (lift_state (parse_request buf len key)) (\<lambda>r.
     case r of None \<Rightarrow> ret () | Some r \<Rightarrow> handle_request r)"

function handle_lines :: "char carray \<Rightarrow> int \<Rightarrow> int \<Rightarrow> int \<Rightarrow> int \<Rightarrow> int srv" where
  "handle_lines buf key mx cur old s =
     (if cur < mx then
        bindS (lift (find_newline buf mx cur)) (\<lambda>c t.
          if c = mx then Inr (old, t)
          else bindS (handle_line (drop (nat old) buf) (c - old) key)
                 (\<lambda>_ u. handle_lines buf key mx (c + 1) (c + 1) u) t) s
      else Inr (old, s))"
  by pat_completeness auto
termination
  by (relation "measure (\<lambda>(buf, key, mx, cur, old, s). nat (mx - cur))")
    (auto simp: lift_eq_Inr dest!: find_newline_ge)

declare handle_lines.simps [simp del]

definition handle_msg :: "nat \<Rightarrow> int \<Rightarrow> unit srv" where
  "handle_msg client key =
     bindS (load_client client) (\<lambda>c.
     let mx = c_int (int (rb_len (cl_readbuf c)))
     in bindS (handle_lines (rb_data (cl_readbuf c)) key mx 0 0) (\<lambda>old.
        whenS (old > 0)
          (bindS (load_client client) (\<lambda>c.
           bindS (lift (have_taken (cl_readbuf c) (size_t_of old))) (\<lambda>rb.
           store_client client (c\<lparr>cl_readbuf := rb\<rparr>))))))"

definition shutdown_server :: "unit srv" where
  "shutdown_server =
     bindS (gets socketname) (\<lambda>name.
     bindS (note_event (Ev_unlink (case name of None \<Rightarrow> [] | Some n \<Rightarrow> n))) (\<lambda>_.
     shutdown_with_msg ''last client disconnected''))"

definition close_client :: "nat \<Rightarrow> unit srv" where
  "close_client client =
     bindS (load_client client) (\<lambda>c.
     bindS (gets clients) (\<lambda>cl.
     bindS (deref cl) (\<lambda>cl.
     bindS (lift (list_remove cl (cl_fd c))) (\<lambda>cl'.
     bindS (modify (\<lambda>s. s\<lparr>clients := Some cl'\<rparr>)) (\<lambda>_.
     bindS (poll_list_remove (cl_fd c)) (\<lambda>_.
     bindS (lift (free_writebuf (cl_writebuf c))) (\<lambda>_.
     bindS (sys_close (cl_fd c)) (\<lambda>_.
     bindS (modify (\<lambda>s. s\<lparr>heap := (heap s)(client := None)\<rparr>)) (\<lambda>_.
     bindS (gets single_client) (\<lambda>single.
     whenS (single \<and> list_is_empty cl') shutdown_server))))))))))"

text \<open>What \<^verbatim>\<open>read_on_client\<close> does after the call of \<^verbatim>\<open>read\<close>.\<close>

definition read_result :: "nat \<Rightarrow> t_client \<Rightarrow> nat \<Rightarrow> t_readbuf \<Rightarrow> string option \<Rightarrow> unit srv" where
  "read_result client c off rb res =
     (case res of
        None \<Rightarrow> ret ()
      | Some bytes \<Rightarrow>
          if bytes = [] then close_client client
          else
            bindS (lift (c_store (rb_data rb) off bytes)) (\<lambda>data.
            bindS (lift (have_read (rb\<lparr>rb_data := data\<rparr>) (length bytes))) (\<lambda>rb'.
            bindS (store_client client (c\<lparr>cl_readbuf := rb'\<rparr>)) (\<lambda>_.
            handle_msg client (cl_fd c)))))"

definition read_on_client :: "nat \<Rightarrow> unit srv" where
  "read_on_client client =
     bindS (load_client client) (\<lambda>c.
     bindS (lift (prepare_read (cl_readbuf c) READ_ONCE)) (\<lambda>(off, rb).
     bindS (store_client client (c\<lparr>cl_readbuf := rb\<rparr>)) (\<lambda>_.
     bindS (sys_read READ_ONCE) (\<lambda>res.
     read_result client c off rb res))))"

section \<open>The main loop\<close>

definition pop_request :: "request srv" where
  "pop_request =
     bindS (gets queue) (\<lambda>q.
     bindS (deref q) (\<lambda>q.
     bindS (lift (queue_pop q)) (\<lambda>(r, q').
     bindS (modify (\<lambda>s. s\<lparr>queue := Some q'\<rparr>)) (\<lambda>_.
     ret r))))"

definition can_schedule :: "bool srv" where
  "can_schedule =
     bindS (gets processes) (\<lambda>ps.
     bindS (deref ps) (\<lambda>pl.
     bindS (gets parallel) (\<lambda>par.
     if list_length pl < par then
       bindS (gets queue) (\<lambda>q.
       bindS (deref q) (\<lambda>q.
       ret (\<not> queue_is_empty q)))
     else ret False)))"

definition waiting :: "server \<Rightarrow> nat" where
  "waiting s = (case queue s of None \<Rightarrow> 0 | Some q \<Rightarrow> unat (q_len q))"

lemma can_schedule_Inr:
  assumes "can_schedule s = Inr (b, s')"
  shows "s' = s" "b \<Longrightarrow> \<exists>pl q. processes s = Some pl \<and> queue s = Some q \<and>
    list_length pl < parallel s \<and> \<not> queue_is_empty q"
  using assms
  by (cases "processes s"; cases "queue s"; auto simp: can_schedule_def split: if_splits)+

lemma pop_request_waiting:
  "pop_request s = Inr (r, s') \<Longrightarrow> waiting s' < waiting s"
  by (cases "queue s") (auto simp: pop_request_def bindS_eq_Inr lift_eq_Inr waiting_def queue_pop_len)

lemma run_request_waiting: "run_request r s = Inr (u, s') \<Longrightarrow> waiting s' = waiting s"
  using quietD(2) [OF quiet_processes(3)] by (auto simp: waiting_def)

function schedule_new_jobs :: "unit srv" where
  "schedule_new_jobs s =
     bindS can_schedule (\<lambda>b t.
       if b then
         bindS pop_request (\<lambda>r.
         bindS (run_request r) (\<lambda>_ u.
         schedule_new_jobs u)) t
       else Inr ((), t)) s"
  by pat_completeness auto
termination
  by (relation "measure waiting")
    (auto dest!: can_schedule_Inr(1) pop_request_waiting run_request_waiting)

declare schedule_new_jobs.simps [simp del]

text \<open>
  What \<^verbatim>\<open>poll\<close> may report: the events asked for and the three error conditions, nothing for
  a negative descriptor, and nothing but readiness for reading on a listening socket.
\<close>

definition poll_ok :: "int \<Rightarrow> pollfd option \<Rightarrow> 16 word \<Rightarrow> bool" where
  "poll_ok sock cell r =
     (case cell of
        None \<Rightarrow> True
      | Some e \<Rightarrow>
          if pfd e < 0 then r = 0
          else r AND NOT (events e OR POLLERR OR POLLHUP OR POLLNVAL) = 0 \<and>
               (pfd e = sock \<longrightarrow> r = 0 \<or> r = POLLIN))"

definition set_revents :: "16 word list \<Rightarrow> pollfd carray \<Rightarrow> pollfd carray" where
  "set_revents rs pl =
     map2 (\<lambda>c r. map_option (\<lambda>e. e\<lparr>revents := r\<rparr>) c) (take (length rs) pl) rs @ drop (length rs) pl"

definition sys_poll :: "(int \<times> int) srv" where
  "sys_poll = bindS next_answer (\<lambda>a.
     case a of
       Ans_poll res err rs \<Rightarrow>
         if res = - 1 then ret (res, err)
         else bindS (possible (\<lambda>s. 0 \<le> res \<and> int (length rs) = poll_num s \<and>
                 list_all2 (poll_ok (server_sock s)) (take (length rs) (poll_list s)) rs)) (\<lambda>_.
              bindS (modify (\<lambda>s. s\<lparr>poll_list := set_revents rs (poll_list s)\<rparr>)) (\<lambda>_.
              ret (res, err)))
     | _ \<Rightarrow> stop No_answer)"

lemma sys_poll_shorter:
  "sys_poll s = Inr (p, s') \<Longrightarrow> length (answers s') < length (answers s)"
  by (auto simp: sys_poll_def sys_defs bindS_eq_Inr split: list.splits answer.splits if_splits)

text \<open>The two loops that repeat an interrupted call.\<close>

function poll_wait :: "int srv" where
  "poll_wait s =
     bindS sys_poll (\<lambda>p t.
       if fst p = - 1 \<and> snd p = EINTR then poll_wait t else Inr (fst p, t)) s"
  by pat_completeness auto
termination
  by (relation "measure (\<lambda>s. length (answers s))") (auto dest: sys_poll_shorter)

function read_pipe :: "int srv" where
  "read_pipe s =
     bindS sys_call (\<lambda>p t.
       if fst p = - 1 \<and> snd p = EINTR then read_pipe t else Inr (fst p, t)) s"
  by pat_completeness auto
termination
  by (relation "measure (\<lambda>s. length (answers s))") (auto dest: sys_call_shorter)

declare poll_wait.simps [simp del] read_pipe.simps [simp del]

text \<open>The body of the loop over the poll list.\<close>

definition client_event :: "nat \<Rightarrow> int \<Rightarrow> 16 word \<Rightarrow> unit srv" where
  "client_event client i ev =
     (if ev AND POLLERR \<noteq> 0 then close_client client
      else if ev AND POLLOUT \<noteq> 0 then write_to_client client i
      else if ev AND POLLIN \<noteq> 0 then read_on_client client
      else ret ())"

definition poll_entry :: "int \<Rightarrow> unit srv" where
  "poll_entry i =
     bindS (gets poll_list) (\<lambda>pl.
     bindS (lift (c_read_i pl i)) (\<lambda>cur.
     if revents cur = 0 then ret ()
     else
       bindS (gets cpipe) (\<lambda>pipe.
       if pfd cur = fst pipe then
         bindS read_pipe (\<lambda>res.
         bindS (whenS (res = - 1) (shutdown_with_msg (''call to read shouldn'' @ [CHR 0x27] @ ''t fail''))) (\<lambda>_.
         handle_child_events))
       else
         bindS (gets server_sock) (\<lambda>sock.
         if pfd cur = sock then
           bindS (lift (c_assert (revents cur = POLLIN))) (\<lambda>_. server_accept_client)
         else
           bindS (gets clients) (\<lambda>cl.
           bindS (deref cl) (\<lambda>cl.
           bindS (lift (list_lookup cl (pfd cur))) (\<lambda>client.
           case client of None \<Rightarrow> ret () | Some client \<Rightarrow> client_event client i (revents cur))))))))"

section \<open>Termination of the main loop\<close>

text \<open>
  Reading a line can put requests in the queue, and accepting a client adds an entry to
  the poll list, but the latter uses up an answer: the number of entries plus the number
  of remaining answers does not grow.
\<close>

definition budget :: "server \<Rightarrow> int" where
  "budget s = poll_num s + int (length (answers s))"

definition bounded :: "'a srv \<Rightarrow> bool" where
  "bounded m \<longleftrightarrow> nongrowing budget m \<and> nongrowing (\<lambda>s. int (length (answers s))) m"

lemma boundedD:
  assumes "bounded m" "m s = Inr (a, s')"
  shows "budget s' \<le> budget s" "length (answers s') \<le> length (answers s)"
  using assms unfolding bounded_def by (auto dest: nongrowingD)

lemma bounded_quiet: "quiet m \<Longrightarrow> bounded m"
  using quietD [of m] unfolding bounded_def nongrowing_def budget_def by fastforce

lemma bounded_bind:
  "bounded m \<Longrightarrow> (\<And>a. bounded (k a)) \<Longrightarrow> bounded (bindS m k)"
  unfolding bounded_def by (auto intro: frame_intros)

lemma bounded_cases:
  "(b \<Longrightarrow> bounded n) \<Longrightarrow> (\<not> b \<Longrightarrow> bounded n') \<Longrightarrow> bounded (if b then n else n')"
  "(b \<Longrightarrow> bounded w) \<Longrightarrow> bounded (whenS b w)"
  "(x = None \<Longrightarrow> bounded m) \<Longrightarrow> (\<And>y. x = Some y \<Longrightarrow> bounded (k y)) \<Longrightarrow>
     bounded (case x of None \<Rightarrow> m | Some y \<Rightarrow> k y)"
  "(\<And>a b. p = (a, b) \<Longrightarrow> bounded (h a b)) \<Longrightarrow> bounded (case p of (a, b) \<Rightarrow> h a b)"
  by (simp_all split: option.splits prod.splits)
    (cases b; simp add: bounded_quiet frame_intros)

lemma bounded_modify:
  "(\<And>s. poll_num (u s) = poll_num s) \<Longrightarrow> (\<And>s. length (answers (u s)) \<le> length (answers s)) \<Longrightarrow>
   bounded (modify u)"
  by (auto simp: bounded_def nongrowing_def budget_def)

lemmas bounded_basic = quiet_combinators(1-5) [THEN bounded_quiet]

lemma shutdown_Inr [simp]: "shutdown_with_msg msg s \<noteq> Inr x"
  by (auto simp: shutdown_with_msg_def logging_shutdown_prog_def bindS_eq_Inr)

lemma add_to_poll_list_Inr:
  "add_to_poll_list fd ev s = Inr (u, s') \<Longrightarrow>
     poll_num s' = poll_num s + 1 \<and> answers s' = answers s"
  by (auto simp: add_to_poll_list_def bindS_eq_Inr lift_eq_Inr whenS_def ck_int_def split: if_splits)

lemma sys_accept_Inr:
  "sys_accept s = Inr (fd, s') \<Longrightarrow>
     poll_num s' = poll_num s \<and> length (answers s') < length (answers s)"
  by (auto simp: sys_defs bindS_eq_Inr split: list.splits answer.splits if_splits)

lemma bounded_accept: "bounded server_accept_client"
  by (auto simp: bounded_def nongrowing_def budget_def server_accept_client_def bindS_eq_Inr
      lift_eq_Inr whenS_def deref_def
      dest!: add_to_poll_list_Inr sys_accept_Inr split: if_splits option.splits)

lemma frames_bounded:
  assumes "\<And>s a s'. f s = Inr (a, s') \<Longrightarrow> s' = s\<lparr>logfile := logfile s', parallel := parallel s'\<rparr>"
  shows "bounded (lift_state f)"
proof -
  have "poll_num s' = poll_num s \<and> answers s' = answers s" if "f s = Inr (a, s')" for s a s'
    by (subst (1 2) assms [OF that]) simp
  then show ?thesis
    by (fastforce simp: bounded_def nongrowing_def budget_def lift_state_eq_Inr)
qed

lemma quiet_send_kills [frame_intros]: "quiet (send_kills ps)"
  by (induction ps) (simp_all only: send_kills.simps quiet_combinators quiet_sys)

lemmas bounded_intros = bounded_bind bounded_cases bounded_basic bounded_modify bounded_accept
  quiet_processes [THEN bounded_quiet] quiet_send_kills [THEN bounded_quiet]
  quiet_messages [THEN bounded_quiet] quiet_heap [THEN bounded_quiet]
  quiet_sys [THEN bounded_quiet] quiet_shutdown [THEN bounded_quiet]

lemma bounded_handle_request: "bounded (handle_request r)"
  unfolding handle_request_def log_prog_def
  by (cases "req_type r") (auto intro!: bounded_intros frames_bounded log_prog_frame)

lemma bounded_handle_line: "bounded (handle_line buf len key)"
  unfolding handle_line_def
  by (intro bounded_intros frames_bounded bounded_handle_request) (rule parse_request_frame)

lemma handle_lines_bounded:
  "handle_lines buf key mx cur old s = Inr (a, s') \<Longrightarrow>
     budget s' \<le> budget s \<and> length (answers s') \<le> length (answers s)"
proof (induction buf key mx cur old s rule: handle_lines.induct)
  case (1 buf key mx cur old s)
  show ?case
    using "1.prems" "1.IH" boundedD [OF bounded_handle_line]
    by (subst (asm) handle_lines.simps)
      (fastforce simp: bindS_eq_Inr lift_eq_Inr split: if_splits)
qed

lemma bounded_handle_lines: "bounded (handle_lines buf key mx cur old)"
  using handle_lines_bounded by (auto simp: bounded_def nongrowing_def)

lemma bounded_close_client: "bounded (close_client a)"
  unfolding close_client_def shutdown_server_def
  by (auto intro!: bounded_intros)

lemma bounded_read_on_client: "bounded (read_on_client a)"
  unfolding read_on_client_def read_result_def handle_msg_def Let_def
  by (auto intro!: bounded_intros bounded_close_client bounded_handle_lines)

lemma read_pipe_quiet: "quiet read_pipe"
proof -
  have "read_pipe s = Inr (a, s') \<Longrightarrow> poll_num s' = poll_num s \<and> queue s' = queue s \<and>
    length (answers s') \<le> length (answers s)" for s a s'
  proof (induction s rule: read_pipe.induct)
    case (1 s)
    show ?case
      using "1.prems" "1.IH" quietD [OF quiet_sys(4)]
      by (subst (asm) read_pipe.simps) (fastforce simp: bindS_eq_Inr split: if_splits)
  qed
  then show ?thesis by (auto simp: quiet_def keeps_def nongrowing_def)
qed

lemma handle_child_events_quiet: "quiet handle_child_events"
proof -
  have "handle_child_events s = Inr (a, s') \<Longrightarrow> poll_num s' = poll_num s \<and> queue s' = queue s \<and>
    length (answers s') \<le> length (answers s)" for s a s'
  proof (induction s rule: handle_child_events.induct)
    case (1 s)
    show ?case
      using "1.prems" "1.IH" quietD [OF quiet_sys(10)] quietD [OF quiet_processes(2)]
      by (subst (asm) handle_child_events.simps) (fastforce simp: bindS_eq_Inr split: if_splits)
  qed
  then show ?thesis by (auto simp: quiet_def keeps_def nongrowing_def)
qed

lemma bounded_poll_entry: "bounded (poll_entry i)"
  unfolding poll_entry_def client_event_def
  by (auto intro!: bounded_intros bounded_close_client bounded_read_on_client
      bounded_quiet [OF handle_child_events_quiet] bounded_quiet [OF read_pipe_quiet])

section \<open>The program\<close>

function poll_loop :: "int \<Rightarrow> unit srv" where
  "poll_loop i s =
     (if i < poll_num s then bindS (poll_entry i) (\<lambda>_ t. poll_loop (i + 1) t) s
      else Inr ((), s))"
  by pat_completeness auto
termination
proof (relation "measure (\<lambda>(i, s). nat (budget s - i))")
  fix i s a t
  assume "i < poll_num s" "poll_entry i s = Inr (a, t)"
  with boundedD(1) [OF bounded_poll_entry] have "budget t \<le> budget s" "i < budget s"
    by (auto simp: budget_def)
  then show "((i + 1, t), (i, s)) \<in> measure (\<lambda>(i, s). nat (budget s - i))"
    by simp
qed simp

declare poll_loop.simps [simp del]

text \<open>One turn of the endless loop of \<^verbatim>\<open>main\<close>.\<close>

definition main_turn :: "unit srv" where
  "main_turn =
     bindS schedule_new_jobs (\<lambda>_.
     bindS poll_list_clean (\<lambda>_.
     bindS poll_wait (\<lambda>res.
     bindS (whenS (res = - 1) (shutdown_with_msg ''call to poll failed'')) (\<lambda>_.
     poll_loop 0))))"

text \<open>The values of the global variables when \<^verbatim>\<open>main\<close> starts, and the answers to come.\<close>

definition init_server :: "answer list \<Rightarrow> server" where
  "init_server as =
     \<lparr>parallel = 1, socketname = None, logging = False, single_client = False, logfile = None,
      answers = as, open_fds = [], children = [], trace = [],
      server_sock = - 1, poll_list = [], poll_num = 0, poll_len = 0, clients = None,
      current_dir = [], cpipe = (0, 0), processes = None, queue = None,
      heap = (\<lambda>_. None), next_addr = 0\<rparr>"

text \<open>
  The start of \<^verbatim>\<open>main\<close>, before its loop.  The options are given as the sequence of results of
  \<^verbatim>\<open>getopt_long\<close>, with the final \<^verbatim>\<open>optind\<close>.
\<close>

definition main_init :: "(string \<Rightarrow> bool) \<Rightarrow> (int \<times> string) list \<Rightarrow> int \<Rightarrow> int \<Rightarrow> unit srv" where
  "main_init einval os optind argc =
     bindS (lift_state (\<lambda>s. bindE (parse_options einval os optind argc s) (\<lambda>s'. Inr ((), s')))) (\<lambda>_.
     bindS (gets socketname) (\<lambda>name.
     bindS (deref name) (\<lambda>name.
     bindS (gets parallel) (\<lambda>par.
     server_init_listening name par))))"

section \<open>Executions\<close>

text \<open>
  A step of the running server is a turn of its loop or a delivery of \<^verbatim>\<open>SIGCHLD\<close>, whose handler
  only touches the pipe; \<open>reachable s0\<close> are the states it can be in at the head of the loop.
\<close>

inductive server_step :: "server \<Rightarrow> server \<Rightarrow> bool" where
  turn: "main_turn s = Inr (u, s') \<Longrightarrow> server_step s s'"
| signal: "sigchld_handle s = Inr (u, s') \<Longrightarrow> server_step s s'"

inductive reachable :: "server \<Rightarrow> server \<Rightarrow> bool" for s0 where
  start: "reachable s0 s0"
| step: "reachable s0 s \<Longrightarrow> server_step s s' \<Longrightarrow> reachable s0 s'"

inductive_cases server_stepE: "server_step s s'"

lemma schedule_new_jobs_answers:
  "schedule_new_jobs s = Inr (u, s') \<Longrightarrow> length (answers s') \<le> length (answers s)"
proof (induction s rule: schedule_new_jobs.induct)
  case (1 s)
  have pop: "length (answers y) \<le> length (answers x)" if "pop_request x = Inr (r, y)" for x y r
    using that by (auto simp: pop_request_def bindS_eq_Inr lift_eq_Inr deref_def split: option.splits)
  show ?case
    using "1.prems" "1.IH" pop quietD(3) [OF quiet_processes(3)] can_schedule_Inr(1)
    by (subst (asm) schedule_new_jobs.simps)
      (fastforce simp: bindS_eq_Inr split: if_splits)
qed

lemma poll_loop_answers:
  "poll_loop i s = Inr (u, s') \<Longrightarrow> length (answers s') \<le> length (answers s)"
proof (induction i s rule: poll_loop.induct)
  case (1 i s)
  show ?case
    using "1.prems" "1.IH" boundedD(2) [OF bounded_poll_entry]
    by (subst (asm) poll_loop.simps) (fastforce simp: bindS_eq_Inr split: if_splits)
qed

lemma poll_wait_shorter:
  "poll_wait s = Inr (res, s') \<Longrightarrow> length (answers s') < length (answers s)"
proof (induction s rule: poll_wait.induct)
  case (1 s)
  show ?case
    using "1.prems" "1.IH" sys_poll_shorter
    by (subst (asm) poll_wait.simps) (fastforce simp: bindS_eq_Inr split: if_splits)
qed

text \<open>Every turn waits in \<^verbatim>\<open>poll\<close>, so a finite number of answers gives finitely many turns.\<close>

lemma main_turn_shorter:
  assumes "main_turn s = Inr (u, s')"
  shows "length (answers s') < length (answers s)"
proof -
  from assms obtain t1 t2 t3 res where
    "schedule_new_jobs s = Inr ((), t1)" "poll_list_clean t1 = Inr ((), t2)"
    "poll_wait t2 = Inr (res, t3)" "poll_loop 0 t3 = Inr (u, s')"
    by (auto simp: main_turn_def bindS_eq_Inr whenS_def split: if_splits)
  moreover have "answers t2 = answers t1" if "poll_list_clean t1 = Inr ((), t2)" for t1 t2
    using that by (auto simp: poll_list_clean_def bindS_eq_Inr lift_eq_Inr)
  ultimately show ?thesis
    using schedule_new_jobs_answers poll_wait_shorter poll_loop_answers by fastforce
qed

text \<open>The endless loop, run until the program stops.\<close>

function main_loop :: "server \<Rightarrow> c_error \<times> server" where
  "main_loop s = (case main_turn s of Inl x \<Rightarrow> x | Inr (u, t) \<Rightarrow> main_loop t)"
  by pat_completeness auto
termination
  by (relation "measure (\<lambda>s. length (answers s))") (auto dest: main_turn_shorter)

declare main_loop.simps [simp del]

definition main_prog ::
  "(string \<Rightarrow> bool) \<Rightarrow> (int \<times> string) list \<Rightarrow> int \<Rightarrow> int \<Rightarrow> answer list \<Rightarrow> c_error \<times> server" where
  "main_prog einval os optind argc as =
     (case main_init einval os optind argc (init_server as) of
        Inl x \<Rightarrow> x
      | Inr (u, s) \<Rightarrow> main_loop s)"

end
