(* ===== verification/Server_Poll.thy ===== *)
theory Server_Poll
  imports Server_Unix
begin

text \<open>
  The poll list of the Unix server as a list of entries: what the array operations do to
  it.  \<open>polled\<close> is the abstraction; the results are stated so that the server invariant can be
  proved about lists only.
\<close>

definition poll_shape :: "pollfd carray \<Rightarrow> int \<Rightarrow> int \<Rightarrow> bool" where
  "poll_shape pl num len \<longleftrightarrow>
     0 \<le> num \<and> num \<le> len \<and> 0 < len \<and> is_int len \<and> length pl = nat len \<and>
     (\<forall>i < nat num. pl ! i \<noteq> None)"

definition polled :: "pollfd carray \<Rightarrow> int \<Rightarrow> pollfd list" where
  "polled pl num = map the (take (nat num) pl)"

lemma length_polled: "poll_shape pl num len \<Longrightarrow> length (polled pl num) = nat num"
  by (auto simp: polled_def poll_shape_def min_def)

lemma polled_nth:
  "poll_shape pl num len \<Longrightarrow> i < nat num \<Longrightarrow> pl ! i = Some (polled pl num ! i)"
  by (auto simp: polled_def poll_shape_def)

lemma poll_read:
  assumes "poll_shape pl num len" "0 \<le> i" "i < num"
  shows "c_read_i pl i = Inr (polled pl num ! nat i)"
  using assms polled_nth [OF assms(1), of "nat i"]
  by (simp add: c_simps poll_shape_def)

lemma poll_write:
  assumes "poll_shape pl num len" "0 \<le> i" "i < num"
  obtains pl' where "c_write_i pl i e = Inr pl'" "poll_shape pl' num len"
    "polled pl' num = (polled pl num)[nat i := e]"
proof
  show "c_write_i pl i e = Inr (pl[nat i := Some e])"
    using assms by (simp add: c_simps poll_shape_def)
  show "poll_shape (pl[nat i := Some e]) num len"
    using assms by (auto simp: poll_shape_def nth_list_update)
  show "polled (pl[nat i := Some e]) num = (polled pl num)[nat i := e]"
    using assms by (simp add: polled_def take_update_swap map_update)
qed

section \<open>Search\<close>

text \<open>The position of the first entry of a descriptor.\<close>

definition fd_pos :: "pollfd list \<Rightarrow> int \<Rightarrow> nat" where
  "fd_pos es fd = length (takeWhile (\<lambda>e. pfd e \<noteq> fd) es)"

lemma fd_pos_found:
  "fd \<in> pfd ` set es \<Longrightarrow> fd_pos es fd < length es \<and> pfd (es ! fd_pos es fd) = fd"
proof (induction es)
  case (Cons e es)
  then show ?case by (cases "pfd e = fd") (auto simp: fd_pos_def)
qed simp

lemma lookup_from_spec:
  assumes "poll_shape pl num len" "0 \<le> i"
  shows "poll_lookup_from pl num fd i =
    Inr (let k = nat i + fd_pos (drop (nat i) (polled pl num)) fd
         in if k < nat num then Some (int k) else None)"
  using assms
proof (induction pl num fd i rule: poll_lookup_from.induct)
  case (1 pl num fd i)
  note len = length_polled [OF "1.prems"(1)]
  show ?case
  proof (cases "i < num")
    case False
    with "1.prems" show ?thesis by (subst poll_lookup_from.simps) (simp add: Let_def)
  next
    case True
    let ?e = "polled pl num ! nat i"
    have d: "drop (nat i) (polled pl num) = ?e # drop (Suc (nat i)) (polled pl num)"
      using True "1.prems"(2) len by (intro Cons_nth_drop_Suc [symmetric]) simp
    have r: "c_read_i pl i = Inr ?e" using poll_read [OF "1.prems"(1,2) True] .
    show ?thesis
    proof (cases "pfd ?e = fd")
      case eq: True
      with True r d "1.prems"(2) show ?thesis
        by (subst poll_lookup_from.simps) (simp add: fd_pos_def Let_def)
    next
      case False
      have ih: "poll_lookup_from pl num fd (i + 1) = Inr (let k = nat (i + 1) +
          fd_pos (drop (nat (i + 1)) (polled pl num)) fd in if k < nat num then Some (int k) else None)"
        by (rule "1.IH" [OF True r False]) (use "1.prems" in auto)
      have "nat (i + 1) = Suc (nat i)" using "1.prems"(2) by simp
      with True r d False ih show ?thesis
        by (subst poll_lookup_from.simps) (simp add: fd_pos_def Let_def)
    qed
  qed
qed

lemma lookup_found:
  assumes "poll_shape pl num len" "fd \<in> pfd ` set (polled pl num)"
  obtains i where "poll_lookup_from pl num fd 0 = Inr (Some i)" "0 \<le> i" "i < num"
    "pfd (polled pl num ! nat i) = fd"
  using that [of "int (fd_pos (polled pl num) fd)"] lookup_from_spec [OF assms(1), of 0 fd]
    fd_pos_found [OF assms(2)] length_polled [OF assms(1)]
  by (auto simp: Let_def)

section \<open>Cleaning\<close>

text \<open>
  Dropping the entries marked with the descriptor -1: the entries that stay are the others,
  each as often as before; the last entry takes the place of a dropped one.
\<close>

lemma polled_shrink:
  assumes "poll_shape pl num len" "0 < num"
  shows "poll_shape pl (num - 1) len" "polled pl num = polled pl (num - 1) @ [polled pl num ! nat (num - 1)]"
proof -
  have n: "nat num = Suc (nat (num - 1))" using assms(2) by simp
  then show "poll_shape pl (num - 1) len" using assms by (auto simp: poll_shape_def)
  have "nat (num - 1) < length pl" using assms by (auto simp: poll_shape_def)
  then show "polled pl num = polled pl (num - 1) @ [polled pl num ! nat (num - 1)]"
    unfolding polled_def n by (simp add: take_Suc_conv_app_nth nth_append)
qed

lemma clean_from_spec:
  assumes "poll_shape pl num len" "0 \<le> i" "i \<le> num"
    "\<forall>e \<in> set (take (nat i) (polled pl num)). pfd e \<noteq> - 1"
  shows "\<exists>pl' num'. poll_clean_from pl num i = Inr (pl', num') \<and> poll_shape pl' num' len \<and>
    mset (polled pl' num') = filter_mset (\<lambda>e. pfd e \<noteq> - 1) (mset (polled pl num))"
  using assms
proof (induction pl num i rule: poll_clean_from.induct)
  case (1 pl num i)
  note len = length_polled [OF "1.prems"(1)]
  let ?es = "polled pl num"
  show ?case
  proof (cases "i < num")
    case False
    then have "take (nat i) ?es = ?es" using len "1.prems"(3) by simp
    with "1.prems"(4) have "filter_mset (\<lambda>e. pfd e \<noteq> - 1) (mset ?es) = mset ?es"
      by (simp flip: mset_filter)
    with False "1.prems" show ?thesis by (subst poll_clean_from.simps) simp
  next
    case True
    have r: "c_read_i pl i = Inr (?es ! nat i)" using poll_read [OF "1.prems"(1,2) True] .
    have i: "nat i < length ?es" using True "1.prems"(2) len by simp
    show ?thesis
    proof (cases "pfd (?es ! nat i) = - 1")
      case False
      have "take (nat (i + 1)) ?es = take (nat i) ?es @ [?es ! nat i]"
        using i "1.prems"(2) by (simp add: nat_add_distrib take_Suc_conv_app_nth)
      with "1.IH"(2) [OF True r False] "1.prems" False True r show ?thesis
        by (subst poll_clean_from.simps) simp
    next
      case dead: True
      let ?last = "?es ! nat (num - 1)"
      have last: "c_read_i pl (num - 1) = Inr ?last"
        using poll_read [OF "1.prems"(1), of "num - 1"] True "1.prems"(2) by simp
      obtain pl' where w: "c_write_i pl i ?last = Inr pl'" "poll_shape pl' num len"
        "polled pl' num = ?es[nat i := ?last]"
        using poll_write [OF "1.prems"(1,2) True] by metis
      have pos: "0 < num" using True "1.prems"(2) by simp
      note sh = polled_shrink [OF w(2) pos]
      have "polled pl' num ! nat (num - 1) = ?last"
        using w(3) len i by (cases "nat i = nat (num - 1)") auto
      with sh(2) w(3) have split: "?es[nat i := ?last] = polled pl' (num - 1) @ [?last]" by simp
      have "mset (?es[nat i := ?last]) = add_mset ?last (mset ?es - {# ?es ! nat i #})"
        using i by (simp add: mset_update)
      with split have m: "mset (polled pl' (num - 1)) = mset ?es - {# ?es ! nat i #}" by simp
      have "take (nat i) (polled pl' (num - 1)) = take (nat i) (?es[nat i := ?last])"
        unfolding split using length_polled [OF sh(1)] True by simp
      then have pre: "\<forall>e \<in> set (take (nat i) (polled pl' (num - 1))). pfd e \<noteq> - 1"
        using "1.prems"(4) by simp
      from "1.IH"(1) [OF True r dead last w(1) sh(1) "1.prems"(2) _ pre] True obtain pl2 num2 where
        ih: "poll_clean_from pl' (num - 1) i = Inr (pl2, num2)" "poll_shape pl2 num2 len"
        "mset (polled pl2 num2) = filter_mset (\<lambda>e. pfd e \<noteq> - 1) (mset (polled pl' (num - 1)))"
        by auto
      have "filter_mset (\<lambda>e. pfd e \<noteq> - 1) (mset ?es - {# ?es ! nat i #})
        = filter_mset (\<lambda>e. pfd e \<noteq> - 1) (mset ?es)"
        using dead by simp
      then show ?thesis
        using ih True r dead last w(1) by (subst poll_clean_from.simps) (simp add: m)
    qed
  qed
qed

end
