(* ===== verification/Server_Inv.thy ===== *)
theory Server_Inv
  imports Server_Poll
begin

text \<open>
  The invariant of the Unix server and its preservation by the operations on messages,
  processes and clients.  The errors that are left are the exits the program asks for, the
  exhaustion of memory or of the range of \<open>int\<close>, the overlapping copy of \<open>have_taken\<close>, and
  the end of the script of kernel answers; accesses outside an array, uninitialised, null or
  dangling accesses and failed assertions are excluded.
\<close>

declare prog_simps(1-6) [simp del] bindS_run_simps [simp del]

definition benign :: "c_error \<Rightarrow> bool" where
  "benign e \<longleftrightarrow> e \<notin> {Assert_failure, Out_of_bounds, Uninit_read, Null_deref, Use_after_free, Div_by_zero,
     Bad_shift, No_return}"

lemma benign_simps [simp]:
  "benign (Exit n)" "benign Overlap" "benign Signed_overflow" "benign Out_of_memory" "benign No_answer"
  by (simp_all add: benign_def)

section \<open>The invariant\<close>

definition wants_write :: "pollfd \<Rightarrow> bool" where
  "wants_write e \<longleftrightarrow> events e AND POLLOUT \<noteq> 0"

definition may_write :: "pollfd \<Rightarrow> bool" where
  "may_write e \<longleftrightarrow> revents e AND POLLOUT \<noteq> 0"

definition client_ok :: "(nat \<Rightarrow> t_client option) \<Rightarrow> int \<Rightarrow> nat \<Rightarrow> bool" where
  "client_ok h k a \<longleftrightarrow> (\<exists>c. h a = Some c \<and> cl_fd c = k \<and> wf_readbuf (cl_readbuf c) \<and>
     wf_writebuf (cl_writebuf c) \<and> \<not> is_writing (cl_writebuf c))"

definition clients_ok ::
  "(int \<times> nat) list \<Rightarrow> (nat \<Rightarrow> t_client option) \<Rightarrow> nat \<Rightarrow> int set \<Rightarrow> int \<Rightarrow> int \<Rightarrow> bool" where
  "clients_ok es h na fds sock pip \<longleftrightarrow>
     distinct (map fst es) \<and> distinct (map snd es) \<and>
     (\<forall>(k, a) \<in> set es. 0 \<le> k \<and> k \<in> fds \<and> k \<noteq> sock \<and> k \<noteq> pip \<and> a < na \<and> client_ok h k a)"

text \<open>
  The poll list has one entry per client and one for each of the two own descriptors.  A
  client is polled for writing exactly when it has data to send.  While the entries from \<open>i\<close> on
  are still to be handled, readiness for writing is reported there only if it is still asked
  for.
\<close>

definition polls_ok ::
  "nat \<Rightarrow> (int \<times> nat) list \<Rightarrow> (nat \<Rightarrow> t_client option) \<Rightarrow> pollfd list \<Rightarrow> int \<Rightarrow> int \<Rightarrow> bool" where
  "polls_ok i es h ps sock pip \<longleftrightarrow>
     distinct (filter (\<lambda>k. 0 \<le> k) (map pfd ps)) \<and>
     (\<forall>e \<in> set ps. pfd e = - 1 \<or> pfd e = sock \<or> pfd e = pip \<or> pfd e \<in> fst ` set es) \<and>
     (\<forall>(k, a) \<in> set es. k \<in> pfd ` set ps) \<and>
     (\<forall>e \<in> set ps. pfd e = sock \<longrightarrow> revents e = 0 \<or> revents e = POLLIN) \<and>
     (\<forall>(k, a) \<in> set es. \<forall>e \<in> set ps. pfd e = k \<longrightarrow>
        wants_write e = has_write_data (cl_writebuf (the (h a)))) \<and>
     (\<forall>j. i \<le> j \<and> j < length ps \<and> may_write (ps ! j) \<longrightarrow> wants_write (ps ! j))"

definition procs_ok :: "int set \<Rightarrow> unix_proc t_list \<Rightarrow> bool" where
  "procs_ok ks pl \<longleftrightarrow> wf_list pl \<and> distinct (map fst (list_entries pl)) \<and>
     fst ` set (list_entries pl) = ks \<and> (\<forall>p \<in> snd ` set (list_entries pl). is_cstring (task_id p))"

definition run_ok :: "request \<Rightarrow> bool" where
  "run_ok r \<longleftrightarrow> req_type r = REQ_RUN \<and> is_cstring (req_id r) \<and>
     (\<exists>f. req_run r = Some f \<and> r_numargs f = int (length (r_args f)) \<and> length (r_args f) < 2 ^ 31)"

definition queue_ok :: "request t_queue \<Rightarrow> bool" where
  "queue_ok q \<longleftrightarrow> wf_queue q \<and> (\<forall>r \<in> set (queue_list q). run_ok r)"

definition env_ok :: "server \<Rightarrow> bool" where
  "env_ok s \<longleftrightarrow> valid_options s \<and> log_ready s \<and> Ans_write (- 1) \<notin> set (answers s) \<and>
     0 \<le> server_sock s \<and> 0 \<le> fst (cpipe s) \<and> server_sock s \<noteq> fst (cpipe s) \<and>
     server_sock s \<in> set (open_fds s) \<and> fst (cpipe s) \<in> set (open_fds s)"

definition inv_core :: "nat \<Rightarrow> int set \<Rightarrow> server \<Rightarrow> bool" where
  "inv_core i ks s \<longleftrightarrow>
     env_ok s \<and> poll_shape (poll_list s) (poll_num s) (poll_len s) \<and>
     (\<exists>cl pl q. clients s = Some cl \<and> processes s = Some pl \<and> queue s = Some q \<and>
        wf_list cl \<and>
        clients_ok (list_entries cl) (heap s) (next_addr s) (set (open_fds s))
          (server_sock s) (fst (cpipe s)) \<and>
        polls_ok i (list_entries cl) (heap s) (polled (poll_list s) (poll_num s))
          (server_sock s) (fst (cpipe s)) \<and>
        procs_ok ks pl \<and> queue_ok q)"

text \<open>The invariant while the entries from \<open>i\<close> on are to be handled, and at the head of the loop.\<close>

definition inv_at :: "nat \<Rightarrow> server \<Rightarrow> bool" where
  "inv_at i s \<longleftrightarrow> inv_core i (set (children s)) s"

definition server_inv :: "server \<Rightarrow> bool" where
  "server_inv s \<longleftrightarrow> (\<exists>i. inv_at i s)"

lemma inv_coreE:
  assumes "inv_core i ks s"
  obtains cl pl q where "env_ok s" "poll_shape (poll_list s) (poll_num s) (poll_len s)"
    "clients s = Some cl" "processes s = Some pl" "queue s = Some q" "wf_list cl"
    "clients_ok (list_entries cl) (heap s) (next_addr s) (set (open_fds s))
       (server_sock s) (fst (cpipe s))"
    "polls_ok i (list_entries cl) (heap s) (polled (poll_list s) (poll_num s))
       (server_sock s) (fst (cpipe s))"
    "procs_ok ks pl" "queue_ok q"
  using assms unfolding inv_core_def by blast

text \<open>Changes the invariant does not see.\<close>

lemma env_ok_frame [simp]:
  "env_ok (s\<lparr>trace := tr\<rparr>) = env_ok s" "env_ok (s\<lparr>poll_list := pl, poll_num := n\<rparr>) = env_ok s"
  "env_ok (s\<lparr>poll_list := pl\<rparr>) = env_ok s" "env_ok (s\<lparr>heap := h\<rparr>) = env_ok s"
  "env_ok (s\<lparr>clients := cl\<rparr>) = env_ok s" "env_ok (s\<lparr>processes := ps\<rparr>) = env_ok s"
  "env_ok (s\<lparr>queue := q\<rparr>) = env_ok s" "env_ok (s\<lparr>children := ch\<rparr>) = env_ok s"
  "env_ok (s\<lparr>poll_len := len, poll_list := pl\<rparr>) = env_ok s"
  "env_ok (s\<lparr>heap := h, next_addr := na\<rparr>) = env_ok s"
  by (simp_all add: env_ok_def valid_options_def log_ready_def)

lemma inv_core_trace [simp]: "inv_core i ks (s\<lparr>trace := tr\<rparr>) = inv_core i ks s"
  by (simp add: inv_core_def)

lemma inv_core_children [simp]: "inv_core i ks (s\<lparr>children := ch\<rparr>) = inv_core i ks s"
  by (simp add: inv_core_def)

lemma env_ok_answers: "env_ok s \<Longrightarrow> set as \<subseteq> set (answers s) \<Longrightarrow> env_ok (s\<lparr>answers := as\<rparr>)"
  by (auto simp: env_ok_def valid_options_def log_ready_def)

lemma inv_core_answers:
  "inv_core i ks s \<Longrightarrow> set as \<subseteq> set (answers s) \<Longrightarrow> inv_core i ks (s\<lparr>answers := as\<rparr>)"
  by (simp add: inv_core_def env_ok_answers)

text \<open>Opening a descriptor, and closing one that belongs to nobody.\<close>

lemma inv_core_open_fds:
  assumes "inv_core i ks s"
    "\<And>k. k \<in> set (open_fds s) \<Longrightarrow> k \<notin> set fds \<Longrightarrow> k \<noteq> server_sock s \<and> k \<noteq> fst (cpipe s) \<and>
       (\<forall>cl. clients s = Some cl \<longrightarrow> k \<notin> fst ` set (list_entries cl))"
  shows "inv_core i ks (s\<lparr>open_fds := fds\<rparr>)"
proof -
  from assms(1) obtain cl pl q where i: "env_ok s"
    "poll_shape (poll_list s) (poll_num s) (poll_len s)"
    "clients s = Some cl" "processes s = Some pl" "queue s = Some q" "wf_list cl"
    "clients_ok (list_entries cl) (heap s) (next_addr s) (set (open_fds s))
       (server_sock s) (fst (cpipe s))"
    "polls_ok i (list_entries cl) (heap s) (polled (poll_list s) (poll_num s))
       (server_sock s) (fst (cpipe s))" "procs_ok ks pl" "queue_ok q"
    by (rule inv_coreE)
  have "env_ok (s\<lparr>open_fds := fds\<rparr>)"
    using i(1) assms(2) by (auto simp: env_ok_def valid_options_def log_ready_def)
  moreover have "k \<in> set fds" if "(k, a) \<in> set (list_entries cl)" for k a
  proof -
    have "k \<in> set (open_fds s)" using i(7) that by (auto simp: clients_ok_def)
    moreover have "k \<in> fst ` set (list_entries cl)" using that by force
    ultimately show ?thesis using assms(2) [of k] i(3) by blast
  qed
  then have "clients_ok (list_entries cl) (heap s) (next_addr s) (set fds)
       (server_sock s) (fst (cpipe s))"
    using i(7) by (auto simp: clients_ok_def)
  ultimately show ?thesis using i by (simp add: inv_core_def)
qed

section \<open>The poll list in the invariant\<close>

lemma distinct_filter_nth:
  assumes "distinct (filter P (map f xs))" "i < length xs" "j < length xs" "f (xs ! i) = f (xs ! j)"
    "P (f (xs ! i))"
  shows "i = j"
  using assms
proof (induction xs arbitrary: i j)
  case (Cons x xs)
  have later: "f (xs ! m) \<in> f ` set xs" if "m < length xs" for m
    using that by simp
  show ?case
  proof (cases i; cases j)
    fix i' assume "i = Suc i'" "j = 0"
    with Cons.prems later [of i'] show ?thesis by (auto split: if_splits)
  next
    fix j' assume "i = 0" "j = Suc j'"
    with Cons.prems later [of j'] show ?thesis by (auto split: if_splits)
  next
    fix i' j' assume "i = Suc i'" "j = Suc j'"
    with Cons.prems Cons.IH [of i' j'] show ?thesis by (auto split: if_splits)
  qed simp
qed simp

text \<open>The entry of a descriptor that is not negative is unique.\<close>

lemma polls_unique:
  "polls_ok i es h ps sock pip \<Longrightarrow> m < length ps \<Longrightarrow> n < length ps \<Longrightarrow>
   pfd (ps ! m) = pfd (ps ! n) \<Longrightarrow> 0 \<le> pfd (ps ! m) \<Longrightarrow> m = n"
  using distinct_filter_nth [of "\<lambda>k. 0 \<le> k" pfd ps m n] by (simp add: polls_ok_def)

lemma map_pfd_update:
  "j < length ps \<Longrightarrow> pfd e = pfd (ps ! j) \<Longrightarrow> map pfd (ps[j := e]) = map pfd ps"
  by (metis list_update_id map_update nth_map)

lemma polls_ok_update:
  assumes p: "polls_ok i es h ps sock pip" and c: "clients_ok es h na fds sock pip"
    and a: "(k, a) \<in> set es" and j: "j < length ps" "pfd (ps ! j) = k"
    and e: "pfd e = k" "wants_write e = has_write_data (cl_writebuf c')"
    and stage: "\<And>m. i' \<le> m \<Longrightarrow> m < length ps \<Longrightarrow> m \<noteq> j \<Longrightarrow> i \<le> m"
      "i' \<le> j \<Longrightarrow> may_write e \<Longrightarrow> wants_write e"
  shows "polls_ok i' es (h(a := Some c')) (ps[j := e]) sock pip"
proof -
  have k: "0 \<le> k" "k \<noteq> sock" "k \<noteq> pip" using c a by (auto simp: clients_ok_def)
  have others: "x = e \<and> pfd x = k \<or> x \<in> set ps \<and> pfd x \<noteq> k" if "x \<in> set (ps[j := e])" for x
  proof -
    from that obtain m where m: "m < length ps" "x = ps[j := e] ! m"
      by (auto simp: in_set_conv_nth)
    show ?thesis
    proof (cases "m = j")
      case True
      with m e j show ?thesis by simp
    next
      case False
      then have "pfd (ps ! m) \<noteq> k" using polls_unique [OF p j(1) m(1)] j(2) k(1) by auto
      with m False show ?thesis by auto
    qed
  qed
  have fds: "map pfd (ps[j := e]) = map pfd ps" using j e by (intro map_pfd_update) auto
  then have img: "pfd ` set (ps[j := e]) = pfd ` set ps" by (metis set_map)
  have key: "a' = a \<longleftrightarrow> k' = k" if "(k', a') \<in> set es" for k' a'
    using that a c inj_onD [of fst "set es" "(k', a')" "(k, a)"] inj_onD [of snd "set es" "(k', a')" "(k, a)"]
    unfolding clients_ok_def distinct_map by auto
  have p1: "pfd x = - 1 \<or> pfd x = sock \<or> pfd x = pip \<or> pfd x \<in> fst ` set es"
    and p2: "pfd x = sock \<longrightarrow> revents x = 0 \<or> revents x = POLLIN" if "x \<in> set ps" for x
    using p that by (auto simp: polls_ok_def)
  have p3: "wants_write (ps ! m)" if "i \<le> m" "m < length ps" "may_write (ps ! m)" for m
    using p that by (auto simp: polls_ok_def)
  have ka: "k \<in> fst ` set es" using a by force
  show ?thesis
    unfolding polls_ok_def fds img
  proof (intro conjI)
    show "distinct (filter (\<lambda>k. 0 \<le> k) (map pfd ps))" "\<forall>(k, a) \<in> set es. k \<in> pfd ` set ps"
      using p by (simp_all add: polls_ok_def)
    show "\<forall>x \<in> set (ps[j := e]). pfd x = - 1 \<or> pfd x = sock \<or> pfd x = pip \<or> pfd x \<in> fst ` set es"
      using others p1 ka by blast
    show "\<forall>x \<in> set (ps[j := e]). pfd x = sock \<longrightarrow> revents x = 0 \<or> revents x = POLLIN"
      using others p2 k(2) by blast
    have "wants_write x = has_write_data (cl_writebuf (the ((h(a := Some c')) a')))"
      if "(k', a') \<in> set es" "x \<in> set (ps[j := e])" "pfd x = k'" for k' a' x
    proof (cases "k' = k")
      case True
      with that others e key show ?thesis by auto
    next
      case False
      with that others key have "x \<in> set ps" "a' \<noteq> a" by auto
      with that p show ?thesis by (auto simp: polls_ok_def)
    qed
    then show "\<forall>(k, a') \<in> set es. \<forall>x \<in> set (ps[j := e]). pfd x = k \<longrightarrow>
        wants_write x = has_write_data (cl_writebuf (the ((h(a := Some c')) a')))"
      by (auto simp del: fun_upd_apply)
    have "wants_write (ps[j := e] ! m)"
      if "i' \<le> m" "m < length ps" "may_write (ps[j := e] ! m)" for m
      using that stage p3 j(1) by (cases "m = j") auto
    then show "\<forall>m. i' \<le> m \<and> m < length (ps[j := e]) \<and> may_write (ps[j := e] ! m) \<longrightarrow>
        wants_write (ps[j := e] ! m)"
      by simp
  qed
qed

end
