(* ===== verification/Server_Ops.thy ===== *)
theory Server_Ops
  imports Server_Inv
begin

text \<open>
  The operations of the Unix server keep the invariant, and none of them can fail badly:
  shutting down, sending messages, starting and ending processes, requests, clients.
\<close>

section \<open>Rules for the primitive steps\<close>

lemma runs_load: "heap s a = Some c \<Longrightarrow> runs E (load_client a) Q s \<longleftrightarrow> Q c s"
  by (simp add: runs_def load_client_def)

lemma runs_store:
  "heap s a = Some c0 \<Longrightarrow> runs E (store_client a c) Q s \<longleftrightarrow> Q () (s\<lparr>heap := (heap s)(a := Some c)\<rparr>)"
  by (simp add: store_client_def runs_load)

lemma runs_note [simp]: "runs E (note_event e) Q s \<longleftrightarrow> Q () (s\<lparr>trace := trace s @ [e]\<rparr>)"
  by (simp add: note_event_def)

lemma runs_close [simp]:
  "runs E (sys_close fd) Q s \<longleftrightarrow>
     Q () (s\<lparr>open_fds := removeAll fd (open_fds s), trace := trace s @ [Ev_close fd]\<rparr>)"
  by (simp add: sys_close_def)

lemma runs_fun:
  "runs E (bindS m k) Q = runs E m (\<lambda>a. runs E (k a) Q)"
  "runs E (ret x) R = R x"
  "runs E (gets g) Q' = (\<lambda>s. Q' (g s) s)"
  "runs E (modify u) Q'' = (\<lambda>s. Q'' () (u s))"
  by (simp_all add: fun_eq_iff)

lemma runs_deref [simp]: "runs E (deref (Some x)) Q s \<longleftrightarrow> Q x s"
  by (simp add: deref_def)

lemma runs_lift_Inl [simp]: "runs E (lift (Inl e)) Q s \<longleftrightarrow> E e"
  by (simp add: runs_def prog_simps)

lemma runs_next:
  "E No_answer \<Longrightarrow> (\<And>a as. answers s = a # as \<Longrightarrow> Q a (s\<lparr>answers := as\<rparr>)) \<Longrightarrow> runs E next_answer Q s"
  by (auto simp: runs_def next_answer_def split: list.splits)

lemma runs_possible:
  "E No_answer \<Longrightarrow> (p s \<Longrightarrow> Q () s) \<Longrightarrow> runs E (possible p) Q s"
  by (simp add: possible_def)

lemma runs_call:
  "E No_answer \<Longrightarrow> (\<And>res err as. answers s = Ans_call res err # as \<Longrightarrow> Q (res, err) (s\<lparr>answers := as\<rparr>)) \<Longrightarrow>
   runs E sys_call Q s"
  unfolding sys_call_def runs_bind
  by (rule runs_next) (auto split: answer.splits)

section \<open>Shutting down\<close>

definition shut_ok :: "server \<Rightarrow> bool" where
  "shut_ok s \<longleftrightarrow> log_ready s \<and> (\<forall>cl. clients s = Some cl \<longrightarrow>
     wf_list cl \<and> (\<forall>(k, a) \<in> set (list_entries cl). heap s a \<noteq> None))"

lemma inv_core_shut_ok: "inv_core i ks s \<Longrightarrow> shut_ok s"
  unfolding inv_core_def shut_ok_def env_ok_def clients_ok_def client_ok_def by fastforce

lemma list_data_read:
  assumes "wf_list l" "0 \<le> i" "i < list_length l"
  shows "c_read_i (l_data l) i = Inr (snd (list_entries l ! nat i))"
    "list_entries l ! nat i \<in> set (list_entries l)"
proof -
  note w = wf_listD [OF assms(1)]
  have i: "nat i < nat (l_len l)" using assms by (simp add: list_length_def)
  with w(8) [OF i] w(4-6) show "c_read_i (l_data l) i = Inr (snd (list_entries l ! nat i))"
    using assms by (simp add: c_simps list_entries_nth)
  show "list_entries l ! nat i \<in> set (list_entries l)"
    using i by (intro nth_mem) simp
qed

lemma close_clients_runs:
  assumes "wf_list l" "\<forall>(k, a) \<in> set (list_entries l). heap s a \<noteq> None" "0 \<le> i"
    "\<And>fds tr. Q () (s\<lparr>open_fds := fds, trace := tr\<rparr>)"
  shows "runs E (close_clients_from l i) Q s"
  using assms
proof (induction l i arbitrary: s rule: close_clients_from.induct)
  case (1 l i)
  show ?case
  proof (cases "i < list_length l")
    case False
    then show ?thesis
      using "1.prems"(4) [of "trace s" "open_fds s"] by (subst close_clients_from.simps) simp
  next
    case True
    note r = list_data_read [OF "1.prems"(1,3) True]
    then obtain c where c: "heap s (snd (list_entries l ! nat i)) = Some c"
      using "1.prems"(2) by fastforce
    have "runs E (close_clients_from l (i + 1)) Q
      (s\<lparr>open_fds := removeAll (cl_fd c) (open_fds s), trace := trace s @ [Ev_close (cl_fd c)]\<rparr>)"
      by (rule "1.IH" [OF True]) (use "1.prems" in auto)
    then show ?thesis
      using True r c by (subst close_clients_from.simps) (simp add: runs_load)
  qed
qed

lemma logging_shutdown_runs: "log_ready s \<Longrightarrow> runs benign (logging_shutdown_prog m) Q s"
  by (auto simp: runs_def logging_shutdown_prog_def logging_shutdown_def log_msg_ready)

lemma shutdown_runs:
  assumes "shut_ok s"
  shows "runs benign (shutdown_with_msg m) Q s"
proof -
  let ?t = "s\<lparr>open_fds := removeAll (server_sock s) (open_fds s),
    trace := trace s @ [Ev_close (server_sock s)]\<rparr>"
  have close: "runs benign (case clients s of None \<Rightarrow> ret () | Some l \<Rightarrow> close_clients_from l 0)
    (\<lambda>_. runs benign (logging_shutdown_prog m) Q) t" if "t = s \<or> t = ?t" for t
    using assms that
    by (auto simp: shut_ok_def log_ready_def split: option.splits
        intro!: close_clients_runs logging_shutdown_runs)
  show ?thesis
    using close [of s] close [of ?t] by (simp add: shutdown_with_msg_def)
qed

lemma check_call_runs:
  assumes "shut_ok s" "\<And>as. set as \<subseteq> set (answers s) \<Longrightarrow> Q () (s\<lparr>answers := as\<rparr>)"
  shows "runs benign (check_call m) Q s"
proof -
  have "shut_ok (s\<lparr>answers := as\<rparr>)" for as using assms(1) by (simp add: shut_ok_def log_ready_def)
  then show ?thesis
    unfolding check_call_def runs_bind
    by (intro runs_call) (auto intro: shutdown_runs assms(2))
qed

section \<open>The poll list\<close>

lemma add_to_poll_list_runs:
  assumes "poll_shape (poll_list s) (poll_num s) (poll_len s)"
    "\<And>pl len. poll_shape pl (poll_num s + 1) len \<Longrightarrow>
       polled pl (poll_num s + 1) = polled (poll_list s) (poll_num s) @ [\<lparr>pfd = fd, events = ev, revents = 0\<rparr>] \<Longrightarrow>
       Q () (s\<lparr>poll_len := len, poll_list := pl, poll_num := poll_num s + 1\<rparr>)"
  shows "runs benign (add_to_poll_list fd ev) Q s"
proof -
  let ?e = "\<lparr>pfd = fd, events = ev, revents = 0\<rparr>" and ?n = "poll_num s"
  have room: "\<exists>pl'. c_write_i pl ?n ?e = Inr pl' \<and> poll_shape pl' (?n + 1) len \<and> is_int (?n + 1) \<and>
      polled pl' (?n + 1) = polled pl ?n @ [?e]"
    if "poll_shape pl ?n len" "?n < len" for pl len
  proof (intro exI conjI)
    show "c_write_i pl ?n ?e = Inr (pl[nat ?n := Some ?e])"
      using that by (simp add: c_simps poll_shape_def)
    have n: "nat (?n + 1) = Suc (nat ?n)" using that by (simp add: poll_shape_def nat_add_distrib)
    then show "poll_shape (pl[nat ?n := Some ?e]) (?n + 1) len"
      using that by (auto simp: poll_shape_def nth_list_update less_Suc_eq)
    show "is_int (?n + 1)" using that by (auto simp: poll_shape_def is_int_def)
    show "polled (pl[nat ?n := Some ?e]) (?n + 1) = polled pl ?n @ [?e]"
      using that n by (simp add: polled_def poll_shape_def take_Suc_conv_app_nth)
  qed
  show ?thesis
  proof (cases "?n = poll_len s")
    case False
    then have "?n < poll_len s" using assms(1) by (auto simp: poll_shape_def)
    from room [OF assms(1) this] obtain pl' where "c_write_i (poll_list s) ?n ?e = Inr pl'"
      "poll_shape pl' (?n + 1) (poll_len s)" "is_int (?n + 1)"
      "polled pl' (?n + 1) = polled (poll_list s) ?n @ [?e]" by blast
    with False assms(2) [of pl' "poll_len s"] show ?thesis
      by (simp add: add_to_poll_list_def ck_int_Inr)
  next
    case True
    let ?len = "poll_len s * 2" and ?pl = "poll_list s @ replicate (nat (poll_len s)) None"
    have "nat ?len - nat (poll_len s) = nat (poll_len s)"
      using assms(1) by (auto simp: poll_shape_def)
    then have big: "runs benign (lift (c_realloc 8 (poll_list s) (size_t_of ?len))) R t"
      if "is_int ?len" "R ?pl t" for R and t :: server
      using that assms(1)
      by (intro runs_lift) (auto simp: c_realloc_eq_Inl c_realloc_eq_Inr poll_shape_def is_int_def)
    show ?thesis
    proof (cases "is_int ?len")
      case False
      with True show ?thesis
        by (simp add: add_to_poll_list_def ck_int_def)
    next
      case int: True
      have sh: "poll_shape ?pl ?n ?len" "polled ?pl ?n = polled (poll_list s) ?n"
        using assms(1) int True by (auto simp: poll_shape_def polled_def nth_append)
      have "?n < ?len" using True assms(1) by (auto simp: poll_shape_def)
      from room [OF sh(1) this] obtain pl' where "c_write_i ?pl ?n ?e = Inr pl'"
        "poll_shape pl' (?n + 1) ?len" "is_int (?n + 1)"
        "polled pl' (?n + 1) = polled (poll_list s) ?n @ [?e]" using sh(2) by auto
      with True int assms(2) [of pl' ?len] show ?thesis
        by (simp add: add_to_poll_list_def ck_int_Inr) (intro big, simp_all)
    qed
  qed
qed

section \<open>Messages\<close>

lemma POLLOUT_bit: "w AND POLLOUT \<noteq> 0 \<longleftrightarrow> bit w 2"
  using and_exp_eq_0_iff_not_bit [of w 2] by (simp add: POLLOUT_def)

lemma POLLOUT_bits: "bit POLLOUT n \<longleftrightarrow> n = 2"
  using bit_exp_iff [of 2 n, where ?'a = "16 word"]
  by (auto simp: POLLOUT_def)

lemma POLLOUT_nonzero [simp]: "POLLOUT \<noteq> 0"
  by (simp add: POLLOUT_def)

lemma wants_write_simps [simp]:
  "wants_write (e\<lparr>events := events e OR POLLOUT\<rparr>)"
  "\<not> wants_write (e\<lparr>events := events e AND NOT POLLOUT\<rparr>)"
  "may_write (e\<lparr>events := ev\<rparr>) = may_write e"
  by (simp_all add: wants_write_def may_write_def POLLOUT_bit bit_or_iff bit_and_iff bit_not_iff
      POLLOUT_bits)

lemma clients_ok_update:
  assumes "clients_ok es h na fds sock pip" "(k, a) \<in> set es" "cl_fd c = k" "wf_readbuf (cl_readbuf c)"
    "wf_writebuf (cl_writebuf c)" "\<not> is_writing (cl_writebuf c)"
  shows "clients_ok es (h(a := Some c)) na fds sock pip"
proof -
  have same: "k' = k" if "(k', a) \<in> set es" for k'
    using that assms(1,2) inj_onD [of snd "set es" "(k', a)" "(k, a)"]
    by (auto simp: clients_ok_def distinct_map)
  have "client_ok (h(a := Some c)) k' a'" if "(k', a') \<in> set es" "client_ok h k' a'" for k' a'
    using that same assms(3-6) by (cases "a' = a") (auto simp: client_ok_def)
  then show ?thesis
    using assms(1) by (auto simp: clients_ok_def)
qed

lemma clients_okD:
  assumes "clients_ok es h na fds sock pip" "(k, a) \<in> set es"
  obtains c where "h a = Some c" "cl_fd c = k" "wf_readbuf (cl_readbuf c)" "wf_writebuf (cl_writebuf c)"
    "\<not> is_writing (cl_writebuf c)" "0 \<le> k"
proof -
  from assms have "0 \<le> k" "client_ok h k a" by (auto simp: clients_ok_def)
  then show ?thesis using that by (auto simp: client_ok_def)
qed

lemma polls_entry:
  assumes "poll_shape pl num len" "polls_ok i es h (polled pl num) sock pip" "(k, a) \<in> set es"
  obtains j where "poll_lookup_from pl num k 0 = Inr (Some j)" "0 \<le> j" "j < num"
    "pfd (polled pl num ! nat j) = k"
proof -
  from assms(2,3) have "k \<in> pfd ` set (polled pl num)" by (auto simp: polls_ok_def)
  from lookup_found [OF assms(1) this] show ?thesis using that by blast
qed

text \<open>Replacing a client object and its entry in the poll list.\<close>

lemma inv_core_client:
  assumes "inv_core i ks s" "clients s = Some cl" "(k, a) \<in> set (list_entries cl)"
    "cl_fd c' = k" "wf_readbuf (cl_readbuf c')" "wf_writebuf (cl_writebuf c')"
    "\<not> is_writing (cl_writebuf c')"
    "0 \<le> j" "j < poll_num s" "pfd (polled (poll_list s) (poll_num s) ! nat j) = k"
    "poll_shape pl (poll_num s) (poll_len s)"
    "polled pl (poll_num s) = (polled (poll_list s) (poll_num s))[nat j := e]"
    "pfd e = k" "wants_write e = has_write_data (cl_writebuf c')"
    "\<And>m. i' \<le> m \<Longrightarrow> m < nat (poll_num s) \<Longrightarrow> m \<noteq> nat j \<Longrightarrow> i \<le> m"
    "i' \<le> nat j \<Longrightarrow> may_write e \<Longrightarrow> wants_write e"
  shows "inv_core i' ks (s\<lparr>heap := (heap s)(a := Some c'), poll_list := pl\<rparr>)"
  using assms(1)
proof (rule inv_coreE)
  fix cl' pl' q
  assume i: "env_ok s" "poll_shape (poll_list s) (poll_num s) (poll_len s)"
    "clients s = Some cl'" "processes s = Some pl'" "queue s = Some q" "wf_list cl'"
    "clients_ok (list_entries cl') (heap s) (next_addr s) (set (open_fds s))
       (server_sock s) (fst (cpipe s))"
    "polls_ok i (list_entries cl') (heap s) (polled (poll_list s) (poll_num s))
       (server_sock s) (fst (cpipe s))" "procs_ok ks pl'" "queue_ok q"
  have len: "length (polled (poll_list s) (poll_num s)) = nat (poll_num s)"
    by (rule length_polled [OF i(2)])
  have cl: "cl' = cl" using i(3) assms(2) by simp
  have "polls_ok i' (list_entries cl) ((heap s)(a := Some c'))
    ((polled (poll_list s) (poll_num s))[nat j := e]) (server_sock s) (fst (cpipe s))"
    by (rule polls_ok_update [OF i(8) [unfolded cl] i(7) [unfolded cl] assms(3)])
      (use assms len in auto)
  moreover note clients_ok_update [OF i(7) [unfolded cl] assms(3-7)]
  moreover have "env_ok (s\<lparr>heap := (heap s)(a := Some c'), poll_list := pl\<rparr>)"
    using i(1) by (simp add: env_ok_def valid_options_def log_ready_def)
  ultimately show ?thesis using i assms cl by (simp add: inv_core_def)
qed

lemma queue_write_runs:
  assumes inv: "inv_core i ks s" and cl: "clients s = Some cl" "(k, a) \<in> set (list_entries cl)"
    and len: "length msg < 2 ^ 31"
  shows "runs benign (queue_write a msg)
    (\<lambda>_ s'. inv_core i ks s' \<and> (\<exists>h pl. s' = s\<lparr>heap := h, poll_list := pl\<rparr>)) s"
  using inv
proof (rule inv_coreE)
  fix cl' pl q
  assume i: "env_ok s" "poll_shape (poll_list s) (poll_num s) (poll_len s)"
    "clients s = Some cl'" "processes s = Some pl" "queue s = Some q" "wf_list cl'"
    "clients_ok (list_entries cl') (heap s) (next_addr s) (set (open_fds s))
       (server_sock s) (fst (cpipe s))"
    "polls_ok i (list_entries cl') (heap s) (polled (poll_list s) (poll_num s))
       (server_sock s) (fst (cpipe s))" "procs_ok ks pl" "queue_ok q"
  have ka: "(k, a) \<in> set (list_entries cl')" using cl i(3) by simp
  from clients_okD [OF i(7) ka] obtain c where
    c: "heap s a = Some c" "cl_fd c = k" "wf_readbuf (cl_readbuf c)" "wf_writebuf (cl_writebuf c)"
    "\<not> is_writing (cl_writebuf c)" by blast
  obtain j where j: "poll_lookup_from (poll_list s) (poll_num s) k 0 = Inr (Some j)" "0 \<le> j"
    "j < poll_num s" "pfd (polled (poll_list s) (poll_num s) ! nat j) = k"
    using polls_entry [OF i(2,8) ka] by blast
  let ?e = "polled (poll_list s) (poll_num s) ! nat j"
  obtain pl' where pl': "c_write_i (poll_list s) j (?e\<lparr>events := events ?e OR POLLOUT\<rparr>) = Inr pl'"
    "poll_shape pl' (poll_num s) (poll_len s)"
    "polled pl' (poll_num s) = (polled (poll_list s) (poll_num s))[nat j := ?e\<lparr>events := events ?e OR POLLOUT\<rparr>]"
    using poll_write [OF i(2) j(2,3)] by metis
  note r = poll_read [OF i(2) j(2,3)]
  have stage: "may_write (?e\<lparr>events := events ?e OR POLLOUT\<rparr>) \<Longrightarrow>
     wants_write (?e\<lparr>events := events ?e OR POLLOUT\<rparr>)" by simp
  show ?thesis
  proof (cases "push_write_data (cl_writebuf c) msg")
    case (Inl e)
    with push_write_data_Inl [OF wf_writebuf_queue [OF c(4)] Inl] c(1) show ?thesis
      by (simp add: queue_write_def runs_load)
  next
    case (Inr wb)
    note p = push_write_data_spec [OF c(4) len Inr]
    have "inv_core i ks (s\<lparr>heap := (heap s)(a := Some (c\<lparr>cl_writebuf := wb\<rparr>)), poll_list := pl'\<rparr>)"
      by (rule inv_core_client [OF inv cl(1,2) _ _ _ _ j(2,3,4) pl'(2,3)])
        (use c p j(4) in auto)
    then show ?thesis
      using Inr c(1,2) j(1) r pl'(1)
      by (simp add: queue_write_def runs_load runs_store poll_list_lookup_def) blast
  qed
qed

lemma runs_write:
  assumes "Ans_write (- 1) \<notin> set (answers s)"
    "\<And>w as. answers s = Ans_write w # as \<Longrightarrow> 0 \<le> w \<Longrightarrow> w \<le> n \<Longrightarrow>
       Q w (s\<lparr>answers := as, trace := trace s @ [Ev_write fd (take (nat w) buf)]\<rparr>)"
  shows "runs benign (sys_write fd buf n) Q s"
  unfolding sys_write_def runs_bind
  by (rule runs_next) (use assms in \<open>auto split: answer.splits\<close>)

lemma write_to_client_runs:
  assumes inv: "inv_core (nat j) ks s" and cl: "clients s = Some cl" "(k, a) \<in> set (list_entries cl)"
    and j: "0 \<le> j" "j < poll_num s" "pfd (polled (poll_list s) (poll_num s) ! nat j) = k"
      "may_write (polled (poll_list s) (poll_num s) ! nat j)"
  shows "runs benign (write_to_client a j)
    (\<lambda>_ s'. inv_core (Suc (nat j)) ks s' \<and> children s' = children s) s"
  using inv
proof (rule inv_coreE)
  fix cl' pl q
  assume i: "env_ok s" "poll_shape (poll_list s) (poll_num s) (poll_len s)"
    "clients s = Some cl'" "processes s = Some pl" "queue s = Some q" "wf_list cl'"
    "clients_ok (list_entries cl') (heap s) (next_addr s) (set (open_fds s))
       (server_sock s) (fst (cpipe s))"
    "polls_ok (nat j) (list_entries cl') (heap s) (polled (poll_list s) (poll_num s))
       (server_sock s) (fst (cpipe s))" "procs_ok ks pl" "queue_ok q"
  let ?e = "polled (poll_list s) (poll_num s) ! nat j"
  have ka: "(k, a) \<in> set (list_entries cl')" using cl i(3) by simp
  from clients_okD [OF i(7) ka] obtain c where
    c: "heap s a = Some c" "cl_fd c = k" "wf_readbuf (cl_readbuf c)" "wf_writebuf (cl_writebuf c)"
    "\<not> is_writing (cl_writebuf c)" by blast
  have jl: "nat j < length (polled (poll_list s) (poll_num s))"
    using j length_polled [OF i(2)] by simp
  then have "wants_write ?e" using i(8) j(4) by (simp add: polls_ok_def)
  then have data: "has_write_data (cl_writebuf c)"
    using i(8) ka j(3) c(1) nth_mem [OF jl] by (auto simp: polls_ok_def)
  obtain buf n wb where p: "prepare_write (cl_writebuf c) = Inr (buf, n, wb)" "0 \<le> n"
    using wbuf.offer_Inr [OF c(4,5) data] by blast
  let ?e' = "?e\<lparr>events := events ?e AND NOT POLLOUT\<rparr>"
  obtain pl' where pl': "c_write_i (poll_list s) j ?e' = Inr pl'"
    "poll_shape pl' (poll_num s) (poll_len s)"
    "polled pl' (poll_num s) = (polled (poll_list s) (poll_num s))[nat j := ?e']"
    using poll_write [OF i(2) j(1,2)] by metis
  note r = poll_read [OF i(2) j(1,2)]
  have step: "inv_core (Suc (nat j)) ks (t\<lparr>heap := (heap s)(a := Some (c\<lparr>cl_writebuf := wb'\<rparr>)),
      poll_list := (if has_write_data wb' then poll_list s else pl')\<rparr>)"
    if t: "t = s\<lparr>answers := as, trace := tr\<rparr>" "set as \<subseteq> set (answers s)"
      and wb': "wf_writebuf wb'" "\<not> is_writing wb'" for t as tr wb'
  proof -
    have "inv_core (nat j) ks t" using inv t by (simp add: inv_core_answers)
    from inv_core_client [OF this, of cl k a "c\<lparr>cl_writebuf := wb'\<rparr>" j
        "if has_write_data wb' then poll_list s else pl'" "if has_write_data wb' then ?e else ?e'"]
    show ?thesis using t wb' c cl j pl' i(2) \<open>wants_write ?e\<close> by auto
  qed
  have cycle: "\<exists>wb'. have_written wb w = Inr wb' \<and> wf_writebuf wb' \<and> \<not> is_writing wb'"
    if "0 \<le> w" "w \<le> n" for w
    using wbuf.written_Inr [OF c(4,5) data p(1) that] by blast
  have nofail: "Ans_write (- 1) \<notin> set (answers s)" using i(1) by (simp add: env_ok_def)
  show ?thesis
    using c(1) p(1) nofail
    apply (simp add: write_to_client_def runs_load runs_store)
    apply (rule runs_write)
     apply simp
    subgoal premises prems for w as
    proof -
      from cycle [OF prems(5,6)] obtain wb' where
        wb': "have_written wb w = Inr wb'" "wf_writebuf wb'" "\<not> is_writing wb'" by blast
      have "set as \<subseteq> set (answers s)" using prems(4) by auto
      from step [OF refl this wb'(2,3)] show ?thesis
        using prems(5) wb'(1) r pl'(1) by (auto simp: runs_load runs_store split: if_splits)
    qed
    done
qed

lemma snprintf_small:
  assumes "size_t_of (snprintf_result t) < max_alloc"
  shows "length t < 2 ^ 31" "size_t_of (snprintf_result t) = length t"
proof -
  have "is_int (int (length t))"
    using assms by (rule contrapos_pp) (simp add: snprintf_result_def size_t_of_def max_alloc_def)
  then show "length t < 2 ^ 31" "size_t_of (snprintf_result t) = length t"
    by (auto simp: snprintf_result_def is_int_def size_t_of_def)
qed

lemma send_started_runs:
  assumes inv: "inv_core i ks s" and cl: "clients s = Some cl" "(k, a) \<in> set (list_entries cl)"
  shows "runs benign (send_started_msg_to_client a ident)
    (\<lambda>_ s'. inv_core i ks s' \<and> (\<exists>h pl. s' = s\<lparr>heap := h, poll_list := pl\<rparr>)) s"
  using shutdown_runs [OF inv_core_shut_ok [OF inv]] snprintf_small [of "''S;'' @ ident @ ''\<newline>''"]
  by (auto simp: send_started_msg_to_client_def Let_def intro!: queue_write_runs [OF inv cl])

lemma send_msg_runs:
  assumes inv: "inv_core i ks s" and cl: "clients s = Some cl" "(k, a) \<in> set (list_entries cl)"
  shows "runs benign (send_msg_to_client a ident code cpu timeout file)
    (\<lambda>_ s'. inv_core i ks s' \<and> (\<exists>h pl. s' = s\<lparr>heap := h, poll_list := pl\<rparr>)) s"
  using shutdown_runs [OF inv_core_shut_ok [OF inv]]
    snprintf_small [of "finished_text ident code cpu timeout file"]
  by (auto simp: send_msg_to_client_def Let_def intro!: queue_write_runs [OF inv cl])

section \<open>Processes\<close>

lemma copy_argv_spec:
  assumes "i + n \<le> length argv" "Suc (i + n) \<le> length ua"
  shows "copy_argv (map Some argv) ua (int i) n =
    Inr (take (Suc i) ua @ map (Some \<circ> Some) (take n (drop i argv)) @ drop (Suc (i + n)) ua)"
  using assms
proof (induction n arbitrary: i ua)
  case (Suc n)
  let ?ua = "ua[Suc i := Some (Some (argv ! i))]"
  have step: "copy_argv (map Some argv) ua (int i) (Suc n) = copy_argv (map Some argv) ?ua (int (Suc i)) n"
    using Suc.prems by (simp add: c_simps nat_add_distrib add.commute)
  have ih: "copy_argv (map Some argv) ?ua (int (Suc i)) n = Inr (take (Suc (Suc i)) ?ua @
      map (Some \<circ> Some) (take n (drop (Suc i) argv)) @ drop (Suc (Suc i + n)) ?ua)"
    by (rule Suc.IH) (use Suc.prems in simp_all)
  have t1: "take (Suc (Suc i)) ?ua = take (Suc i) ua @ [Some (Some (argv ! i))]"
    using Suc.prems by (simp add: take_Suc_conv_app_nth)
  have t2: "take (Suc n) (drop i argv) = argv ! i # take n (drop (Suc i) argv)"
    using Suc.prems by (simp add: Cons_nth_drop_Suc [symmetric])
  show ?case unfolding step ih t1 t2 by simp
qed simp

text \<open>The argument vector: the command, the arguments, the null pointer.\<close>

lemma unix_argv_spec:
  assumes "n \<le> length argv" "8 * (n + 2) < max_alloc"
  shows "unix_argv cmd (int n) argv = Inr (map Some (Some cmd # map Some (take n argv) @ [None]))"
proof -
  have sz: "size_t_of (int n + 2) = Suc (Suc n)"
    using assms(2) by (simp add: size_t_of_def max_alloc_def nat_add_distrib)
  have upd: "(replicate (Suc n) None)[n := x] = replicate n None @ [x]" for x :: "'b option"
    by (induction n) auto
  have "copy_argv (map Some argv) (Some (Some cmd) # replicate n None @ [Some None]) (int 0) n =
    Inr (map Some (Some cmd # map Some (take n argv) @ [None]))"
    using assms(1) by (subst copy_argv_spec) simp_all
  moreover have "c_write_i (Some (Some cmd) # replicate (Suc n) None) (int n + 1) None
    = Inr (Some (Some cmd) # replicate n None @ [Some None])"
    by (simp add: c_simps nat_add_distrib upd del: replicate.simps)
  ultimately show ?thesis
    using assms(2) by (simp add: unix_argv_def c_malloc_def sz c_simps)
qed

lemma unix_argv_Inl:
  assumes "- 1 \<le> cnt" "cnt \<le> int (length argv)" "cnt < 2 ^ 31" "unix_argv cmd cnt argv = Inl e"
  shows "e = Out_of_memory"
proof (cases "cnt = - 1")
  case True
  with assms(4) show ?thesis
    by (auto simp: unix_argv_def c_malloc_def size_t_of_def c_simps split: if_splits)
next
  case False
  with assms have n: "cnt = int (nat cnt)" "nat cnt \<le> length argv" by auto
  show ?thesis
  proof (cases "8 * (nat cnt + 2) < max_alloc")
    case True
    from unix_argv_spec [OF n(2) True, of cmd] n(1) assms(4) show ?thesis by simp
  next
    case False
    moreover have "0 \<le> cnt" using n(1) by (metis of_nat_0_le_iff)
    ultimately have "max_alloc \<le> 8 * size_t_of (cnt + 2)"
      using assms(3) by (simp add: size_t_of_def nat_add_distrib)
    with assms(4) show ?thesis by (simp add: unix_argv_def c_malloc_def)
  qed
qed

lemma procs_ok_append:
  assumes "procs_ok ks pl" "pid \<notin> ks" "list_append pl pid p = Inr pl'" "is_cstring (task_id p)"
  shows "procs_ok (insert pid ks) pl'"
  using assms tbl.append_Inr [of pl pid p pl'] by (auto simp: procs_ok_def)

lemma procs_ok_remove:
  assumes "procs_ok ks pl" "list_remove pl pid = Inr pl'"
  shows "procs_ok (ks - {pid}) pl'"
proof -
  from assms(1) have w: "wf_list pl" "distinct (tbl.keys pl)"
    by (simp_all add: procs_ok_def tbl.keys_def)
  have w': "wf_list pl'" using tbl.remove_total [OF w(1)] assms(2) by (metis sum.inject(2))
  note d = tbl.remove_distinct [OF w assms(2)]
  have "set (list_entries pl') \<subseteq> set (list_entries pl)"
  proof (cases "map_of (list_entries pl) pid")
    case None
    with tbl.remove_absent [OF w(1) None] assms(2) show ?thesis by simp
  next
    case (Some x)
    from tbl.remove_entries(2) [OF w Some assms(2)] show ?thesis by auto
  qed
  with d w' assms(1) show ?thesis by (auto simp: procs_ok_def tbl.keys_def)
qed

lemma inv_core_processes:
  assumes "inv_core i ks s" "procs_ok ks' pl"
  shows "inv_core i ks' (s\<lparr>processes := Some pl\<rparr>)"
  using assms by (auto simp: inv_core_def)

lemma child_ended_runs:
  assumes inv: "inv_core i ks s" and pid: "pid \<in> ks"
  shows "runs benign (child_ended pid st sec usec)
    (\<lambda>_ s'. inv_core i (ks - {pid}) s' \<and> children s' = children s) s"
  using inv
proof (rule inv_coreE)
  fix cl pl q
  assume i: "clients s = Some cl" "processes s = Some pl" "wf_list cl" "procs_ok ks pl"
  then have w: "wf_list pl" "distinct (tbl.keys pl)"
    by (simp_all add: procs_ok_def tbl.keys_def)
  from pid i(4) obtain p where p: "map_of (list_entries pl) pid = Some p"
    unfolding procs_ok_def by (metis map_of_eq_None_iff not_None_eq)
  obtain pl' where pl': "list_remove pl pid = Inr pl'" using tbl.remove_total [OF w(1)] by blast
  let ?s = "s\<lparr>processes := Some pl'\<rparr>"
  have inv': "inv_core i (ks - {pid}) ?s"
    by (rule inv_core_processes [OF inv procs_ok_remove [OF i(4) pl']])
  have "runs benign (case client of None \<Rightarrow> ret ()
      | Some a \<Rightarrow> send_msg_to_client a (task_id p) code cpu tmo (outfile p))
      (\<lambda>_ s'. inv_core i (ks - {pid}) s' \<and> children s' = children s) ?s"
    if "map_of (list_entries cl) (client_key p) = client" for client code cpu tmo
    using that inv' i(1)
    by (auto split: option.splits dest!: map_of_SomeD
        intro!: runs_mono [OF send_msg_runs [OF inv', of cl "client_key p"]])
  then show ?thesis
    using i p pl' tbl.lookup_map [OF w(1), of pid] tbl.lookup_map [OF i(3), of "client_key p"]
    by (simp add: child_ended_def Let_def)
qed

lemma runs_wait3:
  assumes "\<And>pid st sec usec as. answers s = Ans_wait pid st sec usec # as \<Longrightarrow> pid \<le> 0 \<Longrightarrow>
      Q (pid, st, sec, usec) (s\<lparr>answers := as\<rparr>)"
    "\<And>pid st sec usec as. answers s = Ans_wait pid st sec usec # as \<Longrightarrow> 0 < pid \<Longrightarrow>
      pid \<in> set (children s) \<Longrightarrow>
      Q (pid, st, sec, usec) (s\<lparr>answers := as, children := removeAll pid (children s)\<rparr>)"
  shows "runs benign sys_wait3 Q s"
  unfolding sys_wait3_def runs_bind
  by (rule runs_next) (auto split: answer.splits intro!: runs_possible assms)

lemma runs_bindI:
  "runs E m R s \<Longrightarrow> (\<And>a t. m s = Inr (a, t) \<Longrightarrow> R a t \<Longrightarrow> runs E (k a) Q t) \<Longrightarrow> runs E (bindS m k) Q s"
  by (auto simp: runs_def bindS_def split: sum.splits prod.splits)

lemma runs_at: "f s = g s \<Longrightarrow> runs E g Q s \<Longrightarrow> runs E f Q s"
  by (simp add: runs_def)

lemma wait3_inv:
  assumes "inv_at i s"
  shows "runs benign sys_wait3 (\<lambda>w t. if fst w \<le> 0 then inv_at i t
    else fst w \<notin> set (children t) \<and> inv_core i (insert (fst w) (set (children t))) t) s"
proof -
  have "inv_core i (set (children s)) (s\<lparr>answers := as\<rparr>)" if "answers s = a # as" for a as
    using assms that by (auto simp: inv_at_def intro!: inv_core_answers)
  then show ?thesis
    by (intro runs_wait3) (auto simp: inv_at_def insert_absorb)
qed

lemma handle_child_events_runs:
  "inv_at i s \<Longrightarrow> runs benign handle_child_events (\<lambda>_. inv_at i) s"
proof (induction s rule: handle_child_events.induct)
  case (1 s)
  show ?case
  proof (rule runs_at [where f = handle_child_events, OF handle_child_events.simps],
      rule runs_bindI [OF wait3_inv [OF "1.prems"]])
    fix w t
    assume w: "sys_wait3 s = Inr (w, t)"
      "if fst w \<le> 0 then inv_at i t
       else fst w \<notin> set (children t) \<and> inv_core i (insert (fst w) (set (children t))) t"
    show "runs benign (\<lambda>t. if fst w \<le> 0 then Inr ((), t)
       else bindS (child_ended (fst w) (fst (snd w)) (fst (snd (snd w))) (snd (snd (snd w))))
              (\<lambda>_ u. handle_child_events u) t) (\<lambda>_. inv_at i) t"
    proof (cases "fst w \<le> 0")
      case True
      with w show ?thesis by (simp add: runs_def)
    next
      case False
      have "runs benign (bindS (child_ended (fst w) (fst (snd w)) (fst (snd (snd w))) (snd (snd (snd w))))
              (\<lambda>_ u. handle_child_events u)) (\<lambda>_. inv_at i) t"
      proof (rule runs_bindI [OF child_ended_runs])
        show "inv_core i (insert (fst w) (set (children t))) t" using w(2) False by simp
        fix x u
        assume u: "child_ended (fst w) (fst (snd w)) (fst (snd (snd w))) (snd (snd (snd w))) t = Inr (x, u)"
          "inv_core i (insert (fst w) (set (children t)) - {fst w}) u \<and> children u = children t"
        then have "inv_at i u" using w(2) False by (simp add: inv_at_def)
        from "1.IH" [OF w(1) False u(1) this] show "runs benign (\<lambda>u. handle_child_events u) (\<lambda>_. inv_at i) u"
          by simp
      qed simp
      with False show ?thesis by (simp add: runs_def)
    qed
  qed
qed

section \<open>Starting a process\<close>

lemma runs_mkstemp:
  assumes "\<And>as. set as \<subseteq> set (answers s) \<Longrightarrow> Q (- 1, template) (s\<lparr>answers := as\<rparr>)"
    "\<And>fd file as. set as \<subseteq> set (answers s) \<Longrightarrow> 0 \<le> fd \<Longrightarrow> fd \<notin> set (open_fds s) \<Longrightarrow>
       Q (fd, file) (s\<lparr>answers := as, open_fds := fd # open_fds s\<rparr>)"
  shows "runs benign (sys_mkstemp template) Q s"
  unfolding sys_mkstemp_def runs_bind
  by (rule runs_next) (auto split: answer.splits intro!: runs_possible assms)

lemma runs_fork:
  assumes "\<And>as. set as \<subseteq> set (answers s) \<Longrightarrow> Q (- 1) (s\<lparr>answers := as\<rparr>)"
    "\<And>pid as. set as \<subseteq> set (answers s) \<Longrightarrow> 0 < pid \<Longrightarrow> pid \<notin> set (children s) \<Longrightarrow>
       Q pid (s\<lparr>answers := as, children := pid # children s, trace := trace s @ [Ev_fork pid plan]\<rparr>)"
  shows "runs benign (sys_fork plan) Q s"
  unfolding sys_fork_def runs_bind
  by (rule runs_next) (auto split: answer.splits intro!: runs_possible assms)

text \<open>A descriptor that is none of those the invariant speaks about.\<close>

definition free_fd :: "int \<Rightarrow> server \<Rightarrow> bool" where
  "free_fd fd s \<longleftrightarrow> fd \<noteq> server_sock s \<and> fd \<noteq> fst (cpipe s) \<and>
     (\<forall>cl. clients s = Some cl \<longrightarrow> fd \<notin> fst ` set (list_entries cl))"

lemma inv_core_free_fd:
  assumes "inv_core i ks s" "fd = - 1 \<or> fd \<notin> set (open_fds s)"
  shows "free_fd fd s"
  using assms(1)
proof (rule inv_coreE)
  fix cl
  assume i: "env_ok s" "clients s = Some cl"
    "clients_ok (list_entries cl) (heap s) (next_addr s) (set (open_fds s))
       (server_sock s) (fst (cpipe s))"
  have "fd \<notin> fst ` set (list_entries cl)"
  proof
    assume "fd \<in> fst ` set (list_entries cl)"
    with i(3) have "0 \<le> fd" "fd \<in> set (open_fds s)" by (auto simp: clients_ok_def)
    with assms(2) show False by auto
  qed
  with i assms(2) show ?thesis by (auto simp: free_fd_def env_ok_def)
qed

lemma inv_core_close_fd:
  assumes "inv_core i ks s" "free_fd fd s"
  shows "inv_core i ks (s\<lparr>open_fds := removeAll fd (open_fds s)\<rparr>)"
  by (rule inv_core_open_fds [OF assms(1)]) (use assms(2) in \<open>auto simp: free_fd_def\<close>)

definition kept :: "server \<Rightarrow> server \<Rightarrow> bool" where
  "kept s t \<longleftrightarrow> clients t = clients s \<and> processes t = processes s \<and> queue t = queue s \<and>
     server_sock t = server_sock s \<and> cpipe t = cpipe s \<and> parallel t = parallel s"

lemma open_temp_file_runs:
  assumes "inv_core i ks s"
  shows "runs benign (open_temp_file dir)
    (\<lambda>(fd, file) t. inv_core i ks t \<and> free_fd fd t \<and> kept s t \<and> children t = children s) s"
proof -
  have inv: "inv_core i ks (s\<lparr>answers := as\<rparr>)" if "set as \<subseteq> set (answers s)" for as
    by (rule inv_core_answers [OF assms that])
  have free: "free_fd fd s" if "fd = - 1 \<or> fd \<notin> set (open_fds s)" for fd
    by (rule inv_core_free_fd [OF assms that])
  have opened: "inv_core i ks (s\<lparr>answers := as, open_fds := fd # open_fds s\<rparr>)"
    if "set as \<subseteq> set (answers s)" for as fd
    using inv_core_open_fds [OF inv [OF that], of "fd # open_fds s"] by simp
  have "runs benign (sys_mkstemp template)
    (\<lambda>(fd, file) t. inv_core i ks t \<and> free_fd fd t \<and> kept s t \<and> children t = children s) s" for template
    by (rule runs_mkstemp)
      (use free inv opened in \<open>auto simp: free_fd_def kept_def\<close>)
  then show ?thesis
    unfolding open_temp_file_def runs_bind Let_def
    by (intro runs_lift) (auto simp: c_malloc_eq_Inl c_malloc_eq_Inr)
qed

lemma create_process_runs:
  assumes "inv_core i ks s" "argc = int (length argv)" "length argv < 2 ^ 31"
  shows "runs benign (create_process cmd argc argv usestdin out timelimit memlimit)
    (\<lambda>pid t. inv_core i ks t \<and> kept s t \<and> open_fds t = open_fds s \<and> pid \<notin> set (children s) \<and>
       children t = pid # children s) s"
proof -
  let ?cnt = "if usestdin then argc - 1 else argc"
  have inv: "inv_core i ks (s\<lparr>answers := as\<rparr>)" if "set as \<subseteq> set (answers s)" for as
    by (rule inv_core_answers [OF assms(1) that])
  have err: "e = Out_of_memory" if "unix_argv cmd ?cnt argv = Inl e" for e
    by (rule unix_argv_Inl [OF _ _ _ that]) (use assms(2,3) in auto)
  show ?thesis
    unfolding create_process_def Let_def runs_bind
  proof (rule runs_lift)
    fix ua
    show "runs benign (sys_fork (child_plan cmd ?cnt argv usestdin out timelimit memlimit ua))
      (\<lambda>pid. runs benign (whenS (pid = - 1) (shutdown_with_msg ''failed to fork''))
        (\<lambda>_. runs benign (ret pid) (\<lambda>pid t. inv_core i ks t \<and> kept s t \<and> open_fds t = open_fds s \<and>
           pid \<notin> set (children s) \<and> children t = pid # children s))) s"
      by (rule runs_fork)
        (auto intro!: shutdown_runs inv_core_shut_ok [OF inv] inv simp: kept_def)
  qed (use err in auto)
qed

lemma start_process_runs:
  assumes inv: "inv_core i ks s" and cl: "clients s = Some cl" "(k, a) \<in> set (list_entries cl)"
    and p: "processes s = Some pl" "pid \<notin> ks" "is_cstring (task_id p)" and fd: "free_fd fd s"
  shows "runs benign (bindS (sys_close fd) (\<lambda>_.
     bindS (gets processes) (\<lambda>ps.
     bindS (deref ps) (\<lambda>pl.
     bindS (lift (list_append pl pid p)) (\<lambda>pl'.
     bindS (modify (\<lambda>s. s\<lparr>processes := Some pl'\<rparr>)) (\<lambda>_.
     send_started_msg_to_client a ident))))))
    (\<lambda>_ s'. inv_core i (insert pid ks) s' \<and> children s' = children s \<and> queue s' = queue s \<and>
       parallel s' = parallel s) s"
proof -
  let ?t = "s\<lparr>open_fds := removeAll fd (open_fds s), trace := trace s @ [Ev_close fd]\<rparr>"
  have inv1: "inv_core i ks ?t" using inv_core_close_fd [OF inv fd] by simp
  have procs: "procs_ok ks pl" using inv p(1) by (auto elim!: inv_coreE)
  then have w: "wf_list pl" by (simp add: procs_ok_def)
  have "runs benign (lift (list_append pl pid p)) (\<lambda>pl' s1.
      runs benign (send_started_msg_to_client a ident)
      (\<lambda>_ s'. inv_core i (insert pid ks) s' \<and> children s' = children s \<and> queue s' = queue s \<and>
         parallel s' = parallel s) (s1\<lparr>processes := Some pl'\<rparr>)) ?t"
  proof (rule runs_lift)
    fix e
    assume "list_append pl pid p = Inl e"
    with tbl.append_Inl [OF w this] show "benign e" by auto
  next
    fix pl'
    assume "list_append pl pid p = Inr pl'"
    from inv_core_processes [OF inv1 procs_ok_append [OF procs p(2) this p(3)]]
    have "inv_core i (insert pid ks) (?t\<lparr>processes := Some pl'\<rparr>)" .
    from send_started_runs [OF this, of cl k a ident] cl
    show "runs benign (send_started_msg_to_client a ident)
      (\<lambda>_ s'. inv_core i (insert pid ks) s' \<and> children s' = children s \<and> queue s' = queue s \<and>
         parallel s' = parallel s) (?t\<lparr>processes := Some pl'\<rparr>)"
      by (auto elim!: runs_mono)
  qed
  then show ?thesis using p(1) by (simp add: runs_fun)
qed

lemma run_request_runs:
  assumes inv: "inv_at i s" and r: "run_ok r"
  shows "runs benign (run_request r)
    (\<lambda>_ s'. inv_at i s' \<and> queue s' = queue s \<and> parallel s' = parallel s \<and>
       (children s' = children s \<or> (\<exists>pid. children s' = pid # children s))) s"
  using inv [unfolded inv_at_def]
proof (rule inv_coreE)
  fix cl pl q
  assume i: "clients s = Some cl" "processes s = Some pl" "wf_list cl"
  from r obtain f where f: "req_run r = Some f" "r_numargs f = int (length (r_args f))"
    "length (r_args f) < 2 ^ 31" and ident: "is_cstring (req_id r)"
    by (auto simp: run_ok_def)
  show ?thesis
  proof (cases "map_of (list_entries cl) (req_key r)")
    case None
    with i tbl.lookup_map [OF i(3), of "req_key r"] inv show ?thesis by (simp add: run_request_def)
  next
    case (Some a)
    note ka = map_of_SomeD [OF Some]
    show ?thesis
      using i f Some tbl.lookup_map [OF i(3), of "req_key r"]
      apply (simp add: run_request_def)
      apply (rule runs_mono [OF open_temp_file_runs [OF inv [unfolded inv_at_def]]])
      apply clarify
      apply (rule runs_bindI, erule create_process_runs [OF _ refl f(3)])
      apply (rule runs_mono [OF start_process_runs [OF _ _ ka]])
            apply (auto simp: kept_def free_fd_def ident inv_at_def)
      done
  qed
qed

end
