(* ===== verification/Server_Safe.thy ===== *)
theory Server_Safe
  imports Server_Ops
begin

text \<open>
  The operations that handle events keep the invariant: requests, lines, reading, closing
  and accepting clients, the loop over the poll list and the turn of the main loop.
\<close>

section \<open>What handling a request leaves alone\<close>

text \<open>The table of clients and the contents of all read buffers.\<close>

definition client_view :: "server \<Rightarrow> nat t_list option \<times> (nat \<Rightarrow> t_readbuf option)" where
  "client_view s = (clients s, \<lambda>a. map_option cl_readbuf (heap s a))"

lemma client_view_simps [simp]:
  "client_view (s\<lparr>poll_list := pl\<rparr>) = client_view s"
  "client_view (s\<lparr>queue := q\<rparr>) = client_view s"
  "client_view (s\<lparr>processes := ps\<rparr>) = client_view s"
  by (simp_all add: client_view_def)

lemma keeps_sys:
  "keeps client_view next_answer" "keeps client_view (note_event e)" "keeps client_view (possible p)"
  "keeps client_view (sys_close fd)" "keeps client_view (sys_mkstemp t)" "keeps client_view (sys_fork plan)"
  by (auto simp: keeps_def client_view_def sys_defs bindS_eq_Inr prog_simps
      split: list.splits answer.splits if_splits)

lemma keeps_shutdown: "keeps client_view (shutdown_with_msg m)"
  by (simp add: keeps_def)

lemma keeps_queue_write: "keeps client_view (queue_write a m)"
proof -
  have "keeps client_view (bindS (load_client a) (\<lambda>c.
     bindS (lift (push_write_data (cl_writebuf c) m)) (\<lambda>wb. store_client a (c\<lparr>cl_writebuf := wb\<rparr>))))"
    by (auto simp: keeps_def client_view_def bindS_eq_Inr lift_eq_Inr load_client_def store_client_def
        prog_simps fun_eq_iff split: option.splits)
  then have store: "client_view s' = client_view s"
    if "load_client a s = Inr (c, t)" "push_write_data (cl_writebuf c) m = Inr wb"
      "store_client a (c\<lparr>cl_writebuf := wb\<rparr>) t = Inr (u, s')" for s c t wb u s'
    by (rule keepsD) (use that in \<open>auto simp: bindS_eq_Inr lift_eq_Inr\<close>)
  have rest: "keeps client_view (bindS (poll_list_lookup fd) (\<lambda>entry.
     case entry of
       None \<Rightarrow> ret ()
     | Some i \<Rightarrow>
         bindS (gets poll_list) (\<lambda>pl.
         bindS (lift (c_read_i pl i)) (\<lambda>e.
         bindS (lift (c_write_i pl i (e\<lparr>events := events e OR POLLOUT\<rparr>))) (\<lambda>pl'.
         modify (\<lambda>s. s\<lparr>poll_list := pl'\<rparr>))))))" for fd
    unfolding poll_list_lookup_def by (auto intro!: frame_intros)
  show ?thesis
    unfolding keeps_def
  proof (intro allI impI)
    fix s x s'
    assume "queue_write a m s = Inr (x, s')"
    then obtain c t wb u t' where q: "load_client a s = Inr (c, t)"
      "push_write_data (cl_writebuf c) m = Inr wb"
      "store_client a (c\<lparr>cl_writebuf := wb\<rparr>) t = Inr (u, t')"
      "bindS (poll_list_lookup (cl_fd c)) (\<lambda>entry.
         case entry of
           None \<Rightarrow> ret ()
         | Some i \<Rightarrow>
             bindS (gets poll_list) (\<lambda>pl.
             bindS (lift (c_read_i pl i)) (\<lambda>e.
             bindS (lift (c_write_i pl i (e\<lparr>events := events e OR POLLOUT\<rparr>))) (\<lambda>pl'.
             modify (\<lambda>s. s\<lparr>poll_list := pl'\<rparr>))))) t' = Inr (x, s')"
      unfolding queue_write_def bindS_eq_Inr lift_eq_Inr by auto
    show "client_view s' = client_view s"
      using store [OF q(1-3)] keepsD [OF rest q(4)] by simp
  qed
qed

lemma keeps_run_request: "keeps client_view (run_request r)"
  unfolding run_request_def open_temp_file_def create_process_def send_started_msg_to_client_def Let_def
  by (auto intro!: frame_intros keeps_sys keeps_shutdown keeps_queue_write)

lemma keeps_send_kills: "keeps client_view (send_kills ps)"
  by (induction ps) (simp_all only: send_kills.simps frame_intros keeps_sys)

lemma keeps_lift_state:
  assumes "\<And>s a s'. f s = Inr (a, s') \<Longrightarrow> s' = s\<lparr>logfile := logfile s', parallel := parallel s'\<rparr>"
  shows "keeps client_view (lift_state f)"
proof -
  have "clients s' = clients s \<and> heap s' = heap s" if "f s = Inr (a, s')" for s a s'
    by (subst (1 2) assms [OF that]) simp
  then show ?thesis by (auto simp: keeps_def client_view_def lift_state_eq_Inr)
qed

lemma keeps_handle_request: "keeps client_view (handle_request r)"
  unfolding handle_request_def log_prog_def
  by (cases "req_type r")
    (auto intro!: frame_intros keeps_run_request keeps_send_kills
      keeps_lift_state log_prog_frame)

lemma keeps_handle_line: "keeps client_view (handle_line buf len key)"
  unfolding handle_line_def
  by (intro frame_intros keeps_lift_state keeps_handle_request) (rule parse_request_frame)

lemma handle_lines_view:
  "handle_lines buf key mx cur old s = Inr (x, s') \<Longrightarrow> client_view s' = client_view s"
proof (induction buf key mx cur old s rule: handle_lines.induct)
  case (1 buf key mx cur old s)
  show ?case
    using "1.prems" "1.IH" keepsD [OF keeps_handle_line]
    by (subst (asm) handle_lines.simps) (fastforce simp: bindS_eq_Inr lift_eq_Inr split: if_splits)
qed

section \<open>Requests and lines\<close>

lemma inv_core_queue:
  assumes "inv_core i ks s" "queue_ok q"
  shows "inv_core i ks (s\<lparr>queue := Some q\<rparr>)"
  using assms by (auto simp: inv_core_def)

lemma inv_core_log:
  assumes "inv_core i ks s" "logging s \<longrightarrow> lf \<noteq> None" "1 \<le> p" "is_int p"
  shows "inv_core i ks (s\<lparr>logfile := lf, parallel := p\<rparr>)"
proof -
  have "env_ok (s\<lparr>logfile := lf, parallel := p\<rparr>)"
    using assms by (auto simp: inv_core_def env_ok_def valid_options_def log_ready_def)
  with assms(1) show ?thesis by (auto simp: inv_core_def)
qed

lemma send_kills_runs:
  "inv_core i ks s \<Longrightarrow> runs benign (send_kills ps) (\<lambda>_ s'. inv_core i ks s' \<and> children s' = children s) s"
proof (induction ps arbitrary: s)
  case (Cons p ps)
  with Cons.IH [of "s\<lparr>trace := trace s @ [Ev_kill (proc_id p)]\<rparr>"] show ?case by simp
qed simp

lemma log_prog_runs:
  assumes "log_ready s" "Q () (s\<lparr>logfile := (if logging s then Some (the (logfile s) @ [m]) else logfile s)\<rparr>)"
  shows "runs benign (log_prog m) Q s"
  unfolding log_prog_def
  by (rule runs_lift_state) (use assms in \<open>simp_all add: log_msg_ready\<close>)

definition request_ok :: "request \<Rightarrow> bool" where
  "request_ok r \<longleftrightarrow> is_cstring (req_id r) \<and> (req_type r = REQ_RUN \<longrightarrow> run_ok r)"

lemma run_branch_runs:
  assumes inv: "inv_at i s" and r: "run_ok r"
  shows "runs benign (bindS (gets processes) (\<lambda>ps.
          bindS (deref ps) (\<lambda>pl.
          bindS (gets parallel) (\<lambda>par.
          if list_length pl < par then run_request r
          else
            bindS (gets queue) (\<lambda>q.
            bindS (deref q) (\<lambda>q.
            bindS (lift (queue_push q r)) (\<lambda>q'.
            modify (\<lambda>s. s\<lparr>queue := Some q'\<rparr>)))))))) (\<lambda>_. inv_at i) s"
  using inv [unfolded inv_at_def]
proof (rule inv_coreE)
  fix pl q
  assume i: "processes s = Some pl" "queue s = Some q" "queue_ok q"
  have push: "runs benign (lift (queue_push q r)) (\<lambda>q' s'. inv_at i (s'\<lparr>queue := Some q'\<rparr>)) s"
  proof (rule runs_lift)
    fix e
    assume "queue_push q r = Inl e"
    with ring.push_Inl [of q r e] i(3) show "benign e" by (simp add: queue_ok_def)
  next
    fix q'
    assume "queue_push q r = Inr q'"
    with ring.push_Inr [of q r q'] i(3) r have "queue_ok q'" by (auto simp: queue_ok_def)
    from inv_core_queue [OF inv [unfolded inv_at_def] this] show "inv_at i (s\<lparr>queue := Some q'\<rparr>)"
      by (simp add: inv_at_def)
  qed
  show ?thesis
    using i push run_request_runs [OF inv r]
    by (auto simp: runs_fun elim!: runs_mono)
qed

lemma interrupt_branch_runs:
  assumes inv: "inv_at i s" and ident: "is_cstring ident"
  shows "runs benign (bindS (log_prog m) (\<lambda>_.
          bindS (gets queue) (\<lambda>q.
          bindS (deref q) (\<lambda>q.
          bindS (lift (remove_from_queue ident q)) (\<lambda>q'.
          bindS (modify (\<lambda>s. s\<lparr>queue := Some q'\<rparr>)) (\<lambda>_.
          bindS (gets processes) (\<lambda>ps.
          bindS (deref ps) (\<lambda>pl.
          bindS (lift (kill_processes ident pl)) (\<lambda>killed.
          send_kills killed))))))))) (\<lambda>_. inv_at i) s"
  using inv [unfolded inv_at_def]
proof (rule inv_coreE)
  fix pl q
  assume i: "env_ok s" "processes s = Some pl" "queue s = Some q" "procs_ok (set (children s)) pl" "queue_ok q"
  let ?lf = "if logging s then Some (the (logfile s) @ [m]) else logfile s"
  let ?s = "s\<lparr>logfile := ?lf\<rparr>"
  have inv1: "inv_core i (set (children s)) ?s"
    using inv_core_log [OF inv [unfolded inv_at_def], of ?lf "parallel s"] i(1)
    by (auto simp: env_ok_def valid_options_def log_ready_def)
  have "wf_queue q" "\<forall>r \<in> set (queue_list q). is_cstring (req_id r)"
    using i(5) by (auto simp: queue_ok_def run_ok_def)
  from remove_from_queue_spec [OF this(1) ident this(2)] obtain q' where
    q': "remove_from_queue ident q = Inr q'" "wf_queue q'"
    "queue_list q' = filter (\<lambda>r. req_id r \<noteq> ident) (queue_list q)" by blast
  then have "queue_ok q'" using i(5) by (auto simp: queue_ok_def)
  note inv2 = inv_core_queue [OF inv1 this]
  have kill: "kill_processes ident pl = Inr (filter (\<lambda>p. task_id p = ident) (map snd (list_entries pl)))"
    by (rule kill_processes_spec) (use i(4) ident in \<open>auto simp: procs_ok_def\<close>)
  show ?thesis
    unfolding runs_bind
    by (rule log_prog_runs)
      (use i q'(1) kill inv2 in \<open>auto simp: env_ok_def inv_at_def intro!: runs_mono [OF send_kills_runs]\<close>)
qed

lemma handle_request_runs:
  assumes "inv_at i s" "request_ok r"
  shows "runs benign (handle_request r) (\<lambda>_. inv_at i) s"
  using run_branch_runs [OF assms(1)] interrupt_branch_runs [OF assms(1)] assms(2)
  unfolding handle_request_def request_ok_def by (cases "req_type r") simp_all

lemma parse_fields_request_ok:
  assumes "parse_fields key fs g = (Some r, g')" "length fs \<le> 2 ^ 31"
  shows "request_ok r"
  using assms
  by (auto simp: parse_fields_def request_ok_def run_ok_def run_of_def interrupt_of_def
      split: list.splits if_splits)

lemma handle_line_runs:
  assumes inv: "inv_at i s" and h: "holds buf line" "length line < 2 ^ 31"
  shows "runs benign (handle_line buf (int (length line)) key) (\<lambda>_. inv_at i) s"
proof -
  have env: "valid_options s" "log_ready s"
    using inv by (auto simp: inv_at_def inv_core_def env_ok_def)
  let ?g = "log_line (query_text (cstring line)) s"
  obtain r s' where p: "parse_fields key (split_fields line) ?g = (r, s')" by force
  note fr = parse_fields_frame [OF p]
  have "valid_options ?g" using env(1) by (simp add: log_line_def valid_options_def)
  with fr(2) have v: "1 \<le> parallel s'" "is_int (parallel s')" by (auto simp: valid_options_def)
  have s': "s' = s\<lparr>logfile := logfile ?g, parallel := parallel s'\<rparr>"
    by (subst fr(1)) (simp add: log_line_def)
  have "inv_core i (set (children s)) (s\<lparr>logfile := logfile ?g, parallel := parallel s'\<rparr>)"
    by (rule inv_core_log) (use inv v env(2) in \<open>auto simp: inv_at_def log_line_def log_ready_def\<close>)
  then have inv': "inv_at i s'" unfolding inv_at_def by (subst (2) s') (subst s', simp)
  have "length (split_fields line) \<le> 2 ^ 31"
    using count_le_length [of line "CHR '';''"] h(2) by (simp add: length_fields)
  then have "request_ok x" if "r = Some x" for x
    using parse_fields_request_ok p that by blast
  with handle_request_runs [OF inv'] have
    "runs benign (case r of None \<Rightarrow> ret () | Some r \<Rightarrow> handle_request r) (\<lambda>_. inv_at i) s'"
    using inv' by (cases r) auto
  moreover have "parse_request buf (int (length line)) key s = Inr (r, s')"
    using parse_request_fields [OF h env(2)] p by simp
  ultimately show ?thesis
    unfolding handle_line_def runs_bind by (intro runs_lift_state) auto
qed

lemma find_newline_spec:
  assumes "holds buf bs" "0 \<le> cur" "cur \<le> int (length bs)"
  shows "find_newline buf (int (length bs)) cur =
    Inr (cur + int (length (takeWhile (\<lambda>c. c \<noteq> CHR ''\<newline>'') (drop (nat cur) bs))))"
  using assms
proof (induction buf "int (length bs)" cur rule: find_newline.induct)
  case (1 buf cur)
  show ?case
  proof (cases "cur < int (length bs)")
    case False
    with "1.prems" show ?thesis by (subst find_newline.simps) simp
  next
    case True
    then have n: "nat cur < length bs" "nat (cur + 1) = Suc (nat cur)" using "1.prems"(2) by auto
    have d: "drop (nat cur) bs = bs ! nat cur # drop (Suc (nat cur)) bs"
      using n(1) by (simp add: Cons_nth_drop_Suc)
    have r: "c_read_i buf cur = Inr (bs ! nat cur)"
      by (rule holds_read [OF "1.prems"(1,2) n(1)])
    show ?thesis
    proof (cases "bs ! nat cur = CHR ''\<newline>''")
      case nl: True
      with True r d show ?thesis by (subst find_newline.simps) simp
    next
      case False
      from "1.hyps" [OF True r False "1.prems"(1)] "1.prems"(2) True n False r d show ?thesis
        by (subst find_newline.simps) simp
    qed
  qed
qed

lemma find_newline_bounds:
  assumes "holds buf bs" "0 \<le> cur" "cur \<le> int (length bs)"
  obtains c where "find_newline buf (int (length bs)) cur = Inr c" "cur \<le> c" "c \<le> int (length bs)"
proof -
  have "length (takeWhile (\<lambda>c. c \<noteq> CHR ''\<newline>'') (drop (nat cur) bs)) \<le> length bs - nat cur"
    by (metis length_drop length_takeWhile_le)
  then show ?thesis
    using that [OF find_newline_spec [OF assms]] assms(2,3) by auto
qed

lemma holds_drop: "holds buf bs \<Longrightarrow> holds (drop n buf) (take m (drop n bs))"
proof -
  assume h: "holds buf bs"
  show ?thesis
  proof (cases "n \<le> length bs")
    case True
    define k where "k = length (take m (drop n bs))"
    have k: "k \<le> m" "n + k \<le> length bs" using True by (auto simp: k_def)
    have "take k (drop n buf) = drop n (take (n + k) buf)" by (simp add: take_drop add.commute)
    also have "take (n + k) buf = take (n + k) (take (length bs) buf)" using k by (simp add: min_absorb1)
    also have "\<dots> = map Some (take (n + k) bs)" using h by (simp add: holds_def take_map)
    also have "drop n \<dots> = map Some (take k (drop n bs))" by (simp add: drop_map drop_take)
    finally have eq: "take k (drop n buf) = map Some (take k (drop n bs))" .
    have "take k (drop n bs) = take m (drop n bs)" unfolding k_def
      by (metis append_eq_conv_conj append_take_drop_id)
    with eq show ?thesis by (simp add: holds_def k_def)
  qed (simp add: holds_def)
qed

lemma handle_lines_runs:
  assumes "inv_at i s" "holds buf bs" "mx = int (length bs)" "mx < 2 ^ 31" "0 \<le> old" "old \<le> cur" "cur \<le> mx"
  shows "runs benign (handle_lines buf key mx cur old) (\<lambda>o' s'. inv_at i s' \<and> 0 \<le> o' \<and> o' \<le> mx) s"
  using assms
proof (induction buf key mx cur old s rule: handle_lines.induct)
  case (1 buf key mx cur old s)
  show ?case
  proof (cases "cur < mx")
    case False
    with "1.prems" show ?thesis unfolding runs_def by (subst handle_lines.simps) simp
  next
    case True
    from find_newline_bounds [OF "1.prems"(2), of cur] "1.prems" obtain c where
      c: "find_newline buf mx cur = Inr c" "cur \<le> c" "c \<le> mx" by auto
    have eq: "handle_lines buf key mx cur old s =
      (\<lambda>t. if c = mx then Inr (old, t)
          else bindS (handle_line (drop (nat old) buf) (c - old) key)
                 (\<lambda>_ u. handle_lines buf key mx (c + 1) (c + 1) u) t) s"
      using True c(1) by (subst handle_lines.simps) (simp add: bindS_run_simps)
    show ?thesis
    proof (cases "c = mx")
      case True
      with "1.prems" show ?thesis unfolding runs_def eq by simp
    next
      case False
      let ?line = "take (nat (c - old)) (drop (nat old) bs)"
      have len: "int (length ?line) = c - old" using "1.prems" c by (auto simp: min_def)
      have "runs benign (handle_line (drop (nat old) buf) (c - old) key) (\<lambda>_. inv_at i) s"
        using handle_line_runs [OF "1.prems"(1) holds_drop [OF "1.prems"(2)], of "nat (c - old)" "nat old" key]
          len "1.prems"(3-5) c by simp
      then have "runs benign (bindS (handle_line (drop (nat old) buf) (c - old) key)
          (\<lambda>_ u. handle_lines buf key mx (c + 1) (c + 1) u)) (\<lambda>o' s'. inv_at i s' \<and> 0 \<le> o' \<and> o' \<le> mx) s"
      proof (rule runs_bindI)
        fix x t
        assume t: "handle_line (drop (nat old) buf) (c - old) key s = Inr (x, t)" "inv_at i t"
        have "lift (find_newline buf mx cur) s = Inr (c, s)" using c(1) by (simp add: prog_simps)
        from "1.IH" [OF True this False t(1) t(2)] "1.prems" c False show
          "runs benign (\<lambda>u. handle_lines buf key mx (c + 1) (c + 1) u) (\<lambda>o' s'. inv_at i s' \<and> 0 \<le> o' \<and> o' \<le> mx) t"
          by simp
      qed
      with False show ?thesis unfolding runs_def eq by simp
    qed
  qed
qed

section \<open>Reading from a client\<close>

lemma inv_core_readbuf:
  assumes inv: "inv_core i ks s" and cl: "clients s = Some cl" "(k, a) \<in> set (list_entries cl)"
    and c: "heap s a = Some c" and rb: "wf_readbuf rb"
  shows "inv_core i ks (s\<lparr>heap := (heap s)(a := Some (c\<lparr>cl_readbuf := rb\<rparr>))\<rparr>)"
  using inv
proof (rule inv_coreE)
  fix cl'
  assume i: "poll_shape (poll_list s) (poll_num s) (poll_len s)" "clients s = Some cl'"
    "clients_ok (list_entries cl') (heap s) (next_addr s) (set (open_fds s))
       (server_sock s) (fst (cpipe s))"
    "polls_ok i (list_entries cl') (heap s) (polled (poll_list s) (poll_num s))
       (server_sock s) (fst (cpipe s))"
  have ka: "(k, a) \<in> set (list_entries cl')" using cl i(2) by simp
  from clients_okD [OF i(3) ka] c have ok: "cl_fd c = k" "wf_writebuf (cl_writebuf c)"
    "\<not> is_writing (cl_writebuf c)" by auto
  obtain j where j: "0 \<le> j" "j < poll_num s" "pfd (polled (poll_list s) (poll_num s) ! nat j) = k"
    using polls_entry [OF i(1,4) ka] by blast
  let ?e = "polled (poll_list s) (poll_num s) ! nat j"
  have jl: "nat j < length (polled (poll_list s) (poll_num s))"
    using j length_polled [OF i(1)] by simp
  then have e: "wants_write ?e = has_write_data (cl_writebuf c)"
    using i(4) ka j(3) c nth_mem [OF jl] by (auto simp: polls_ok_def)
  have stage: "may_write ?e \<Longrightarrow> wants_write ?e" if "i \<le> nat j"
    using i(4) that jl by (simp add: polls_ok_def)
  have "inv_core i ks (s\<lparr>heap := (heap s)(a := Some (c\<lparr>cl_readbuf := rb\<rparr>)), poll_list := poll_list s\<rparr>)"
    by (rule inv_core_client [OF inv cl _ _ _ _ j i(1)]) (use ok rb j e stage in auto)
  then show ?thesis by simp
qed

lemma inv_core_client_at:
  assumes "inv_core i ks s" "clients s = Some cl" "(k, a) \<in> set (list_entries cl)"
  obtains c where "heap s a = Some c" "cl_fd c = k" "wf_readbuf (cl_readbuf c)" "wf_writebuf (cl_writebuf c)"
    "\<not> is_writing (cl_writebuf c)" "0 \<le> k"
  using assms(1)
proof (rule inv_coreE)
  fix cl'
  assume "clients s = Some cl'" "clients_ok (list_entries cl') (heap s) (next_addr s) (set (open_fds s))
       (server_sock s) (fst (cpipe s))"
  with assms(2,3) clients_okD [of "list_entries cl'"] that show ?thesis by (metis option.inject)
qed

lemma have_taken_Inl:
  assumes "wf_readbuf b" "n \<le> rb_len b" "have_taken b n = Inl e"
  shows "e = Overlap"
proof (cases "2 * n < rb_len b")
  case True
  with have_taken_overlap [OF assms(1,2)] assms(3) show ?thesis by simp
next
  case False
  with have_taken_spec [OF assms(1,2)] assms(3) show ?thesis by auto
qed

lemma have_taken_Inr:
  assumes "wf_readbuf b" "n \<le> rb_len b" "have_taken b n = Inr b'"
  shows "wf_readbuf b'" "readbuf_bytes b' = drop n (readbuf_bytes b)"
proof -
  have "rb_len b \<le> 2 * n" using have_taken_overlap [OF assms(1,2)] assms(3) by fastforce
  from have_taken_spec [OF assms(1,2) this] assms(3)
  show "wf_readbuf b'" "readbuf_bytes b' = drop n (readbuf_bytes b)" by auto
qed

lemma c_int_le: "0 \<le> n \<Longrightarrow> c_int n \<le> n"
  using zmod_le_nonneg_dividend [of "n + 2 ^ 31" "2 ^ 32"] by (simp add: c_int_def)

lemma readbuf_holds:
  assumes "wf_readbuf b" "n \<le> rb_len b"
  shows "holds (rb_data b) (take n (readbuf_bytes b))" "length (take n (readbuf_bytes b)) = n"
proof -
  have t: "take (rb_len b) (rb_data b) = map Some (readbuf_bytes b)"
    and l: "length (readbuf_bytes b) = rb_len b"
    using assms(1) by (auto simp: wf_readbuf_def readbuf_bytes_def)
  show "length (take n (readbuf_bytes b)) = n" using l assms(2) by simp
  have "take n (rb_data b) = take n (take (rb_len b) (rb_data b))" using assms(2) by (simp add: min_absorb1)
  then show "holds (rb_data b) (take n (readbuf_bytes b))"
    using l assms(2) unfolding t by (simp add: holds_def take_map min_absorb2 min_absorb1)
qed

lemma handle_msg_runs:
  assumes inv: "inv_at i s" and cl: "clients s = Some cl" "(k, a) \<in> set (list_entries cl)"
  shows "runs benign (handle_msg a key) (\<lambda>_. inv_at i) s"
proof -
  obtain c where c: "heap s a = Some c" "wf_readbuf (cl_readbuf c)"
    using inv_core_client_at [OF inv [unfolded inv_at_def] cl] by metis
  let ?rb = "cl_readbuf c" let ?mx = "c_int (int (rb_len ?rb))"
  have lines: "runs benign (handle_lines (rb_data ?rb) key ?mx 0 0)
    (\<lambda>o' s'. inv_at i s' \<and> 0 \<le> o' \<and> o' \<le> int (rb_len ?rb)) s"
  proof (cases "0 < ?mx")
    case False
    with inv show ?thesis unfolding runs_def by (subst handle_lines.simps) simp
  next
    case True
    have le: "?mx \<le> int (rb_len ?rb)" by (rule c_int_le) simp
    have lt: "?mx < 2 ^ 31" using is_int_c_int [of "int (rb_len ?rb)"] by (simp add: is_int_def)
    note h = readbuf_holds [OF c(2), of "nat ?mx"]
    have "runs benign (handle_lines (rb_data ?rb) key ?mx 0 0)
      (\<lambda>o' s'. inv_at i s' \<and> 0 \<le> o' \<and> o' \<le> ?mx) s"
      by (rule handle_lines_runs [OF inv h(1) _ lt]) (use h(2) True le in auto)
    then show ?thesis by (rule runs_mono) (use le in auto)
  qed
  have "runs benign (bindS (handle_lines (rb_data ?rb) key ?mx 0 0) (\<lambda>old.
        whenS (old > 0)
          (bindS (load_client a) (\<lambda>c.
           bindS (lift (have_taken (cl_readbuf c) (size_t_of old))) (\<lambda>rb.
           store_client a (c\<lparr>cl_readbuf := rb\<rparr>)))))) (\<lambda>_. inv_at i) s"
  proof (rule runs_bindI [OF lines])
    fix old t
    assume t: "handle_lines (rb_data ?rb) key ?mx 0 0 s = Inr (old, t)"
      "inv_at i t \<and> 0 \<le> old \<and> old \<le> int (rb_len ?rb)"
    have view: "client_view t = client_view s" by (rule handle_lines_view [OF t(1)])
    then have cl': "clients t = Some cl" using cl(1) by (simp add: client_view_def)
    have "map_option cl_readbuf (heap t a) = Some ?rb"
      using view c(1) by (simp add: client_view_def fun_eq_iff)
    then obtain c' where c': "heap t a = Some c'" "cl_readbuf c' = ?rb" by auto
    have len: "size_t_of old \<le> rb_len ?rb"
      using t(2) zmod_le_nonneg_dividend [of old "2 ^ 64"] by (simp add: size_t_of_def nat_le_iff)
    have "runs benign (lift (have_taken ?rb (size_t_of old)))
      (\<lambda>rb. runs benign (store_client a (c'\<lparr>cl_readbuf := rb\<rparr>)) (\<lambda>_. inv_at i)) t"
    proof (rule runs_lift)
      fix e
      assume "have_taken ?rb (size_t_of old) = Inl e"
      with have_taken_Inl [OF c(2) len] show "benign e" by simp
    next
      fix rb
      assume "have_taken ?rb (size_t_of old) = Inr rb"
      then have "wf_readbuf rb" by (rule have_taken_Inr(1) [OF c(2) len])
      from inv_core_readbuf [OF _ cl' cl(2) c'(1) this] t(2)
      show "runs benign (store_client a (c'\<lparr>cl_readbuf := rb\<rparr>)) (\<lambda>_. inv_at i) t"
        by (simp add: inv_at_def runs_store [OF c'(1)])
    qed
    then show "runs benign (whenS (old > 0)
          (bindS (load_client a) (\<lambda>c.
           bindS (lift (have_taken (cl_readbuf c) (size_t_of old))) (\<lambda>rb.
           store_client a (c\<lparr>cl_readbuf := rb\<rparr>))))) (\<lambda>_. inv_at i) t"
      using t(2) c' by (simp add: runs_load)
  qed
  then show ?thesis
    using c(1) by (simp add: handle_msg_def Let_def runs_load)
qed

section \<open>Closing a client\<close>

lemma distinct_filter_update:
  assumes "distinct (filter P xs)" "j < length xs" "\<not> P y"
  shows "distinct (filter P (xs[j := y]))"
proof -
  have "distinct (filter P (take j xs @ xs ! j # drop (Suc j) xs))"
    using assms(1) id_take_nth_drop [OF assms(2)] by simp
  then show ?thesis using assms(2,3) by (auto simp: upd_conv_take_nth_drop split: if_splits)
qed

lemma polls_ok_remove:
  assumes p: "polls_ok i es h ps sock pip" and c: "clients_ok es h na fds sock pip"
    and a: "(k, a) \<in> set es" and es': "set es = insert (k, a) (set es')" "k \<notin> fst ` set es'"
    and j: "j < length ps" "pfd (ps ! j) = k" and sock: "0 \<le> sock"
  shows "polls_ok i es' (h(a := None)) (ps[j := (ps ! j)\<lparr>pfd := - 1, revents := 0\<rparr>]) sock pip"
proof -
  let ?e = "(ps ! j)\<lparr>pfd := - 1, revents := 0\<rparr>"
  have k: "0 \<le> k" "k \<noteq> sock" "k \<noteq> pip" using c a by (auto simp: clients_ok_def)
  have others: "x = ?e \<or> x \<in> set ps \<and> pfd x \<noteq> k" if "x \<in> set (ps[j := ?e])" for x
  proof -
    from that obtain m where m: "m < length ps" "x = ps[j := ?e] ! m"
      by (auto simp: in_set_conv_nth)
    show ?thesis
    proof (cases "m = j")
      case False
      then have "pfd (ps ! m) \<noteq> k" using polls_unique [OF p j(1) m(1)] j(2) k(1) by auto
      with m False show ?thesis by auto
    qed (use m j in simp)
  qed
  have stays: "x \<in> set (ps[j := ?e])" if "x \<in> set ps" "pfd x \<noteq> k" for x
  proof -
    from that obtain m where m: "m < length ps" "x = ps ! m" by (auto simp: in_set_conv_nth)
    with that j have "m \<noteq> j" by auto
    with m have "ps[j := ?e] ! m = x" by simp
    with m show ?thesis by (metis length_list_update nth_mem)
  qed
  have addr: "a' \<noteq> a" "k' \<noteq> k" "(k', a') \<in> set es" if "(k', a') \<in> set es'" for k' a'
  proof -
    show k': "k' \<noteq> k" using that es'(2) by force
    show e: "(k', a') \<in> set es" using that es'(1) by auto
    show "a' \<noteq> a" using inj_onD [of snd "set es" "(k', a')" "(k, a)"] c a e k'
      by (auto simp: clients_ok_def distinct_map)
  qed
  have p1: "pfd x = - 1 \<or> pfd x = sock \<or> pfd x = pip \<or> pfd x \<in> fst ` set es"
    and p2: "pfd x = sock \<longrightarrow> revents x = 0 \<or> revents x = POLLIN" if "x \<in> set ps" for x
    using p that by (auto simp: polls_ok_def)
  have p3: "k' \<in> pfd ` set ps" and p4: "\<And>x. x \<in> set ps \<Longrightarrow> pfd x = k' \<Longrightarrow>
      wants_write x = has_write_data (cl_writebuf (the (h a')))" if "(k', a') \<in> set es" for k' a'
    using p that by (auto simp: polls_ok_def)
  have p5: "wants_write (ps ! m)" if "i \<le> m" "m < length ps" "may_write (ps ! m)" for m
    using p that by (auto simp: polls_ok_def)
  show ?thesis
    unfolding polls_ok_def
  proof (intro conjI)
    show "distinct (filter (\<lambda>k. 0 \<le> k) (map pfd (ps[j := ?e])))"
      using p j(1) distinct_filter_update [of "\<lambda>k. 0 \<le> k" "map pfd ps" j "- 1"]
      by (simp add: polls_ok_def map_update)
    show "\<forall>x \<in> set (ps[j := ?e]). pfd x = - 1 \<or> pfd x = sock \<or> pfd x = pip \<or> pfd x \<in> fst ` set es'"
    proof
      fix x
      assume "x \<in> set (ps[j := ?e])"
      then consider "x = ?e" | "x \<in> set ps" "pfd x \<noteq> k" using others by blast
      then show "pfd x = - 1 \<or> pfd x = sock \<or> pfd x = pip \<or> pfd x \<in> fst ` set es'"
        using p1 [of x] es'(1) by cases auto
    qed
    show "\<forall>(k', a') \<in> set es'. k' \<in> pfd ` set (ps[j := ?e])"
    proof clarify
      fix k' a'
      assume e: "(k', a') \<in> set es'"
      from p3 [OF addr(3) [OF e]] obtain x where "x \<in> set ps" "pfd x = k'" by auto
      with stays addr(2) [OF e] show "k' \<in> pfd ` set (ps[j := ?e])" by blast
    qed
    have "revents x = 0 \<or> revents x = POLLIN" if "x \<in> set (ps[j := ?e])" "pfd x = sock" for x
      using others [OF that(1)] p2 [of x] that(2) by auto
    then show "\<forall>x \<in> set (ps[j := ?e]). pfd x = sock \<longrightarrow> revents x = 0 \<or> revents x = POLLIN"
      by blast
    show "\<forall>(k', a') \<in> set es'. \<forall>x \<in> set (ps[j := ?e]). pfd x = k' \<longrightarrow>
        wants_write x = has_write_data (cl_writebuf (the ((h(a := None)) a')))"
    proof clarify
      fix k' a' x
      assume e: "(pfd x, a') \<in> set es'" and x: "x \<in> set (ps[j := ?e])"
      have "0 \<le> pfd x" using addr(3) [OF e] c by (auto simp: clients_ok_def)
      then have "x \<in> set ps" using others [OF x] by auto
      with p4 [OF addr(3) [OF e]] addr(1) [OF e]
      show "wants_write x = has_write_data (cl_writebuf (the ((h(a := None)) a')))" by simp
    qed
    have "wants_write (ps[j := ?e] ! m)"
      if "i \<le> m" "m < length ps" "may_write (ps[j := ?e] ! m)" for m
      using that p5 j(1) by (cases "m = j") (auto simp: may_write_def)
    then show "\<forall>m. i \<le> m \<and> m < length (ps[j := ?e]) \<and> may_write (ps[j := ?e] ! m) \<longrightarrow>
        wants_write (ps[j := ?e] ! m)"
      by simp
  qed
qed

lemma clients_ok_remove:
  assumes c: "clients_ok es h na fds sock pip" and a: "(k, a) \<in> set es"
    and es': "distinct (map fst es')" "set es = insert (k, a) (set es')" "k \<notin> fst ` set es'"
      "length es = Suc (length es')"
  shows "clients_ok es' (h(a := None)) na (fds - {k}) sock pip"
proof -
  have sub: "(k', a') \<in> set es" "k' \<noteq> k" "a' \<noteq> a" if "(k', a') \<in> set es'" for k' a'
  proof -
    show k': "k' \<noteq> k" using that es'(3) by force
    show e: "(k', a') \<in> set es" using that es'(2) by auto
    show "a' \<noteq> a" using inj_onD [of snd "set es" "(k', a')" "(k, a)"] c a e k'
      by (auto simp: clients_ok_def distinct_map)
  qed
  have "inj_on snd (set es')" using c es'(2)
    by (auto simp: clients_ok_def distinct_map intro: inj_on_subset)
  moreover have "distinct es'" using es'(1) by (simp add: distinct_map)
  ultimately have "distinct (map snd es')" by (simp add: distinct_map)
  moreover have "0 \<le> k' \<and> k' \<in> fds - {k} \<and> k' \<noteq> sock \<and> k' \<noteq> pip \<and> a' < na \<and> client_ok (h(a := None)) k' a'"
    if "(k', a') \<in> set es'" for k' a'
    using c sub [OF that] by (auto simp: clients_ok_def client_ok_def)
  ultimately show ?thesis using es'(1) unfolding clients_ok_def by blast
qed

lemma close_client_runs:
  assumes inv: "inv_at i s" and cl: "clients s = Some cl" "(k, a) \<in> set (list_entries cl)"
  shows "runs benign (close_client a) (\<lambda>_. inv_at i) s"
  using inv [unfolded inv_at_def]
proof (rule inv_coreE)
  fix cl0 pl q
  assume i: "env_ok s" "poll_shape (poll_list s) (poll_num s) (poll_len s)"
    "clients s = Some cl0" "processes s = Some pl" "queue s = Some q" "wf_list cl0"
    "clients_ok (list_entries cl0) (heap s) (next_addr s) (set (open_fds s))
       (server_sock s) (fst (cpipe s))"
    "polls_ok i (list_entries cl0) (heap s) (polled (poll_list s) (poll_num s))
       (server_sock s) (fst (cpipe s))" "procs_ok (set (children s)) pl" "queue_ok q"
  have [simp]: "cl0 = cl" using i(3) cl by simp
  from clients_okD [OF i(7)] cl(2) obtain c where
    c: "heap s a = Some c" "cl_fd c = k" "wf_writebuf (cl_writebuf c)" "0 \<le> k" by force
  have w: "wf_list cl" "distinct (tbl.keys cl)" using i(6,7) by (simp_all add: tbl.keys_def clients_ok_def)
  have m: "map_of (list_entries cl) k = Some a"
    using w(2) cl(2) by (simp add: tbl.keys_def)
  obtain cl' where cl': "list_remove cl k = Inr cl'" "wf_list cl'" using tbl.remove_total [OF w(1)] by blast
  note r = tbl.remove_entries [OF w m cl'(1), unfolded tbl.keys_def]
  obtain j where j: "poll_lookup_from (poll_list s) (poll_num s) k 0 = Inr (Some j)" "0 \<le> j"
    "j < poll_num s" "pfd (polled (poll_list s) (poll_num s) ! nat j) = k"
    using polls_entry [OF i(2,8)] cl(2) by auto
  let ?e = "polled (poll_list s) (poll_num s) ! nat j"
  obtain pl' where pl': "c_write_i (poll_list s) j (?e\<lparr>pfd := - 1, revents := 0\<rparr>) = Inr pl'"
    "poll_shape pl' (poll_num s) (poll_len s)"
    "polled pl' (poll_num s) = (polled (poll_list s) (poll_num s))[nat j := ?e\<lparr>pfd := - 1, revents := 0\<rparr>]"
    using poll_write [OF i(2) j(2,3)] by metis
  have jl: "nat j < length (polled (poll_list s) (poll_num s))"
    using j length_polled [OF i(2)] by simp
  let ?t = "s\<lparr>clients := Some cl', poll_list := pl', open_fds := removeAll k (open_fds s),
    trace := trace s @ [Ev_close k], heap := (heap s)(a := None)\<rparr>"
  have k: "k \<noteq> server_sock s" "k \<noteq> fst (cpipe s)" using i(7) cl(2) by (auto simp: clients_ok_def)
  have "env_ok ?t" using i(1) k by (auto simp: env_ok_def valid_options_def log_ready_def)
  moreover have "set (removeAll k (open_fds s)) = set (open_fds s) - {k}" by simp
  moreover have "polls_ok i (list_entries cl') ((heap s)(a := None)) (polled pl' (poll_num s))
      (server_sock s) (fst (cpipe s))"
    unfolding pl'(3)
    by (rule polls_ok_remove [OF i(8,7) [simplified]]) (use cl(2) r j(4) jl i(1) in \<open>auto simp: env_ok_def\<close>)
  moreover have "clients_ok (list_entries cl') ((heap s)(a := None)) (next_addr s) (set (open_fds s) - {k})
      (server_sock s) (fst (cpipe s))"
    by (rule clients_ok_remove [OF i(7) [simplified]]) (use cl(2) r in auto)
  ultimately have inv': "inv_at i ?t"
    using i cl'(2) pl'(2) unfolding inv_at_def inv_core_def by simp
  have shut: "runs benign (shutdown_with_msg m) Q (s\<lparr>clients := Some cl', poll_list := pl',
      open_fds := removeAll k (open_fds s), heap := (heap s)(a := None), trace := tr\<rparr>)" for m Q tr
  proof -
    have "inv_core i (set (children s)) (?t\<lparr>trace := tr\<rparr>)"
      unfolding inv_core_trace using inv' by (simp add: inv_at_def)
    from shutdown_runs [OF inv_core_shut_ok [OF this], of m Q] show ?thesis by simp
  qed
  show ?thesis
    using inv' c cl(1) cl'(1) j(1) pl'(1) poll_read [OF i(2) j(2,3)]
      free_writebuf_spec [OF wf_writebuf_queue [OF c(3)]]
    by (simp add: close_client_def runs_load poll_list_remove_def shutdown_server_def inv_at_def shut)
qed

end
