(* ===== verification/Server_Loop.thy ===== *)
theory Server_Loop
  imports Server_Safe
begin

text \<open>
  The loop of the Unix server: every event handler, the loop over the poll list and the
  turn of the main loop keep the invariant, initialisation establishes it, and hence no
  execution ends in a bad error.
\<close>

section \<open>Reading\<close>

lemma runs_read:
  assumes "\<And>bs as. answers s = Ans_read (Some bs) # as \<Longrightarrow> length bs \<le> n \<Longrightarrow>
      Q (Some bs) (s\<lparr>answers := as\<rparr>)"
    "\<And>as. answers s = Ans_read None # as \<Longrightarrow> Q None (s\<lparr>answers := as\<rparr>)"
  shows "runs benign (sys_read n) Q s"
  unfolding sys_read_def runs_bind
  by (rule runs_next) (use assms in \<open>auto split: answer.splits option.splits\<close>)

lemma read_on_client_runs:
  assumes inv: "inv_at i s" and cl: "clients s = Some cl" "(k, a) \<in> set (list_entries cl)"
  shows "runs benign (read_on_client a) (\<lambda>_. inv_at i) s"
proof -
  note core = inv [unfolded inv_at_def]
  obtain c where c: "heap s a = Some c" "wf_readbuf (cl_readbuf c)"
    using inv_core_client_at [OF core cl] by metis
  from prepare_read_spec [OF c(2), of READ_ONCE] consider
    "prepare_read (cl_readbuf c) READ_ONCE = Inl Out_of_memory"
    | rb where "prepare_read (cl_readbuf c) READ_ONCE = Inr (rb_len (cl_readbuf c), rb)" "wf_readbuf rb"
      "rb_len rb = rb_len (cl_readbuf c)" "rb_len (cl_readbuf c) + READ_ONCE \<le> rb_capacity rb"
    by blast
  then show ?thesis
  proof cases
    case 1
    with c(1) show ?thesis by (simp add: read_on_client_def runs_load)
  next
    case 2
    let ?s = "\<lambda>as. s\<lparr>heap := (heap s)(a := Some (c\<lparr>cl_readbuf := rb\<rparr>)), answers := as\<rparr>"
    have inv1: "inv_at i (?s as)" if "set as \<subseteq> set (answers s)" for as
      using inv_core_answers [OF inv_core_readbuf [OF core cl c(1) 2(2)], of as] that
      by (simp add: inv_at_def)
    have got: "runs benign (read_result a c (rb_len (cl_readbuf c)) rb (Some bs)) (\<lambda>_. inv_at i) (?s as)"
      if bs: "length bs \<le> READ_ONCE" and as: "set as \<subseteq> set (answers s)" for bs as
    proof -
      from store_have_read [OF 2(2), of bs] bs 2(3,4) obtain d rb' where
        d: "c_store (rb_data rb) (rb_len (cl_readbuf c)) bs = Inr d"
        "have_read (rb\<lparr>rb_data := d\<rparr>) (length bs) = Inr rb'" "wf_readbuf rb'" by auto
      have "inv_core i (set (children (?s as))) ((?s as)\<lparr>heap := (heap (?s as))(a :=
          Some ((c\<lparr>cl_readbuf := rb\<rparr>)\<lparr>cl_readbuf := rb'\<rparr>))\<rparr>)"
        by (rule inv_core_readbuf [OF inv1 [OF as, unfolded inv_at_def] _ cl(2) _ d(3)])
          (use cl in auto)
      then have "inv_at i (s\<lparr>answers := as, heap := (heap s)(a := Some (c\<lparr>cl_readbuf := rb'\<rparr>))\<rparr>)"
        by (simp add: inv_at_def)
      from handle_msg_runs [OF this, of cl k a "cl_fd c"] close_client_runs [OF inv1 [OF as] _ cl(2)] cl
      show ?thesis by (simp add: read_result_def d runs_store)
    qed
    have failed: "runs benign (read_result a c (rb_len (cl_readbuf c)) rb None) (\<lambda>_. inv_at i) (?s as)"
      if "set as \<subseteq> set (answers s)" for as
      using inv1 [OF that] by (simp add: read_result_def)
    have "runs benign (sys_read READ_ONCE)
      (\<lambda>res. runs benign (read_result a c (rb_len (cl_readbuf c)) rb res) (\<lambda>_. inv_at i))
      (s\<lparr>heap := (heap s)(a := Some (c\<lparr>cl_readbuf := rb\<rparr>))\<rparr>)"
      by (rule runs_read) (auto intro!: got failed)
    then show ?thesis
      using c(1) 2(1) by (simp add: read_on_client_def runs_load runs_store)
  qed
qed

section \<open>Accepting a client\<close>

lemma runs_accept:
  assumes "\<And>as. set as \<subseteq> set (answers s) \<Longrightarrow> Q (- 1) (s\<lparr>answers := as\<rparr>)"
    "\<And>fd as. set as \<subseteq> set (answers s) \<Longrightarrow> 0 \<le> fd \<Longrightarrow> fd \<notin> set (open_fds s) \<Longrightarrow>
       Q fd (s\<lparr>answers := as, open_fds := fd # open_fds s\<rparr>)"
  shows "runs benign sys_accept Q s"
  unfolding sys_accept_def runs_bind
  by (rule runs_next) (auto split: answer.splits intro!: runs_possible assms)

lemma POLLIN_no_write [simp]: "\<not> wants_write \<lparr>pfd = fd, events = POLLIN, revents = r\<rparr>"
  by (simp add: wants_write_def POLLIN_def POLLOUT_def)

lemma no_revents [simp]: "\<not> may_write \<lparr>pfd = fd, events = ev, revents = 0\<rparr>"
  by (simp add: may_write_def)

lemma polls_ok_add:
  assumes p: "polls_ok i es h ps sock pip" and c: "clients_ok es h na fds sock pip"
    and fd: "0 \<le> fd" "fd \<notin> fds" "sock \<in> fds" "pip \<in> fds"
    and new: "\<not> has_write_data (cl_writebuf c')"
  shows "polls_ok i (es @ [(fd, na)]) (h(na := Some c'))
    (ps @ [\<lparr>pfd = fd, events = POLLIN, revents = 0\<rparr>]) sock pip"
proof -
  have keys: "k \<in> fds" "a \<noteq> na" if "(k, a) \<in> set es" for k a
    using c that by (auto simp: clients_ok_def)
  have fresh: "pfd e \<noteq> fd" if "e \<in> set ps" for e
  proof -
    have "pfd e = - 1 \<or> pfd e = sock \<or> pfd e = pip \<or> pfd e \<in> fst ` set es"
      using p that by (auto simp: polls_ok_def)
    with keys fd show ?thesis by auto
  qed
  then have "fd \<notin> pfd ` set ps" by auto
  with p fd(1) have "distinct (filter (\<lambda>k. 0 \<le> k) (map pfd (ps @ [\<lparr>pfd = fd, events = POLLIN, revents = 0\<rparr>])))"
    by (simp add: polls_ok_def) 
  moreover have "wants_write e = has_write_data (cl_writebuf (the ((h(na := Some c')) a)))"
    if "(k, a) \<in> set (es @ [(fd, na)])" "e \<in> set (ps @ [\<lparr>pfd = fd, events = POLLIN, revents = 0\<rparr>])"
      "pfd e = k" for k a e
  proof (cases "k = fd")
    case True
    with that keys(1) fd(2) have "a = na" by auto
    moreover from True that fresh have "e = \<lparr>pfd = fd, events = POLLIN, revents = 0\<rparr>" by auto
    ultimately show ?thesis using new by simp
  next
    case False
    with that have "(k, a) \<in> set es" "e \<in> set ps" by auto
    with p keys(2) that(3) show ?thesis by (auto simp: polls_ok_def)
  qed
  moreover have "wants_write ((ps @ [\<lparr>pfd = fd, events = POLLIN, revents = 0\<rparr>]) ! j)"
    if "i \<le> j" "j < length (ps @ [\<lparr>pfd = fd, events = POLLIN, revents = 0\<rparr>])"
      "may_write ((ps @ [\<lparr>pfd = fd, events = POLLIN, revents = 0\<rparr>]) ! j)" for j
    using that p by (cases "j = length ps") (auto simp: polls_ok_def nth_append)
  moreover have "\<forall>e \<in> set (ps @ [\<lparr>pfd = fd, events = POLLIN, revents = 0\<rparr>]).
      pfd e = - 1 \<or> pfd e = sock \<or> pfd e = pip \<or> pfd e \<in> fst ` set (es @ [(fd, na)])"
    using p by (auto simp: polls_ok_def)
  moreover have "\<forall>(k, a) \<in> set (es @ [(fd, na)]).
      k \<in> pfd ` set (ps @ [\<lparr>pfd = fd, events = POLLIN, revents = 0\<rparr>])"
    using p by (auto simp: polls_ok_def)
  moreover have "\<forall>e \<in> set (ps @ [\<lparr>pfd = fd, events = POLLIN, revents = 0\<rparr>]).
      pfd e = sock \<longrightarrow> revents e = 0 \<or> revents e = POLLIN"
    using p by (auto simp: polls_ok_def)
  ultimately show ?thesis unfolding polls_ok_def by blast
qed

lemma clients_ok_add:
  assumes "clients_ok es h na fds sock pip" "0 \<le> fd" "fd \<notin> fds" "sock \<in> fds" "pip \<in> fds"
    "cl_fd c = fd" "wf_readbuf (cl_readbuf c)" "wf_writebuf (cl_writebuf c)" "\<not> is_writing (cl_writebuf c)"
  shows "clients_ok (es @ [(fd, na)]) (h(na := Some c)) (Suc na) (insert fd fds) sock pip"
proof -
  have old: "0 \<le> k \<and> k \<in> fds \<and> k \<noteq> sock \<and> k \<noteq> pip \<and> a < na \<and> client_ok h k a"
    if "(k, a) \<in> set es" for k a
    using assms(1) that by (auto simp: clients_ok_def)
  have "client_ok (h(na := Some c)) k a" if "(k, a) \<in> set es" for k a
    using old [OF that] by (auto simp: client_ok_def)
  moreover have "client_ok (h(na := Some c)) fd na" using assms(6-9) by (simp add: client_ok_def)
  moreover have "fd \<notin> fst ` set es" "na \<notin> snd ` set es" using old assms(3) by fastforce+
  ultimately show ?thesis
    using assms(1-5) old unfolding clients_ok_def by (auto simp: less_Suc_eq)
qed

lemma server_accept_client_runs:
  assumes "inv_at i s"
  shows "runs benign server_accept_client (\<lambda>_. inv_at i) s"
  using assms [unfolded inv_at_def]
proof (rule inv_coreE)
  fix cl pl q
  assume i: "env_ok s" "poll_shape (poll_list s) (poll_num s) (poll_len s)"
    "clients s = Some cl" "processes s = Some pl" "queue s = Some q" "wf_list cl"
    "clients_ok (list_entries cl) (heap s) (next_addr s) (set (open_fds s))
       (server_sock s) (fst (cpipe s))"
    "polls_ok i (list_entries cl) (heap s) (polled (poll_list s) (poll_num s))
       (server_sock s) (fst (cpipe s))" "procs_ok (set (children s)) pl" "queue_ok q"
  have par: "0 < parallel s" "is_int (parallel s)" using i(1) by (auto simp: env_ok_def valid_options_def)
  have own: "server_sock s \<in> set (open_fds s)" "fst (cpipe s) \<in> set (open_fds s)"
    using i(1) by (auto simp: env_ok_def)
  show ?thesis
    unfolding server_accept_client_def runs_bind
  proof (rule runs_accept, goal_cases)
    case (1 as)
    have "inv_core i (set (children s)) (s\<lparr>answers := as\<rparr>)"
      using inv_core_answers [OF assms [unfolded inv_at_def] 1] .
    from shutdown_runs [OF inv_core_shut_ok [OF this]] show ?case by simp
  next
    case (2 fd as)
    let ?na = "next_addr s" and ?e = "\<lparr>pfd = fd, events = POLLIN, revents = 0\<rparr>"
    have step: "runs benign (add_to_poll_list fd POLLIN) (\<lambda>_. inv_at i)
       (s\<lparr>answers := as, open_fds := fd # open_fds s, next_addr := Suc ?na,
          heap := (heap s)(?na := Some \<lparr>cl_fd = fd, cl_readbuf = rb, cl_writebuf = wb\<rparr>), clients := Some cl'\<rparr>)"
      if rb: "wf_readbuf rb" and wb: "wf_writebuf wb" "\<not> is_writing wb" "\<not> has_write_data wb"
        and cl': "wf_list cl'" "list_entries cl' = list_entries cl @ [(fd, ?na)]" for rb wb cl'
    proof (rule add_to_poll_list_runs, simp add: i(2), goal_cases)
      case (1 npl len)
      let ?c = "\<lparr>cl_fd = fd, cl_readbuf = rb, cl_writebuf = wb\<rparr>"
      let ?h = "(heap s)(?na := Some ?c)"
      have "polls_ok i (list_entries cl') ?h (polled (poll_list s) (poll_num s) @ [?e])
          (server_sock s) (fst (cpipe s))"
        unfolding cl'(2) by (rule polls_ok_add [OF i(8,7) 2(2,3) own]) (use wb in simp)
      moreover have "clients_ok (list_entries cl') ?h (Suc ?na) (insert fd (set (open_fds s)))
          (server_sock s) (fst (cpipe s))"
        unfolding cl'(2) by (rule clients_ok_add [OF i(7) 2(2,3) own]) (use rb wb in simp_all)
      moreover have "env_ok (s\<lparr>answers := as, open_fds := fd # open_fds s, next_addr := Suc ?na,
          heap := ?h, clients := Some cl', poll_len := len, poll_list := npl, poll_num := poll_num s + 1\<rparr>)"
        using i(1) 2(1) by (auto simp: env_ok_def valid_options_def log_ready_def)
      ultimately show ?case
        using i(4,5,9,10) cl'(1) 1 unfolding inv_at_def inv_core_def by simp
    qed
    have rb: "benign e" if "init_readbuf READ_ONCE = Inl e" for e
      using init_readbuf_spec [of READ_ONCE] that by (auto simp: READ_ONCE_def)
    have rb': "wf_readbuf rb" if "init_readbuf READ_ONCE = Inr rb" for rb
      using init_readbuf_spec [of READ_ONCE] that by (auto simp: READ_ONCE_def)
    have wb: "benign e" if "init_writebuf (parallel s) = Inl e" for e
      using init_writebuf_spec [OF par] that by auto
    have wb': "wf_writebuf wb" "\<not> is_writing wb" "\<not> has_write_data wb"
      if "init_writebuf (parallel s) = Inr wb" for wb
      using init_writebuf_Inr [OF that] that
      by (auto simp: init_writebuf_def bindE_eq_Inr has_write_data_def)
    have ap: "benign e" if "list_append cl fd ?na = Inl e" for e
      using tbl.append_Inl [OF i(6) that] by auto
    have ap': "wf_list cl'" "list_entries cl' = list_entries cl @ [(fd, ?na)]"
      if "list_append cl fd ?na = Inr cl'" for cl'
      using tbl.append_Inr [OF i(6) that] by auto
    show ?case
      using 2(2) i(3)
      by (auto intro!: runs_lift step simp: rb rb' wb wb' ap ap')
  qed
qed

section \<open>Scheduling\<close>

lemma can_schedule_runs:
  assumes "inv_at i s"
  shows "runs benign can_schedule (\<lambda>b t. t = s \<and>
    (b \<longleftrightarrow> list_length (the (processes s)) < parallel s \<and> \<not> queue_is_empty (the (queue s)))) s"
  using assms [unfolded inv_at_def] by (rule inv_coreE) (auto simp: can_schedule_def)

lemma pop_request_runs:
  assumes "inv_at i s" "\<not> queue_is_empty (the (queue s))"
  shows "runs benign pop_request (\<lambda>r t. inv_at i t \<and> run_ok r \<and> parallel t = parallel s \<and> processes t = processes s \<and>
    queue_list (the (queue s)) = r # queue_list (the (queue t)) \<and> children t = children s) s"
  using assms(1) [unfolded inv_at_def]
proof (rule inv_coreE)
  fix q
  assume q: "queue s = Some q" "queue_ok q"
  then have "wf_queue q" "\<not> queue_is_empty q" using assms(2) by (auto simp: queue_ok_def)
  from ring.pop_nonempty [OF this] obtain r q' where
    p: "queue_pop q = Inr (r, q')" "wf_queue q'" "queue_list q = r # queue_list q'" by blast
  then have "queue_ok q'" "run_ok r" using q(2) by (auto simp: queue_ok_def)
  with inv_core_queue [OF assms(1) [unfolded inv_at_def]] p q show ?thesis
    by (auto simp: pop_request_def inv_at_def)
qed

text \<open>The number of processes under control, and the tables after scheduling.\<close>

definition running :: "server \<Rightarrow> int" where
  "running s = list_length (the (processes s))"

lemma running_children:
  assumes "inv_at i s"
  shows "running s = int (card (set (children s)))"
  using assms [unfolded inv_at_def]
proof (rule inv_coreE)
  fix pl
  assume "processes s = Some pl" "procs_ok (set (children s)) pl"
  then show ?thesis
    using distinct_card [of "map fst (list_entries pl)"] tbl.count_entries [of pl]
    by (simp add: running_def procs_ok_def)
qed

definition scheduled :: "server \<Rightarrow> server \<Rightarrow> bool" where
  "scheduled s t \<longleftrightarrow> parallel t = parallel s \<and>
     (\<exists>k. queue_list (the (queue t)) = drop k (queue_list (the (queue s)))) \<and>
     (parallel t \<le> running t \<or> queue_is_empty (the (queue t))) \<and>
     running t \<le> max (running s) (parallel s)"

lemma scheduled_step:
  assumes "inv_at i s" "inv_at i v" "running s < parallel s" "parallel v = parallel s"
    "queue_list (the (queue s)) = r # queue_list (the (queue v))"
    "children v = children s \<or> (\<exists>pid. children v = pid # children s)" "scheduled v w"
  shows "scheduled s w"
proof -
  have "running v \<le> running s + 1"
    using assms(6) unfolding running_children [OF assms(1)] running_children [OF assms(2)]
    by (auto simp: card_insert_if)
  moreover obtain k where "queue_list (the (queue w)) = drop k (queue_list (the (queue v)))"
    using assms(7) by (auto simp: scheduled_def)
  then have "queue_list (the (queue w)) = drop (Suc k) (queue_list (the (queue s)))"
    using assms(5) by simp
  ultimately show ?thesis using assms(3,4,7) unfolding scheduled_def by (intro conjI) (blast | simp)+
qed

lemma schedule_new_jobs_spec:
  "inv_at i s \<Longrightarrow> runs benign schedule_new_jobs (\<lambda>_ t. inv_at i t \<and> scheduled s t) s"
proof (induction s rule: schedule_new_jobs.induct)
  case (1 s)
  show ?case
  proof (rule runs_at [where f = schedule_new_jobs, OF schedule_new_jobs.simps],
      rule runs_bindI [OF can_schedule_runs [OF "1.prems"]], goal_cases)
    case (1 b t)
    note eq = 1
    show ?case
    proof (cases b)
      case False
      have "\<exists>k. queue_list (the (queue s)) = drop k (queue_list (the (queue s)))"
        by (rule exI [of _ 0]) simp
      with False eq "1.prems" show ?thesis
        by (auto simp: runs_def scheduled_def running_def)
    next
      case True
      have "runs benign (bindS pop_request (\<lambda>r. bindS (run_request r) (\<lambda>_ u. schedule_new_jobs u)))
        (\<lambda>_ w. inv_at i w \<and> scheduled s w) t"
      proof (rule runs_bindI [OF pop_request_runs [of i t]])
        fix r u
        assume u: "pop_request t = Inr (r, u)" "inv_at i u \<and> run_ok r \<and> parallel u = parallel t \<and>
          processes u = processes t \<and> queue_list (the (queue t)) = r # queue_list (the (queue u)) \<and>
          children u = children t"
        show "runs benign (bindS (run_request r) (\<lambda>_ u. schedule_new_jobs u))
          (\<lambda>_ w. inv_at i w \<and> scheduled s w) u"
        proof (rule runs_bindI [OF run_request_runs [of i u r]])
          fix x v
          assume v: "run_request r u = Inr (x, v)" "inv_at i v \<and> queue v = queue u \<and> parallel v = parallel u \<and>
            (children v = children u \<or> (\<exists>pid. children v = pid # children u))"
          have "runs benign schedule_new_jobs (\<lambda>_ w. inv_at i w \<and> scheduled v w) v"
            using "1.IH" [OF eq(1) True u(1) v(1)] v by simp
          moreover have "scheduled s w" if "scheduled v w" for w
            by (rule scheduled_step [OF "1.prems" _ _ _ _ _ that])
              (use u v eq True in \<open>auto simp: running_def\<close>)
          ultimately show "runs benign (\<lambda>u. schedule_new_jobs u) (\<lambda>_ w. inv_at i w \<and> scheduled s w) v"
            by (auto elim: runs_mono)
        qed (use u in simp_all)
      qed (use eq "1.prems" True in simp_all)
      with True show ?thesis by (simp add: runs_def)
    qed
  qed
qed

lemma schedule_new_jobs_runs:
  "inv_at i s \<Longrightarrow> runs benign schedule_new_jobs (\<lambda>_. inv_at i) s"
  by (drule schedule_new_jobs_spec) (auto elim: runs_mono)

section \<open>Polling\<close>

lemma polls_ok_mset:
  assumes p: "polls_ok i es h ps sock pip" and c: "clients_ok es h na fds sock pip"
    and m: "mset ps' = filter_mset (\<lambda>e. pfd e \<noteq> - 1) (mset ps)"
  shows "polls_ok (length ps') es h ps' sock pip"
proof -
  have set: "set ps' = {e \<in> set ps. pfd e \<noteq> - 1}"
    using m by (metis set_mset_filter set_mset_mset)
  have "mset (filter (\<lambda>k. 0 \<le> k) (map pfd ps')) = image_mset pfd (filter_mset (\<lambda>e. 0 \<le> pfd e) (mset ps'))"
    by (simp add: filter_map comp_def)
  also have "\<dots> = image_mset pfd (filter_mset (\<lambda>e. 0 \<le> pfd e) (mset ps))"
    unfolding m filter_filter_mset by (rule arg_cong, rule filter_mset_cong) auto
  also have "\<dots> = mset (filter (\<lambda>k. 0 \<le> k) (map pfd ps))"
    by (simp add: filter_map comp_def)
  finally have "distinct (filter (\<lambda>k. 0 \<le> k) (map pfd ps'))"
    by (rule mset_eq_imp_distinct_iff [THEN iffD2]) (use p in \<open>simp add: polls_ok_def\<close>)
  moreover have "k \<in> pfd ` set ps'" if "(k, a) \<in> set es" for k a
  proof -
    from p that have "k \<in> pfd ` set ps" by (auto simp: polls_ok_def)
    moreover have "0 \<le> k" using c that by (auto simp: clients_ok_def)
    ultimately show ?thesis unfolding set by auto
  qed
  ultimately show ?thesis using p set unfolding polls_ok_def by auto
qed

lemma poll_list_clean_runs:
  assumes "server_inv s"
  shows "runs benign poll_list_clean (\<lambda>_. server_inv) s"
proof -
  from assms obtain i where "inv_core i (set (children s)) s" by (auto simp: server_inv_def inv_at_def)
  then show ?thesis
  proof (rule inv_coreE)
    fix cl pl q
    assume i: "env_ok s" "poll_shape (poll_list s) (poll_num s) (poll_len s)"
      "clients s = Some cl" "processes s = Some pl" "queue s = Some q" "wf_list cl"
      "clients_ok (list_entries cl) (heap s) (next_addr s) (set (open_fds s))
         (server_sock s) (fst (cpipe s))"
      "polls_ok i (list_entries cl) (heap s) (polled (poll_list s) (poll_num s))
         (server_sock s) (fst (cpipe s))" "procs_ok (set (children s)) pl" "queue_ok q"
    have "0 \<le> poll_num s" using i(2) by (simp add: poll_shape_def)
    from clean_from_spec [OF i(2), of 0] this obtain pl' n' where
      cl: "poll_clean_from (poll_list s) (poll_num s) 0 = Inr (pl', n')" "poll_shape pl' n' (poll_len s)"
      "mset (polled pl' n') = filter_mset (\<lambda>e. pfd e \<noteq> - 1) (mset (polled (poll_list s) (poll_num s)))"
      by auto
    from polls_ok_mset [OF i(8,7) cl(3)] i cl(2) have
      "inv_at (length (polled pl' n')) (s\<lparr>poll_list := pl', poll_num := n'\<rparr>)"
      unfolding inv_at_def inv_core_def by simp
    then show ?thesis using cl(1) by (auto simp: poll_list_clean_def server_inv_def)
  qed
qed

lemma server_inv_answers: "server_inv s \<Longrightarrow> set as \<subseteq> set (answers s) \<Longrightarrow> server_inv (s\<lparr>answers := as\<rparr>)"
  by (auto simp: server_inv_def inv_at_def intro: inv_core_answers)

lemma server_inv_shut_ok: "server_inv s \<Longrightarrow> shut_ok s"
  by (auto simp: server_inv_def inv_at_def intro: inv_core_shut_ok)

lemma set_revents_spec:
  assumes "poll_shape pl num len" "int (length rs) = num"
  shows "poll_shape (set_revents rs pl) num len"
    "polled (set_revents rs pl) num = map2 (\<lambda>e r. e\<lparr>revents := r\<rparr>) (polled pl num) rs"
proof -
  have n: "nat num = length rs" "length rs \<le> length pl" using assms by (auto simp: poll_shape_def)
  let ?f = "\<lambda>c r. map_option (\<lambda>e. e\<lparr>revents := r\<rparr>) c"
  have len: "length (map2 ?f (take (length rs) pl) rs) = length rs" using n by simp
  have some: "pl ! j \<noteq> None" if "j < length rs" for j using assms that n by (auto simp: poll_shape_def)
  have cell: "set_revents rs pl ! j = ?f (pl ! j) (rs ! j)" if "j < length rs" for j
    using that n by (simp add: set_revents_def nth_append)
  show "poll_shape (set_revents rs pl) num len"
    using assms n some cell by (auto simp: poll_shape_def set_revents_def)
  show "polled (set_revents rs pl) num = map2 (\<lambda>e r. e\<lparr>revents := r\<rparr>) (polled pl num) rs"
  proof (rule nth_equalityI)
    show "length (polled (set_revents rs pl) num) = length (map2 (\<lambda>e r. e\<lparr>revents := r\<rparr>) (polled pl num) rs)"
      using n by (simp add: polled_def set_revents_def)
    fix j
    assume "j < length (polled (set_revents rs pl) num)"
    then have "j < length rs" using n by (simp add: polled_def set_revents_def)
    then show "polled (set_revents rs pl) num ! j =
        map2 (\<lambda>e r. e\<lparr>revents := r\<rparr>) (polled pl num) rs ! j"
      using n some [of j] cell [of j] by (auto simp: polled_def set_revents_def)
  qed
qed

text \<open>Readiness for writing is reported only if it was asked for.\<close>

lemma poll_ok_write:
  assumes "poll_ok sock (Some e) r" "r AND POLLOUT \<noteq> 0"
  shows "wants_write e"
proof -
  have r: "r AND NOT (events e OR POLLERR OR POLLHUP OR POLLNVAL) = 0"
    using assms by (auto simp: poll_ok_def split: if_splits)
  have "bit r 2" using assms(2) by (simp add: POLLOUT_bit)
  moreover have "\<not> bit (r AND NOT (events e OR POLLERR OR POLLHUP OR POLLNVAL)) 2"
    unfolding r by simp
  moreover have "\<not> bit (POLLERR OR POLLHUP OR POLLNVAL) 2"
    by (simp add: POLLERR_def POLLHUP_def POLLNVAL_def)
  ultimately have "bit (events e) 2" by (auto simp: bit_and_iff bit_not_iff bit_or_iff)
  then show ?thesis by (simp add: wants_write_def POLLOUT_bit)
qed

lemma polls_ok_poll:
  assumes p: "polls_ok i es h ps sock pip" and sock: "0 \<le> sock"
    and rs: "length rs = length ps" "list_all2 (\<lambda>e r. poll_ok sock (Some e) r) ps rs"
  shows "polls_ok 0 es h (map2 (\<lambda>e r. e\<lparr>revents := r\<rparr>) ps rs) sock pip"
proof -
  let ?ps = "map2 (\<lambda>e r. e\<lparr>revents := r\<rparr>) ps rs"
  have nth: "?ps ! j = (ps ! j)\<lparr>revents := rs ! j\<rparr>" "poll_ok sock (Some (ps ! j)) (rs ! j)"
    if "j < length ps" for j
    using that rs by (auto simp: list_all2_conv_all_nth)
  have fds: "map pfd ?ps = map pfd ps"
    by (rule nth_equalityI) (use rs nth(1) in auto)
  then have img: "pfd ` set ?ps = pfd ` set ps" by (metis set_map)
  have elem: "\<exists>e r. e \<in> set ps \<and> x = e\<lparr>revents := r\<rparr> \<and> poll_ok sock (Some e) r" if "x \<in> set ?ps" for x
  proof -
    from that obtain j where j: "j < length ps" "x = ?ps ! j" using rs by (auto simp: in_set_conv_nth)
    with nth [OF j(1)] nth_mem [OF j(1)] show ?thesis by blast
  qed
  have "pfd x = - 1 \<or> pfd x = sock \<or> pfd x = pip \<or> pfd x \<in> fst ` set es" if "x \<in> set ?ps" for x
  proof -
    have "pfd x \<in> pfd ` set ps" using that img by blast
    with p show ?thesis by (auto simp: polls_ok_def)
  qed
  moreover have "revents x = 0 \<or> revents x = POLLIN" if "x \<in> set ?ps" "pfd x = sock" for x
    using elem [OF that(1)] that(2) sock by (auto simp: poll_ok_def)
  moreover have "wants_write x = has_write_data (cl_writebuf (the (h a)))"
    if "(k, a) \<in> set es" "x \<in> set ?ps" "pfd x = k" for k a x
    using elem [OF that(2)] that p by (auto simp: polls_ok_def wants_write_def)
  moreover have "wants_write (?ps ! j)" if "j < length ?ps" "may_write (?ps ! j)" for j
    using that nth [of j] rs poll_ok_write [of sock "ps ! j" "rs ! j"]
    by (simp add: may_write_def wants_write_def)
  moreover have "distinct (filter (\<lambda>k. 0 \<le> k) (map pfd ?ps))" "\<forall>(k, a) \<in> set es. k \<in> pfd ` set ?ps"
    using p unfolding fds img by (simp_all add: polls_ok_def)
  ultimately show ?thesis unfolding polls_ok_def by blast
qed

lemma sys_poll_runs:
  assumes "server_inv s"
  shows "runs benign sys_poll (\<lambda>p t. if fst p = - 1 then server_inv t else inv_at 0 t) s"
proof -
  from assms obtain i where "inv_core i (set (children s)) s" by (auto simp: server_inv_def inv_at_def)
  then show ?thesis
  proof (rule inv_coreE)
    fix cl pl q
    assume i: "env_ok s" "poll_shape (poll_list s) (poll_num s) (poll_len s)"
      "clients s = Some cl" "processes s = Some pl" "queue s = Some q" "wf_list cl"
      "clients_ok (list_entries cl) (heap s) (next_addr s) (set (open_fds s))
         (server_sock s) (fst (cpipe s))"
      "polls_ok i (list_entries cl) (heap s) (polled (poll_list s) (poll_num s))
         (server_sock s) (fst (cpipe s))" "procs_ok (set (children s)) pl" "queue_ok q"
    have ready: "inv_at 0 (s\<lparr>answers := as, poll_list := set_revents rs (poll_list s)\<rparr>)"
      if as: "set as \<subseteq> set (answers s)" and rs: "int (length rs) = poll_num s"
        "list_all2 (poll_ok (server_sock s)) (take (length rs) (poll_list s)) rs" for as rs
    proof -
      note r = set_revents_spec [OF i(2) rs(1)]
      have len: "length rs = length (polled (poll_list s) (poll_num s))"
        using length_polled [OF i(2)] rs(1) by auto
      have "poll_ok (server_sock s) (Some (polled (poll_list s) (poll_num s) ! j)) (rs ! j)"
        if "j < length rs" for j
      proof -
        have "j < nat (poll_num s)" using that rs(1) by auto
        moreover have "poll_ok (server_sock s) (poll_list s ! j) (rs ! j)"
          using list_all2_nthD [OF rs(2), of j] list_all2_lengthD [OF rs(2)] that by simp
        ultimately show ?thesis using polled_nth [OF i(2), of j] by simp
      qed
      then have "list_all2 (\<lambda>e r. poll_ok (server_sock s) (Some e) r) (polled (poll_list s) (poll_num s)) rs"
        using len by (simp add: list_all2_conv_all_nth)
      from polls_ok_poll [OF i(8) _ len this] i(1) have "polls_ok 0 (list_entries cl) (heap s)
          (polled (set_revents rs (poll_list s)) (poll_num s)) (server_sock s) (fst (cpipe s))"
        unfolding r(2) by (simp add: env_ok_def)
      moreover have "env_ok (s\<lparr>answers := as, poll_list := set_revents rs (poll_list s)\<rparr>)"
        using i(1) as by (auto simp: env_ok_def valid_options_def log_ready_def)
      ultimately show ?thesis
        using i r(1) unfolding inv_at_def inv_core_def by simp
    qed
    show ?thesis
      unfolding sys_poll_def runs_bind
      by (rule runs_next)
        (auto split: answer.splits intro!: runs_possible ready server_inv_answers [OF assms])
  qed
qed

lemma poll_wait_runs:
  "server_inv s \<Longrightarrow> runs benign poll_wait (\<lambda>res t. if res = - 1 then server_inv t else inv_at 0 t) s"
proof (induction s rule: poll_wait.induct)
  case (1 s)
  show ?case
  proof (rule runs_at [where f = poll_wait, OF poll_wait.simps],
      rule runs_bindI [OF sys_poll_runs [OF "1.prems"]])
    fix p t
    assume p: "sys_poll s = Inr (p, t)" "if fst p = - 1 then server_inv t else inv_at 0 t"
    show "runs benign (\<lambda>t. if fst p = - 1 \<and> snd p = EINTR then poll_wait t else Inr (fst p, t))
      (\<lambda>res t. if res = - 1 then server_inv t else inv_at 0 t) t"
    proof (cases "fst p = - 1 \<and> snd p = EINTR")
      case True
      with "1.IH" [OF p(1) True] p(2) show ?thesis by (simp add: runs_def)
    next
      case False
      with p(2) show ?thesis by (auto simp: runs_def)
    qed
  qed
qed

lemma read_pipe_runs:
  "inv_at i s \<Longrightarrow> runs benign read_pipe (\<lambda>_. inv_at i) s"
proof (induction s rule: read_pipe.induct)
  case (1 s)
  have call: "runs benign sys_call (\<lambda>_. inv_at i) s"
    using "1.prems" by (intro runs_call) (auto simp: inv_at_def intro!: inv_core_answers)
  show ?case
  proof (rule runs_at [where f = read_pipe, OF read_pipe.simps], rule runs_bindI [OF call])
    fix p t
    assume p: "sys_call s = Inr (p, t)" "inv_at i t"
    show "runs benign (\<lambda>t. if fst p = - 1 \<and> snd p = EINTR then read_pipe t else Inr (fst p, t))
      (\<lambda>_. inv_at i) t"
      using "1.IH" [OF p(1) _ p(2)] p(2) by (auto simp: runs_def)
  qed
qed

section \<open>A turn of the loop\<close>

lemma inv_at_mono: "inv_at i s \<Longrightarrow> i \<le> j \<Longrightarrow> inv_at j s"
  unfolding inv_at_def inv_core_def polls_ok_def by fastforce

lemma client_event_runs:
  assumes inv: "inv_at (nat i) s" and cl: "clients s = Some cl" "(k, a) \<in> set (list_entries cl)"
    and i: "0 \<le> i" "i < poll_num s"
    and e: "e = polled (poll_list s) (poll_num s) ! nat i" "pfd e = k"
  shows "runs benign (client_event a i (revents e)) (\<lambda>_. inv_at (Suc (nat i))) s"
proof -
  have later: "inv_at (nat i) t \<Longrightarrow> inv_at (Suc (nat i)) t" for t by (rule inv_at_mono) auto
  have w: "runs benign (write_to_client a i) (\<lambda>_. inv_at (Suc (nat i))) s" if "revents e AND POLLOUT \<noteq> 0"
    using write_to_client_runs [OF inv [unfolded inv_at_def] cl i] e that
    by (auto simp: may_write_def inv_at_def elim!: runs_mono)
  show ?thesis
    using w later [OF inv] runs_mono [OF close_client_runs [OF inv cl] later]
      runs_mono [OF read_on_client_runs [OF inv cl] later]
    by (auto simp: client_event_def)
qed

lemma poll_entry_runs:
  assumes inv: "inv_at (nat i) s" and i: "0 \<le> i" "i < poll_num s"
  shows "runs benign (poll_entry i) (\<lambda>_. inv_at (Suc (nat i))) s"
  using inv [unfolded inv_at_def]
proof (rule inv_coreE)
  fix cl pl q
  assume v: "poll_shape (poll_list s) (poll_num s) (poll_len s)" "clients s = Some cl" "wf_list cl"
    "polls_ok (nat i) (list_entries cl) (heap s) (polled (poll_list s) (poll_num s))
       (server_sock s) (fst (cpipe s))"
  let ?e = "polled (poll_list s) (poll_num s) ! nat i"
  have e: "?e \<in> set (polled (poll_list s) (poll_num s))"
    using i length_polled [OF v(1)] by (intro nth_mem) simp
  have later: "inv_at (nat i) t \<Longrightarrow> inv_at (Suc (nat i)) t" for t by (rule inv_at_mono) auto
  have pipe: "runs benign (bindS read_pipe (\<lambda>res.
         bindS (whenS (res = - 1) (shutdown_with_msg m)) (\<lambda>_. handle_child_events)))
       (\<lambda>_. inv_at (Suc (nat i))) s" for m
    unfolding runs_bind
    by (rule runs_mono [OF read_pipe_runs [OF inv]])
      (auto intro!: runs_mono [OF handle_child_events_runs later] shutdown_runs inv_core_shut_ok simp: inv_at_def)
  have accept: "runs benign (bindS (lift (c_assert (revents ?e = POLLIN))) (\<lambda>_. server_accept_client))
       (\<lambda>_. inv_at (Suc (nat i))) s" if "revents ?e \<noteq> 0" "pfd ?e = server_sock s"
  proof -
    have "revents ?e = POLLIN" using v(4) e that by (auto simp: polls_ok_def)
    then show ?thesis
      using runs_mono [OF server_accept_client_runs [OF inv] later] by (simp add: c_assert_def)
  qed
  have client: "runs benign (case map_of (list_entries cl) (pfd ?e) of None \<Rightarrow> ret ()
        | Some client \<Rightarrow> client_event client i (revents ?e)) (\<lambda>_. inv_at (Suc (nat i))) s"
    using client_event_runs [OF inv v(2) _ i refl refl] later [OF inv]
    by (auto split: option.splits dest: map_of_SomeD)
  show ?thesis
    using pipe accept client poll_read [OF v(1) i] v(2) tbl.lookup_map [OF v(3)] later [OF inv]
    by (auto simp: poll_entry_def runs_fun)
qed

lemma poll_loop_runs:
  "0 \<le> i \<Longrightarrow> inv_at (nat i) s \<Longrightarrow> runs benign (poll_loop i) (\<lambda>_. server_inv) s"
proof (induction i s rule: poll_loop.induct)
  case (1 i s)
  show ?case
  proof (cases "i < poll_num s")
    case False
    with "1.prems" show ?thesis
      unfolding runs_def by (subst poll_loop.simps) (auto simp: server_inv_def)
  next
    case True
    have "runs benign (bindS (poll_entry i) (\<lambda>_ t. poll_loop (i + 1) t)) (\<lambda>_. server_inv) s"
    proof (rule runs_bindI [OF poll_entry_runs [OF "1.prems"(2,1) True]])
      fix x t
      assume t: "poll_entry i s = Inr (x, t)" "inv_at (Suc (nat i)) t"
      have "nat (i + 1) = Suc (nat i)" using "1.prems"(1) by simp
      with "1.IH" [OF True t(1)] t(2) "1.prems"(1) show "runs benign (\<lambda>t. poll_loop (i + 1) t) (\<lambda>_. server_inv) t"
        by simp
    qed
    moreover have "poll_loop i s = bindS (poll_entry i) (\<lambda>_ t. poll_loop (i + 1) t) s"
      using True by (subst poll_loop.simps) simp
    ultimately show ?thesis by (simp add: runs_def)
  qed
qed

lemma main_turn_runs:
  assumes "server_inv s"
  shows "runs benign main_turn (\<lambda>_. server_inv) s"
proof -
  from assms obtain i where i: "inv_at i s" by (auto simp: server_inv_def)
  have "runs benign poll_wait (\<lambda>res. runs benign
      (bindS (whenS (res = - 1) (shutdown_with_msg m)) (\<lambda>_. poll_loop 0)) (\<lambda>_. server_inv)) t"
    if "server_inv t" for t m
    by (rule runs_mono [OF poll_wait_runs [OF that]])
      (auto intro!: shutdown_runs server_inv_shut_ok poll_loop_runs split: if_splits)
  then show ?thesis
    unfolding main_turn_def runs_bind
    by (intro runs_mono [OF schedule_new_jobs_runs [OF i]] runs_mono [OF poll_list_clean_runs])
      (auto simp: server_inv_def simp flip: runs_bind)
qed

lemma sigchld_runs:
  assumes "server_inv s"
  shows "runs benign sigchld_handle (\<lambda>_. server_inv) s"
  unfolding sigchld_handle_def runs_bind
  by (rule runs_call)
    (use assms in \<open>auto intro!: shutdown_runs server_inv_shut_ok server_inv_answers\<close>)

lemma reachable_inv:
  assumes "reachable s0 s" "server_inv s0"
  shows "server_inv s"
  using assms
proof (induction rule: reachable.induct)
  case (step s s')
  then show ?case
    by (auto elim!: server_stepE dest: runs_Inr [OF main_turn_runs] runs_Inr [OF sigchld_runs])
qed

end
