(* ===== verification/Server_Init.thy ===== *)
theory Server_Init
  imports Server_Loop
begin

text \<open>
  The initialisation of the Unix server establishes the invariant.  The two calls before
  the log file is opened must not fail when logging is on, since the message of the shutdown
  would go to a null log file.
\<close>

section \<open>Before the tables exist\<close>

definition calm_answers :: "answer list \<Rightarrow> bool" where
  "calm_answers as \<longleftrightarrow> Ans_write (- 1) \<notin> set as \<and> Ans_fopen False \<notin> set as"

lemma calm_subset: "calm_answers as \<Longrightarrow> set bs \<subseteq> set as \<Longrightarrow> calm_answers bs"
  by (auto simp: calm_answers_def)

text \<open>The first three calls, in the case that logging is on.\<close>

fun early_calls :: "answer list \<Rightarrow> bool" where
  "early_calls (Ans_cwd d # Ans_call r1 e1 # as) \<longleftrightarrow>
     r1 \<noteq> - 1 \<and> (case as of Ans_call r2 e2 # bs \<Rightarrow> r2 \<noteq> - 1 | _ \<Rightarrow> True)"
| "early_calls as \<longleftrightarrow> True"

definition young :: "server \<Rightarrow> bool" where
  "young s \<longleftrightarrow> valid_options s \<and> calm_answers (answers s) \<and> children s = [] \<and> clients s = None"

lemma young_answers: "young s \<Longrightarrow> set as \<subseteq> set (answers s) \<Longrightarrow> young (s\<lparr>answers := as\<rparr>)"
  by (auto simp: young_def valid_options_def intro: calm_subset)

lemma young_dir: "young s \<Longrightarrow> young (s\<lparr>current_dir := d\<rparr>)"
  by (simp add: young_def valid_options_def)

lemma quiet_call_runs:
  assumes "young s" "\<not> logging s"
  shows "runs benign (check_call m) (\<lambda>_ t. young t \<and> \<not> logging t) s"
  by (rule check_call_runs)
    (use assms young_answers in \<open>auto simp: shut_ok_def log_ready_def young_def\<close>)

lemma good_call_runs:
  assumes "\<And>e as. answers s \<noteq> Ans_call (- 1) e # as"
    "\<And>res err as. answers s = Ans_call res err # as \<Longrightarrow> Q () (s\<lparr>answers := as\<rparr>)"
  shows "runs benign (check_call m) Q s"
  unfolding check_call_def runs_bind
  by (rule runs_call) (use assms in auto)

lemma enter_socket_dir_runs:
  assumes y: "young s" and early: "logging s \<longrightarrow> early_calls (answers s)"
  shows "runs benign enter_socket_dir (\<lambda>_. young) s"
proof -
  have "runs benign (check_call m) (\<lambda>_. runs benign (check_call m') (\<lambda>_. young))
      (s\<lparr>answers := as, current_dir := d\<rparr>)" if as: "answers s = Ans_cwd d # as" for as d m m'
  proof (cases "logging s")
    case False
    have "young (s\<lparr>answers := as, current_dir := d\<rparr>)"
      using young_dir [OF young_answers [OF y]] as by auto
    from quiet_call_runs [OF this, of m] False show ?thesis
      by (auto elim!: runs_mono dest: quiet_call_runs [of _ m'])
  next
    case True
    with early as have e: "early_calls (Ans_cwd d # as)" by simp
    show ?thesis
    proof (rule good_call_runs)
      fix e' bs
      show "answers (s\<lparr>answers := as, current_dir := d\<rparr>) \<noteq> Ans_call (- 1) e' # bs"
        using e by auto
    next
      fix res err bs
      assume bs: "answers (s\<lparr>answers := as, current_dir := d\<rparr>) = Ans_call res err # bs"
      then have e': "case bs of Ans_call r2 e2 # cs \<Rightarrow> r2 \<noteq> - 1 | _ \<Rightarrow> True" using e by simp
      have "young (s\<lparr>current_dir := d, answers := cs\<rparr>)" if "set cs \<subseteq> set bs" for cs
        using young_answers [OF young_dir [OF y], of cs d] that as bs by auto
      then show "runs benign (check_call m') (\<lambda>_. young) (s\<lparr>answers := as, current_dir := d, answers := bs\<rparr>)"
        by (intro good_call_runs) (use e' in auto)
    qed
  qed
  then show ?thesis
    unfolding enter_socket_dir_def get_cur_dir_def runs_bind
    by (intro runs_next) (auto split: answer.splits)
qed

lemma open_log_runs:
  assumes "young s"
  shows "runs benign open_log (\<lambda>_ t. young t \<and> log_ready t) s"
proof -
  have "young (init_logging ok (s\<lparr>answers := as\<rparr>)) \<and> log_ready (init_logging ok (s\<lparr>answers := as\<rparr>))"
    if "answers s = Ans_fopen ok # as" for ok as
  proof -
    have ok unfolding atomize_eq using assms that by (cases ok) (auto simp: young_def calm_answers_def)
    moreover have "young (s\<lparr>answers := as\<rparr>)" using young_answers [OF assms] that by auto
    ultimately show ?thesis
      by (auto simp: init_logging_def young_def valid_options_def log_ready_def)
  qed
  with assms show ?thesis
    unfolding open_log_def
    by (auto intro!: runs_next simp: log_ready_def split: answer.splits)
qed

section \<open>With the tables\<close>

definition tables :: "server \<Rightarrow> bool" where
  "tables s \<longleftrightarrow> valid_options s \<and> log_ready s \<and> calm_answers (answers s) \<and> children s = [] \<and>
     (\<exists>q. queue s = Some q \<and> queue_ok q) \<and>
     (\<exists>cl. clients s = Some cl \<and> wf_list cl \<and> list_entries cl = []) \<and>
     poll_shape (poll_list s) 0 (poll_len s) \<and> poll_num s = 0"

lemma tables_answers: "tables s \<Longrightarrow> set as \<subseteq> set (answers s) \<Longrightarrow> tables (s\<lparr>answers := as\<rparr>)"
  by (auto simp: tables_def valid_options_def log_ready_def intro: calm_subset)

lemma tables_frame [simp]:
  "tables (s\<lparr>trace := tr\<rparr>) = tables s"
  "tables (s\<lparr>server_sock := sock, open_fds := fds\<rparr>) = tables s"
  by (simp_all add: tables_def valid_options_def log_ready_def)

lemma tables_shut_ok: "tables s \<Longrightarrow> shut_ok s"
  by (auto simp: tables_def shut_ok_def)

lemma init_tables_runs:
  assumes "young s" "log_ready s" and par: "0 < par" "is_int par"
  shows "runs benign (init_tables par) (\<lambda>_. tables) s"
proof -
  have q: "wf_queue x" "queue_list x = []" if "init_request_queue = Inr x" for x
    using that init_queue_wf [of 100 x] by (auto simp: init_request_queue_def)
  have q': "benign e" if "init_request_queue = Inl e" for e
    using that by (auto simp: init_request_queue_def init_queue_Inl)
  have cl: "wf_list x" "list_entries x = []" if "init_list par = Inr x" for x :: "nat t_list"
    using init_list_wf [OF that par] by auto
  have cl': "benign e" if "init_list par = (Inl e :: nat t_list result)" for e
    using init_list_Inl [OF that] by simp
  have pl: "poll_shape x 0 (2 + par)"
    if "c_malloc 8 (size_t_of (2 + par)) = Inr x" "is_int (2 + par)" for x
    using that par by (auto simp: poll_shape_def c_malloc_eq_Inr size_t_of_nonneg is_int_def)
  show ?thesis
    unfolding init_tables_def runs_bind
    using assms
    by (auto intro!: runs_lift simp: q q' cl cl' pl ck_int_def c_malloc_eq_Inl tables_def young_def queue_ok_def
        valid_options_def log_ready_def split: if_splits)
qed

lemma tables_call:
  assumes "tables s" "\<And>res err as. tables (s\<lparr>answers := as\<rparr>) \<Longrightarrow> Q (res, err) (s\<lparr>answers := as\<rparr>)"
  shows "runs benign sys_call Q s"
  by (rule runs_call) (use assms tables_answers [OF assms(1)] in auto)

text \<open>The end of \<open>open_socket\<close>, once the socket exists.\<close>

lemma bind_socket_runs:
  assumes "tables s" "server_sock s = sock" "sock \<noteq> - 1 \<longrightarrow> 0 \<le> sock \<and> sock \<in> set (open_fds s)"
  shows "runs benign (bindS sys_call (\<lambda>(res, err).
     bindS (note_event (Ev_unlink filen)) (\<lambda>_.
     bindS (whenS (res = - 1 \<and> err \<noteq> ENOENT) (shutdown_with_msg m)) (\<lambda>_.
     bindS sys_call (\<lambda>(res, err).
     bindS (possible (\<lambda>_. sock = - 1 \<longrightarrow> res = - 1)) (\<lambda>_.
     whenS (res = - 1) (shutdown_with_msg m')))))))
    (\<lambda>_ t. tables t \<and> 0 \<le> server_sock t \<and> server_sock t \<in> set (open_fds t)) s"
proof -
  have bind: "runs benign sys_call (\<lambda>p. runs benign (case p of (res, err) \<Rightarrow>
     bindS (possible (\<lambda>_. sock = - 1 \<longrightarrow> res = - 1)) (\<lambda>_.
     whenS (res = - 1) (shutdown_with_msg m')))
    (\<lambda>_ t. tables t \<and> 0 \<le> server_sock t \<and> server_sock t \<in> set (open_fds t)))
    (s\<lparr>answers := as, trace := tr\<rparr>)" if "tables (s\<lparr>answers := as\<rparr>)" for as tr
    by (rule tables_call)
      (use that assms(2,3) in \<open>auto intro!: runs_possible shutdown_runs tables_shut_ok\<close>)
  show ?thesis
    unfolding runs_bind
    by (rule tables_call [OF assms(1)])
      (auto intro!: bind shutdown_runs tables_shut_ok)
qed

lemma open_socket_runs:
  assumes "tables s"
  shows "runs benign (open_socket filen)
    (\<lambda>_ t. tables t \<and> 0 \<le> server_sock t \<and> server_sock t \<in> set (open_fds t)) s"
proof -
  have "runs benign sys_call (\<lambda>p. runs benign (case p of (sock, _) \<Rightarrow>
     bindS (possible (\<lambda>s. sock = - 1 \<or> 0 \<le> sock \<and> sock \<notin> set (open_fds s))) (\<lambda>_.
     bindS (modify (\<lambda>s. s\<lparr>server_sock := sock,
        open_fds := (if sock = - 1 then [] else [sock]) @ open_fds s\<rparr>)) (\<lambda>_.
     bindS sys_call (\<lambda>(res, err).
     bindS (note_event (Ev_unlink filen)) (\<lambda>_.
     bindS (whenS (res = - 1 \<and> err \<noteq> ENOENT) (shutdown_with_msg m)) (\<lambda>_.
     bindS sys_call (\<lambda>(res, err).
     bindS (possible (\<lambda>_. sock = - 1 \<longrightarrow> res = - 1)) (\<lambda>_.
     whenS (res = - 1) (shutdown_with_msg m')))))))))
    (\<lambda>_ t. tables t \<and> 0 \<le> server_sock t \<and> server_sock t \<in> set (open_fds t))) s" for m m'
    apply (rule tables_call [OF assms])
    apply (simp only: runs_bind prod.case runs_simps)
    apply (rule runs_possible)
     apply simp
    apply (subst runs_bind, subst runs_simps(4))
    apply (rule bind_socket_runs)
      apply auto
    done
  then show ?thesis
    unfolding open_socket_def
    by (simp add: shutdown_runs [OF tables_shut_ok [OF assms]])
qed

lemma empty_polls_ok:
  assumes "sock \<noteq> pip" "0 \<le> sock" "0 \<le> pip"
  shows "polls_ok 2 [] h [\<lparr>pfd = sock, events = POLLIN, revents = 0\<rparr>,
    \<lparr>pfd = pip, events = POLLIN, revents = 0\<rparr>] sock pip"
  using assms by (simp add: polls_ok_def)

lemma tables_check_calls:
  assumes "tables s" "\<And>as. tables (s\<lparr>answers := as\<rparr>) \<Longrightarrow> Q () (s\<lparr>answers := as\<rparr>)"
  shows "runs benign (check_call m) Q s"
  by (rule check_call_runs [OF tables_shut_ok [OF assms(1)]])
    (use assms tables_answers [OF assms(1)] in auto)

section \<open>The two own descriptors\<close>

text \<open>With the listening socket and the process table in place.\<close>

definition listening :: "server \<Rightarrow> bool" where
  "listening s \<longleftrightarrow> valid_options s \<and> log_ready s \<and> calm_answers (answers s) \<and> children s = [] \<and>
     (\<exists>q. queue s = Some q \<and> queue_ok q) \<and>
     (\<exists>cl. clients s = Some cl \<and> wf_list cl \<and> list_entries cl = []) \<and>
     (\<exists>pl. processes s = Some pl \<and> procs_ok {} pl) \<and>
     poll_shape (poll_list s) (poll_num s) (poll_len s) \<and>
     polled (poll_list s) (poll_num s) = [\<lparr>pfd = server_sock s, events = POLLIN, revents = 0\<rparr>] \<and>
     0 \<le> server_sock s \<and> server_sock s \<in> set (open_fds s)"

lemma listening_answers: "listening s \<Longrightarrow> set as \<subseteq> set (answers s) \<Longrightarrow> listening (s\<lparr>answers := as\<rparr>)"
  by (auto simp: listening_def valid_options_def log_ready_def intro: calm_subset)

lemma listening_shut_ok: "listening s \<Longrightarrow> shut_ok s"
  by (auto simp: listening_def shut_ok_def)

lemma listening_check_call:
  assumes "listening s" "\<And>as. listening (s\<lparr>answers := as\<rparr>) \<Longrightarrow> Q () (s\<lparr>answers := as\<rparr>)"
  shows "runs benign (check_call m) Q s"
  by (rule check_call_runs [OF listening_shut_ok [OF assms(1)]])
    (use assms listening_answers [OF assms(1)] in auto)

lemma listening_pipe:
  assumes "listening s" "0 \<le> r" "r \<notin> set (open_fds s)"
  shows "listening (s\<lparr>cpipe := (r, w), open_fds := r # w # open_fds s\<rparr>)"
  using assms by (auto simp: listening_def valid_options_def log_ready_def)

lemma add_pipe_runs:
  assumes "listening s" "cpipe s = (r, w)" "0 \<le> r" "r \<noteq> server_sock s" "r \<in> set (open_fds s)"
  shows "runs benign (add_to_poll_list r POLLIN) (\<lambda>_. server_inv) s"
proof (rule add_to_poll_list_runs)
  show "poll_shape (poll_list s) (poll_num s) (poll_len s)" using assms(1) by (simp add: listening_def)
  fix npl len
  assume p: "poll_shape npl (poll_num s + 1) len" "polled npl (poll_num s + 1) =
    polled (poll_list s) (poll_num s) @ [\<lparr>pfd = r, events = POLLIN, revents = 0\<rparr>]"
  obtain cl pl q where t: "clients s = Some cl" "wf_list cl" "list_entries cl = []"
    "processes s = Some pl" "procs_ok {} pl" "queue s = Some q" "queue_ok q"
    using assms(1) by (auto simp: listening_def)
  let ?t = "s\<lparr>poll_len := len, poll_list := npl, poll_num := poll_num s + 1\<rparr>"
  have "env_ok ?t"
    using assms by (auto simp: listening_def env_ok_def valid_options_def log_ready_def calm_answers_def)
  moreover have "polls_ok 2 [] (heap s) (polled npl (poll_num s + 1)) (server_sock s) r"
    using empty_polls_ok [of "server_sock s" r "heap s"] assms unfolding p(2) by (simp add: listening_def)
  moreover have "children s = []" using assms(1) by (simp add: listening_def)
  ultimately have "inv_at 2 ?t"
    unfolding inv_at_def inv_core_def using t p(1) assms(2) by (simp add: clients_ok_def)
  then show "server_inv ?t" by (auto simp: server_inv_def)
qed

lemma setup_child_pipe_runs:
  assumes "listening s"
  shows "runs benign setup_child_pipe (\<lambda>_. server_inv) s"
proof -
  have "runs benign (bindS (check_call m1) (\<lambda>_. bindS (check_call m2) (\<lambda>_. bindS (check_call m3) (\<lambda>_.
      bindS (check_call m4) (\<lambda>_. bindS (check_call m5) (\<lambda>_. add_to_poll_list r POLLIN))))))
      (\<lambda>_. server_inv) t"
    if "listening t" "cpipe t = (r, w)" "0 \<le> r" "r \<noteq> server_sock t" "r \<in> set (open_fds t)"
    for m1 m2 m3 m4 m5 r w t
    unfolding runs_bind
    by (intro listening_check_call add_pipe_runs) (use that in auto)
  note calls = this
  have "runs benign (bindS (whenS (res = - 1) (shutdown_with_msg m)) (\<lambda>_.
         bindS (possible (\<lambda>s. 0 \<le> r \<and> 0 \<le> w \<and> r \<noteq> w \<and>
                  r \<notin> set (open_fds s) \<and> w \<notin> set (open_fds s))) (\<lambda>_.
         bindS (modify (\<lambda>s. s\<lparr>cpipe := (r, w), open_fds := r # w # open_fds s\<rparr>)) (\<lambda>_.
         bindS (check_call m1) (\<lambda>_. bindS (check_call m2) (\<lambda>_. bindS (check_call m3) (\<lambda>_.
         bindS (check_call m4) (\<lambda>_. bindS (check_call m5) (\<lambda>_. add_to_poll_list r POLLIN)))))))))
       (\<lambda>_. server_inv) t" if l: "listening t" for res r w m m1 m2 m3 m4 m5 t
  proof -
    have free: "r \<noteq> server_sock t" if "r \<notin> set (open_fds t)"
      using l that by (auto simp: listening_def)
    have "runs benign (bindS (check_call m1) (\<lambda>_. bindS (check_call m2) (\<lambda>_. bindS (check_call m3) (\<lambda>_.
        bindS (check_call m4) (\<lambda>_. bindS (check_call m5) (\<lambda>_. add_to_poll_list r POLLIN))))))
        (\<lambda>_. server_inv) (t\<lparr>cpipe := (r, w), open_fds := r # w # open_fds t\<rparr>)"
      if "0 \<le> r" "r \<notin> set (open_fds t)"
      by (rule calls [OF listening_pipe [OF l that]]) (use that free in auto)
    then show ?thesis
      by (simp add: runs_bind possible_def shutdown_runs [OF listening_shut_ok [OF l]])
  qed
  note body = this
  show ?thesis
    unfolding setup_child_pipe_def
  proof (subst runs_bind, rule runs_next)
    fix a as
    assume as: "answers s = a # as"
    have l: "listening (s\<lparr>answers := as\<rparr>)" using listening_answers [OF assms] as by auto
    show "runs benign (case a of Ans_pipe res r w \<Rightarrow>
         bindS (whenS (res = - 1) (shutdown_with_msg ''error creating pipe'')) (\<lambda>_.
         bindS (possible (\<lambda>s. 0 \<le> r \<and> 0 \<le> w \<and> r \<noteq> w \<and>
                  r \<notin> set (open_fds s) \<and> w \<notin> set (open_fds s))) (\<lambda>_.
         bindS (modify (\<lambda>s. s\<lparr>cpipe := (r, w), open_fds := r # w # open_fds s\<rparr>)) (\<lambda>_.
         bindS (check_call ''error getting flags on pipe'') (\<lambda>_.
         bindS (check_call ''error setting flags on pipe'') (\<lambda>_.
         bindS (check_call ''error getting flags on pipe'') (\<lambda>_.
         bindS (check_call ''error setting flags on pipe'') (\<lambda>_.
         bindS (check_call ''error installing signal handler'') (\<lambda>_.
         add_to_poll_list r POLLIN)))))))) | _ \<Rightarrow> stop No_answer) (\<lambda>_. server_inv) (s\<lparr>answers := as\<rparr>)"
    proof (cases a)
      case (Ans_pipe res r w)
      show ?thesis unfolding Ans_pipe answer.case by (rule body [OF l])
    qed simp_all
  qed simp
qed

section \<open>The whole initialisation\<close>

lemma init_process_list_listening:
  assumes "tables s" "server_sock s = sock" "0 \<le> sock" "sock \<in> set (open_fds s)"
    "poll_shape npl 1 len" "polled npl 1 = [\<lparr>pfd = sock, events = POLLIN, revents = 0\<rparr>]"
    "init_process_list s = Inr ps"
  shows "listening (s\<lparr>poll_len := len, poll_list := npl, poll_num := 1, processes := Some ps\<rparr>)"
proof -
  have "wf_list ps \<and> list_entries ps = []"
    using init_list_wf [of "parallel s" ps] assms(1,7)
    by (auto simp: init_process_list_def tables_def valid_options_def)
  then show ?thesis
    using assms by (auto simp: listening_def tables_def procs_ok_def valid_options_def log_ready_def)
qed

lemma watch_socket_runs:
  assumes "tables s" "0 \<le> server_sock s" "server_sock s \<in> set (open_fds s)"
  shows "runs benign (bindS (gets server_sock) (\<lambda>sock.
     bindS (add_to_poll_list sock POLLIN) (\<lambda>_.
     bindS (gets (\<lambda>s. s)) (\<lambda>s.
     bindS (lift (init_process_list s)) (\<lambda>ps.
     bindS (modify (\<lambda>s. s\<lparr>processes := Some ps\<rparr>)) (\<lambda>_.
     setup_child_pipe)))))) (\<lambda>_. server_inv) s"
proof -
  have 0: "poll_num s = 0" "poll_shape (poll_list s) (poll_num s) (poll_len s)"
    "polled (poll_list s) (poll_num s) = []"
    using assms(1) by (auto simp: tables_def polled_def)
  have 1: "polled (poll_list s) 0 = []" by (simp add: polled_def)
  have par: "init_process_list (s\<lparr>poll_len := len, poll_list := npl, poll_num := n\<rparr>) =
      (init_process_list s :: unix_proc t_list result)" for len npl n
    by (simp add: init_process_list_def)
  have err: "benign e" if "init_process_list s = (Inl e :: unix_proc t_list result)" for e
    using that by (auto simp: init_process_list_def dest: init_list_Inl)
  show ?thesis
    apply (subst runs_bind, subst runs_simps(3), subst runs_bind)
    apply (rule add_to_poll_list_runs [OF 0(2)])
    apply (simp add: runs_bind 0 par)
    apply (rule runs_lift)
     apply (simp add: err)
    apply (simp add: runs_bind)
    apply (rule setup_child_pipe_runs)
    apply (rule init_process_list_listening [OF assms(1) refl assms(2,3)])
      apply (simp_all add: 1)
    done
qed

lemma server_init_listening_runs:
  assumes "young s" "logging s \<longrightarrow> early_calls (answers s)" and par: "0 < par" "is_int par"
  shows "runs benign (server_init_listening sockname par) (\<lambda>_. server_inv) s"
proof -
  have rest: "runs benign (bindS (check_call m) (\<lambda>_. bindS (check_call m') (\<lambda>_. bindS (check_call k) (\<lambda>_.
     bindS (gets server_sock) (\<lambda>sock.
     bindS (add_to_poll_list sock POLLIN) (\<lambda>_.
     bindS (gets (\<lambda>s. s)) (\<lambda>s.
     bindS (lift (init_process_list s)) (\<lambda>ps.
     bindS (modify (\<lambda>s. s\<lparr>processes := Some ps\<rparr>)) (\<lambda>_.
     setup_child_pipe))))))))) (\<lambda>_. server_inv) t"
    if "tables t" "0 \<le> server_sock t" "server_sock t \<in> set (open_fds t)" for m m' k t
    apply (subst runs_bind, rule tables_check_calls [OF that(1)])
    apply (subst runs_bind, rule tables_check_calls, assumption)
    apply (subst runs_bind, rule tables_check_calls, assumption)
    apply (rule watch_socket_runs)
    using that by simp_all
  have ovf: "runs benign (bindS (lift (ck_int n)) (\<lambda>_. k)) Q t" if "runs benign k Q t"
    for n and k :: "unit srv" and Q t
    using that by (auto intro!: runs_lift simp: runs_bind ck_int_def split: if_splits)
  show ?thesis
    unfolding server_init_listening_def
    apply (rule runs_bindI [OF enter_socket_dir_runs [OF assms(1,2)]])
    apply (rule runs_bindI [OF open_log_runs], assumption)
    apply (rule runs_bindI [OF init_tables_runs [OF _ _ par]], blast, blast)
    apply (rule runs_bindI [OF open_socket_runs], assumption)
    apply (rule ovf)
    by (rule rest) blast+
qed

text \<open>Whether the options turn logging on.\<close>

definition logging_asked :: "(int \<times> string) list \<Rightarrow> bool" where
  "logging_asked os \<longleftrightarrow> int (of_char CHR ''l'') \<in> fst ` set os"

lemma parse_option_young:
  assumes "parse_option einval c a s = Inr t" "young s"
  shows "young t \<and> answers t = answers s \<and> (logging t \<longrightarrow> logging s \<or> c = int (of_char CHR ''l''))"
  using assms parse_option_valid [OF _ assms(1)]
  by (auto simp: parse_option_def young_def Let_def split: if_splits)

lemma parse_option_list_young:
  assumes "parse_option_list einval os s = Inr t" "young s"
  shows "young t \<and> answers t = answers s \<and> (logging t \<longrightarrow> logging s \<or> logging_asked os)"
  using assms
proof (induction einval os s rule: parse_option_list.induct)
  case (2 einval c a os s)
  from 2(2) obtain u where u: "parse_option einval c a s = Inr u" "parse_option_list einval os u = Inr t"
    by (auto simp: bindE_eq_Inr)
  show ?case
    using parse_option_young [OF u(1) 2(3)] 2(1) [OF u(1) u(2)] by (auto simp: logging_asked_def)
qed (simp add: logging_asked_def)

lemma main_init_runs:
  assumes calm: "calm_answers as" and early: "logging_asked os \<longrightarrow> early_calls as"
  shows "runs benign (main_init einval os optind argc) (\<lambda>_. server_inv) (init_server as)"
proof -
  have y: "young (init_server as)" "\<not> logging (init_server as)" "answers (init_server as) = as"
    using calm by (auto simp: young_def init_server_def valid_options_def is_int_def)
  show ?thesis
  proof (cases "parse_options einval os optind argc (init_server as)")
    case (Inl e)
    with parse_options_Inl [OF this] show ?thesis
      by (simp add: main_init_def runs_def bindS_def lift_state_def)
  next
    case (Inr s)
    then obtain name where n: "parse_option_list einval os (init_server as) = Inr s" "socketname s = Some name"
      by (auto simp: parse_options_def bindE_eq_Inr split: if_splits)
    have s: "young s" "answers s = as" "logging s \<longrightarrow> logging_asked os"
      using parse_option_list_young [OF n(1) y(1)] y by auto
    have "runs benign (server_init_listening name (parallel s)) (\<lambda>_. server_inv) s"
      by (rule server_init_listening_runs) (use s early in \<open>auto simp: young_def valid_options_def\<close>)
    with Inr n(2) show ?thesis
      by (simp add: main_init_def runs_def bindS_def lift_state_def gets_def deref_def ret_def)
  qed
qed

section \<open>The whole program\<close>

lemma main_loop_ends: "server_inv s \<Longrightarrow> benign (fst (main_loop s))"
proof (induction s rule: main_loop.induct)
  case (1 s)
  show ?case
    using main_turn_runs [OF 1(2)] 1(1)
    by (subst main_loop.simps) (auto simp: runs_def split: sum.splits prod.splits)
qed

lemma main_prog_ends:
  assumes "calm_answers as" "logging_asked os \<longrightarrow> early_calls as"
  shows "benign (fst (main_prog einval os optind argc as))"
  using main_init_runs [OF assms, of einval optind argc]
  by (auto simp: main_prog_def runs_def main_loop_ends split: sum.splits)

end
