(* ===== verification/Server_Props.thy ===== *)
theory Server_Props
  imports Server_Init
begin

text \<open>
  The properties of the Unix server.  They rest on the invariant of the theories before: the
  initialisation establishes it, every turn of the loop and every delivery of \<^verbatim>\<open>SIGCHLD\<close>
  keeps it, and in a state that satisfies it no operation goes wrong.
\<close>

section \<open>A first script\<close>

text \<open>The answers of the kernel to the calls of the initialisation, without logging.\<close>

definition start_answers :: "answer list" where
  "start_answers =
     [Ans_cwd ''/tmp'', Ans_call 0 0, Ans_call 0 0, Ans_call 3 0, Ans_call 0 0, Ans_call 0 0,
      Ans_call 0 0, Ans_call 0 0, Ans_call 0 0, Ans_pipe 0 4 5, Ans_call 0 0, Ans_call 0 0,
      Ans_call 0 0, Ans_call 0 0, Ans_call 0 0]"

definition start_options :: "(int \<times> string) list" where
  "start_options = [(int (of_char CHR ''s''), ''why3.sock'')]"

text \<open>The state at the head of the loop after this start.\<close>

definition started :: "answer list \<Rightarrow> server" where
  "started as =
     \<lparr>parallel = 1, socketname = Some ''why3.sock'', logging = False, single_client = False,
      logfile = None, answers = as, open_fds = [4, 5, 3], children = [],
      trace = [Ev_unlink ''why3.sock''], server_sock = 3,
      poll_list = [Some \<lparr>pfd = 3, events = POLLIN, revents = 0\<rparr>,
                   Some \<lparr>pfd = 4, events = POLLIN, revents = 0\<rparr>, None],
      poll_num = 2, poll_len = 3,
      clients = Some \<lparr>l_key = [None], l_data = [None], l_len = 0, l_capacity = 1\<rparr>,
      current_dir = ''/tmp'', cpipe = (4, 5),
      processes = Some \<lparr>l_key = [None], l_data = [None], l_len = 0, l_capacity = 1\<rparr>,
      queue = Some \<lparr>q_data = replicate 100 None, q_pointer = 0, q_len = 0, q_capacity = 100\<rparr>,
      heap = (\<lambda>_. None), next_addr = 0\<rparr>"

lemmas run_defs = bindS_def ret_def gets_def modify_def lift_def check_call_def sys_call_def
  next_answer_def whenS_def possible_def note_event_def stop_def

lemma enter_socket_dir_start:
  "answers s = Ans_cwd d # Ans_call 0 0 # Ans_call 0 0 # as \<Longrightarrow>
   enter_socket_dir s = Inr ((), s\<lparr>answers := as, current_dir := d\<rparr>)"
  by (simp add: enter_socket_dir_def get_cur_dir_def run_defs)

lemma parse_options_start:
  "parse_options (\<lambda>_. False) start_options 3 3 (init_server as) =
     Inr ((init_server as)\<lparr>socketname := Some ''why3.sock''\<rparr>)"
  by (simp add: parse_options_def parse_option_def start_options_def init_server_def bindE_def)

lemma main_init_start:
  "main_init (\<lambda>_. False) start_options 3 3 (init_server (start_answers @ as)) = Inr ((), started as)"
  apply (simp add: main_init_def run_defs lift_state_def parse_options_start bindE_def deref_def)
  apply (simp add: server_init_listening_def run_defs start_answers_def enter_socket_dir_start open_log_def
      init_server_def)
  apply (simp add: init_tables_def init_request_queue_def init_queue_def init_list_def c_malloc_def
      bindE_def run_defs ck_int_def is_int_def max_alloc_def size_t_of_def)
  apply (simp add: open_socket_def run_defs c_basename_def unix_path_max_def c_malloc_def)
  apply (simp add: add_to_poll_list_def run_defs c_write_i_def c_write_def ck_int_def is_int_def)
  apply (simp add: init_process_list_def init_list_def c_malloc_def max_alloc_def size_t_of_def
      bindE_def is_int_def)
  apply (simp add: setup_child_pipe_def add_to_poll_list_def run_defs c_write_i_def c_write_def
      ck_int_def is_int_def started_def numeral_3_eq_3)
  done

lemma calm_start: "calm_answers as \<Longrightarrow> calm_answers (start_answers @ as)" "\<not> logging_asked start_options"
  by (auto simp: calm_answers_def start_answers_def start_options_def logging_asked_def)

lemma started_inv: "calm_answers as \<Longrightarrow> server_inv (started as)"
  using runs_Inr [OF main_init_runs main_init_start] calm_start by blast

section \<open>Safety\<close>











section \<open>Scheduling\<close>

text \<open>A run request of a client that has gone, waiting in the queue.\<close>

definition stale_request :: request where
  "stale_request = run_of 9 False ''id'' ''0'' ''0'' ''cmd'' []"

definition stale_queue :: "request t_queue" where
  "stale_queue = \<lparr>q_data = [Some stale_request], q_pointer = 0, q_len = 1, q_capacity = 1\<rparr>"

lemma stale_queue_ok: "queue_ok stale_queue" "queue_list stale_queue = [stale_request]"
  by (simp_all add: queue_ok_def stale_queue_def wf_queue_def queue_list_def stale_request_def run_of_def run_ok_def)

lemma started_at:
  assumes "calm_answers as"
  shows "\<exists>i. inv_at i (started as\<lparr>queue := Some stale_queue\<rparr>)"
  using started_inv [OF assms] inv_core_queue [OF _ stale_queue_ok(1)]
  by (fastforce simp: server_inv_def inv_at_def)

text \<open>
  C10. Scheduling is work-conserving, bounded and fair: if \<^verbatim>\<open>schedule_new_jobs\<close> comes back, then either
  all \<^verbatim>\<open>parallel\<close> slots are taken or no request is left waiting, no more processes run than before or
  than allowed, and the requests were taken from the front of the queue.
\<close>

theorem schedule_saturates:
  assumes "inv_at i s" "schedule_new_jobs s = Inr (u, t)"
  shows "(parallel s \<le> list_length (the (processes t)) \<or> queue_list (the (queue t)) = []) \<and>
    list_length (the (processes t)) \<le> max (list_length (the (processes s))) (parallel s) \<and>
    (\<exists>k. queue_list (the (queue t)) = drop k (queue_list (the (queue s))))"
proof -
  have t: "inv_at i t" "scheduled s t"
    using runs_Inr [OF schedule_new_jobs_spec [OF assms(1)] assms(2)] by auto
  then have "queue_is_empty (the (queue t)) \<longleftrightarrow> queue_list (the (queue t)) = []"
    by (auto simp: inv_at_def queue_ok_def ring.is_empty_iff elim!: inv_coreE)
  with t(2) show ?thesis by (auto simp: scheduled_def running_def)
qed

lemma schedule_stale:
  "\<exists>t. schedule_new_jobs (started as\<lparr>queue := Some stale_queue\<rparr>) = Inr ((), t) \<and>
     list_length (the (processes t)) = 0"
proof -
  let ?s = "started as\<lparr>queue := Some stale_queue\<rparr>"
    and ?t = "started as\<lparr>queue := Some (stale_queue\<lparr>q_len := 0, q_pointer := 0\<rparr>)\<rparr>"
  have "can_schedule ?s = Inr (True, ?s)"
    by (simp add: started_def can_schedule_def run_defs deref_def list_length_def queue_is_empty_def
        stale_queue_def)
  moreover have "pop_request ?s = Inr (stale_request, ?t)"
    by (simp add: pop_request_def run_defs deref_def queue_pop_def c_assert_def bindE_def c_read_def c_umod_def
        stale_queue_def)
  moreover have "run_request stale_request ?t = Inr ((), ?t)"
    by (simp add: run_request_def run_defs deref_def started_def stale_request_def run_of_def list_lookup_def
        list_lookup_index_def lookup_index_from.simps bindE_def)
  moreover have "can_schedule ?t = Inr (False, ?t)"
    by (simp add: started_def can_schedule_def run_defs deref_def list_length_def queue_is_empty_def)
  ultimately show ?thesis
    by (simp add: schedule_new_jobs.simps [of ?s] schedule_new_jobs.simps [of ?t]
        bindS_def) (simp add: started_def list_length_def)
qed

theorem schedule_saturates_witness:
  "\<exists>t. schedule_new_jobs (started []\<lparr>queue := Some stale_queue\<rparr>) = Inr ((), t) \<and>
     queue_list (the (queue t)) = []"
proof -
  from started_at [of "[]"] obtain i where i: "inv_at i (started []\<lparr>queue := Some stale_queue\<rparr>)"
    by (auto simp: calm_answers_def)
  from schedule_stale [of "[]"] obtain t where
    t: "schedule_new_jobs (started []\<lparr>queue := Some stale_queue\<rparr>) = Inr ((), t)"
      "list_length (the (processes t)) = 0" by blast
  from schedule_saturates [OF i t(1)] t show ?thesis by (simp add: started_def)
qed

section \<open>Messages\<close>

lemma finished_text_fits:
  assumes "0 \<le> code" "code < 1000" "sec < 10 ^ 12 - 1" "usec \<le> 1000000"
  shows "length (finished_text ident code (cpu_seconds sec usec) timeout file) < length ident + 3 + 23 + (length file + 1)"
proof -
  have "d_le (cpu_seconds sec usec) (sec + 1)"
    unfolding cpu_seconds_def by (intro d_add_le d_round_le) (use assms(4) in auto)
  then have "length (show_fixed 2 (cpu_seconds sec usec)) \<le> 12 + 2 + 1"
    by (rule length_show_fixed) (use assms(3) in auto)
  moreover have "length (show_int code) \<le> 3"
    using length_dec_digits [of "nat code" 3] assms(1,2) by (simp add: show_int_def nat_less_iff)
  ultimately show ?thesis by (simp add: finished_text_def)
qed

text \<open>
  C11. The message that reports a finished task is delivered whole: with an exit code of
  at most three digits and a CPU time of less than \<open>10\<^sup>12 - 1\<close> seconds the text fits the buffer computed by
  \<^verbatim>\<open>send_msg_to_client\<close>, which then pushes exactly the text and does not shut the server down.
\<close>

theorem finished_message_whole:
  assumes "0 \<le> code" "code < 1000" "sec < 10 ^ 12 - 1" "usec \<le> 1000000"
    "length ident + length file < 2 ^ 31 - 27"
  shows "send_msg_to_client client ident code (cpu_seconds sec usec) timeout file s =
    queue_write client (finished_text ident code (cpu_seconds sec usec) timeout file) s"
proof -
  let ?t = "finished_text ident code (cpu_seconds sec usec) timeout file"
  have f: "length ?t < length ident + 3 + 23 + (length file + 1)"
    by (rule finished_text_fits) (use assms in auto)
  then have "snprintf_result ?t = int (length ?t)" "length ?t < 2 ^ 31"
    using assms(5) by (auto simp: snprintf_result_def is_int_def)
  moreover from this have "size_t_of (snprintf_result ?t) = length ?t"
    by (simp add: size_t_of_nonneg)
  moreover have "\<not> max_alloc \<le> length ident + 3 + 23 + (length file + 1)"
    using assms(5) by (simp add: max_alloc_def)
  ultimately show ?thesis
    using f by (simp add: send_msg_to_client_def Let_def run_defs)
qed

theorem finished_message_whole_witness:
  "send_msg_to_client 0 ''id'' 137 (cpu_seconds 3 250000) True ''/tmp/f'' (started []) =
   queue_write 0 (finished_text ''id'' 137 (cpu_seconds 3 250000) True ''/tmp/f'') (started [])"
  by (rule finished_message_whole) simp_all

text \<open>
  C12. A failed \<^verbatim>\<open>write\<close> makes the server abort at the next one: \<^verbatim>\<open>write_to_client\<close> leaves the buffer
  in the writing state when \<^verbatim>\<open>write\<close> returns \<open>-1\<close>, so the assertion \<^verbatim>\<open>can_write\<close> of
  \<^verbatim>\<open>prepare_write\<close> fails when the descriptor is next reported ready for writing.
\<close>

theorem failed_write_asserts:
  assumes "heap s a = Some c" "has_write_data (cl_writebuf c)" "can_write (cl_writebuf c)"
    "is_int (wb_len (cl_writebuf c) - wb_pointer (cl_writebuf c))" "answers s = Ans_write (- 1) # as"
  shows "\<exists>t. write_to_client a i s = Inr ((), t) \<and> write_to_client a j t = Inl (Assert_failure, t)"
proof -
  let ?wb = "cl_writebuf c\<lparr>is_writing := True\<rparr>"
  let ?c = "c\<lparr>cl_writebuf := ?wb\<rparr>"
  let ?t = "s\<lparr>heap := (heap s)(a := Some ?c), answers := as\<rparr>"
  have d: "has_write_data ?wb" "\<not> can_write ?wb"
    using assms(2) by (auto simp: has_write_data_def can_write_def)
  have "prepare_write (cl_writebuf c) = Inr (drop (nat (wb_pointer (cl_writebuf c))) (the (wb_data (cl_writebuf c))),
      wb_len (cl_writebuf c) - wb_pointer (cl_writebuf c), ?wb)"
    using assms(2-4) by (simp add: prepare_write_def c_assert_def bindE_def ck_int_def)
  then have "write_to_client a i s = Inr ((), ?t)"
    using assms(1,5) d by (simp add: write_to_client_def load_client_def store_client_def sys_write_def run_defs)
  moreover have "prepare_write ?wb = Inl Assert_failure"
    using d(2) by (simp add: prepare_write_def c_assert_def bindE_def)
  then have "write_to_client a j ?t = Inl (Assert_failure, ?t)"
    by (simp add: write_to_client_def load_client_def run_defs)
  ultimately show ?thesis by blast
qed

text \<open>A client with an answer to send, on a connection that breaks.\<close>

definition pending_client :: t_client where
  "pending_client =
     \<lparr>cl_fd = 6, cl_readbuf = \<lparr>rb_data = [None], rb_len = 0, rb_capacity = 1\<rparr>,
      cl_writebuf = \<lparr>wb_data = Some ''S;id'', wb_len = 4, wb_pointer = 0, is_writing = False,
        writequeue = \<lparr>q_data = [None], q_pointer = 0, q_len = 0, q_capacity = 1\<rparr>\<rparr>\<rparr>"

theorem failed_write_asserts_witness:
  "\<exists>t. write_to_client 0 2 (started [Ans_write (- 1)]\<lparr>heap := [0 \<mapsto> pending_client]\<rparr>) = Inr ((), t) \<and>
     write_to_client 0 2 t = Inl (Assert_failure, t)"
  by (rule failed_write_asserts [where c = pending_client and as = "[]"])
    (simp_all add: pending_client_def has_write_data_def can_write_def is_int_def started_def)

section \<open>Processes\<close>



text \<open>Without an argument to name it, the file for standard input is read before the array.\<close>

lemma stdin_without_argument:
  "child_plan cmd (- 1) [] True out t m ua = Inl Out_of_bounds"
  by (simp add: child_plan_def c_read_i_def c_read_def bindE_def)

section \<open>Interrupts\<close>

lemma send_kills_run:
  "send_kills ps s = Inr ((), s\<lparr>trace := trace s @ map (\<lambda>p. Ev_kill (proc_id p)) ps\<rparr>)"
  by (induction ps arbitrary: s) (simp_all add: run_defs)

text \<open>
  C14. An interrupt of an identifier takes exactly the waiting requests with that identifier out of
  the queue, keeping the order of the others, and kills exactly the running processes with that
  identifier; nothing else of the state changes but the log.
\<close>

theorem interrupt_request:
  assumes "inv_at i s" "req_type r = REQ_INTERRUPT" "is_cstring (req_id r)"
  shows "\<exists>q lf. handle_request r s = Inr ((), s\<lparr>logfile := lf, queue := Some q,
      trace := trace s @ map (\<lambda>p. Ev_kill (proc_id p))
        (filter (\<lambda>p. task_id p = req_id r) (map snd (list_entries (the (processes s)))))\<rparr>) \<and>
    queue_list q = filter (\<lambda>x. req_id x \<noteq> req_id r) (queue_list (the (queue s)))"
  using assms(1) [unfolded inv_at_def]
proof (rule inv_coreE)
  fix pl q
  assume i: "env_ok s" "processes s = Some pl" "queue s = Some q" "procs_ok (set (children s)) pl" "queue_ok q"
  have "wf_queue q" "\<forall>r \<in> set (queue_list q). is_cstring (req_id r)"
    using i(5) by (auto simp: queue_ok_def run_ok_def)
  from remove_from_queue_spec [OF this(1) assms(3) this(2)] obtain q' where
    q': "remove_from_queue (req_id r) q = Inr q'"
    "queue_list q' = filter (\<lambda>x. req_id x \<noteq> req_id r) (queue_list q)" by blast
  have kill: "kill_processes (req_id r) pl =
      Inr (filter (\<lambda>p. task_id p = req_id r) (map snd (list_entries pl)))"
    by (rule kill_processes_spec) (use i(4) assms(3) in \<open>auto simp: procs_ok_def\<close>)
  let ?m = "''Why3 server: removing id '' @ [CHR 0x27] @ req_id r @ [CHR 0x27] @ '' from queue''"
  let ?lf = "if logging s then Some (the (logfile s) @ [?m]) else logfile s"
  have "log_ready s" using i(1) by (simp add: env_ok_def)
  then have "log_prog ?m s = Inr ((), s\<lparr>logfile := ?lf\<rparr>)"
    by (simp add: log_prog_def lift_state_def log_msg_ready bindE_def)
  then have "handle_request r s = Inr ((), s\<lparr>logfile := ?lf, queue := Some q',
      trace := trace s @ map (\<lambda>p. Ev_kill (proc_id p))
        (filter (\<lambda>p. task_id p = req_id r) (map snd (list_entries (the (processes s)))))\<rparr>)"
    using i(2,3) q' kill assms(2) by (simp add: handle_request_def run_defs deref_def send_kills_run)
  with q'(2) i(3) show ?thesis by (metis option.sel)
qed

theorem interrupt_request_witness:
  "\<exists>t. handle_request (interrupt_of 9 ''id'') (started []\<lparr>queue := Some stale_queue\<rparr>) = Inr ((), t) \<and>
     queue_list (the (queue t)) = []"
proof -
  from started_at [of "[]"] obtain i where i: "inv_at i (started []\<lparr>queue := Some stale_queue\<rparr>)"
    by (auto simp: calm_answers_def)
  have "req_type (interrupt_of 9 ''id'') = REQ_INTERRUPT" "req_id (interrupt_of 9 ''id'') = ''id''"
    "is_cstring ''id''" "req_id stale_request = ''id''"
    by (simp_all add: interrupt_of_def stale_request_def run_of_def)
  with interrupt_request [OF i, of "interrupt_of 9 ''id''"] stale_queue_ok(2) show ?thesis by auto
qed

end
