(* ===== verification/Limb.thy ===== *)
theory Limb
  imports C_Monad
begin

unbundle bit_operations_syntax

text \<open>
  The limb arithmetic of mini-gmp: the macros of \<^verbatim>\<open>mini-gmp.c\<close> on 64-bit limbs as functions on
  words, with the integers they compute.  The macros assign to their first arguments; here they
  return those values.
\<close>

section \<open>Limbs as integers\<close>

type_synonym limb = "64 word"

definition LIMB_B :: int where
  "LIMB_B = 2 ^ 64"

definition GMP_LIMB_BITS :: nat where
  "GMP_LIMB_BITS = 64"

definition GMP_LIMB_MAX :: limb where
  "GMP_LIMB_MAX = NOT 0"

definition GMP_LIMB_HIGHBIT :: limb where
  "GMP_LIMB_HIGHBIT = push_bit 63 1"

definition GMP_HLIMB_BIT :: limb where
  "GMP_HLIMB_BIT = push_bit 32 1"

definition GMP_LLIMB_MASK :: limb where
  "GMP_LLIMB_MASK = GMP_HLIMB_BIT - 1"

lemma uint_bounds: "0 \<le> uint (a :: limb)" "uint (a :: limb) < LIMB_B"
  using unsigned_less [of a] by (simp_all add: LIMB_B_def)

lemma LIMB_B_pos [simp]: "0 < LIMB_B" "0 \<le> LIMB_B" "1 < LIMB_B" "LIMB_B \<noteq> 0"
  by (simp_all add: LIMB_B_def)

lemma uint_limb_ops:
  "uint (a + b :: limb) = (uint a + uint b) mod LIMB_B"
  "uint (a - b :: limb) = (uint a - uint b) mod LIMB_B"
  "uint (a * b :: limb) = (uint a * uint b) mod LIMB_B"
  by (simp_all add: uint_word_ariths LIMB_B_def)

lemma uint_limb_less: "(a :: limb) < b \<longleftrightarrow> uint a < uint b" "(a :: limb) \<le> b \<longleftrightarrow> uint a \<le> uint b"
  by (simp_all add: word_less_def word_le_def)

lemma uint_mod_limb [simp]: "uint (a :: limb) mod LIMB_B = uint a"
  by (rule mod_pos_pos_trivial) (simp_all add: uint_bounds)

lemma uint_div_limb [simp]: "uint (a :: limb) div LIMB_B = 0"
  by (rule div_pos_pos_trivial) (simp_all add: uint_bounds)

lemma mod_eqI: "0 \<le> r \<Longrightarrow> r < b \<Longrightarrow> a = r + b * k \<Longrightarrow> a mod b = (r :: int)"
  by simp

lemma mod_limbE:
  obtains k where "x mod LIMB_B = x + LIMB_B * k"
  using that [of "- (x div LIMB_B)"] by (simp add: minus_mult_div_eq_mod [symmetric])

text \<open>The comparison that finds the carry of an addition, and the borrow of a subtraction.\<close>

lemma carry_add:
  "uint (a + b :: limb) = uint a + uint b - LIMB_B * of_bool (a + b < b)"
  "uint (a + b :: limb) = uint a + uint b - LIMB_B * of_bool (a + b < a)"
proof -
  let ?s = "uint a + uint b"
  have "?s mod LIMB_B = (if ?s < LIMB_B then ?s else ?s - LIMB_B)"
    by (rule mod_eqI [where k = "if ?s < LIMB_B then 0 else 1"])
      (use uint_bounds [of a] uint_bounds [of b] in auto)
  then show "uint (a + b) = uint a + uint b - LIMB_B * of_bool (a + b < b)"
    "uint (a + b) = uint a + uint b - LIMB_B * of_bool (a + b < a)"
    using uint_bounds [of a] uint_bounds [of b] by (auto simp: uint_limb_ops(1) uint_limb_less)
qed

lemma borrow_sub:
  "uint (a - b :: limb) = uint a - uint b + LIMB_B * of_bool (a < b)"
  "uint (a - b :: limb) = uint a - uint b + LIMB_B * of_bool (a < a - b)"
proof -
  let ?s = "uint a - uint b"
  note u = uint_bounds [of a] uint_bounds [of b]
  have "?s mod LIMB_B = (if uint a < uint b then ?s + LIMB_B else ?s)"
  proof (cases "uint a < uint b")
    case True
    then have "?s mod LIMB_B = ?s + LIMB_B"
      by (intro mod_eqI [where k = "- 1"]) (use u in linarith)+
    with True show ?thesis by simp
  next
    case False
    then have "?s mod LIMB_B = ?s" by (intro mod_eqI [where k = 0]) (use u in linarith)+
    with False show ?thesis by simp
  qed
  then show "uint (a - b) = uint a - uint b + LIMB_B * of_bool (a < b)"
    "uint (a - b) = uint a - uint b + LIMB_B * of_bool (a < a - b)"
    using uint_bounds [of a] uint_bounds [of b] by (auto simp: uint_limb_ops(2) uint_limb_less)
qed

lemma uint_of_bool [simp]: "uint (of_bool b :: limb) = of_bool b"
  by (cases b) simp_all

section \<open>Two-limb addition, subtraction and multiplication\<close>

definition gmp_add_ssaaaa :: "limb \<Rightarrow> limb \<Rightarrow> limb \<Rightarrow> limb \<Rightarrow> limb \<times> limb" where
  "gmp_add_ssaaaa ah al bh bl =
     (let x = al + bl
      in (ah + bh + of_bool (x < al), x))"

definition gmp_sub_ddmmss :: "limb \<Rightarrow> limb \<Rightarrow> limb \<Rightarrow> limb \<Rightarrow> limb \<times> limb" where
  "gmp_sub_ddmmss ah al bh bl =
     (let x = al - bl
      in (ah - bh - of_bool (al < bl), x))"

text \<open>The halves are \<^verbatim>\<open>unsigned\<close>, 32 bits wide; the products are taken in limbs.\<close>

definition gmp_umul_ppmm :: "limb \<Rightarrow> limb \<Rightarrow> limb \<times> limb" where
  "gmp_umul_ppmm u v =
     (let ul = ucast (u AND GMP_LLIMB_MASK) :: 32 word;
          uh = ucast (drop_bit 32 u) :: 32 word;
          vl = ucast (v AND GMP_LLIMB_MASK) :: 32 word;
          vh = ucast (drop_bit 32 v) :: 32 word;
          x0 = ucast ul * ucast vl :: limb;
          x1 = ucast ul * ucast vh :: limb;
          x2 = ucast uh * ucast vl :: limb;
          x3 = ucast uh * ucast vh :: limb;
          x1 = x1 + drop_bit 32 x0;
          x1 = x1 + x2;
          x3 = (if x1 < x2 then x3 + GMP_HLIMB_BIT else x3)
      in (x3 + drop_bit 32 x1, push_bit 32 x1 + (x0 AND GMP_LLIMB_MASK)))"

text \<open>The value of a pair of limbs, the high one first.\<close>

definition val2 :: "limb \<times> limb \<Rightarrow> int" where
  "val2 p = uint (fst p) * LIMB_B + uint (snd p)"

lemma val2_bounds: "0 \<le> val2 p" "val2 p < LIMB_B * LIMB_B"
proof -
  note u = uint_bounds [of "fst p"] uint_bounds [of "snd p"]
  show "0 \<le> val2 p" using u by (simp add: val2_def)
  have "uint (fst p) * LIMB_B \<le> (LIMB_B - 1) * LIMB_B"
    using u by (intro mult_right_mono) simp_all
  then show "val2 p < LIMB_B * LIMB_B"
    using u unfolding val2_def by (simp add: algebra_simps)
qed

lemma add_ssaaaa_val:
  "val2 (gmp_add_ssaaaa ah al bh bl) = (val2 (ah, al) + val2 (bh, bl)) mod (LIMB_B * LIMB_B)"
proof -
  let ?c = "of_bool (al + bl < al) :: limb"
  obtain l where l: "(uint ah + uint bh) mod LIMB_B = uint ah + uint bh + LIMB_B * l" by (rule mod_limbE)
  obtain k where k: "(uint (ah + bh) + uint ?c) mod LIMB_B = uint (ah + bh) + uint ?c + LIMB_B * k"
    by (rule mod_limbE)
  have h: "uint (ah + bh + ?c) = uint ah + uint bh + LIMB_B * l + uint ?c + LIMB_B * k"
    unfolding uint_limb_ops(1) [of "ah + bh"] k unfolding uint_limb_ops(1) [of ah] l ..
  have v: "val2 (gmp_add_ssaaaa ah al bh bl) = uint (ah + bh + ?c) * LIMB_B + uint (al + bl)"
    by (simp add: val2_def gmp_add_ssaaaa_def Let_def)
  show ?thesis
    by (rule mod_eqI [OF val2_bounds, symmetric, where k = "- k - l"])
      (unfold v h carry_add(2) [of al bl], simp add: val2_def algebra_simps)
qed

lemma sub_ddmmss_val:
  "val2 (gmp_sub_ddmmss ah al bh bl) = (val2 (ah, al) - val2 (bh, bl)) mod (LIMB_B * LIMB_B)"
proof -
  let ?c = "of_bool (al < bl) :: limb"
  obtain l where l: "(uint ah - uint bh) mod LIMB_B = uint ah - uint bh + LIMB_B * l" by (rule mod_limbE)
  obtain k where k: "(uint (ah - bh) - uint ?c) mod LIMB_B = uint (ah - bh) - uint ?c + LIMB_B * k"
    by (rule mod_limbE)
  have h: "uint (ah - bh - ?c) = uint ah - uint bh + LIMB_B * l - uint ?c + LIMB_B * k"
    unfolding uint_limb_ops(2) [of "ah - bh"] k unfolding uint_limb_ops(2) [of ah] l ..
  have v: "val2 (gmp_sub_ddmmss ah al bh bl) = uint (ah - bh - ?c) * LIMB_B + uint (al - bl)"
    by (simp add: val2_def gmp_sub_ddmmss_def Let_def)
  show ?thesis
    by (rule mod_eqI [OF val2_bounds, symmetric, where k = "- k - l"])
      (unfold v h borrow_sub(1) [of al bl], simp add: val2_def algebra_simps)
qed

text \<open>The halves of a limb.\<close>

lemma uint_halves:
  "uint (u AND GMP_LLIMB_MASK) = uint u mod 2 ^ 32"
  "uint (drop_bit 32 u) = uint u div 2 ^ 32"
  "uint (push_bit 32 u) = (uint u mod 2 ^ 32) * 2 ^ 32"
  for u :: limb
proof -
  have "GMP_LLIMB_MASK = mask 32" by (simp add: GMP_LLIMB_MASK_def GMP_HLIMB_BIT_def mask_eq_exp_minus_1)
  then have "u AND GMP_LLIMB_MASK = take_bit 32 u" by (simp add: take_bit_eq_mask)
  then show "uint (u AND GMP_LLIMB_MASK) = uint u mod 2 ^ 32"
    by (metis unsigned_take_bit_eq take_bit_eq_mod)
  show "uint (drop_bit 32 u) = uint u div 2 ^ 32"
    by (simp only: drop_bit_eq_div) (simp add: uint_div_distrib)
  show "uint (push_bit 32 u) = (uint u mod 2 ^ 32) * 2 ^ 32"
    using mod_mult_mult2 [of "uint u" "2 ^ 32" "2 ^ 32"] by (simp add: push_bit_eq_mult uint_word_ariths)
qed

lemma uint_cast_halves:
  "uint (ucast (ucast (u AND GMP_LLIMB_MASK) :: 32 word) :: limb) = uint u mod 2 ^ 32"
  "uint (ucast (ucast (drop_bit 32 u) :: 32 word) :: limb) = uint u div 2 ^ 32"
  for u :: limb
proof -
  have cast: "uint (ucast (ucast w :: 32 word) :: limb) = uint w" if "uint w < 2 ^ 32" for w :: limb
    using that by (simp add: unsigned_ucast_eq unsigned_take_bit_eq take_bit_int_eq_self)
  show "uint (ucast (ucast (u AND GMP_LLIMB_MASK) :: 32 word) :: limb) = uint u mod 2 ^ 32"
    by (subst cast) (simp_all add: uint_halves)
  show "uint (ucast (ucast (drop_bit 32 u) :: 32 word) :: limb) = uint u div 2 ^ 32"
    using uint_bounds [of u]
    by (subst cast) (auto simp: uint_halves LIMB_B_def div_less_iff_less_mult)
qed

lemma mult_halves:
  assumes "0 \<le> a" "a < 2 ^ 32" "0 \<le> c" "c < (2 ^ 32 :: int)"
  shows "0 \<le> a * c" "a * c \<le> (2 ^ 32 - 1) * (2 ^ 32 - 1)"
  using assms mult_mono [of a "2 ^ 32 - 1" c "2 ^ 32 - 1"] by simp_all

lemma umul_ppmm_val: "val2 (gmp_umul_ppmm u v) = uint u * uint v"
proof -
  let ?b = "2 ^ 32 :: int"
  define a A c C where d: "a = uint u mod ?b" "A = uint u div ?b" "c = uint v mod ?b" "C = uint v div ?b"
  have b: "0 \<le> a" "a < ?b" "0 \<le> A" "A < ?b" "0 \<le> c" "c < ?b" "0 \<le> C" "C < ?b"
    using uint_bounds [of u] uint_bounds [of v] unfolding d LIMB_B_def by (auto simp: pos_imp_zdiv_nonneg_iff)
  note m = mult_halves [OF b(1,2,5,6)] mult_halves [OF b(1,2,7,8)] mult_halves [OF b(3,4,5,6)]
    mult_halves [OF b(3,4,7,8)]
  have uv: "uint u = A * ?b + a" "uint v = C * ?b + c" unfolding d by simp_all
  define X0 where "X0 = a * c"
  define X1 where "X1 = a * C + X0 div ?b"
  have X0: "0 \<le> X0 div ?b" "X0 div ?b < ?b" using m(1,2) by (auto simp: X0_def)
  then have X1: "0 \<le> X1" "X1 < LIMB_B" using m(3,4) by (auto simp: X1_def LIMB_B_def)
  let ?l = "\<lambda>x. ucast (ucast (x AND GMP_LLIMB_MASK) :: 32 word) :: limb"
  let ?h = "\<lambda>x. ucast (ucast (drop_bit 32 x) :: 32 word) :: limb"
  have x0: "uint (?l u * ?l v) = X0" and x2: "uint (?h u * ?l v) = A * c" and x3: "uint (?h u * ?h v) = A * C"
    and y1: "uint (?l u * ?h v) = a * C"
    unfolding uint_limb_ops uint_cast_halves d [symmetric] X0_def LIMB_B_def
    using m by (auto intro!: mod_pos_pos_trivial)
  have x1: "uint (?l u * ?h v + drop_bit 32 (?l u * ?l v)) = X1"
    using X1 unfolding uint_limb_ops(1) uint_halves x0 y1 by (simp add: X1_def)
  define w1 where "w1 = ?l u * ?h v + drop_bit 32 (?l u * ?l v) + ?h u * ?l v"
  define cy :: int where "cy = of_bool (w1 < ?h u * ?l v)"
  have w1: "uint w1 = X1 + A * c - LIMB_B * cy"
    using carry_add(1) [of "?l u * ?h v + drop_bit 32 (?l u * ?l v)" "?h u * ?l v"]
    unfolding x1 x2 w1_def cy_def .
  define w3 where "w3 = (if w1 < ?h u * ?l v then ?h u * ?h v + GMP_HLIMB_BIT else ?h u * ?h v)"
  have H: "uint GMP_HLIMB_BIT = ?b" by (simp add: GMP_HLIMB_BIT_def)
  have w: "gmp_umul_ppmm u v = (w3 + drop_bit 32 w1, push_bit 32 w1 + (?l u * ?l v AND GMP_LLIMB_MASK))"
    by (simp add: gmp_umul_ppmm_def Let_def w1_def w3_def)
  let ?E1 = "A * C + ?b * cy + uint w1 div ?b" and ?E0 = "(uint w1 mod ?b) * ?b + X0 mod ?b"
  have E0: "0 \<le> ?E0" "?E0 < LIMB_B" 
    using pos_mod_bound [of ?b "uint w1"] pos_mod_bound [of ?b X0] pos_mod_sign [of ?b "uint w1"]
      pos_mod_sign [of ?b X0] by (simp_all add: LIMB_B_def)
  have "?E1 * LIMB_B + ?E0 = A * C * LIMB_B + ?b * cy * LIMB_B + uint w1 * ?b + X0 mod ?b"
  proof -
    define q r where q: "q = uint w1 div ?b" "r = uint w1 mod ?b"
    then have "uint w1 = ?b * q + r" by simp
    then show ?thesis unfolding q [symmetric] LIMB_B_def by (simp add: algebra_simps)
  qed
  also have "\<dots> = A * C * LIMB_B + X1 * ?b + A * c * ?b + X0 mod ?b"
    unfolding w1 by (simp add: algebra_simps)
  also have "\<dots> = uint u * uint v"
    using mult_div_mod_eq [symmetric, of X0 ?b] unfolding uv X1_def LIMB_B_def
    by (simp only: X0_def) (simp add: algebra_simps)
  finally have E: "?E1 * LIMB_B + ?E0 = uint u * uint v" .
  have E1: "0 \<le> ?E1"
    using m(7) X1 uint_bounds [of w1] by (auto simp: cy_def pos_imp_zdiv_nonneg_iff)
  have "?E1 < LIMB_B"
  proof (rule ccontr)
    assume "\<not> ?E1 < LIMB_B"
    then have "LIMB_B * LIMB_B \<le> ?E1 * LIMB_B" by simp
    moreover have "uint u * uint v < LIMB_B * LIMB_B"
      by (rule mult_strict_mono) (simp_all add: uint_bounds)
    ultimately show False using E E0 by linarith
  qed
  moreover have "uint (w3 + drop_bit 32 w1) = ?E1 mod LIMB_B"
    unfolding uint_limb_ops(1) uint_halves w3_def cy_def using H x3
    by (simp add: uint_limb_ops(1) mod_add_left_eq)
  moreover have "uint (push_bit 32 w1 + (?l u * ?l v AND GMP_LLIMB_MASK)) = ?E0 mod LIMB_B"
    unfolding uint_limb_ops(1) uint_halves x0 ..
  ultimately show ?thesis
    using E E0 E1 by (simp add: val2_def w)
qed

section \<open>Division by a limb with a precomputed inverse\<close>

definition gmp_udiv_qrnnd_preinv :: "limb \<Rightarrow> limb \<Rightarrow> limb \<Rightarrow> limb \<Rightarrow> limb \<times> limb" where
  "gmp_udiv_qrnnd_preinv nh nl d di =
     (let (qh, ql) = gmp_umul_ppmm nh di;
          (qh, ql) = gmp_add_ssaaaa qh ql (nh + 1) nl;
          r = nl - qh * d;
          mask = - of_bool (ql < r);
          qh = qh + mask;
          r = r + (mask AND d)
      in if d \<le> r then (qh + 1, r - d) else (qh, r))"

text \<open>The candidate remainder of the 2/1 division is off by less than a limb.\<close>

lemma candidate_2by1:
  fixes B d v k nh nl q0 q1 rt :: int
  assumes B: "0 < d" "d < B" and inv: "d * (B + v) = B * B - k" "1 \<le> k" "k \<le> d"
    and n: "0 \<le> nh" "nh < d" "0 \<le> nl" "nl < B"
    and q: "nh * (B + v) + nl = B * (q1 - 1) + q0" "0 \<le> q0" "q0 < B"
    and rt: "rt = nh * B + nl - q1 * d"
  shows "- d \<le> rt" "q0 - B < rt" "rt < max (B - d) q0"
proof -
  have "B * rt = nh * (B * B) + B * nl - d * (B * (q1 - 1) + q0) + d * q0 - B * d"
    unfolding rt by (simp add: algebra_simps)
  also have "\<dots> = nh * (B * B - d * (B + v)) + (B - d) * nl + d * q0 - B * d"
    unfolding q(1) [symmetric] by (simp add: algebra_simps)
  finally have Br: "B * rt = nh * k + (B - d) * nl + d * q0 - B * d" unfolding inv(1) by simp
  have nn: "0 \<le> nh * k" "0 \<le> (B - d) * nl" "0 \<le> d * q0" using assms by simp_all
  then have "0 \<le> B * (rt + d)" using Br by (simp add: algebra_simps)
  then show "- d \<le> rt" using B by (simp add: zero_le_mult_iff)
  have "0 < (B - d) * (B - q0)" using B q by simp
  then have "0 < B * (rt - (q0 - B))" using Br nn by (simp add: algebra_simps)
  then show "q0 - B < rt" using B by (simp add: zero_less_mult_iff)
  have "nh * k \<le> (d - 1) * d" "(B - d) * nl \<le> (B - d) * (B - 1)"
    using assms by (auto intro!: mult_mono)
  then have "B * rt \<le> (B - d) * (B - d) + d * q0 - B" using Br by (simp add: algebra_simps)
  also have "\<dots> \<le> (B - d) * max (B - d) q0 + d * max (B - d) q0 - B"
    using B by (intro diff_right_mono add_mono mult_left_mono) simp_all
  finally have "B * rt \<le> B * (max (B - d) q0 - 1)" by (simp add: algebra_simps)
  then show "rt < max (B - d) q0" using B by (simp add: mult_le_cancel_left_pos)
qed

text \<open>The inverse of a normalized limb.\<close>

definition inverse_limb :: "limb \<Rightarrow> limb \<Rightarrow> bool" where
  "inverse_limb d di \<longleftrightarrow> GMP_LIMB_HIGHBIT \<le> d \<and> uint di = (LIMB_B * LIMB_B - 1) div uint d - LIMB_B"

lemma inverse_limbD:
  assumes "inverse_limb d di"
  obtains k where "uint d * (LIMB_B + uint di) = LIMB_B * LIMB_B - k" "1 \<le> k" "k \<le> uint d"
    "LIMB_B \<le> 2 * uint d"
proof -
  have d: "LIMB_B \<le> 2 * uint d"
    using assms by (simp add: inverse_limb_def uint_limb_less GMP_LIMB_HIGHBIT_def LIMB_B_def)
  then have pos: "0 < uint d" using LIMB_B_pos(1) by linarith
  let ?r = "(LIMB_B * LIMB_B - 1) mod uint d"
  have e: "LIMB_B + uint di = (LIMB_B * LIMB_B - 1) div uint d" using assms by (simp add: inverse_limb_def)
  have "uint d * (LIMB_B + uint di) = LIMB_B * LIMB_B - (?r + 1)"
    unfolding e using mult_div_mod_eq [of "uint d" "LIMB_B * LIMB_B - 1"] by linarith
  moreover have "0 \<le> ?r" "?r < uint d" using pos by simp_all
  ultimately show thesis using that [of "?r + 1"] d by linarith
qed

lemma mask_limb:
  "uint (r + (- of_bool b AND d) :: limb) = (uint r + of_bool b * uint d) mod LIMB_B"
  "uint (q + - of_bool b :: limb) = (uint q - of_bool b) mod LIMB_B"
proof -
  have "(- 1 :: limb) AND d = d" by simp
  then show "uint (r + (- of_bool b AND d)) = (uint r + of_bool b * uint d) mod LIMB_B"
    by (cases b) (simp_all add: uint_limb_ops)
  show "uint (q + - of_bool b) = (uint q - of_bool b) mod LIMB_B"
    using uint_limb_ops(2) [of q 1] by (cases b) simp_all
qed

lemma val2_parts:
  assumes "val2 (h, l) = x mod (LIMB_B * LIMB_B)"
  shows "uint l = x mod LIMB_B" "uint h = (x div LIMB_B) mod LIMB_B"
proof -
  have m: "x mod (LIMB_B * LIMB_B) = LIMB_B * ((x div LIMB_B) mod LIMB_B) + x mod LIMB_B"
    by (rule zmod_zmult2_eq) simp
  have "val2 (h, l) mod LIMB_B = uint l" "val2 (h, l) div LIMB_B = uint h"
    by (simp_all add: val2_def)
  then show "uint l = x mod LIMB_B" "uint h = (x div LIMB_B) mod LIMB_B"
    unfolding assms m by simp_all
qed

lemma preinv_parts:
  assumes "uint nh + 1 < LIMB_B" "gmp_umul_ppmm nh di = (q, ql)" "gmp_add_ssaaaa q ql (nh + 1) nl = (qh, q0)"
  shows "uint q0 = (uint nh * (LIMB_B + uint di) + uint nl) mod LIMB_B"
    "uint qh = ((uint nh * (LIMB_B + uint di) + uint nl) div LIMB_B + 1) mod LIMB_B"
proof -
  let ?X = "uint nh * (LIMB_B + uint di) + uint nl"
  have "uint (nh + 1) = uint nh + 1"
    using assms(1) uint_bounds [of nh] by (simp add: uint_limb_ops(1))
  then have "val2 (q, ql) + val2 (nh + 1, nl) = ?X + LIMB_B"
    using umul_ppmm_val [of nh di] assms(2) by (simp add: val2_def algebra_simps)
  then have "val2 (qh, q0) = (?X + LIMB_B) mod (LIMB_B * LIMB_B)"
    using add_ssaaaa_val [of q ql "nh + 1" nl] assms(3) by simp
  from val2_parts [OF this] show "uint q0 = ?X mod LIMB_B" "uint qh = (?X div LIMB_B + 1) mod LIMB_B"
    by (simp_all add: div_add_self2)
qed

lemma mod_LIMB_B:
  "0 \<le> x \<Longrightarrow> x < LIMB_B \<Longrightarrow> x mod LIMB_B = x"
  "- LIMB_B \<le> x \<Longrightarrow> x < 0 \<Longrightarrow> x mod LIMB_B = x + LIMB_B"
  "LIMB_B \<le> x \<Longrightarrow> x < 2 * LIMB_B \<Longrightarrow> x mod LIMB_B = x - LIMB_B"
  by (rule mod_eqI [where k = 0] mod_eqI [where k = "- 1"] mod_eqI [where k = 1]; simp)+

text \<open>A quotient below the limb base is known from its residue.\<close>

lemma quotient_2by1:
  assumes "uint q = x mod LIMB_B" "uint r = y" "n = x * uint d + y" "0 \<le> y" "y < uint d"
    "0 \<le> n" "n < LIMB_B * uint d"
  shows "uint q = n div uint d \<and> uint r = n mod uint (d :: limb)"
proof -
  have qr: "n div uint d = x" "n mod uint d = y" using assms by simp_all
  have "0 \<le> n div uint d" using pos_imp_zdiv_nonneg_iff [of "uint d" n] assms(4-6) by linarith
  moreover have "n div uint d < LIMB_B" 
  proof (rule ccontr)
    assume "\<not> n div uint d < LIMB_B"
    then have "LIMB_B * uint d \<le> x * uint d" using qr assms(4,5) by (intro mult_right_mono) simp_all
    with assms(3,4,7) show False by linarith
  qed
  ultimately show ?thesis using assms(1,2) qr by simp
qed

theorem udiv_qrnnd_preinv_val:
  assumes inv: "inverse_limb d di" and nh: "nh < d" and res: "gmp_udiv_qrnnd_preinv nh nl d di = (q, r)"
  shows "uint q = (uint nh * LIMB_B + uint nl) div uint d" "uint r = (uint nh * LIMB_B + uint nl) mod uint d"
proof -
  from inv obtain k where k: "uint d * (LIMB_B + uint di) = LIMB_B * LIMB_B - k" "1 \<le> k" "k \<le> uint d"
    "LIMB_B \<le> 2 * uint d" by (rule inverse_limbD)
  note u = uint_bounds [of d] uint_bounds [of nh] uint_bounds [of nl]
  have n: "uint nh < uint d" using nh by (simp add: uint_limb_less)
  obtain p pl where p: "gmp_umul_ppmm nh di = (p, pl)" by force
  obtain qh q0 where qh: "gmp_add_ssaaaa p pl (nh + 1) nl = (qh, q0)" by force
  let ?X = "uint nh * (LIMB_B + uint di) + uint nl"
  define q1 where "q1 = ?X div LIMB_B + 1"
  define rt where "rt = uint nh * LIMB_B + uint nl - q1 * uint d"
  have parts: "uint q0 = ?X mod LIMB_B" "uint qh = q1 mod LIMB_B"
    unfolding q1_def by (rule preinv_parts [OF _ p qh], use u n in linarith)+
  have X: "?X = LIMB_B * (q1 - 1) + uint q0" unfolding q1_def parts(1) by simp
  note cand = candidate_2by1 [OF _ u(2) k(1-3) u(3) n u(5,6) X uint_bounds(1) uint_bounds(2) rt_def]
  let ?r = "nl - qh * d"
  obtain j where "q1 mod LIMB_B = q1 + LIMB_B * j" by (rule mod_limbE)
  then have "uint nl - uint qh * uint d = rt + LIMB_B * (- uint nh - j * uint d)"
    unfolding rt_def parts(2) by (simp add: algebra_simps)
  then have r: "uint ?r = rt mod LIMB_B"
    unfolding uint_limb_ops(2) [of nl] uint_limb_ops(3) [of qh] by (simp add: mod_diff_right_eq)
  have res: "q = (if q0 < ?r then if d \<le> ?r + d then qh else qh - 1 else if d \<le> ?r then qh + 1 else qh)"
    "r = (if q0 < ?r then if d \<le> ?r + d then ?r else ?r + d else if d \<le> ?r then ?r - d else ?r)"
    using res p qh by (cases "q0 < ?r"; auto simp: gmp_udiv_qrnnd_preinv_def Let_def split: if_splits)+
  have "uint nh * LIMB_B \<le> (uint d - 1) * LIMB_B" using n by (intro mult_right_mono) simp_all
  then have small: "uint nh * LIMB_B + uint nl < LIMB_B * uint d" using u by (simp add: algebra_simps)
  have fin: "uint q = (uint nh * LIMB_B + uint nl) div uint d \<and> uint r = (uint nh * LIMB_B + uint nl) mod uint d"
    if "uint q = (q1 + e) mod LIMB_B" "uint r = rt - e * uint d" "0 \<le> rt - e * uint d" "rt - e * uint d < uint d" for e
    by (rule quotient_2by1 [OF that(1,2) _ that(3,4) _ small]) (use u rt_def in \<open>simp_all add: algebra_simps\<close>)
  consider "rt < 0" | "0 \<le> rt" "rt \<le> uint q0" | "uint q0 < rt" by linarith
  then have "uint q = (uint nh * LIMB_B + uint nl) div uint d \<and> uint r = (uint nh * LIMB_B + uint nl) mod uint d"
  proof cases
    case 1
    then have r1: "uint ?r = rt + LIMB_B" using r cand(1) u k(4) n by (simp add: mod_LIMB_B(2))
    then have b: "q0 < ?r" using cand(2) u n by (simp add: uint_limb_less)
    have "uint (?r + d) = rt + uint d" using r1 cand(1) 1 u n
      by (simp add: uint_limb_ops(1) mod_LIMB_B(3))
    with b 1 show ?thesis
      using res cand(1) u n by (intro fin [of "- 1"])
        (simp_all add: uint_limb_less uint_limb_ops(2) parts(2) mod_diff_left_eq)
  next
    case 2
    then have r1: "uint ?r = rt" using r uint_bounds [of q0] by (simp add: mod_LIMB_B(1))
    then have b: "\<not> q0 < ?r" using 2 by (simp add: uint_limb_less)
    show ?thesis
    proof (cases "uint d \<le> rt")
      case True
      then have "uint (?r - d) = rt - uint d" unfolding borrow_sub(1) [of ?r d] uint_limb_less r1 by simp
      then show ?thesis
        using True b res r1 2 k(4) uint_bounds [of q0]
        by (intro fin [of 1]) (simp_all add: uint_limb_less uint_limb_ops(1) parts(2) mod_add_left_eq)
    next
      case False
      with b res r1 2 parts(2) show ?thesis by (intro fin [of 0]) (simp_all add: uint_limb_less)
    qed
  next
    case 3
    then have "0 \<le> rt" using uint_bounds(1) [of q0] by linarith
    moreover have "rt < LIMB_B - uint d" using 3 cand(3) u n by auto
    ultimately have rt: "0 \<le> rt" "rt < LIMB_B - uint d" .
    then have r1: "uint ?r = rt" using r u by (simp add: mod_LIMB_B(1))
    then have b: "q0 < ?r" using 3 by (simp add: uint_limb_less)
    have "uint (?r + d) = rt + uint d" using rt r1 u by (simp add: uint_limb_ops(1))
    with b res r1 rt parts(2) k(4) show ?thesis by (intro fin [of 0]) (simp_all add: uint_limb_less)
  qed
  then show "uint q = (uint nh * LIMB_B + uint nl) div uint d" "uint r = (uint nh * LIMB_B + uint nl) mod uint d"
    by simp_all
qed

end
