(* ===== verification/Limb_Div.thy ===== *)
theory Limb_Div
  imports Limb
begin

text \<open>
  The remaining limb macros of mini-gmp: counting zero bits, the 3/2 division with a precomputed
  inverse, and the computation of that inverse (\<^verbatim>\<open>mpn_invert_3by2\<close>).
\<close>

section \<open>Division of three limbs by two\<close>

definition gmp_udiv_qr_3by2 ::
  "limb \<Rightarrow> limb \<Rightarrow> limb \<Rightarrow> limb \<Rightarrow> limb \<Rightarrow> limb \<Rightarrow> limb \<times> limb \<times> limb" where
  "gmp_udiv_qr_3by2 n2 n1 n0 d1 d0 dinv =
     (let (q, q0) = gmp_umul_ppmm n2 dinv;
          (q, q0) = gmp_add_ssaaaa q q0 n2 n1;
          r1 = n1 - d1 * q;
          (r1, r0) = gmp_sub_ddmmss r1 n0 d1 d0;
          (t1, t0) = gmp_umul_ppmm d0 q;
          (r1, r0) = gmp_sub_ddmmss r1 r0 t1 t0;
          q = q + 1;
          mask = - of_bool (q0 \<le> r1);
          q = q + mask;
          (r1, r0) = gmp_add_ssaaaa r1 r0 (mask AND d1) (mask AND d0)
      in if d1 \<le> r1 then
           if d1 < r1 \<or> d0 \<le> r0 then
             (q + 1, gmp_sub_ddmmss r1 r0 d1 d0)
           else (q, r1, r0)
         else (q, r1, r0))"

text \<open>The candidate remainder of the 3/2 division.\<close>

lemma candidate_3by2_bound:
  fixes B D v k n2 n1 n0 d1 d0 e :: int
  assumes B: "1 < B" "D = d1 * B + d0" "0 \<le> d1" "d1 < B" "0 \<le> d0" "d0 < B"
    and e: "e = B * B - D" "0 < e" "0 \<le> D"
    and inv: "D * (B + v) = B * B * B - k" "1 \<le> k" "k \<le> D" "0 \<le> v"
    and n: "0 \<le> n2" "0 \<le> n1" "n1 < B" "0 \<le> n0" "n0 < B" "n2 * B + n1 < D"
  shows "B * (n2 * k + n1 * e + n0 * B - B * D) \<le> e * e - B * B"
proof -
  have n0: "n0 * B \<le> (B - 1) * B" using n B by (intro mult_right_mono) simp_all
  have "n2 < d1 \<or> n2 = d1 \<and> n1 < d0"
  proof -
    have "n2 * B < (d1 + 1) * B" using n B by (simp add: algebra_simps)
    then have "n2 \<le> d1" using B by (simp add: mult_less_cancel_right)
    with n B show ?thesis by auto
  qed
  then consider (small) "n2 \<le> d1 - 1" | (far) "n2 = d1" "n1 \<le> d0 - 1" "B \<le> e" | (near) "n2 = d1" "n1 \<le> d0 - 1" "e < B"
    by linarith
  then show ?thesis
  proof cases
    case small
    have "n2 * k \<le> (d1 - 1) * D" "n1 * e \<le> (B - 1) * e" using small inv n e by (auto intro!: mult_mono)
    then have "B * (n2 * k + n1 * e + n0 * B - B * D) \<le>
        B * ((d1 - 1) * D + (B - 1) * e + (B - 1) * B - B * D)"
      using n0 B by (intro mult_left_mono) linarith+
    also have "\<dots> = e * e - B * B - D * d0" unfolding e(1) B(2) by (simp add: algebra_simps)
    also have "\<dots> \<le> e * e - B * B" using e B by simp
    finally show ?thesis .
  next
    case far
    have "n2 * k \<le> d1 * D" "n1 * e \<le> (d0 - 1) * e" using far inv n e B by (auto intro!: mult_mono)
    then have "B * (n2 * k + n1 * e + n0 * B - B * D) \<le>
        B * (d1 * D + (d0 - 1) * e + (B - 1) * B - B * D)"
      using n0 B by (intro mult_left_mono) linarith+
    also have "\<dots> = e * e - B * B - (B - d0) * (e * (B + 1) - B * B)"
      unfolding e(1) B(2) by (simp add: algebra_simps)
    also have "\<dots> \<le> e * e - B * B" using far B mult_mono [of B e B "B + 1"] by simp
    finally show ?thesis .
  next
    case near
    have d1: "d1 = B - 1"
    proof -
      have "(B - 1) * B < (d1 + 1) * B" using near e B by (simp add: algebra_simps)
      then show ?thesis using B by (simp add: mult_less_cancel_right)
    qed
    have "e = B * B - ((B - 1) * B + d0)" using e(1) unfolding B(2) d1 .
    then have d0: "d0 = B - e" by (simp add: algebra_simps)
    have v: "v = 0"
    proof (rule ccontr)
      assume "v \<noteq> 0"
      then have "D * (B + 1) \<le> D * (B + v)" using inv e by (intro mult_left_mono) simp_all
      then have "(B * B - e) * (B + 1) \<le> B * B * B - k" unfolding inv(1) using e(1) by simp
      then have "B * B + k \<le> e * (B + 1)" by (simp add: algebra_simps)
      also have "\<dots> \<le> (B - 1) * (B + 1)" using near B by (intro mult_right_mono) simp_all
      finally show False using inv by (simp add: algebra_simps)
    qed
    then have "k = B * B * B - D * B" using inv(1) by simp
    then have k: "k = B * e" unfolding e(1) by (simp add: algebra_simps)
    have nk: "n2 * k = (B - 1) * (B * e)" using near(1) k d1 by simp
    have "n1 * e \<le> (B - e - 1) * e" using near d0 e by (intro mult_right_mono) simp_all
    then have "B * (n2 * k + n1 * e + n0 * B - B * D) \<le>
        B * ((B - 1) * (B * e) + (B - e - 1) * e + (B - 1) * B - B * D)"
      unfolding nk using n0 B by (intro mult_left_mono) linarith+
    also have "\<dots> = e * e - B * B - ((B - 1) * (B - 1) + (B - 1 - e) * (B * B * (B - 1) - B + 2) +
        (B + 1) * ((B - 1 - e) * (B - 1 - e)))"
      unfolding e(1) by (simp add: algebra_simps)
    also have "\<dots> \<le> e * e - B * B"
    proof -
      have "B * 1 \<le> B * B * (B - 1)" using B by (intro mult_mono) simp_all
      then have "0 \<le> (B - 1 - e) * (B * B * (B - 1) - B + 2)"
        using near by (intro mult_nonneg_nonneg) linarith+
      moreover have "0 \<le> (B + 1) * ((B - 1 - e) * (B - 1 - e))" "0 \<le> (B - 1) * (B - 1)"
        using B by simp_all
      ultimately show ?thesis by linarith
    qed
    finally show ?thesis .
  qed
qed

text \<open>The candidate remainder of the 3/2 division.\<close>

lemma candidate_3by2:
  fixes B D v k n2 n1 n0 q0 q1 rt d1 d0 :: int
  assumes B: "1 < B" "D = d1 * B + d0" "0 \<le> d1" "d1 < B" "0 \<le> d0" "d0 < B" "B * B \<le> 2 * D"
    and inv: "D * (B + v) = B * B * B - k" "1 \<le> k" "k \<le> D" "0 \<le> v"
    and n: "0 \<le> n2" "0 \<le> n1" "n1 < B" "0 \<le> n0" "n0 < B" "n2 * B + n1 < D"
    and q: "n2 * (B + v) + n1 = B * q1 + q0" "0 \<le> q0" "q0 < B"
    and rt: "rt = n2 * (B * B) + n1 * B + n0 - (q1 + 1) * D"
  shows "- D \<le> rt" "q0 * B - B * B < rt" "rt < max (B * B - D) (q0 * B)"
proof -
  have "D \<le> (B - 1) * B + (B - 1)" using B mult_right_mono [of d1 "B - 1" B] by linarith
  then have DB: "D < B * B" "0 < D" using B by (simp_all add: algebra_simps) 
  have "B * rt = n2 * (B * B * B) + n1 * (B * B) + n0 * B - D * (B * q1 + q0) + D * q0 - B * D"
    unfolding rt by (simp add: algebra_simps)
  also have "\<dots> = n2 * (B * B * B - D * (B + v)) + n1 * (B * B - D) + n0 * B + q0 * D - B * D"
    unfolding q(1) [symmetric] by (simp add: algebra_simps)
  finally have Br: "B * rt = n2 * k + n1 * (B * B - D) + n0 * B + q0 * D - B * D" unfolding inv(1) by simp
  have nn: "0 \<le> n2 * k" "0 \<le> n1 * (B * B - D)" "0 \<le> n0 * B" "0 \<le> q0 * D" using assms DB by simp_all
  then have "0 \<le> B * (rt + D)" using Br by (simp add: algebra_simps)
  then show "- D \<le> rt" using B by (simp add: zero_le_mult_iff)
  have "0 < (B * B - D) * (B - q0)" using DB q by simp
  then have "0 < B * (rt - (q0 * B - B * B))" using Br nn by (simp add: algebra_simps)
  then show "q0 * B - B * B < rt" using B by (simp add: zero_less_mult_iff)
  let ?e = "B * B - D" and ?c = "max (B * B - D) (q0 * B)"
  have "B * (n2 * k + n1 * ?e + n0 * B - B * D) \<le> ?e * ?e - B * B"
    using candidate_3by2_bound [OF B(1-6) refl _ _ inv n] DB by simp
  then have "B * (B * rt) \<le> ?e * ?e + q0 * B * D - B * B"
    unfolding Br by (simp add: algebra_simps)
  also have "?e * ?e + q0 * B * D - B * B \<le> ?e * ?c + D * ?c - B * B"
  proof -
    have "?e * ?e \<le> ?e * ?c" using DB by (intro mult_left_mono) simp_all
    moreover have "q0 * B * D \<le> D * ?c" unfolding mult.commute [of "q0 * B" D]
      using DB by (intro mult_left_mono) simp_all
    ultimately show ?thesis by linarith
  qed
  finally have "B * B * rt \<le> B * B * (?c - 1)" by (simp add: algebra_simps)
  then show "rt < ?c" using B by (simp add: mult_le_cancel_left_pos)
qed

lemma product_3by2:
  fixes B D v k n2 n1 :: int
  assumes "0 < B" "0 < D" "D \<le> B * B" "D * (B + v) = B * B * B - k" "0 \<le> k" "0 \<le> n2" "0 \<le> n1" "n2 * B + n1 < D"
  shows "n2 * (B + v) + n1 < B * B"
proof -
  have "D * (n2 * (B + v) + n1) = n2 * (D * (B + v)) + D * n1" by (simp add: algebra_simps)
  also have "\<dots> = (n2 * B) * (B * B) - n2 * k + D * n1" unfolding assms(4) by (simp add: algebra_simps)
  also have "\<dots> \<le> (D - 1 - n1) * (B * B) + D * n1"
  proof -
    have "(n2 * B) * (B * B) \<le> (D - 1 - n1) * (B * B)" using assms by (intro mult_right_mono) simp_all
    moreover have "0 \<le> n2 * k" using assms by simp
    ultimately show ?thesis by linarith
  qed
  also have "\<dots> = D * (B * B) - (B * B + n1 * (B * B - D))" by (simp add: algebra_simps)
  also have "\<dots> < D * (B * B)"
  proof -
    have "0 \<le> n1 * (B * B - D)" using assms by simp
    moreover have "0 < B * B" using assms by simp
    ultimately show ?thesis by linarith
  qed
  finally show ?thesis using assms by (simp add: mult_less_cancel_left)
qed

text \<open>The 3/2 inverse, as the comment of \<^verbatim>\<open>mpn_invert_3by2\<close> defines it.\<close>

definition inverse_3by2 :: "limb \<Rightarrow> limb \<Rightarrow> limb \<Rightarrow> bool" where
  "inverse_3by2 d1 d0 di \<longleftrightarrow> GMP_LIMB_HIGHBIT \<le> d1 \<and>
     uint di = (LIMB_B * LIMB_B * LIMB_B - 1) div val2 (d1, d0) - LIMB_B"

lemma inverse_3by2D:
  assumes "inverse_3by2 d1 d0 di"
  obtains k where "val2 (d1, d0) * (LIMB_B + uint di) = LIMB_B * LIMB_B * LIMB_B - k" "1 \<le> k"
    "k \<le> val2 (d1, d0)" "LIMB_B * LIMB_B \<le> 2 * val2 (d1, d0)"
proof -
  let ?D = "val2 (d1, d0)"
  have "LIMB_B \<le> 2 * uint d1"
    using assms by (simp add: inverse_3by2_def uint_limb_less GMP_LIMB_HIGHBIT_def LIMB_B_def)
  then have "LIMB_B * LIMB_B \<le> 2 * (uint d1 * LIMB_B)"
    unfolding mult.assoc [symmetric] by (intro mult_right_mono) simp_all
  then have D: "LIMB_B * LIMB_B \<le> 2 * ?D" 
    by (rule order_trans) (simp add: val2_def)
  then have pos: "0 < ?D" using mult_pos_pos [OF LIMB_B_pos(1) LIMB_B_pos(1)] by linarith
  let ?r = "(LIMB_B * LIMB_B * LIMB_B - 1) mod ?D"
  have e: "LIMB_B + uint di = (LIMB_B * LIMB_B * LIMB_B - 1) div ?D" using assms by (simp add: inverse_3by2_def)
  have "?D * (LIMB_B + uint di) = LIMB_B * LIMB_B * LIMB_B - (?r + 1)"
    unfolding e using mult_div_mod_eq [of ?D "LIMB_B * LIMB_B * LIMB_B - 1"] by linarith
  moreover have "0 \<le> ?r" "?r < ?D" using pos by simp_all
  ultimately show thesis using that [of "?r + 1"] D by linarith
qed

lemma val2_less: "val2 (a1, a0) \<le> val2 (b1, b0) \<longleftrightarrow> a1 < b1 \<or> a1 = b1 \<and> a0 \<le> b0"
proof -
  note u = uint_bounds [of a0] uint_bounds [of b0]
  consider "uint a1 + 1 \<le> uint b1" | "uint a1 = uint b1" | "uint b1 + 1 \<le> uint a1" by linarith
  then show ?thesis
  proof cases
    case 1
    have "val2 (a1, a0) \<le> val2 (b1, b0)"
      using mult_right_mono [OF 1 LIMB_B_pos(2)] u unfolding val2_def fst_conv snd_conv distrib_right
      by linarith
    with 1 show ?thesis by (simp add: uint_limb_less)
  next
    case 2
    then show ?thesis by (simp add: val2_def uint_limb_less word_uint_eq_iff)
  next
    case 3
    have "\<not> val2 (a1, a0) \<le> val2 (b1, b0)"
      using mult_right_mono [OF 3 LIMB_B_pos(2)] u unfolding val2_def fst_conv snd_conv distrib_right
      by linarith
    with 3 show ?thesis by (auto simp: uint_limb_less)
  qed
qed

text \<open>The quotient limb and the remainder before the adjustments.\<close>

lemma parts_3by2:
  assumes inv: "inverse_3by2 d1 d0 di" and n: "val2 (n2, n1) < val2 (d1, d0)"
    and p: "gmp_umul_ppmm n2 di = (p1, p0)" "gmp_add_ssaaaa p1 p0 n2 n1 = (q, q0)"
      "gmp_sub_ddmmss (n1 - d1 * q) n0 d1 d0 = (s1, s0)" "gmp_umul_ppmm d0 q = (t1, t0)"
      "gmp_sub_ddmmss s1 s0 t1 t0 = (r1, r0)"
  shows "uint n2 * (LIMB_B + uint di) + uint n1 = LIMB_B * uint q + uint q0"
    "val2 (r1, r0) = (uint n2 * (LIMB_B * LIMB_B) + uint n1 * LIMB_B + uint n0 - (uint q + 1) * val2 (d1, d0))
       mod (LIMB_B * LIMB_B)"
proof -
  let ?B = LIMB_B and ?D = "val2 (d1, d0)" and ?X = "uint n2 * (LIMB_B + uint di) + uint n1"
  from inv obtain k where k: "?D * (?B + uint di) = ?B * ?B * ?B - k" "1 \<le> k" "k \<le> ?D"
    by (rule inverse_3by2D)
  note u = uint_bounds [of n2] uint_bounds [of n1] uint_bounds [of di]
  have X: "?X < ?B * ?B"
    by (rule product_3by2 [OF _ _ _ k(1)]) (use n k val2_bounds [of "(d1, d0)"] in \<open>simp_all add: val2_def\<close>)
  have X0: "0 \<le> ?X" by simp
  have "val2 (p1, p0) + val2 (n2, n1) = ?X"
    using umul_ppmm_val [of n2 di] p(1) by (simp add: val2_def algebra_simps)
  then have q: "val2 (q, q0) = ?X"
    using add_ssaaaa_val [of p1 p0 n2 n1] p(2) X X0 by simp
  then show "?X = ?B * uint q + uint q0" by (simp add: val2_def mult.commute)
  obtain i where i: "(uint d1 * uint q) mod ?B = uint d1 * uint q + ?B * i" by (rule mod_limbE)
  obtain j where j: "(uint n1 - (uint d1 * uint q + ?B * i)) mod ?B = uint n1 - (uint d1 * uint q + ?B * i) + ?B * j"
    by (rule mod_limbE)
  have r: "uint (n1 - d1 * q) = uint n1 - (uint d1 * uint q + ?B * i) + ?B * j"
    unfolding uint_limb_ops(2) uint_limb_ops(3) i j ..
  let ?R = "uint n2 * (?B * ?B) + uint n1 * ?B + uint n0 - (uint q + 1) * ?D"
  have "val2 (s1, s0) = (val2 (n1 - d1 * q, n0) - ?D) mod (?B * ?B)"
    using sub_ddmmss_val [of "n1 - d1 * q" n0 d1 d0] p(3) by simp
  then have "val2 (r1, r0) = (val2 (n1 - d1 * q, n0) - ?D - uint d0 * uint q) mod (?B * ?B)"
    using sub_ddmmss_val [of s1 s0 t1 t0] umul_ppmm_val [of d0 q] p(4,5) by (simp add: mod_diff_left_eq)
  also have "val2 (n1 - d1 * q, n0) - ?D - uint d0 * uint q = ?R + (?B * ?B) * (j - i - uint n2)"
    unfolding val2_def fst_conv snd_conv r by (simp add: algebra_simps)
  finally show "val2 (r1, r0) = ?R mod (?B * ?B)" by simp
qed

text \<open>A quotient below the limb base is known from its residue.\<close>

lemma quotient_3by2:
  assumes "uint q = x mod LIMB_B" "n = x * D + y" "0 \<le> y" "y < D" "0 \<le> n" "n < LIMB_B * D"
  shows "uint (q :: limb) = n div D \<and> y = n mod D"
proof -
  have qr: "n div D = x" "n mod D = y" using assms by simp_all
  have "0 \<le> n div D" using pos_imp_zdiv_nonneg_iff [of D n] assms(3-5) by linarith
  moreover have "n div D < LIMB_B"
  proof (rule ccontr)
    assume "\<not> n div D < LIMB_B"
    then have "LIMB_B * D \<le> x * D" using qr assms(3,4) by (intro mult_right_mono) simp_all
    with assms(2,3,6) show False by linarith
  qed
  ultimately show ?thesis using assms(1) qr by simp
qed

theorem udiv_qr_3by2_val:
  assumes inv: "inverse_3by2 d1 d0 di" and n: "val2 (n2, n1) < val2 (d1, d0)"
    and res: "gmp_udiv_qr_3by2 n2 n1 n0 d1 d0 di = (q, r)"
  shows "uint q = (val2 (n2, n1) * LIMB_B + uint n0) div val2 (d1, d0) \<and>
    val2 r = (val2 (n2, n1) * LIMB_B + uint n0) mod val2 (d1, d0)"
proof -
  let ?B = LIMB_B and ?D = "val2 (d1, d0)" and ?N = "val2 (n2, n1) * LIMB_B + uint n0"
  from inv obtain k where k: "?D * (?B + uint di) = ?B * ?B * ?B - k" "1 \<le> k" "k \<le> ?D" "?B * ?B \<le> 2 * ?D"
    by (rule inverse_3by2D)
  obtain p1 p0 where p: "gmp_umul_ppmm n2 di = (p1, p0)" by force
  obtain q' q0 where q': "gmp_add_ssaaaa p1 p0 n2 n1 = (q', q0)" by force
  obtain s1 s0 where s: "gmp_sub_ddmmss (n1 - d1 * q') n0 d1 d0 = (s1, s0)" by force
  obtain t1 t0 where t: "gmp_umul_ppmm d0 q' = (t1, t0)" by force
  obtain r1 r0 where r: "gmp_sub_ddmmss s1 s0 t1 t0 = (r1, r0)" by force
  define rt where "rt = uint n2 * (?B * ?B) + uint n1 * ?B + uint n0 - (uint q' + 1) * ?D"
  note parts = parts_3by2 [OF inv n p q' s t r, folded rt_def]
  have N: "?N = (uint q' + 1) * ?D + rt" by (simp add: rt_def val2_def algebra_simps)
  have D: "?D = uint d1 * ?B + uint d0" and n': "uint n2 * ?B + uint n1 < ?D" using n by (simp_all add: val2_def)
  note cand = candidate_3by2 [OF LIMB_B_pos(3) D uint_bounds uint_bounds k(4,1,2,3) uint_bounds(1)
      uint_bounds(1) uint_bounds uint_bounds n' parts(1) uint_bounds rt_def]
  let ?b = "q0 \<le> r1" and ?c = "q' + 1"
  obtain a1 a0 where a: "gmp_add_ssaaaa r1 r0 d1 d0 = (a1, a0)" by force
  have val_b: "?b \<longleftrightarrow> uint q0 * ?B \<le> val2 (r1, r0)"
    using val2_less [of q0 0 r1 r0] by (auto simp: val2_def)
  have zero: "gmp_add_ssaaaa r1 r0 0 0 = (r1, r0)" by (simp add: gmp_add_ssaaaa_def)
  have ge: "d1 \<le> x \<and> (d1 < x \<or> d0 \<le> y) \<longleftrightarrow> ?D \<le> val2 (x, y)" for x y
    using val2_less [of d1 d0 x y] by auto
  have res': "(q, r) = (if ?b then if ?D \<le> val2 (a1, a0) then (?c, gmp_sub_ddmmss a1 a0 d1 d0) else (?c - 1, a1, a0)
     else if ?D \<le> val2 (r1, r0) then (?c + 1, gmp_sub_ddmmss r1 r0 d1 d0) else (?c, r1, r0))"
    unfolding ge [symmetric] using res p q' s t r a zero
    by (cases ?b) (auto simp: gmp_udiv_qr_3by2_def Let_def)
  have small: "?N < ?B * ?D"
  proof -
    have "val2 (n2, n1) * ?B \<le> (?D - 1) * ?B" using n by (intro mult_right_mono) simp_all
    then show ?thesis using uint_bounds [of n0] by (simp add: algebra_simps)
  qed
  have fin: ?thesis if "uint q = (uint q' + 1 + e) mod ?B" "val2 r = rt - e * ?D" "0 \<le> rt - e * ?D" "rt - e * ?D < ?D" for e
  proof -
    have N': "?N = (uint q' + 1 + e) * ?D + (rt - e * ?D)" unfolding N by (simp add: algebra_simps)
    have "0 \<le> ?N" using val2_bounds(1) [of "(n2, n1)"] by simp
    from quotient_3by2 [OF that(1) N' that(3,4) this small] that(2) show ?thesis by simp
  qed
  have D2: "0 < ?D" "?D < ?B * ?B" using val2_bounds [of "(d1, d0)"] k(2,3) by linarith+
  have q0B: "uint q0 * ?B < ?B * ?B" using uint_bounds [of q0] by simp
  have va: "val2 (a1, a0) = (val2 (r1, r0) + ?D) mod (?B * ?B)" using add_ssaaaa_val [of r1 r0 d1 d0] a by simp
  have vs: "val2 (gmp_sub_ddmmss x y d1 d0) = (val2 (x, y) - ?D) mod (?B * ?B)" for x y
    by (rule sub_ddmmss_val)
  have mod2: "x mod (?B * ?B) = x" if "0 \<le> x" "x < ?B * ?B" for x using that by simp
  consider "rt < 0" | "0 \<le> rt" "rt < uint q0 * ?B" | "0 \<le> rt" "uint q0 * ?B \<le> rt" by linarith
  then show ?thesis
  proof cases
    case 1
    have "rt mod (?B * ?B) = rt + ?B * ?B"
      by (rule mod_eqI [where k = "- 1"]) (use 1 cand(1) D2 in auto)
    then have r: "val2 (r1, r0) = rt + ?B * ?B" using parts(2) by simp
    then have b: ?b using cand(2) val_b by simp
    have "val2 (a1, a0) = rt + ?D"
      unfolding va r by (rule mod_eqI [where k = 1]) (use 1 cand(1) D2 in auto)
    with b 1 show ?thesis
      using res' cand(1) by (intro fin [of "- 1"]) simp_all
  next
    case 2
    then have r: "val2 (r1, r0) = rt" using parts(2) q0B mod2 [of rt] by simp
    then have b: "\<not> ?b" using val_b 2 by simp
    show ?thesis
    proof (cases "?D \<le> rt")
      case True
      then have "val2 (gmp_sub_ddmmss r1 r0 d1 d0) = rt - ?D"
        unfolding vs r using 2 q0B D2 by (intro mod2) linarith+
      moreover have "rt < 2 * ?D" using 2 q0B k(4) by linarith
      ultimately show ?thesis
        using True b res' r by (intro fin [of 1]) (simp_all add: uint_limb_ops(1) mod_add_left_eq)
    next
      case False
      with b res' r 2 show ?thesis by (intro fin [of 0]) (simp_all add: uint_limb_ops(1))
    qed
  next
    case 3
    then have rt: "rt < ?B * ?B - ?D" using cand(3) by linarith
    then have r: "val2 (r1, r0) = rt" using parts(2) D2 3 mod2 [of rt] by simp
    then have b: ?b using val_b 3 by simp
    have a': "val2 (a1, a0) = rt + ?D" unfolding va r using 3 rt D2 by (intro mod2) linarith+
    then have "val2 (gmp_sub_ddmmss a1 a0 d1 d0) = rt"
      unfolding vs using 3 rt D2 by (simp add: mod2)
    with b res' a' 3 rt k(4) show ?thesis by (intro fin [of 0]) (simp_all add: uint_limb_ops(1))
  qed
qed

end
