(* ===== verification/Limb_Invert.thy ===== *)
theory Limb_Invert
  imports Limb_Div
begin

unbundle bit_operations_syntax

text \<open>
  The inverse of a normalized divisor, \<^verbatim>\<open>mpn_invert_3by2\<close>, and the correction step it shares
  with the half-limb division \<^verbatim>\<open>__udiv_qrnnd_c\<close>.
\<close>

section \<open>The correction of an estimated quotient\<close>

definition adjust_qr :: "'q::ring_1 \<Rightarrow> limb \<Rightarrow> limb \<Rightarrow> limb \<Rightarrow> 'q \<times> limb" where
  "adjust_qr q r p d =
     (if r < p then
        let q = q - 1; r = r + d
        in if d \<le> r then if r < p then (q - 1, r + d) else (q, r) else (q, r)
      else (q, r))"

lemma adjust_qr_val:
  assumes "LIMB_B \<le> 2 * uint d" "adjust_qr q r p d = (q', r')"
  obtains e :: nat where "q' = q - of_nat e" "uint (r' - p) = uint r - uint p + int e * uint d"
    "0 < e \<Longrightarrow> uint r - uint p + int (e - 1) * uint d < 0"
proof -
  note u = uint_bounds [of r] uint_bounds [of p] uint_bounds [of d]
  have "adjust_qr q r p d =
    ((if r < p then if d \<le> r + d \<and> r + d < p then q - 1 - 1 else q - 1 else q),
     (if r < p then if d \<le> r + d \<and> r + d < p then r + d + d else r + d else r))"
    by (simp add: adjust_qr_def Let_def)
  note c = trans [OF this [symmetric] assms(2), unfolded prod.inject]
  note qr = c [THEN conjunct1, symmetric] c [THEN conjunct2, symmetric]
  consider "\<not> r < p" | "r < p" "d \<le> r + d" "r + d < p" | "r < p" "\<not> (d \<le> r + d \<and> r + d < p)"
    by blast
  then show thesis
  proof cases
    case 1
    then have "q' = q" "r' = r" using qr by simp_all
    moreover have "uint (r - p) = uint r - uint p" using 1 unfolding borrow_sub(1) [of r p] by simp
    ultimately show thesis using that [of 0] by simp
  next
    case 2
    then have q: "q' = q - 1 - 1" and r': "r' = r + d + d" unfolding qr by (simp_all only: if_True simp_thms)
    have s: "uint (r + d) = uint r + uint d" using 2(2) unfolding carry_add(1) [of r d] by simp
    have "uint (r' - p) = (uint r + uint d + uint d - uint p) mod LIMB_B"
      unfolding r' uint_limb_ops(2) [of "r + d + d"] uint_limb_ops(1) [of "r + d"] s by (simp add: mod_diff_left_eq)
    also have "\<dots> = uint r + uint d + uint d - uint p"
      using assms(1) u 2(3) s unfolding uint_limb_less by (intro mod_LIMB_B(1)) linarith+
    finally show thesis
      using that [of 2] 2 s q by (simp add: uint_limb_less)
  next
    case 3
    then have q: "q' = q - 1" and r': "r' = r + d" unfolding qr by (simp_all only: if_True if_False simp_thms)
    have "uint (r' - p) = (uint r + uint d - uint p) mod LIMB_B"
      unfolding r' uint_limb_ops(2) [of "r + d"] uint_limb_ops(1) [of r] by (simp add: mod_diff_left_eq)
    also have "\<dots> = uint r + uint d - uint p"
    proof (rule mod_LIMB_B(1))
      show "uint r + uint d - uint p < LIMB_B" using 3(1) u unfolding uint_limb_less by linarith
      show "0 \<le> uint r + uint d - uint p"
      proof (cases "d \<le> r + d")
        case True
        then have "uint (r + d) = uint r + uint d" unfolding carry_add(1) [of r d] by simp
        with True 3(2) show ?thesis by (simp add: uint_limb_less)
      next
        case False
        then have "uint (r + d) = uint r + uint d - LIMB_B" unfolding carry_add(1) [of r d] by simp
        with u uint_bounds(1) [of "r + d"] show ?thesis by linarith
      qed
    qed
    finally show thesis using that [of 1] 3 q by (simp add: uint_limb_less)
  qed
qed

section \<open>The inverse\<close>

text \<open>
  The three steps of \<^verbatim>\<open>mpn_invert_3by2\<close>: the high half of the 2/1 inverse with its remainder, the
  low half, and the adjustment for a second divisor limb.
\<close>

definition invert_high :: "limb \<Rightarrow> 32 word \<times> limb" where
  "invert_high u1 =
     (let ul = ucast (u1 AND GMP_LLIMB_MASK) :: 32 word;
          uh = ucast (drop_bit 32 u1) :: 32 word;
          qh = ucast (NOT u1 div ucast uh) :: 32 word;
          r = push_bit 32 (NOT u1 - ucast qh * ucast uh) OR GMP_LLIMB_MASK;
          p = ucast qh * ucast ul;
          (qh, r) = adjust_qr qh r p u1
      in (qh, r - p))"

definition invert_low :: "limb \<Rightarrow> 32 word \<Rightarrow> limb \<Rightarrow> limb \<times> limb" where
  "invert_low u1 qh r =
     (let p = drop_bit 32 r * ucast qh + r;
          ql = drop_bit 32 p + 1;
          r = push_bit 32 r + GMP_LLIMB_MASK - ql * u1;
          (ql, r) = (if push_bit 32 p \<le> r then (ql - 1, r + u1) else (ql, r));
          m = push_bit 32 (ucast qh) + ql
      in if u1 \<le> r then (m + 1, r - u1) else (m, r))"

definition invert_adjust :: "limb \<Rightarrow> limb \<Rightarrow> limb \<Rightarrow> limb \<Rightarrow> limb" where
  "invert_adjust u1 u0 m r =
     (let r = NOT r;
          r = r + u0;
          (m, r) = (if r < u0 then
              let m = m - 1; (m, r) = (if u1 \<le> r then (m - 1, r - u1) else (m, r))
              in (m, r - u1)
            else (m, r));
          (th, tl) = gmp_umul_ppmm u0 m;
          r = r + th
      in if r < th then m - 1 - of_bool (u1 < r \<or> r = u1 \<and> u0 < tl) else m)"

definition mpn_invert_3by2 :: "limb \<Rightarrow> limb \<Rightarrow> limb result" where
  "mpn_invert_3by2 u1 u0 =
     bindE (c_assert (GMP_LIMB_HIGHBIT \<le> u1)) (\<lambda>_.
     let (qh, r) = invert_high u1;
         (m, r) = invert_low u1 qh r
     in Inr (if u0 > 0 then invert_adjust u1 u0 m r else m))"

definition mpn_invert_limb :: "limb \<Rightarrow> limb result" where
  "mpn_invert_limb x = mpn_invert_3by2 x 0"

lemma uint_not: "uint (NOT x :: limb) = LIMB_B - 1 - uint x"
proof -
  have "NOT x = - 1 - x" by (simp add: not_eq_complement)
  moreover have "uint (- 1 :: limb) = LIMB_B - 1" by (simp add: LIMB_B_def unsigned_minus_1_eq_mask mask_eq_exp_minus_1)
  moreover have "\<not> (- 1 :: limb) < x" by (simp add: not_less word_le_def unsigned_minus_1_eq_mask) 
  ultimately show ?thesis unfolding \<open>NOT x = - 1 - x\<close> borrow_sub(1) by simp
qed

lemma mask_32: "GMP_LLIMB_MASK = mask 32" "uint GMP_LLIMB_MASK = 2 ^ 32 - 1"
proof -
  show "GMP_LLIMB_MASK = mask 32"
    by (simp add: GMP_LLIMB_MASK_def GMP_HLIMB_BIT_def mask_eq_exp_minus_1)
  show "uint GMP_LLIMB_MASK = 2 ^ 32 - 1" by (simp add: GMP_LLIMB_MASK_def GMP_HLIMB_BIT_def)
qed

lemma uint_high_low:
  assumes "uint y < 2 ^ 32"
  shows "uint (push_bit 32 x + y :: limb) = (uint x mod 2 ^ 32) * 2 ^ 32 + uint y"
proof -
  have "(uint x mod 2 ^ 32) * 2 ^ 32 \<le> (2 ^ 32 - 1) * (2 ^ 32 :: int)"
    using pos_mod_bound [of "2 ^ 32" "uint x"] by simp
  then show ?thesis
    using assms unfolding uint_limb_ops(1) uint_halves by (intro mod_LIMB_B(1)) (simp_all add: LIMB_B_def)
qed

lemma or_mask: "uint (push_bit 32 x OR GMP_LLIMB_MASK) = (uint x mod 2 ^ 32) * 2 ^ 32 + (2 ^ 32 - 1)"
proof -
  have "push_bit 32 x + GMP_LLIMB_MASK = push_bit 32 x OR GMP_LLIMB_MASK"
    unfolding mask_32(1) by (rule disjunctive_add) (auto simp: bit_simps)
  then show ?thesis using uint_high_low [of GMP_LLIMB_MASK x] mask_32(2) by simp
qed

lemma ucast_32: "uint (ucast (q :: 32 word) :: limb) = uint q"
proof -
  have "uint q < 2 ^ 64" using unsigned_less [of q, where ?'a = int] by simp
  then show ?thesis by (simp add: unsigned_ucast_eq take_bit_int_eq_self)
qed

lemma uint_ucast_32: "uint (x :: limb) < 2 ^ 32 \<Longrightarrow> uint (ucast x :: 32 word) = uint x"
  by (simp add: unsigned_ucast_eq take_bit_int_eq_self)

lemma uint_sub_nat:
  assumes "int e \<le> uint (q :: 'a::len word)"
  shows "uint (q - of_nat e) = uint q - int e"
proof -
  have "uint q < 2 ^ LENGTH('a)" by (rule unsigned_less)
  with assms have "int e < 2 ^ LENGTH('a)" by linarith
  then have "e < 2 ^ LENGTH('a)" by (metis of_nat_less_iff of_nat_numeral of_nat_power)
  then have "uint (of_nat e :: 'a word) = int e" by (simp add: unsigned_of_nat take_bit_nat_eq_self)
  with assms uint_sub_lem [of "of_nat e" q] show ?thesis by simp
qed

lemma invert_high_val:
  assumes n: "LIMB_B \<le> 2 * uint u1" and res: "invert_high u1 = (qh, r)"
  shows "uint qh * uint u1 + uint r = 2 ^ 96 - 2 ^ 32 * uint u1 - 1 \<and> uint r < uint u1"
proof -
  let ?b = "2 ^ 32 :: int"
  define D h l U where d: "D = uint u1" "h = D div ?b" "l = D mod ?b" "U = LIMB_B - 1 - D"
  note u = uint_bounds [of u1]
  have D: "D = h * ?b + l" "0 \<le> l" "l < ?b" "?b \<le> 2 * h" "h < ?b"
    using u n unfolding d LIMB_B_def by auto
  define q0 where "q0 = U div h"
  define R where "R = U mod h"
  have U: "U = h * q0 + R" "0 \<le> R" "R < h" "0 \<le> q0" unfolding q0_def R_def using D u by (simp_all add: d pos_imp_zdiv_nonneg_iff)
  have q0: "q0 < ?b"
  proof (rule ccontr)
    assume "\<not> q0 < ?b"
    then have "h * ?b \<le> h * q0" using D by (intro mult_left_mono) simp_all
    then show False using U n D unfolding d LIMB_B_def by simp
  qed
  let ?uh = "ucast (drop_bit 32 u1) :: 32 word" and ?ul = "ucast (u1 AND GMP_LLIMB_MASK) :: 32 word"
  let ?q = "ucast (NOT u1 div ucast ?uh :: limb) :: 32 word"
  have wh: "uint (ucast ?uh :: limb) = h" and wl: "uint (ucast ?ul :: limb) = l"
    by (simp_all add: uint_cast_halves d)
  have wq: "uint ?q = q0"
    using q0 by (subst uint_ucast_32) (simp_all add: uint_div_distrib uint_not wh q0_def d)
  have qh: "0 \<le> q0 * h" "q0 * h \<le> U" using U D by simp_all
  have "uint (ucast ?q * ucast ?uh :: limb) = q0 * h"
    unfolding uint_limb_ops(3) ucast_32 [of ?q] wq wh using qh u unfolding d(4) d(1)
    by (intro mod_LIMB_B(1)) linarith+
  moreover have "R mod LIMB_B = R" using U D by (intro mod_LIMB_B(1)) (simp_all add: LIMB_B_def)
  ultimately have w: "uint (NOT u1 - ucast ?q * ucast ?uh) = R"
    unfolding uint_limb_ops(2) uint_not using U u by (simp add: d(4) [symmetric] d(1) [symmetric] mult.commute)
  let ?r = "push_bit 32 (NOT u1 - ucast ?q * ucast ?uh) OR GMP_LLIMB_MASK" and ?p = "ucast ?q * ucast ?ul :: limb"
  have r: "uint ?r = R * ?b + (?b - 1)" unfolding or_mask w using U D by simp
  have p: "uint ?p = q0 * l"
    unfolding uint_limb_ops(3) ucast_32 [of ?q] wq wl using mult_halves [OF U(4) q0 D(2,3)]
    by (intro mod_LIMB_B(1)) (simp_all add: LIMB_B_def)
  obtain q' r' where a: "adjust_qr ?q ?r ?p u1 = (q', r')" by force
  from adjust_qr_val [OF n a] obtain e where e: "q' = ?q - of_nat e"
    "uint (r' - ?p) = R * ?b + (?b - 1) - q0 * l + int e * D" "0 < e \<Longrightarrow> R * ?b + (?b - 1) - q0 * l + int (e - 1) * D < 0"
    unfolding r p d(1) [symmetric] by blast
  have N: "2 ^ 96 - ?b * D - 1 = q0 * D + (R * ?b + (?b - 1) - q0 * l)"
  proof -
    have "2 ^ 96 - ?b * D - 1 = ?b * U + (?b - 1)" by (simp add: d(4) LIMB_B_def algebra_simps)
    also have "\<dots> = q0 * (h * ?b + l) + (R * ?b + (?b - 1) - q0 * l)" unfolding U(1) by (simp add: algebra_simps)
    finally show ?thesis unfolding D(1) [symmetric] .
  qed
  have qr: "qh = q'" "r = r' - ?p" using res a by (simp_all add: invert_high_def Let_def)
  let ?R = "R * ?b + (?b - 1) - q0 * l"
  have "int e \<le> q0"
  proof (cases "e = 0")
    case False
    have "0 \<le> 2 ^ 96 - ?b * D - 1" using u by (simp add: d LIMB_B_def)
    with N e(3) False have "0 < (q0 - int (e - 1)) * D" by (simp add: algebra_simps)
    then have "0 < q0 - int (e - 1)" using D by (simp add: zero_less_mult_iff)
    with False show ?thesis by simp
  qed (use U in simp)
  then have Q: "uint qh = q0 - int e" unfolding qr e(1) using wq by (subst uint_sub_nat) simp_all
  have "uint qh * D + uint r = 2 ^ 96 - ?b * D - 1"
    unfolding Q N qr(2) e(2) by (simp add: algebra_simps)
  moreover have "uint r < D"
  proof (cases "e = 0")
    case True
    have "R * ?b \<le> (h - 1) * ?b" using U by (intro mult_right_mono) simp_all
    moreover have "0 \<le> q0 * l" using U D by simp
    ultimately show ?thesis using True e(2) D unfolding qr(2) by (simp add: algebra_simps)
  next
    case False
    then obtain e' where e': "e = Suc e'" by (cases e) simp_all
    have "?R + int e' * D < 0" using e(3) e' by simp
    then show ?thesis unfolding qr(2) e(2) e' by (simp add: distrib_right)
  qed
  ultimately show ?thesis unfolding d(1) by blast
qed

lemma uint_add_int: "uint (x + of_int e :: limb) = (uint x + e) mod LIMB_B"
  by (simp add: uint_word_ariths uint_word_of_int LIMB_B_def mod_add_right_eq)

lemma quotient_below:
  fixes B M D r :: int
  assumes "(B + M) * D + r = B * B - 1" "0 \<le> r" "r < D" "D < B" "B \<le> 2 * D"
  shows "0 \<le> M \<and> M < B"
proof (intro conjI)
  have "0 < B" using assms by linarith
  show "0 \<le> M"
  proof (rule ccontr)
    assume "\<not> 0 \<le> M"
    then have "(B + M) * D \<le> (B - 1) * D" using assms by (intro mult_right_mono) simp_all
    then have "B * B \<le> B * D" using assms(1,2,3) left_diff_distrib [of B 1 D] by linarith
    with assms(4) \<open>0 < B\<close> show False by simp
  qed
  show "M < B"
  proof (rule ccontr)
    assume "\<not> M < B"
    then have "(B + B) * D \<le> (B + M) * D" using assms by (intro mult_right_mono) simp_all
    moreover have "B * B \<le> B * (2 * D)" using assms \<open>0 < B\<close> by (intro mult_left_mono) simp_all
    ultimately show False using assms(1,2) by (simp only: distrib_right distrib_left mult_2)
  qed
qed

lemma invert_low_val:
  assumes n: "LIMB_B \<le> 2 * uint u1" and high: "uint qh * uint u1 + uint r = 2 ^ 96 - 2 ^ 32 * uint u1 - 1" "uint r < uint u1"
    and res: "invert_low u1 qh r = (m, r')"
  shows "(LIMB_B + uint m) * uint u1 + uint r' = LIMB_B * LIMB_B - 1 \<and> uint r' < uint u1"
proof -
  let ?b = "2 ^ 32 :: int"
  define D v n2 n1 where d: "D = uint u1" "v = uint qh" "n2 = uint r div ?b" "n1 = uint r mod ?b"
  define X where "X = n2 * (?b + v) + n1"
  define q1 q0 where q: "q1 = X div ?b" "q0 = X mod ?b"
  define rt where "rt = n2 * (?b * ?b) + n1 * ?b + (?b - 1) - (q1 + 1) * D"
  note u = uint_bounds [of u1] uint_bounds [of r]
  have B: "LIMB_B = ?b * ?b" by (simp add: LIMB_B_def)
  have D: "0 < D" "D < ?b * ?b" "?b * ?b \<le> 2 * D" "D = (D div ?b) * ?b + D mod ?b" "D div ?b < ?b"
    using n u unfolding d by (auto simp: LIMB_B_def)
  have inv: "D * (?b + v) = ?b * ?b * ?b - (uint r + 1)"
    using high(1) unfolding d by (simp add: algebra_simps)
  have v: "0 \<le> v" "v < ?b" unfolding d using unsigned_less [of qh, where ?'a = int] by simp_all
  have r: "uint r = n2 * ?b + n1" "0 \<le> n2" "0 \<le> n1" "n1 < ?b" "n2 < ?b"
    using u unfolding d by (auto simp: pos_imp_zdiv_nonneg_iff LIMB_B_def)
  then have n': "n2 * ?b + n1 < D" using high(2) d by simp
  have X: "X < ?b * ?b" "0 \<le> X"
    unfolding X_def by (rule product_3by2 [OF _ D(1) _ inv _ r(2,3) n']) (use D r v u in simp_all)
  have Xq: "X = ?b * q1 + q0" "0 \<le> q0" "q0 < ?b" unfolding q by simp_all
  have side: "1 < ?b" "0 \<le> D div ?b" "0 \<le> D mod ?b" "D mod ?b < ?b" "1 \<le> uint r + 1" "uint r + 1 \<le> D"
    "0 \<le> ?b - 1" "?b - 1 < ?b"
    using D(1) high(2) by (simp_all add: d(1) pos_imp_zdiv_nonneg_iff)
  note cand = candidate_3by2 [OF side(1) D(4) side(2) D(5) side(3,4) D(3) inv side(5,6) v(1) r(2-4) side(7,8) n'
      Xq(1) [unfolded X_def] Xq(2,3) rt_def]
  let ?p = "drop_bit 32 r * ucast qh + r"
  have "uint (drop_bit 32 r * ucast qh) = n2 * v"
    unfolding uint_limb_ops(3) ucast_32 uint_halves d [symmetric] using mult_halves [OF r(2,5) v]
    by (intro mod_LIMB_B(1)) (simp_all add: LIMB_B_def)
  then have "uint ?p = X mod LIMB_B"
    unfolding uint_limb_ops(1) by (simp add: X_def r(1) algebra_simps)
  then have p: "uint ?p = X" using X by (simp add: LIMB_B_def)
  let ?ql = "drop_bit 32 ?p + 1"
  have q1: "0 \<le> q1" "q1 < ?b" using X unfolding q by (simp_all add: pos_imp_zdiv_nonneg_iff)
  have ql: "uint ?ql = q1 + 1"
  proof -
    have "uint (drop_bit 32 ?p) = q1" unfolding uint_halves p q ..
    then show ?thesis unfolding uint_limb_ops(1) [of "drop_bit 32 ?p"] using q1 by (simp add: LIMB_B_def)
  qed
  let ?r = "push_bit 32 r + GMP_LLIMB_MASK - ?ql * u1"
  have "uint (push_bit 32 r + GMP_LLIMB_MASK) = n1 * ?b + (?b - 1)"
    by (subst uint_high_low) (simp_all add: mask_32(2) d)
  then have "uint ?r = (n1 * ?b + (?b - 1) - (q1 + 1) * D) mod LIMB_B"
    unfolding uint_limb_ops(2) uint_limb_ops(3) ql d(1) by (simp add: mod_diff_right_eq)
  also have "n1 * ?b + (?b - 1) - (q1 + 1) * D = rt + LIMB_B * (- n2)" unfolding rt_def B by simp
  finally have wr: "uint ?r = rt mod LIMB_B" by (simp only: mod_mult_self2)
  have wp: "uint (push_bit 32 ?p) = q0 * ?b" unfolding uint_halves p q ..
  let ?c = "push_bit 32 ?p \<le> ?r" and ?m = "push_bit 32 (ucast qh) + ?ql"
  have res': "(m, r') = (if ?c then if u1 \<le> ?r + u1 then (?m - 1 + 1, ?r + u1 - u1) else (?m - 1, ?r + u1)
      else if u1 \<le> ?r then (?m + 1, ?r - u1) else (?m, ?r))"
    using res by (auto simp: invert_low_def Let_def split: if_splits)
  have fin: ?thesis if "m = ?m + of_int e" "uint r' = rt - e * D" "rt - e * D < D" for e
  proof -
    let ?M = "v * ?b + (q1 + 1) + e"
    have "uint ?m = (v * ?b + (q1 + 1)) mod LIMB_B"
      unfolding uint_limb_ops(1) [of "push_bit 32 (ucast qh)"] uint_halves ucast_32 ql using v by (simp add: d(2))
    then have M: "uint m = ?M mod LIMB_B" unfolding that(1) by (simp add: uint_add_int mod_add_left_eq)
    have "(LIMB_B + ?M) * D + uint r' = LIMB_B * D + ?b * (v * D) + (q1 + 1) * D + rt"
      unfolding that(2) by (simp add: algebra_simps)
    also have "\<dots> = ?b * (?b * D + v * D) + uint r * ?b + (?b - 1)"
      unfolding rt_def r(1) B by (simp add: algebra_simps)
    also have "?b * D + v * D = ?b * ?b * ?b - (uint r + 1)" using inv by (simp add: algebra_simps)
    finally have E: "(LIMB_B + ?M) * D + uint r' = LIMB_B * LIMB_B - 1" unfolding B by (simp add: algebra_simps)
    from quotient_below [OF E _ _ D(2,3) [folded B]] that(2,3) uint_bounds(1) [of r'] have "0 \<le> ?M" "?M < LIMB_B" by auto
    then have "uint m = ?M" using M by simp
    with E that(2,3) show ?thesis unfolding d(1) by simp
  qed
  consider "rt < 0" | "0 \<le> rt" "rt < q0 * ?b" | "0 \<le> rt" "q0 * ?b \<le> rt" by linarith
  then show ?thesis
  proof cases
    case 1
    have r1: "uint ?r = rt + LIMB_B" unfolding wr using 1 cand(1) D B by (intro mod_LIMB_B(2)) simp_all
    have c: ?c using cand(2) D r1 unfolding uint_limb_less wp B by simp
    have r2: "uint (?r + u1) = rt + D" unfolding uint_limb_ops(1) r1 d(1) [symmetric]
      by (rule mod_eqI [where k = 1]) (use 1 cand(1) D B in auto)
    with c 1 show ?thesis using res' cand(1) D
      by (intro fin [of "- 1"]) (simp_all add: uint_limb_less d(1))
  next
    case 2
    have q0b: "q0 * ?b < ?b * ?b" using Xq by simp
    have r1: "uint ?r = rt" unfolding wr using 2 q0b B by (intro mod_LIMB_B(1)) simp_all
    have c: "\<not> ?c" using 2 r1 unfolding uint_limb_less wp by simp
    show ?thesis
    proof (cases "D \<le> rt")
      case True
      then have r2: "uint (?r - u1) = rt - D" unfolding borrow_sub(1) [of ?r] uint_limb_less r1 d by simp
      have "rt < 2 * D" using 2 q0b D(3) by linarith
      with True c res' r1 r2 show ?thesis by (intro fin [of 1]) (simp_all add: uint_limb_less d(1))
    next
      case False
      with c res' r1 show ?thesis by (intro fin [of 0]) (simp_all add: uint_limb_less d(1))
    qed
  next
    case 3
    then have rt: "rt < ?b * ?b - D" using cand(3) D Xq v r by (auto simp: max_def split: if_splits)
    have r1: "uint ?r = rt" unfolding wr using 3 rt B D by (intro mod_LIMB_B(1)) simp_all
    have c: ?c using 3 r1 unfolding uint_limb_less wp by simp
    have r2: "uint (?r + u1) = rt + D" unfolding uint_limb_ops(1) r1 d(1) [symmetric]
      using 3 rt B D by (intro mod_LIMB_B(1)) simp_all
    then have "u1 \<le> ?r + u1" using 3 by (simp add: uint_limb_less d(1))
    with c res' r1 rt D(3) show ?thesis by (intro fin [of 0]) simp_all
  qed
qed

text \<open>No divisor with two non-zero limbs divides a power of the base.\<close>

lemma factor_power_2:
  assumes "(a :: nat) * c = 2 ^ n"
  shows "\<exists>i. a = 2 ^ i"
  using assms
proof (induction n arbitrary: a c)
  case 0
  then show ?case by (auto intro: exI [of _ 0])
next
  case (Suc n)
  show ?case
  proof (cases "even a")
    case True
    then obtain a' where a: "a = 2 * a'" by blast
    with Suc.prems have "a' * c = 2 ^ n" by simp
    with Suc.IH obtain i where "a' = 2 ^ i" by blast
    with a show ?thesis by (intro exI [of _ "Suc i"]) simp
  next
    case False
    have "even (a * c)" using Suc.prems by simp
    with False obtain c' where c: "c = 2 * c'" by (auto elim: evenE)
    with Suc.prems have "a * c' = 2 ^ n" by simp
    with Suc.IH show ?thesis by blast
  qed
qed

lemma no_exact_inverse:
  assumes "0 < u0" "u0 < LIMB_B" "LIMB_B \<le> 2 * u1" "u1 < LIMB_B" "(u1 * LIMB_B + u0) * n = LIMB_B * LIMB_B * LIMB_B"
  shows False
proof -
  let ?D = "u1 * LIMB_B + u0"
  have D: "2 ^ 127 < ?D" "?D < 2 ^ 128" using assms(1-4) by (simp_all add: LIMB_B_def)
  then have "0 < n" using assms(5) zero_less_mult_iff [of ?D n] by (simp add: LIMB_B_def)
  then have "nat ?D * nat n = 2 ^ 192"
    using assms(5) D by (simp add: LIMB_B_def nat_mult_distrib [symmetric])
  then obtain i where "nat ?D = 2 ^ i" using factor_power_2 by blast
  with D have i: "?D = 2 ^ i" by (metis int_nat_eq less_le_not_le nat_0_le of_nat_numeral of_nat_power order_less_trans zero_less_numeral zero_less_power)
  have "127 < i" using D(1) unfolding i by (rule power_less_imp_less_exp [rotated]) simp
  moreover have "i < 128" using D(2) unfolding i by (rule power_less_imp_less_exp [rotated]) simp
  ultimately show False by simp
qed

lemma normalized_val2:
  assumes "LIMB_B \<le> 2 * uint u1"
  shows "0 < val2 (u1, u0)" "val2 (u1, u0) < LIMB_B * LIMB_B" "LIMB_B * LIMB_B \<le> 2 * val2 (u1, u0)"
proof -
  from assms have "LIMB_B * LIMB_B \<le> 2 * (uint u1 * LIMB_B)"
    unfolding mult.assoc [symmetric] by (intro mult_right_mono) simp_all
  then show D: "LIMB_B * LIMB_B \<le> 2 * val2 (u1, u0)" by (rule order_trans) (simp add: val2_def)
  then show "0 < val2 (u1, u0)" using mult_pos_pos [OF LIMB_B_pos(1) LIMB_B_pos(1)] by linarith
qed (rule val2_bounds)

text \<open>The quotient is determined by its equation.\<close>

lemma inverse_3by2I:
  assumes n: "LIMB_B \<le> 2 * uint u1" and M: "uint m = M mod LIMB_B"
    and E: "(LIMB_B + M) * val2 (u1, u0) + R = LIMB_B * LIMB_B * LIMB_B - 1" "0 \<le> R" "R < val2 (u1, u0)"
  shows "inverse_3by2 u1 u0 m"
proof -
  let ?D = "val2 (u1, u0)" and ?B3 = "LIMB_B * LIMB_B * LIMB_B"
  note D = normalized_val2 [OF n, of u0]
  have "(?B3 - 1) div ?D = LIMB_B + M"
    using E D by (intro int_div_pos_eq [where r = R]) (simp_all add: mult.commute)
  moreover have "0 \<le> M"
  proof (rule ccontr)
    assume "\<not> 0 \<le> M"
    then have "(LIMB_B + M) * ?D \<le> (LIMB_B - 1) * ?D" using D by (intro mult_right_mono) simp_all
    moreover have "LIMB_B * ?D \<le> LIMB_B * (LIMB_B * LIMB_B - 1)" using D by (intro mult_left_mono) simp_all
    ultimately show False using E left_diff_distrib [of LIMB_B 1 ?D] right_diff_distrib [of LIMB_B "LIMB_B * LIMB_B" 1]
        LIMB_B_pos(3) unfolding mult.assoc by linarith
  qed
  moreover have "M < LIMB_B"
  proof (rule ccontr)
    assume "\<not> M < LIMB_B"
    then have "(LIMB_B + LIMB_B) * ?D \<le> (LIMB_B + M) * ?D" using D by (intro mult_right_mono) simp_all
    moreover have "LIMB_B * (LIMB_B * LIMB_B) \<le> LIMB_B * (2 * ?D)" using D by (intro mult_left_mono) simp_all
    ultimately show False using E(1,2) by (simp only: distrib_right distrib_left mult_2 mult.assoc)
  qed
  ultimately have "uint m = (?B3 - 1) div ?D - LIMB_B" using M by simp
  moreover have "GMP_LIMB_HIGHBIT \<le> u1" using n by (simp add: uint_limb_less GMP_LIMB_HIGHBIT_def LIMB_B_def)
  ultimately show ?thesis by (simp add: inverse_3by2_def)
qed

text \<open>
  The first half of the adjustment: with \<open>r = B - t\<close> the remainder is \<open>B t - 1 - m u0\<close>.
\<close>

lemma adjust_first:
  fixes u1 u0 m r m' r' :: limb
  assumes n: "LIMB_B \<le> 2 * uint u1" and u0: "0 < uint u0"
    and m: "(LIMB_B + uint m) * uint u1 + uint r = LIMB_B * LIMB_B - 1" "uint r < uint u1"
    and res: "(if NOT r + u0 < u0 then
        let m = m - 1; (m, r) = (if u1 \<le> NOT r + u0 then (m - 1, NOT r + u0 - u1) else (m, NOT r + u0))
        in (m, r - u1)
      else (m, NOT r + u0)) = (m', r')"
  obtains t where "1 \<le> t" "t \<le> uint u1" "uint r' = LIMB_B - t"
    "(LIMB_B + uint m') * val2 (u1, u0) + (LIMB_B * t - 1 - uint m' * uint u0) = LIMB_B * LIMB_B * LIMB_B - 1"
proof -
  let ?B = LIMB_B and ?D = "val2 (u1, u0)" and ?B3 = "LIMB_B * LIMB_B * LIMB_B" and ?s = "NOT r + u0"
  note u = uint_bounds [of u1] uint_bounds [of u0] uint_bounds [of r] uint_bounds [of m]
  note D = normalized_val2 [OF n, of u0]
  define t where "t = uint r + 1 - uint u0"
  have "(?B + uint m) * ?D + (?B * t - 1 - uint m * uint u0) =
      ?B * ((?B + uint m) * uint u1 + uint r + 1) - 1"
    unfolding t_def val2_def fst_conv snd_conv by (simp add: algebra_simps)
  also have "\<dots> = ?B3 - 1" unfolding m(1) by simp
  finally have E: "(?B + uint m) * ?D + (?B * t - 1 - uint m * uint u0) = ?B3 - 1" .
  have s: "uint ?s = ?B - t - ?B * of_bool (?s < u0)" unfolding carry_add(1) uint_not t_def by simp
  show thesis
  proof (cases "?s < u0")
    case False
    then have "uint ?s = ?B - t" using s by simp
    moreover have "t \<le> uint u1" using m(2) u0 unfolding t_def by linarith
    moreover have "1 \<le> t" using calculation uint_bounds(2) [of ?s] by linarith
    ultimately show thesis using that [of t] E res False by simp
  next
    case True
    have neg: "1 \<le> x" if "(?B + x) * ?D + (?B * y - 1 - x * uint u0) = ?B3 - 1" "0 \<le> x" "y \<le> 0" for x y
    proof (rule ccontr)
      assume "\<not> 1 \<le> x"
      then have x: "x = 0" using that by simp
      have "?B * ?D \<le> ?B * (?B * ?B - 1)" using D by (intro mult_left_mono) simp_all
      moreover have "?B * y \<le> 0" using that by (simp add: mult_nonneg_nonpos)
      ultimately show False using that(1) LIMB_B_pos(3) unfolding x mult.assoc right_diff_distrib by simp
    qed
    have step: "(?B + (x - 1)) * ?D + (?B * (y + uint u1) - 1 - (x - 1) * uint u0) = ?B3 - 1"
      if "(?B + x) * ?D + (?B * y - 1 - x * uint u0) = ?B3 - 1" for x y
      using that unfolding val2_def fst_conv snd_conv by (simp add: algebra_simps)
    have s': "uint ?s = - t" using s True by simp
    then have t: "t \<le> 0" using uint_bounds(1) [of ?s] by linarith
    have m1: "1 \<le> uint m" by (rule neg [OF E _ t]) simp
    then have m': "uint (m - 1) = uint m - 1" unfolding borrow_sub(1) [of m 1] uint_limb_less by simp
    note E1 = step [OF E]
    show thesis
    proof (cases "u1 \<le> ?s")
      case False
      have "uint (?s - u1) = - t - uint u1 + ?B" using False s' unfolding borrow_sub(1) [of ?s u1] by simp
      moreover have "1 \<le> t + uint u1" "t + uint u1 \<le> uint u1" using False s' t by (simp_all add: uint_limb_less)
      ultimately show thesis
        using that [of "t + uint u1"] E1 m' res True False by (simp add: Let_def)
    next
      case 2: True
      have t2: "t + uint u1 \<le> 0" using 2 s' by (simp add: uint_limb_less)
      have "1 \<le> uint m - 1" by (rule neg [OF E1 _ t2]) (use m1 in simp)
      then have m2: "uint (m - 1 - 1) = uint m - 1 - 1"
        unfolding borrow_sub(1) [of "m - 1" 1] uint_limb_less m' by simp
      have s1: "uint (?s - u1) = - t - uint u1" using 2 s' unfolding borrow_sub(1) [of ?s u1] by simp
      have t3: "1 \<le> t + uint u1 + uint u1" using n u unfolding t_def by linarith
      have "uint (?s - u1 - u1) = ?B - (t + uint u1 + uint u1)"
        using t3 unfolding borrow_sub(1) [of "?s - u1" u1] uint_limb_less s1 by simp
      with t2 t3 m2 step [OF E1] show thesis
        using that [of "t + uint u1 + uint u1"] res True 2 by (simp add: Let_def)
    qed
  qed
qed

lemma invert_adjust_val:
  fixes u1 u0 m r :: limb
  assumes n: "LIMB_B \<le> 2 * uint u1" and u0: "0 < uint u0"
    and m: "(LIMB_B + uint m) * uint u1 + uint r = LIMB_B * LIMB_B - 1" "uint r < uint u1"
  shows "inverse_3by2 u1 u0 (invert_adjust u1 u0 m r)"
proof -
  let ?B = LIMB_B and ?D = "val2 (u1, u0)" and ?B3 = "LIMB_B * LIMB_B * LIMB_B"
  obtain m' r' where first: "(if NOT r + u0 < u0 then
        let m = m - 1; (m, r) = (if u1 \<le> NOT r + u0 then (m - 1, NOT r + u0 - u1) else (m, NOT r + u0))
        in (m, r - u1)
      else (m, NOT r + u0)) = (m', r')" by force
  from adjust_first [OF n u0 m first] obtain t where
    t: "1 \<le> t" "t \<le> uint u1" "uint r' = ?B - t"
      "(?B + uint m') * ?D + (?B * t - 1 - uint m' * uint u0) = ?B3 - 1" .
  obtain th tl where th: "gmp_umul_ppmm u0 m' = (th, tl)" by force
  have prod: "uint m' * uint u0 = ?B * uint th + uint tl"
    using umul_ppmm_val [of u0 m'] th by (simp add: val2_def mult.commute)
  let ?q = "r' + th" and ?rho = "?B * (t - uint th) - 1 - uint tl"
  have E: "(?B + uint m') * ?D + ?rho = ?B3 - 1" using t(4) unfolding prod by (simp add: algebra_simps)
  have res: "invert_adjust u1 u0 m r =
      (if ?q < th then m' - 1 - of_bool (u1 < ?q \<or> ?q = u1 \<and> u0 < tl) else m')"
    unfolding invert_adjust_def Let_def first [unfolded Let_def] prod.case th ..
  note u = uint_bounds [of u1] uint_bounds [of u0] uint_bounds [of th] uint_bounds [of tl]
  have Dv: "?D = ?B * uint u1 + uint u0" by (simp add: val2_def mult.commute)
  have q: "uint ?q = ?B - t + uint th - ?B * of_bool (?q < th)" unfolding carry_add(1) t(3) ..
  show ?thesis
  proof (cases "?q < th")
    case False
    then have "1 \<le> t - uint th" using q uint_bounds(2) [of ?q] by simp
    then have "?B \<le> ?B * (t - uint th)" by simp
    moreover have "t - uint th \<le> uint u1" using t(2) u by linarith
    then have "?B * (t - uint th) \<le> ?B * uint u1" by (intro mult_left_mono) simp_all
    ultimately have "0 \<le> ?rho" "?rho < ?D" using u Dv by linarith+
    with E False show ?thesis by (intro inverse_3by2I [OF n, where M = "uint m'"]) (simp_all add: res)
  next
    case True
    then have w: "uint ?q = uint th - t" using q by simp
    let ?c = "u1 < ?q \<or> ?q = u1 \<and> u0 < tl"
    have "t - uint th \<le> 0" using w uint_bounds(1) [of ?q] by linarith
    then have "?B * (t - uint th) \<le> 0" by (simp add: mult_nonneg_nonpos)
    then have neg: "?rho < 0" using u by linarith
    have rho1: "?rho + ?D = ?B * (uint u1 - uint ?q) + uint u0 - 1 - uint tl"
      unfolding w Dv by (simp add: algebra_simps)
    show ?thesis
    proof (cases ?c)
      case c: True
      have "?rho + ?D < 0"
      proof (cases "u1 < ?q")
        case True
        then have "?B * (uint u1 - uint ?q) \<le> ?B * (- 1)" by (intro mult_left_mono) (simp_all add: uint_limb_less)
        with rho1 u show ?thesis by linarith
      next
        case False
        with c have "uint ?q = uint u1" "uint u0 < uint tl" by (simp_all add: uint_limb_less)
        with rho1 show ?thesis by simp
      qed
      moreover have "0 \<le> ?rho + 2 * ?D"
      proof -
        have "uint m' * uint u0 \<le> (?B - 1) * (?B - 1)" using u uint_bounds [of m'] by (intro mult_mono) simp_all
        moreover have "?B \<le> ?B * t" using t(1) by simp
        moreover have "?rho = ?B * t - 1 - uint m' * uint u0" unfolding prod by (simp add: algebra_simps)
        ultimately show ?thesis
          using normalized_val2(3) [OF n, of u0] LIMB_B_pos(3) by (simp only: left_diff_distrib right_diff_distrib)
      qed
      moreover have "uint (invert_adjust u1 u0 m r) = (uint m' - 2) mod ?B"
        using uint_add_int [of m' "- 2"] True c by (simp add: res)
      moreover have "(?B + (uint m' - 2)) * ?D + (?rho + 2 * ?D) = ?B3 - 1" using E by (simp add: algebra_simps)
      ultimately show ?thesis by (intro inverse_3by2I [OF n, where M = "uint m' - 2" and R = "?rho + 2 * ?D"]) simp_all
    next
      case c: False
      have E1: "(?B + (uint m' - 1)) * ?D + (?rho + ?D) = ?B3 - 1" using E by (simp add: algebra_simps)
      have "0 \<le> ?rho + ?D"
      proof (cases "?q < u1")
        case True
        then have "?B * 1 \<le> ?B * (uint u1 - uint ?q)" by (intro mult_left_mono) (simp_all add: uint_limb_less)
        with rho1 u show ?thesis by linarith
      next
        case False
        with c have "?q = u1" "uint tl \<le> uint u0" by (auto simp: uint_limb_less word_uint_eq_iff)
        then have R: "?rho + ?D = uint u0 - 1 - uint tl" "- 1 \<le> ?rho + ?D" using rho1 by simp_all
        have "?rho + ?D \<noteq> - 1"
        proof
          assume "?rho + ?D = - 1"
          with E1 have "?D * (?B + (uint m' - 1)) = ?B3" by (simp add: mult.commute)
          with no_exact_inverse [OF u0 u(4) n u(2)] show False by (simp add: val2_def)
        qed
        with R(2) show ?thesis by linarith
      qed
      moreover have "uint (invert_adjust u1 u0 m r) = (uint m' - 1) mod ?B"
      proof -
        have b: "(of_bool ?c :: limb) = 0" by (subst of_bool_eq_0_iff) (rule c)
        have "invert_adjust u1 u0 m r = m' - 1" unfolding res b using True by simp
        then show ?thesis using uint_add_int [of m' "- 1"] by simp
      qed
      ultimately show ?thesis
        using E1 neg by (intro inverse_3by2I [OF n, where M = "uint m' - 1" and R = "?rho + ?D"]) simp_all
    qed
  qed
qed

lemma mpn_invert_3by2_spec:
  assumes "GMP_LIMB_HIGHBIT \<le> u1"
  shows "\<exists>m. mpn_invert_3by2 u1 u0 = Inr m \<and> inverse_3by2 u1 u0 m"
proof -
  have n: "LIMB_B \<le> 2 * uint u1"
    using assms by (simp add: uint_limb_less GMP_LIMB_HIGHBIT_def LIMB_B_def)
  obtain qh r where h: "invert_high u1 = (qh, r)" by force
  obtain m r' where l: "invert_low u1 qh r = (m, r')" by force
  have hv: "uint qh * uint u1 + uint r = 2 ^ 96 - 2 ^ 32 * uint u1 - 1" "uint r < uint u1"
    using invert_high_val [OF n h] by simp_all
  have lv: "(LIMB_B + uint m) * uint u1 + uint r' = LIMB_B * LIMB_B - 1" "uint r' < uint u1"
    using invert_low_val [OF n hv l] by simp_all
  show ?thesis
  proof (cases "u0 = 0")
    case True
    have "(LIMB_B + uint m) * val2 (u1, u0) + (LIMB_B * uint r' + (LIMB_B - 1)) = LIMB_B * LIMB_B * LIMB_B - 1"
    proof -
      have "(LIMB_B + uint m) * val2 (u1, u0) + (LIMB_B * uint r' + (LIMB_B - 1)) =
          LIMB_B * ((LIMB_B + uint m) * uint u1 + uint r' + 1) - 1"
        using True by (simp add: val2_def algebra_simps)
      then show ?thesis unfolding lv(1) by simp
    qed
    moreover have "LIMB_B * uint r' + (LIMB_B - 1) < val2 (u1, u0)"
    proof -
      have "LIMB_B * uint r' \<le> LIMB_B * (uint u1 - 1)" using lv(2) by (intro mult_left_mono) simp_all
      then show ?thesis using True by (simp add: val2_def algebra_simps)
    qed
    ultimately have "inverse_3by2 u1 u0 m"
      by (intro inverse_3by2I [OF n, where M = "uint m"]) simp_all
    with True assms h l show ?thesis by (simp add: mpn_invert_3by2_def Let_def c_assert_def)
  next
    case False
    then have "0 < uint u0" by (simp add: word_gt_0 uint_0_iff order_less_le)
    from invert_adjust_val [OF n this lv] False assms h l show ?thesis
      by (simp add: mpn_invert_3by2_def Let_def c_assert_def word_gt_0)
  qed
qed

end
