(* ===== verification/Limb_Bits.thy ===== *)
theory Limb_Bits
  imports Limb_Invert
begin

unbundle bit_operations_syntax

text \<open>
  Counting zero bits: the loops of \<^verbatim>\<open>gmp_clz\<close> and \<^verbatim>\<open>gmp_ctz\<close>.  They do not return for zero; the
  result \<open>None\<close> stands for that.
\<close>

partial_function (option) clz_bytes :: "limb \<Rightarrow> nat \<Rightarrow> (limb \<times> nat) option" where
  "clz_bytes x c =
     (if x AND push_bit (GMP_LIMB_BITS - 8) 0xff = 0 then clz_bytes (push_bit 8 x) (c + 8)
      else Some (x, c))"

partial_function (option) clz_bits :: "limb \<Rightarrow> nat \<Rightarrow> nat option" where
  "clz_bits x c =
     (if x AND GMP_LIMB_HIGHBIT = 0 then clz_bits (push_bit 1 x) (c + 1) else Some c)"

definition gmp_clz :: "limb \<Rightarrow> nat option" where
  "gmp_clz x = (case clz_bytes x 0 of None \<Rightarrow> None | Some (y, c) \<Rightarrow> clz_bits y c)"

definition gmp_ctz :: "limb \<Rightarrow> nat option" where
  "gmp_ctz x = (case gmp_clz (x AND - x) of None \<Rightarrow> None | Some c \<Rightarrow> Some (GMP_LIMB_BITS - 1 - c))"

declare clz_bytes.simps [code] clz_bits.simps [code]

lemma top_bits: "x AND NOT (mask n) = 0 \<longleftrightarrow> uint x < 2 ^ n" for x :: limb
proof -
  have "x AND NOT (mask n) = 0 \<longleftrightarrow> take_bit n x = x"
    by (auto simp: bit_eq_iff bit_simps)
  also have "\<dots> \<longleftrightarrow> take_bit n (uint x) = uint x"
    by (metis unsigned_take_bit_eq word_uint_eq_iff)
  also have "\<dots> \<longleftrightarrow> uint x < 2 ^ n"
    by (simp add: take_bit_int_eq_self_iff)
  finally show ?thesis .
qed

lemma top_masks:
  "push_bit (GMP_LIMB_BITS - 8) 0xff = (NOT (mask 56) :: limb)" "GMP_LIMB_HIGHBIT = NOT (mask 63)"
  by (simp_all add: mask_eq_exp_minus_1 GMP_LIMB_HIGHBIT_def GMP_LIMB_BITS_def)

lemma uint_push_bit:
  assumes "uint x * 2 ^ n < LIMB_B"
  shows "uint (push_bit n x :: limb) = uint x * 2 ^ n"
proof -
  have "uint (push_bit n x) = take_bit 64 (push_bit n (uint x))" by (simp add: unsigned_push_bit_eq)
  also have "\<dots> = uint x * 2 ^ n" using assms by (simp add: push_bit_eq_mult take_bit_int_eq_self LIMB_B_def)
  finally show ?thesis .
qed

lemma clz_bytes_spec:
  assumes "x \<noteq> 0"
  shows "\<exists>y k. clz_bytes x c = Some (y, c + k) \<and> uint y = uint x * 2 ^ k \<and> 2 ^ 56 \<le> uint y"
  using assms
proof (induction "nat (2 ^ 64 - uint x)" arbitrary: x c rule: less_induct)
  case less
  have pos: "0 < uint x" using less.prems by (simp add: uint_0_iff order_less_le)
  show ?case
  proof (cases "uint x < 2 ^ 56")
    case True
    then have p: "uint (push_bit 8 x) = uint x * 2 ^ 8" by (intro uint_push_bit) (simp add: LIMB_B_def)
    then have "nat (2 ^ 64 - uint (push_bit 8 x)) < nat (2 ^ 64 - uint x)" "push_bit 8 x \<noteq> 0"
      using pos True by auto
    from less.hyps [OF this, of "c + 8"] obtain y k where
      y: "clz_bytes (push_bit 8 x) (c + 8) = Some (y, c + 8 + k)" "uint y = uint (push_bit 8 x) * 2 ^ k" "2 ^ 56 \<le> uint y"
      by blast
    then show ?thesis
      using True p by (intro exI [of _ y] exI [of _ "8 + k"])
        (simp add: clz_bytes.simps [of x c] top_masks top_bits power_add)
  next
    case False
    then show ?thesis
      by (intro exI [of _ x] exI [of _ 0]) (simp add: clz_bytes.simps [of x c] top_masks top_bits)
  qed
qed

lemma clz_bits_spec:
  assumes "x \<noteq> 0"
  shows "\<exists>k. clz_bits x c = Some (c + k) \<and> 2 ^ 63 \<le> uint x * 2 ^ k \<and> uint x * 2 ^ k < 2 ^ 64"
  using assms
proof (induction "nat (2 ^ 64 - uint x)" arbitrary: x c rule: less_induct)
  case less
  have pos: "0 < uint x" using less.prems by (simp add: uint_0_iff order_less_le)
  show ?case
  proof (cases "uint x < 2 ^ 63")
    case True
    then have p: "uint (push_bit 1 x) = uint x * 2" using uint_push_bit [of x 1] by (simp add: LIMB_B_def)
    then have "nat (2 ^ 64 - uint (push_bit 1 x)) < nat (2 ^ 64 - uint x)" "push_bit 1 x \<noteq> 0"
      using pos True by auto
    from less.hyps [OF this, of "c + 1"] obtain k where
      "clz_bits (push_bit 1 x) (c + 1) = Some (c + 1 + k)" "2 ^ 63 \<le> uint (push_bit 1 x) * 2 ^ k"
      "uint (push_bit 1 x) * 2 ^ k < 2 ^ 64" by blast
    then show ?thesis
      using True p by (intro exI [of _ "1 + k"])
        (simp add: clz_bits.simps [of x c] top_masks top_bits power_add)
  next
    case False
    then show ?thesis using uint_bounds [of x]
      by (intro exI [of _ 0]) (simp add: clz_bits.simps [of x c] top_masks top_bits LIMB_B_def)
  qed
qed

lemma gmp_clz_spec:
  assumes "x \<noteq> 0"
  shows "\<exists>k. gmp_clz x = Some k \<and> k < 64 \<and> 2 ^ 63 \<le> uint x * 2 ^ k \<and> uint x * 2 ^ k < 2 ^ 64"
proof -
  obtain y k where y: "clz_bytes x 0 = Some (y, k)" "uint y = uint x * 2 ^ k" "2 ^ 56 \<le> uint y"
    using clz_bytes_spec [OF assms, of 0] by auto
  then have "y \<noteq> 0" by auto
  from clz_bits_spec [OF this, of k] obtain j where
    j: "clz_bits y k = Some (k + j)" "2 ^ 63 \<le> uint y * 2 ^ j" "uint y * 2 ^ j < 2 ^ 64" by blast
  have "1 \<le> uint x" using assms uint_bounds(1) [of x] uint_0_iff [of x] by linarith
  then have "2 ^ (k + j) \<le> uint x * 2 ^ (k + j)" by simp
  also have "\<dots> < 2 ^ 64" using j(3) y(2) by (simp add: power_add mult.assoc)
  finally have "k + j < 64" by (rule power_less_imp_less_exp [rotated]) simp
  then show ?thesis using y j by (simp add: gmp_clz_def power_add mult.assoc)
qed

section \<open>Trailing zeros\<close>

lemma and_minus:
  fixes x :: limb
  assumes "x = push_bit (Suc k) h + push_bit k 1" "k < 64"
  shows "x AND - x = push_bit k 1"
proof -
  have "x - 1 = push_bit (Suc k) h + mask k"
    unfolding assms(1) by (simp add: mask_eq_exp_minus_1 push_bit_eq_mult)
  also have "\<dots> = push_bit (Suc k) h OR mask k"
    by (rule disjunctive_add) (auto simp: bit_simps)
  finally have m: "- x = NOT (push_bit (Suc k) h OR mask k)" by (simp add: minus_eq_not_minus_1)
  have "x = push_bit (Suc k) h OR push_bit k 1"
    unfolding assms(1) by (rule disjunctive_add) (auto simp: bit_simps bit_0)
  then show ?thesis unfolding m
    by (intro bit_word_eqI) (auto simp: bit_simps bit_0)
qed

lemma odd_part:
  assumes "(n :: nat) \<noteq> 0"
  shows "\<exists>k h. n = 2 ^ k * (2 * h + 1)"
  using assms
proof (induction n rule: less_induct)
  case (less n)
  show ?case
  proof (cases "even n")
    case True
    then obtain m where m: "n = 2 * m" by blast
    with less.prems less.IH [of m] obtain k h where "m = 2 ^ k * (2 * h + 1)" by auto
    with m show ?thesis by (intro exI [of _ "Suc k"] exI [of _ h]) simp
  next
    case False
    then obtain h where "n = 2 * h + 1" by (elim oddE)
    then show ?thesis by (intro exI [of _ 0] exI [of _ h]) simp
  qed
qed

lemma gmp_ctz_spec:
  assumes "x \<noteq> 0"
  shows "\<exists>k. gmp_ctz x = Some k \<and> k < 64 \<and> (\<exists>h. uint x = 2 ^ k * (2 * h + 1))"
proof -
  have "unat x \<noteq> 0" using assms by (simp add: unat_eq_0)
  from odd_part [OF this] obtain k h where kh: "unat x = 2 ^ k * (2 * h + 1)" by blast
  have "2 ^ k \<le> unat x" unfolding kh by simp
  also have "\<dots> < 2 ^ 64" using unsigned_less [of x] by simp
  finally have k: "k < 64" by (rule power_less_imp_less_exp [rotated]) simp
  have "x = word_of_nat (unat x)" by simp
  also have "\<dots> = push_bit (Suc k) (word_of_nat h) + push_bit k 1"
    unfolding kh by (simp add: push_bit_eq_mult algebra_simps)
  finally have a: "x AND - x = push_bit k 1" using and_minus k by blast
  have u: "uint (push_bit k 1 :: limb) = 2 ^ k"
    using power_strict_increasing [OF k, of "2 :: int"] by (subst uint_push_bit) (simp_all add: LIMB_B_def)
  have "push_bit k 1 \<noteq> (0 :: limb)" using k by simp
  from gmp_clz_spec [OF this] obtain c where c: "gmp_clz (push_bit k 1) = Some c" "c < 64"
    "2 ^ 63 \<le> (2 ^ (k + c) :: int)" "2 ^ (k + c) < (2 ^ 64 :: int)" using u by (auto simp: power_add)
  have "63 \<le> k + c" using c(3) by (rule power_le_imp_le_exp [rotated]) simp
  moreover have "k + c < 64" using c(4) by (rule power_less_imp_less_exp [rotated]) simp
  ultimately have "gmp_ctz x = Some k" using c(1) a by (simp add: gmp_ctz_def GMP_LIMB_BITS_def)
  moreover have "uint x = 2 ^ k * (2 * int h + 1)" using kh by (metis int_ops(2) of_nat_add of_nat_mult of_nat_numeral of_nat_power uint_nat)
  ultimately show ?thesis using k by blast
qed

text \<open>On zero the loop of \<^verbatim>\<open>gmp_clz\<close> never ends.\<close>

lemma clz_bytes_nonzero:
  assumes "clz_bytes x c = Some y"
  shows "x \<noteq> 0"
proof -
  have "(case (x, c) of (x, c) \<Rightarrow> \<lambda>y. x \<noteq> 0) y"
    by (rule clz_bytes.raw_induct [where P = "\<lambda>x c y. x \<noteq> 0"]) (use assms in \<open>(fastforce split: if_splits)+\<close>)
  then show ?thesis by simp
qed

lemma gmp_clz_zero: "gmp_clz 0 = None"
  using clz_bytes_nonzero [of 0 0] by (cases "clz_bytes 0 0") (auto simp: gmp_clz_def)

end
