(* ===== verification/Mpn_Mem.thy ===== *)
theory Mpn_Mem
  imports Limb_Bits
begin

text \<open>
  The memory of the mpn layer of mini-gmp.  A pointer to limbs is an address; a cell that is not
  allocated has no content, and a fresh cell is uninitialised.  Operands may share memory, so
  the theorems on the operations say which overlaps they allow.  Sizes are natural numbers.
\<close>

section \<open>Memory\<close>

record limb_mem =
  cells :: "nat \<Rightarrow> limb option option"
  brk :: nat
  blocks :: "nat \<Rightarrow> nat option"

type_synonym 'a mp = "(limb_mem, 'a) prog"

definition ld :: "nat \<Rightarrow> limb mp" where
  "ld p s =
     (case cells s p of
        None \<Rightarrow> Inl (Out_of_bounds, s)
      | Some None \<Rightarrow> Inl (Uninit_read, s)
      | Some (Some x) \<Rightarrow> Inr (x, s))"

definition st :: "nat \<Rightarrow> limb \<Rightarrow> unit mp" where
  "st p x s =
     (case cells s p of
        None \<Rightarrow> Inl (Out_of_bounds, s)
      | Some c \<Rightarrow> Inr ((), s\<lparr>cells := (cells s)(p := Some (Some x))\<rparr>))"

definition assertS :: "bool \<Rightarrow> ('s, unit) prog" where
  "assertS b = lift (c_assert b)"

text \<open>
  \<^verbatim>\<open>gmp_xalloc_limbs\<close> with the default allocator, which asserts a positive size and dies when the
  memory is exhausted, and \<^verbatim>\<open>gmp_free\<close>.
\<close>

definition gmp_xalloc_limbs :: "nat \<Rightarrow> nat mp" where
  "gmp_xalloc_limbs n =
     bindS (assertS (0 < n * 8)) (\<lambda>_.
     bindS (whenS (max_alloc \<le> n * 8) (stop (Exit 134))) (\<lambda>_.
     bindS (gets brk) (\<lambda>p.
     bindS (modify (\<lambda>s. s\<lparr>cells := (\<lambda>q. if p \<le> q \<and> q < p + n then Some None else cells s q),
       brk := p + n + 1, blocks := (blocks s)(p \<mapsto> n)\<rparr>)) (\<lambda>_.
     ret p))))"

definition gmp_free :: "nat \<Rightarrow> unit mp" where
  "gmp_free p =
     bindS (gets (\<lambda>s. blocks s p)) (\<lambda>b.
     case b of
       None \<Rightarrow> stop Use_after_free
     | Some n \<Rightarrow> modify (\<lambda>s. s\<lparr>cells := (\<lambda>q. if p \<le> q \<and> q < p + n then None else cells s q),
         blocks := (blocks s)(p := None)\<rparr>))"

section \<open>Loops\<close>

text \<open>\<open>for (i = i0; i < i0 + k; i++)\<close> and \<open>while (--n >= 0)\<close>, with the variables the body changes.\<close>

primrec for_up :: "nat \<Rightarrow> nat \<Rightarrow> (nat \<Rightarrow> 'c \<Rightarrow> ('s, 'c) prog) \<Rightarrow> 'c \<Rightarrow> ('s, 'c) prog" where
  "for_up i 0 body c = ret c"
| "for_up i (Suc k) body c = bindS (body i c) (\<lambda>c'. for_up (Suc i) k body c')"

primrec for_down :: "nat \<Rightarrow> (nat \<Rightarrow> 'c \<Rightarrow> ('s, 'c) prog) \<Rightarrow> 'c \<Rightarrow> ('s, 'c) prog" where
  "for_down 0 body c = ret c"
| "for_down (Suc k) body c = bindS (body k c) (\<lambda>c'. for_down k body c')"

section \<open>Numbers in memory\<close>

fun lval :: "limb list \<Rightarrow> int" where
  "lval [] = 0"
| "lval (x # xs) = uint x + LIMB_B * lval xs"

lemma lval_append: "lval (xs @ ys) = lval xs + LIMB_B ^ length xs * lval ys"
  by (induction xs) (simp_all add: algebra_simps)

lemma lval_nonneg: "0 \<le> lval xs"
  by (induction xs) simp_all

lemma lval_less: "lval xs < LIMB_B ^ length xs"
proof (induction xs)
  case (Cons x xs)
  then have "LIMB_B * lval xs \<le> LIMB_B * (LIMB_B ^ length xs - 1)" by (intro mult_left_mono) simp_all
  then show ?case using uint_bounds [of x] by (simp add: algebra_simps)
qed simp

lemma lval_take_Suc:
  "i < length xs \<Longrightarrow> lval (take (Suc i) xs) = lval (take i xs) + LIMB_B ^ i * uint (xs ! i)"
  by (simp add: take_Suc_conv_app_nth lval_append)

definition limbs_at :: "limb_mem \<Rightarrow> nat \<Rightarrow> limb list \<Rightarrow> bool" where
  "limbs_at s p xs \<longleftrightarrow> (\<forall>i < length xs. cells s (p + i) = Some (Some (xs ! i)))"

definition room :: "limb_mem \<Rightarrow> nat \<Rightarrow> nat \<Rightarrow> bool" where
  "room s p n \<longleftrightarrow> (\<forall>i < n. cells s (p + i) \<noteq> None)"

definition put :: "limb_mem \<Rightarrow> nat \<Rightarrow> limb list \<Rightarrow> limb_mem" where
  "put s p xs = s\<lparr>cells := (\<lambda>q. if p \<le> q \<and> q < p + length xs then Some (Some (xs ! (q - p))) else cells s q)\<rparr>"

lemma put_Nil [simp]: "put s p [] = s"
  by (auto simp: put_def intro!: limb_mem.equality ext)

lemma cells_put:
  "cells (put s p xs) q = (if p \<le> q \<and> q < p + length xs then Some (Some (xs ! (q - p))) else cells s q)"
  by (simp add: put_def)

lemma limbs_at_put [simp]: "limbs_at (put s p xs) p xs"
  by (simp add: limbs_at_def cells_put)

lemma limbs_at_put_outside:
  "limbs_at s p xs \<Longrightarrow> p + length xs \<le> q \<or> q + length ys \<le> p \<Longrightarrow> limbs_at (put s q ys) p xs"
  by (auto simp: limbs_at_def cells_put)

lemma room_put [simp]: "room s p n \<Longrightarrow> room (put s q ys) p n"
  by (auto simp: room_def cells_put)

lemma limbs_at_room: "limbs_at s p xs \<Longrightarrow> room s p (length xs)"
  by (auto simp: limbs_at_def room_def)

lemma ld_limbs_at: "limbs_at s p xs \<Longrightarrow> i < length xs \<Longrightarrow> ld (p + i) s = Inr (xs ! i, s)"
  by (simp add: limbs_at_def ld_def)

text \<open>The operand at \<open>ap\<close> survives a result written upwards, or downwards, at \<open>rp\<close>.\<close>

definition up_ok :: "nat \<Rightarrow> nat \<Rightarrow> nat \<Rightarrow> bool" where
  "up_ok rp ap n \<longleftrightarrow> rp \<le> ap \<or> ap + n \<le> rp"

definition down_ok :: "nat \<Rightarrow> nat \<Rightarrow> nat \<Rightarrow> bool" where
  "down_ok rp ap n \<longleftrightarrow> ap \<le> rp \<or> rp + n \<le> ap"

lemma up_ok_refl [simp]: "up_ok p p n" "down_ok p p n"
  by (simp_all add: up_ok_def down_ok_def)

lemma ld_up:
  assumes "limbs_at s ap as" "up_ok rp ap n" "i < n" "i < length as" "length rs = i"
  shows "ld (ap + i) (put s rp rs) = Inr (as ! i, put s rp rs)"
  using assms by (auto simp: limbs_at_def ld_def cells_put up_ok_def)

lemma ld_down:
  assumes "limbs_at s ap as" "down_ok rp ap n" "k < n" "k < length as" "length rs = n - Suc k"
  shows "ld (ap + k) (put s (rp + Suc k) rs) = Inr (as ! k, put s (rp + Suc k) rs)"
  using assms by (auto simp: limbs_at_def ld_def cells_put down_ok_def)

lemma st_snoc:
  assumes "room s rp n" "length rs < n" "q = rp + length rs"
  shows "st q x (put s rp rs) = Inr ((), put s rp (rs @ [x]))"
proof -
  have "cells (put s rp rs) q \<noteq> None" using assms by (auto simp: room_def cells_put)
  moreover have "(put s rp rs)\<lparr>cells := (cells (put s rp rs))(q := Some (Some x))\<rparr> = put s rp (rs @ [x])"
    using assms by (auto simp: put_def nth_append intro!: limb_mem.equality ext)
  ultimately show ?thesis by (auto simp: st_def)
qed

lemma st_cons:
  assumes "room s rp n" "k < n" "length rs = n - Suc k"
  shows "st (rp + k) x (put s (rp + Suc k) rs) = Inr ((), put s (rp + k) (x # rs))"
proof -
  have "cells (put s (rp + Suc k) rs) (rp + k) \<noteq> None" using assms by (auto simp: room_def cells_put)
  moreover have "(put s (rp + Suc k) rs)\<lparr>cells := (cells (put s (rp + Suc k) rs))(rp + k := Some (Some x))\<rparr> =
      put s (rp + k) (x # rs)"
    by (auto simp: put_def nth_Cons' intro!: limb_mem.equality ext)
  ultimately show ?thesis by (auto simp: st_def)
qed

text \<open>The rules for loops that produce one limb per turn.\<close>

lemma for_up_from:
  assumes "\<And>i c rs. i < n \<Longrightarrow> length rs = i \<Longrightarrow> Inv i c rs \<Longrightarrow>
      \<exists>x c'. body i c (put s rp rs) = Inr (c', put s rp (rs @ [x])) \<and> Inv (Suc i) c' (rs @ [x])"
    and "i + k = n" "length rs = i" "Inv i c rs"
  shows "\<exists>c' rs'. for_up i k body c (put s rp rs) = Inr (c', put s rp rs') \<and> length rs' = n \<and> Inv n c' rs'"
  using assms(2-)
proof (induction k arbitrary: i c rs)
  case 0
  then show ?case by auto
next
  case (Suc k)
  from assms(1) [of i rs c] Suc.prems obtain x c' where
    "body i c (put s rp rs) = Inr (c', put s rp (rs @ [x]))" "Inv (Suc i) c' (rs @ [x])" by auto
  with Suc.IH [of "Suc i" "rs @ [x]" c'] Suc.prems show ?case by (simp add: bindS_def)
qed

lemma for_up_put:
  assumes "\<And>i c rs. i < n \<Longrightarrow> length rs = i \<Longrightarrow> Inv i c rs \<Longrightarrow>
      \<exists>x c'. body i c (put s rp rs) = Inr (c', put s rp (rs @ [x])) \<and> Inv (Suc i) c' (rs @ [x])"
    and "Inv 0 c []"
  obtains c' rs where "for_up 0 n body c s = Inr (c', put s rp rs)" "length rs = n" "Inv n c' rs"
  using for_up_from [of n Inv body s rp 0 n "[]" c] assms by auto

lemma for_down_from:
  assumes "\<And>k c rs. k < n \<Longrightarrow> length rs = n - Suc k \<Longrightarrow> Inv (Suc k) c rs \<Longrightarrow>
      \<exists>x c'. body k c (put s (rp + Suc k) rs) = Inr (c', put s (rp + k) (x # rs)) \<and> Inv k c' (x # rs)"
    and "k \<le> n" "length rs = n - k" "Inv k c rs"
  shows "\<exists>c' rs'. for_down k body c (put s (rp + k) rs) = Inr (c', put s rp rs') \<and> length rs' = n \<and> Inv 0 c' rs'"
  using assms(2-)
proof (induction k arbitrary: c rs)
  case 0
  then show ?case by auto
next
  case (Suc k)
  from assms(1) [of k rs c] Suc.prems obtain x c' where
    "body k c (put s (rp + Suc k) rs) = Inr (c', put s (rp + k) (x # rs))" "Inv k c' (x # rs)" by auto
  with Suc.IH [of "x # rs" c'] Suc.prems show ?case by (simp add: bindS_def)
qed

lemma for_down_put:
  assumes "\<And>k c rs. k < n \<Longrightarrow> length rs = n - Suc k \<Longrightarrow> Inv (Suc k) c rs \<Longrightarrow>
      \<exists>x c'. body k c (put s (rp + Suc k) rs) = Inr (c', put s (rp + k) (x # rs)) \<and> Inv k c' (x # rs)"
    and "Inv n c []"
  obtains c' rs where "for_down n body c s = Inr (c', put s rp rs)" "length rs = n" "Inv 0 c' rs"
  using for_down_from [of n Inv body s rp n "[]" c] assms by auto

end
