(* ===== verification/Mpn_Basic.thy ===== *)
theory Mpn_Basic
  imports Mpn_Mem
begin

text \<open>
  The basic operations of the mpn layer of mini-gmp: copying, comparing, adding, subtracting and
  multiplying natural numbers given by arrays of limbs, least significant limb first.
\<close>

section \<open>Copying, comparing, clearing\<close>

definition mpn_copyi :: "nat \<Rightarrow> nat \<Rightarrow> nat \<Rightarrow> unit mp" where
  "mpn_copyi d s n = for_up 0 n (\<lambda>i _. bindS (ld (s + i)) (\<lambda>x. st (d + i) x)) ()"

definition mpn_copyd :: "nat \<Rightarrow> nat \<Rightarrow> nat \<Rightarrow> unit mp" where
  "mpn_copyd d s n = for_down n (\<lambda>i _. bindS (ld (s + i)) (\<lambda>x. st (d + i) x)) ()"

fun mpn_cmp :: "nat \<Rightarrow> nat \<Rightarrow> nat \<Rightarrow> int mp" where
  "mpn_cmp ap bp 0 = ret 0"
| "mpn_cmp ap bp (Suc n) =
     bindS (ld (ap + n)) (\<lambda>a.
     bindS (ld (bp + n)) (\<lambda>b.
     if a \<noteq> b then ret (if b < a then 1 else - 1) else mpn_cmp ap bp n))"

definition mpn_cmp4 :: "nat \<Rightarrow> nat \<Rightarrow> nat \<Rightarrow> nat \<Rightarrow> int mp" where
  "mpn_cmp4 ap an bp bn =
     (if an \<noteq> bn then ret (if an < bn then - 1 else 1) else mpn_cmp ap bp an)"

fun mpn_normalized_size :: "nat \<Rightarrow> nat \<Rightarrow> nat mp" where
  "mpn_normalized_size xp 0 = ret 0"
| "mpn_normalized_size xp (Suc n) =
     bindS (ld (xp + n)) (\<lambda>x. if x = 0 then mpn_normalized_size xp n else ret (Suc n))"

definition mpn_zero_p :: "nat \<Rightarrow> nat \<Rightarrow> bool mp" where
  "mpn_zero_p rp n = bindS (mpn_normalized_size rp n) (\<lambda>k. ret (k = 0))"

definition mpn_zero :: "nat \<Rightarrow> nat \<Rightarrow> unit mp" where
  "mpn_zero rp n = for_down n (\<lambda>i _. st (rp + i) 0) ()"

section \<open>Addition and subtraction\<close>

definition mpn_add_1 :: "nat \<Rightarrow> nat \<Rightarrow> nat \<Rightarrow> limb \<Rightarrow> limb mp" where
  "mpn_add_1 rp ap n b =
     bindS (assertS (0 < n)) (\<lambda>_.
     for_up 0 n (\<lambda>i b.
       bindS (ld (ap + i)) (\<lambda>a.
       let r = a + b; b = of_bool (r < b)
       in bindS (st (rp + i) r) (\<lambda>_. ret b))) b)"

definition mpn_add_n :: "nat \<Rightarrow> nat \<Rightarrow> nat \<Rightarrow> nat \<Rightarrow> limb mp" where
  "mpn_add_n rp ap bp n =
     for_up 0 n (\<lambda>i cy.
       bindS (ld (ap + i)) (\<lambda>a.
       bindS (ld (bp + i)) (\<lambda>b.
       let r = a + cy; cy = of_bool (r < cy); r = r + b; cy = cy + of_bool (r < b)
       in bindS (st (rp + i) r) (\<lambda>_. ret cy)))) 0"

definition mpn_add :: "nat \<Rightarrow> nat \<Rightarrow> nat \<Rightarrow> nat \<Rightarrow> nat \<Rightarrow> limb mp" where
  "mpn_add rp ap an bp bn =
     bindS (assertS (bn \<le> an)) (\<lambda>_.
     bindS (mpn_add_n rp ap bp bn) (\<lambda>cy.
     if bn < an then mpn_add_1 (rp + bn) (ap + bn) (an - bn) cy else ret cy))"

definition mpn_sub_1 :: "nat \<Rightarrow> nat \<Rightarrow> nat \<Rightarrow> limb \<Rightarrow> limb mp" where
  "mpn_sub_1 rp ap n b =
     bindS (assertS (0 < n)) (\<lambda>_.
     for_up 0 n (\<lambda>i b.
       bindS (ld (ap + i)) (\<lambda>a.
       let cy = of_bool (a < b)
       in bindS (st (rp + i) (a - b)) (\<lambda>_. ret cy))) b)"

definition mpn_sub_n :: "nat \<Rightarrow> nat \<Rightarrow> nat \<Rightarrow> nat \<Rightarrow> limb mp" where
  "mpn_sub_n rp ap bp n =
     for_up 0 n (\<lambda>i cy.
       bindS (ld (ap + i)) (\<lambda>a.
       bindS (ld (bp + i)) (\<lambda>b.
       let b = b + cy; cy = of_bool (b < cy); cy = cy + of_bool (a < b)
       in bindS (st (rp + i) (a - b)) (\<lambda>_. ret cy)))) 0"

definition mpn_sub :: "nat \<Rightarrow> nat \<Rightarrow> nat \<Rightarrow> nat \<Rightarrow> nat \<Rightarrow> limb mp" where
  "mpn_sub rp ap an bp bn =
     bindS (assertS (bn \<le> an)) (\<lambda>_.
     bindS (mpn_sub_n rp ap bp bn) (\<lambda>cy.
     if bn < an then mpn_sub_1 (rp + bn) (ap + bn) (an - bn) cy else ret cy))"

section \<open>Multiplication\<close>

definition mpn_mul_1 :: "nat \<Rightarrow> nat \<Rightarrow> nat \<Rightarrow> limb \<Rightarrow> limb mp" where
  "mpn_mul_1 rp up n vl =
     bindS (assertS (1 \<le> n)) (\<lambda>_.
     for_up 0 n (\<lambda>i cl.
       bindS (ld (up + i)) (\<lambda>ul.
       let (hpl, lpl) = gmp_umul_ppmm ul vl;
           lpl = lpl + cl;
           cl = of_bool (lpl < cl) + hpl
       in bindS (st (rp + i) lpl) (\<lambda>_. ret cl))) 0)"

definition mpn_addmul_1 :: "nat \<Rightarrow> nat \<Rightarrow> nat \<Rightarrow> limb \<Rightarrow> limb mp" where
  "mpn_addmul_1 rp up n vl =
     bindS (assertS (1 \<le> n)) (\<lambda>_.
     for_up 0 n (\<lambda>i cl.
       bindS (ld (up + i)) (\<lambda>ul.
       let (hpl, lpl) = gmp_umul_ppmm ul vl;
           lpl = lpl + cl;
           cl = of_bool (lpl < cl) + hpl
       in bindS (ld (rp + i)) (\<lambda>rl.
          let lpl = rl + lpl;
              cl = cl + of_bool (lpl < rl)
          in bindS (st (rp + i) lpl) (\<lambda>_. ret cl)))) 0)"

definition mpn_submul_1 :: "nat \<Rightarrow> nat \<Rightarrow> nat \<Rightarrow> limb \<Rightarrow> limb mp" where
  "mpn_submul_1 rp up n vl =
     bindS (assertS (1 \<le> n)) (\<lambda>_.
     for_up 0 n (\<lambda>i cl.
       bindS (ld (up + i)) (\<lambda>ul.
       let (hpl, lpl) = gmp_umul_ppmm ul vl;
           lpl = lpl + cl;
           cl = of_bool (lpl < cl) + hpl
       in bindS (ld (rp + i)) (\<lambda>rl.
          let lpl = rl - lpl;
              cl = cl + of_bool (rl < lpl)
          in bindS (st (rp + i) lpl) (\<lambda>_. ret cl)))) 0)"

definition mpn_mul :: "nat \<Rightarrow> nat \<Rightarrow> nat \<Rightarrow> nat \<Rightarrow> nat \<Rightarrow> limb mp" where
  "mpn_mul rp up un vp vn =
     bindS (assertS (vn \<le> un)) (\<lambda>_.
     bindS (assertS (1 \<le> vn)) (\<lambda>_.
     bindS (ld vp) (\<lambda>v.
     bindS (mpn_mul_1 rp up un v) (\<lambda>c.
     bindS (st (rp + un) c) (\<lambda>_.
     bindS (for_up 1 (vn - 1) (\<lambda>j _.
       bindS (ld (vp + j)) (\<lambda>v.
       bindS (mpn_addmul_1 (rp + j) up un v) (\<lambda>c.
       st (rp + j + un) c))) ()) (\<lambda>_.
     ld (rp + (vn - 1) + un)))))))"

definition mpn_mul_n :: "nat \<Rightarrow> nat \<Rightarrow> nat \<Rightarrow> nat \<Rightarrow> unit mp" where
  "mpn_mul_n rp ap bp n = bindS (mpn_mul rp ap n bp n) (\<lambda>_. ret ())"

definition mpn_sqr :: "nat \<Rightarrow> nat \<Rightarrow> nat \<Rightarrow> unit mp" where
  "mpn_sqr rp ap n = bindS (mpn_mul rp ap n ap n) (\<lambda>_. ret ())"

section \<open>The carries\<close>

lemma add_carry_step:
  fixes a b cy :: limb
  assumes "uint cy \<le> 1"
  shows "uint (a + cy + b) + LIMB_B * uint (of_bool (a + cy < cy) + of_bool (a + cy + b < b) :: limb) =
    uint a + uint b + uint cy \<and> uint (of_bool (a + cy < cy) + of_bool (a + cy + b < b) :: limb) \<le> 1"
proof -
  let ?p = "a + cy < cy" and ?q = "a + cy + b < b"
  have s: "uint (a + cy + b) = uint a + uint cy - LIMB_B * of_bool ?p + uint b - LIMB_B * of_bool ?q"
    unfolding carry_add(1) [of "a + cy" b] unfolding carry_add(1) [of a cy] ..
  have "\<not> (?p \<and> ?q)"
    using s assms uint_bounds [of a] uint_bounds [of b] uint_bounds [of "a + cy + b"] by auto
  then have c: "uint (of_bool ?p + of_bool ?q :: limb) = of_bool ?p + of_bool ?q" by auto
  with s show ?thesis using \<open>\<not> (?p \<and> ?q)\<close> by (auto simp: algebra_simps)
qed

lemma sub_borrow_step:
  fixes a b cy :: limb
  assumes "uint cy \<le> 1"
  shows "uint (a - (b + cy)) - LIMB_B * uint (of_bool (b + cy < cy) + of_bool (a < b + cy) :: limb) =
    uint a - uint b - uint cy \<and> uint (of_bool (b + cy < cy) + of_bool (a < b + cy) :: limb) \<le> 1"
proof -
  let ?p = "b + cy < cy" and ?q = "a < b + cy"
  have s: "uint (a - (b + cy)) = uint a - (uint b + uint cy - LIMB_B * of_bool ?p) + LIMB_B * of_bool ?q"
    unfolding borrow_sub(1) [of a "b + cy"] unfolding carry_add(1) [of b cy] ..
  have "\<not> (?p \<and> ?q)"
  proof
    assume "?p \<and> ?q"
    then have "uint (b + cy) = uint b + uint cy - LIMB_B" unfolding carry_add(1) [of b cy] by simp
    moreover from \<open>?p \<and> ?q\<close> have "uint a < uint (b + cy)" by (simp add: uint_limb_less)
    ultimately show False using assms uint_bounds [of b] uint_bounds [of a] by linarith
  qed
  then have c: "uint (of_bool ?p + of_bool ?q :: limb) = of_bool ?p + of_bool ?q" by auto
  with s show ?thesis using \<open>\<not> (?p \<and> ?q)\<close> by (auto simp: algebra_simps)
qed

lemma mul_carry_step:
  fixes ul vl cl :: limb
  assumes "gmp_umul_ppmm ul vl = (hpl, lpl)"
  shows "uint (lpl + cl) + LIMB_B * uint (of_bool (lpl + cl < cl) + hpl) = uint ul * uint vl + uint cl"
proof -
  let ?c = "lpl + cl < cl"
  have prod: "uint hpl * LIMB_B + uint lpl = uint ul * uint vl"
    using umul_ppmm_val [of ul vl] assms by (simp add: val2_def)
  have s: "uint (lpl + cl) = uint lpl + uint cl - LIMB_B * of_bool ?c" by (rule carry_add(1))
  have "uint ul * uint vl \<le> (LIMB_B - 1) * (LIMB_B - 1)"
    using uint_bounds [of ul] uint_bounds [of vl] by (intro mult_mono) simp_all
  then have "uint ul * uint vl + uint cl < LIMB_B * LIMB_B"
    using uint_bounds [of cl] LIMB_B_pos(3) by (simp only: left_diff_distrib right_diff_distrib)
  moreover have "(uint hpl + of_bool ?c) * LIMB_B + uint (lpl + cl) = uint ul * uint vl + uint cl"
    unfolding s prod [symmetric] by (simp add: algebra_simps)
  ultimately have lt: "(uint hpl + of_bool ?c) * LIMB_B < LIMB_B * LIMB_B" using uint_bounds [of "lpl + cl"] by linarith
  then have "uint hpl + of_bool ?c < LIMB_B" by simp
  then have "uint (of_bool ?c + hpl) = uint hpl + of_bool ?c"
    unfolding uint_limb_ops(1) uint_of_bool using uint_bounds(1) [of hpl] by (simp add: add.commute)
  then show ?thesis using s prod by (simp add: algebra_simps)
qed

lemma add_limb_carry:
  fixes cl rl l :: limb
  assumes "uint l + LIMB_B * uint cl + uint rl < LIMB_B * LIMB_B"
  shows "uint (rl + l) + LIMB_B * uint (cl + of_bool (rl + l < rl)) = uint l + LIMB_B * uint cl + uint rl"
proof -
  let ?c = "rl + l < rl"
  have s: "uint (rl + l) = uint rl + uint l - LIMB_B * of_bool ?c" by (rule carry_add(2))
  then have "(uint cl + of_bool ?c) * LIMB_B + uint (rl + l) < LIMB_B * LIMB_B"
    using assms by (simp add: algebra_simps)
  then have lt: "(uint cl + of_bool ?c) * LIMB_B < LIMB_B * LIMB_B" using uint_bounds [of "rl + l"] by linarith
  then have "uint (cl + of_bool ?c) = uint cl + of_bool ?c"
    unfolding uint_limb_ops(1) uint_of_bool using uint_bounds(1) [of cl] by simp
  then show ?thesis using s by (simp add: algebra_simps)
qed

lemma sub_limb_borrow:
  fixes cl rl l :: limb
  assumes "uint l + LIMB_B * uint cl \<le> LIMB_B * (LIMB_B - 1)"
  shows "uint (rl - l) - LIMB_B * uint (cl + of_bool (rl < rl - l)) = uint rl - (uint l + LIMB_B * uint cl)"
proof -
  let ?c = "rl < rl - l"
  have s: "uint (rl - l) = uint rl - uint l + LIMB_B * of_bool ?c" by (rule borrow_sub(2))
  have "uint cl + of_bool ?c < LIMB_B"
  proof (cases "uint l = 0")
    case True
    then have "\<not> ?c" by (simp add: uint_0_iff)
    then show ?thesis using uint_bounds(2) [of cl] by simp
  next
    case False
    then have "LIMB_B * uint cl < LIMB_B * (LIMB_B - 1)" using assms uint_bounds(1) [of l] by linarith
    then have "uint cl < LIMB_B - 1" by simp
    then show ?thesis by (cases ?c) simp_all
  qed
  then have "uint (cl + of_bool ?c) = uint cl + of_bool ?c"
    unfolding uint_limb_ops(1) uint_of_bool using uint_bounds(1) [of cl] by simp
  then show ?thesis using s by (simp add: algebra_simps)
qed

section \<open>What the operations compute\<close>

lemma assertS_simps [simp]: "assertS True s = Inr ((), s)" "assertS False s = Inl (Assert_failure, s)"
  by (simp_all add: assertS_def c_assert_def lift_def)

text \<open>Loops with one and with two operands.\<close>

lemma for_up_1:
  assumes src: "limbs_at s ap xs" "length xs = n" "room s rp n" "up_ok rp ap n"
    and init: "Inv 0 c []"
    and step: "\<And>i c rs. i < n \<Longrightarrow> length rs = i \<Longrightarrow> Inv i c rs \<Longrightarrow> Inv (Suc i) (g c (xs ! i)) (rs @ [f c (xs ! i)])"
  shows "\<exists>c' rs. for_up 0 n (\<lambda>i c. bindS (ld (ap + i)) (\<lambda>a. bindS (st (rp + i) (f c a)) (\<lambda>_. ret (g c a)))) c s =
      Inr (c', put s rp rs) \<and> length rs = n \<and> Inv n c' rs"
proof -
  have "\<exists>x c'. bindS (ld (ap + i)) (\<lambda>a. bindS (st (rp + i) (f c a)) (\<lambda>_. ret (g c a))) (put s rp rs) =
      Inr (c', put s rp (rs @ [x])) \<and> Inv (Suc i) c' (rs @ [x])"
    if i: "i < n" "length rs = i" "Inv i c rs" for i c rs
    using ld_up [OF src(1,4) i(1) _ i(2)] st_snoc [OF src(3), of rs "rp + i"] i src(2) step [OF i]
    by (auto simp: bindS_def ret_def)
  then show ?thesis
    using for_up_from [of n Inv "\<lambda>i c. bindS (ld (ap + i)) (\<lambda>a. bindS (st (rp + i) (f c a)) (\<lambda>_. ret (g c a)))" s rp 0 n "[]" c] init
    by simp
qed

lemma for_up_2:
  assumes src: "limbs_at s ap xs" "length xs = n" "limbs_at s bp ys" "length ys = n" "room s rp n" "up_ok rp ap n" "up_ok rp bp n"
    and init: "Inv 0 c []"
    and step: "\<And>i c rs. i < n \<Longrightarrow> length rs = i \<Longrightarrow> Inv i c rs \<Longrightarrow>
      Inv (Suc i) (g c (xs ! i) (ys ! i)) (rs @ [f c (xs ! i) (ys ! i)])"
  shows "\<exists>c' rs. for_up 0 n (\<lambda>i c. bindS (ld (ap + i)) (\<lambda>a. bindS (ld (bp + i)) (\<lambda>b.
      bindS (st (rp + i) (f c a b)) (\<lambda>_. ret (g c a b))))) c s = Inr (c', put s rp rs) \<and> length rs = n \<and> Inv n c' rs"
proof -
  have "\<exists>x c'. bindS (ld (ap + i)) (\<lambda>a. bindS (ld (bp + i)) (\<lambda>b.
      bindS (st (rp + i) (f c a b)) (\<lambda>_. ret (g c a b)))) (put s rp rs) =
      Inr (c', put s rp (rs @ [x])) \<and> Inv (Suc i) c' (rs @ [x])"
    if i: "i < n" "length rs = i" "Inv i c rs" for i c rs
    using ld_up [OF src(1,6) i(1) _ i(2)] ld_up [OF src(3,7) i(1) _ i(2)] st_snoc [OF src(5), of rs "rp + i"]
      i src(2,4) step [OF i]
    by (auto simp: bindS_def ret_def)
  then show ?thesis
    using for_up_from [of n Inv "\<lambda>i c. bindS (ld (ap + i)) (\<lambda>a. bindS (ld (bp + i)) (\<lambda>b.
      bindS (st (rp + i) (f c a b)) (\<lambda>_. ret (g c a b))))" s rp 0 n "[]" c] init
    by simp
qed

lemma mpn_copyi_spec:
  assumes "limbs_at s ap xs" "length xs = n" "room s rp n" "up_ok rp ap n"
  shows "mpn_copyi rp ap n s = Inr ((), put s rp xs)"
proof -
  have "\<exists>c' rs. for_up 0 n (\<lambda>i c. bindS (ld (ap + i)) (\<lambda>a. bindS (st (rp + i) a) (\<lambda>_. ret ()))) () s =
      Inr (c', put s rp rs) \<and> length rs = n \<and> rs = take n xs"
    by (rule for_up_1 [OF assms, where f = "\<lambda>c a. a" and g = "\<lambda>c a. ()" and Inv = "\<lambda>i c rs. rs = take i xs"])
      (use assms(2) in \<open>auto simp: take_Suc_conv_app_nth\<close>)
  moreover have "bindS (st p x) (\<lambda>_. ret ()) = st p x" for p x
    by (rule ext) (simp add: bindS_def ret_def split: sum.splits)
  ultimately show ?thesis using assms(2) by (auto simp: mpn_copyi_def)
qed

text \<open>One turn of a loop that adds, or subtracts, at the weight of limb \<open>i\<close>.\<close>

lemma lval_step:
  assumes "lval rs + LIMB_B ^ i * uint c = v" "length rs = i" "uint r + LIMB_B * uint c' = a + uint c"
  shows "lval (rs @ [r]) + LIMB_B ^ Suc i * uint c' = v + LIMB_B ^ i * a"
proof -
  have "lval (rs @ [r]) + LIMB_B ^ Suc i * uint c' = lval rs + LIMB_B ^ i * (uint r + LIMB_B * uint c')"
    using assms(2) by (simp add: lval_append algebra_simps)
  then show ?thesis unfolding assms(3) using assms(1) by (simp add: algebra_simps)
qed

lemma lval_step_sub:
  assumes "lval rs - LIMB_B ^ i * uint c = v" "length rs = i" "uint r - LIMB_B * uint c' = a - uint c"
  shows "lval (rs @ [r]) - LIMB_B ^ Suc i * uint c' = v + LIMB_B ^ i * a"
proof -
  have "lval (rs @ [r]) - LIMB_B ^ Suc i * uint c' = lval rs + LIMB_B ^ i * (uint r - LIMB_B * uint c')"
    using assms(2) by (simp add: lval_append algebra_simps)
  then show ?thesis unfolding assms(3) using assms(1) by (simp add: algebra_simps)
qed

lemma mpn_add_1_spec:
  assumes "limbs_at s ap xs" "length xs = n" "room s rp n" "up_ok rp ap n" "0 < n"
  shows "\<exists>cy rs. mpn_add_1 rp ap n b s = Inr (cy, put s rp rs) \<and> length rs = n \<and>
    lval rs + LIMB_B ^ n * uint cy = lval xs + uint b \<and> uint cy \<le> 1"
proof -
  let ?Inv = "\<lambda>i (c :: limb) rs. lval rs + LIMB_B ^ i * uint c = lval (take i xs) + uint b \<and> (0 < i \<longrightarrow> uint c \<le> 1)"
  have "\<exists>cy rs. for_up 0 n (\<lambda>i c. bindS (ld (ap + i)) (\<lambda>a. bindS (st (rp + i) (a + c)) (\<lambda>_.
      ret (of_bool (a + c < c))))) b s = Inr (cy, put s rp rs) \<and> length rs = n \<and> ?Inv n cy rs"
  proof (rule for_up_1 [OF assms(1-4), where f = "\<lambda>c a. a + c" and g = "\<lambda>c a. of_bool (a + c < c)"])
    fix i c and rs :: "limb list"
    assume i: "i < n" "length rs = i" "?Inv i c rs"
    have "uint (xs ! i + c) + LIMB_B * uint (of_bool (xs ! i + c < c) :: limb) = uint (xs ! i) + uint c"
      unfolding carry_add(1) [of "xs ! i" c] by simp
    from lval_step [OF conjunct1 [OF i(3)] i(2) this] i assms(2)
    show "?Inv (Suc i) (of_bool (xs ! i + c < c)) (rs @ [xs ! i + c])"
      by (simp add: lval_take_Suc)
  qed simp
  then show ?thesis using assms(2,5) by (simp add: mpn_add_1_def Let_def bindS_def)
qed

lemma mpn_add_n_spec:
  assumes "limbs_at s ap xs" "length xs = n" "limbs_at s bp ys" "length ys = n" "room s rp n" "up_ok rp ap n" "up_ok rp bp n"
  shows "\<exists>cy rs. mpn_add_n rp ap bp n s = Inr (cy, put s rp rs) \<and> length rs = n \<and>
    lval rs + LIMB_B ^ n * uint cy = lval xs + lval ys \<and> uint cy \<le> 1"
proof -
  let ?Inv = "\<lambda>i (c :: limb) rs. lval rs + LIMB_B ^ i * uint c = lval (take i xs) + lval (take i ys) \<and> uint c \<le> 1"
  let ?f = "\<lambda>c a b. a + c + b :: limb" and ?g = "\<lambda>c a b. of_bool (a + c < c) + of_bool (a + c + b < b) :: limb"
  have "\<exists>cy rs. for_up 0 n (\<lambda>i c. bindS (ld (ap + i)) (\<lambda>a. bindS (ld (bp + i)) (\<lambda>b.
      bindS (st (rp + i) (?f c a b)) (\<lambda>_. ret (?g c a b))))) 0 s = Inr (cy, put s rp rs) \<and> length rs = n \<and> ?Inv n cy rs"
  proof (rule for_up_2 [OF assms, where f = ?f and g = ?g])
    fix i c and rs :: "limb list"
    assume i: "i < n" "length rs = i" "?Inv i c rs"
    from i(3) have c: "uint c \<le> 1" by simp
    note step = add_carry_step [OF c, of "xs ! i" "ys ! i"]
    from lval_step [OF conjunct1 [OF i(3)] i(2) conjunct1 [OF step]] step i assms(2,4)
    show "?Inv (Suc i) (?g c (xs ! i) (ys ! i)) (rs @ [?f c (xs ! i) (ys ! i)])"
      by (simp add: lval_take_Suc algebra_simps)
  qed simp
  then show ?thesis using assms(2,4) by (simp add: mpn_add_n_def Let_def)
qed

lemma mpn_sub_1_spec:
  assumes "limbs_at s ap xs" "length xs = n" "room s rp n" "up_ok rp ap n" "0 < n"
  shows "\<exists>cy rs. mpn_sub_1 rp ap n b s = Inr (cy, put s rp rs) \<and> length rs = n \<and>
    lval rs - LIMB_B ^ n * uint cy = lval xs - uint b \<and> uint cy \<le> 1"
proof -
  let ?Inv = "\<lambda>i (c :: limb) rs. lval rs - LIMB_B ^ i * uint c = lval (take i xs) - uint b \<and> (0 < i \<longrightarrow> uint c \<le> 1)"
  have "\<exists>cy rs. for_up 0 n (\<lambda>i c. bindS (ld (ap + i)) (\<lambda>a. bindS (st (rp + i) (a - c)) (\<lambda>_.
      ret (of_bool (a < c))))) b s = Inr (cy, put s rp rs) \<and> length rs = n \<and> ?Inv n cy rs"
  proof (rule for_up_1 [OF assms(1-4), where f = "\<lambda>c a. a - c" and g = "\<lambda>c a. of_bool (a < c)"])
    fix i c and rs :: "limb list"
    assume i: "i < n" "length rs = i" "?Inv i c rs"
    have "uint (xs ! i - c) - LIMB_B * uint (of_bool (xs ! i < c) :: limb) = uint (xs ! i) - uint c"
      unfolding borrow_sub(1) [of "xs ! i" c] by simp
    from lval_step_sub [OF conjunct1 [OF i(3)] i(2) this] i assms(2)
    show "?Inv (Suc i) (of_bool (xs ! i < c)) (rs @ [xs ! i - c])"
      by (simp add: lval_take_Suc)
  qed simp
  then show ?thesis using assms(2,5) by (simp add: mpn_sub_1_def Let_def bindS_def)
qed

lemma mpn_sub_n_spec:
  assumes "limbs_at s ap xs" "length xs = n" "limbs_at s bp ys" "length ys = n" "room s rp n" "up_ok rp ap n" "up_ok rp bp n"
  shows "\<exists>cy rs. mpn_sub_n rp ap bp n s = Inr (cy, put s rp rs) \<and> length rs = n \<and>
    lval rs - LIMB_B ^ n * uint cy = lval xs - lval ys \<and> uint cy \<le> 1"
proof -
  let ?Inv = "\<lambda>i (c :: limb) rs. lval rs - LIMB_B ^ i * uint c = lval (take i xs) - lval (take i ys) \<and> uint c \<le> 1"
  let ?f = "\<lambda>c a b. a - (b + c) :: limb" and ?g = "\<lambda>c a b. of_bool (b + c < c) + of_bool (a < b + c) :: limb"
  have "\<exists>cy rs. for_up 0 n (\<lambda>i c. bindS (ld (ap + i)) (\<lambda>a. bindS (ld (bp + i)) (\<lambda>b.
      bindS (st (rp + i) (?f c a b)) (\<lambda>_. ret (?g c a b))))) 0 s = Inr (cy, put s rp rs) \<and> length rs = n \<and> ?Inv n cy rs"
  proof (rule for_up_2 [OF assms, where f = ?f and g = ?g])
    fix i c and rs :: "limb list"
    assume i: "i < n" "length rs = i" "?Inv i c rs"
    from i(3) have c: "uint c \<le> 1" by simp
    note step = sub_borrow_step [OF c, of "xs ! i" "ys ! i"]
    from lval_step_sub [OF conjunct1 [OF i(3)] i(2) conjunct1 [OF step]] step i assms(2,4)
    show "?Inv (Suc i) (?g c (xs ! i) (ys ! i)) (rs @ [?f c (xs ! i) (ys ! i)])"
      by (simp add: lval_take_Suc algebra_simps)
  qed simp
  then show ?thesis using assms(2,4) by (simp add: mpn_sub_n_def Let_def)
qed

lemma umul_carry_bound: "uint (x :: limb) * uint (y :: limb) + uint (c :: limb) \<le> LIMB_B * (LIMB_B - 1)"
proof -
  have "uint x * uint y \<le> (LIMB_B - 1) * (LIMB_B - 1)"
    using uint_bounds [of x] uint_bounds [of y] by (intro mult_mono) simp_all
  then show ?thesis using uint_bounds [of c] by (simp add: algebra_simps)
qed

lemma mpn_mul_1_spec:
  assumes "limbs_at s up xs" "length xs = n" "room s rp n" "up_ok rp up n" "1 \<le> n"
  shows "\<exists>cl rs. mpn_mul_1 rp up n vl s = Inr (cl, put s rp rs) \<and> length rs = n \<and>
    lval rs + LIMB_B ^ n * uint cl = lval xs * uint vl"
proof -
  let ?Inv = "\<lambda>i (c :: limb) rs. lval rs + LIMB_B ^ i * uint c = lval (take i xs) * uint vl"
  let ?f = "\<lambda>c a. snd (gmp_umul_ppmm a vl) + c" and ?g = "\<lambda>c a. of_bool (snd (gmp_umul_ppmm a vl) + c < c) + fst (gmp_umul_ppmm a vl)"
  have "\<exists>cl rs. for_up 0 n (\<lambda>i c. bindS (ld (up + i)) (\<lambda>a. bindS (st (rp + i) (?f c a)) (\<lambda>_.
      ret (?g c a)))) 0 s = Inr (cl, put s rp rs) \<and> length rs = n \<and> ?Inv n cl rs"
  proof (rule for_up_1 [OF assms(1-4), where f = ?f and g = ?g])
    fix i c and rs :: "limb list"
    assume i: "i < n" "length rs = i" "?Inv i c rs"
    from lval_step [OF i(3,2) mul_carry_step [OF prod.collapse [symmetric]]] i assms(2)
    show "?Inv (Suc i) (?g c (xs ! i)) (rs @ [?f c (xs ! i)])"
      by (simp add: lval_take_Suc algebra_simps)
  qed simp
  then show ?thesis using assms(2,5) by (simp add: mpn_mul_1_def Let_def bindS_def case_prod_beta)
qed

lemma mpn_addmul_1_spec:
  assumes "limbs_at s up xs" "length xs = n" "limbs_at s rp zs" "length zs = n" "up_ok rp up n" "1 \<le> n"
  shows "\<exists>cl rs. mpn_addmul_1 rp up n vl s = Inr (cl, put s rp rs) \<and> length rs = n \<and>
    lval rs + LIMB_B ^ n * uint cl = lval zs + lval xs * uint vl"
proof -
  let ?Inv = "\<lambda>i (c :: limb) rs. lval rs + LIMB_B ^ i * uint c = lval (take i zs) + lval (take i xs) * uint vl"
  let ?l = "\<lambda>c a. snd (gmp_umul_ppmm a vl) + c" and ?h = "\<lambda>c a. of_bool (snd (gmp_umul_ppmm a vl) + c < c) + fst (gmp_umul_ppmm a vl)"
  let ?f = "\<lambda>c a b. b + ?l c a" and ?g = "\<lambda>c a b. ?h c a + of_bool (b + ?l c a < b)"
  have "room s rp n" using limbs_at_room [OF assms(3)] assms(4) by simp
  then have "\<exists>cl rs. for_up 0 n (\<lambda>i c. bindS (ld (up + i)) (\<lambda>a. bindS (ld (rp + i)) (\<lambda>b. bindS (st (rp + i) (?f c a b)) (\<lambda>_.
      ret (?g c a b))))) 0 s = Inr (cl, put s rp rs) \<and> length rs = n \<and> ?Inv n cl rs"
  proof (rule for_up_2 [OF assms(1-4) _ assms(5) up_ok_refl(1), where f = ?f and g = ?g])
    fix i c and rs :: "limb list"
    assume i: "i < n" "length rs = i" "?Inv i c rs"
    have p: "uint (?l c (xs ! i)) + LIMB_B * uint (?h c (xs ! i)) = uint (xs ! i) * uint vl + uint c"
      by (rule mul_carry_step [OF prod.collapse [symmetric]])
    have "uint (?l c (xs ! i)) + LIMB_B * uint (?h c (xs ! i)) + uint (zs ! i) < LIMB_B * LIMB_B"
      unfolding p using umul_carry_bound [of "xs ! i" vl c] uint_bounds(2) [of "zs ! i"]
      by (simp only: right_diff_distrib mult_1_right)
    then have "uint (?f c (xs ! i) (zs ! i)) + LIMB_B * uint (?g c (xs ! i) (zs ! i)) =
        uint (zs ! i) + uint (xs ! i) * uint vl + uint c"
      using add_limb_carry p by simp
    from lval_step [OF i(3,2) this] i assms(2,4)
    show "?Inv (Suc i) (?g c (xs ! i) (zs ! i)) (rs @ [?f c (xs ! i) (zs ! i)])"
      by (simp add: lval_take_Suc algebra_simps)
  qed simp
  then show ?thesis using assms(2,4,6) by (simp add: mpn_addmul_1_def Let_def bindS_def case_prod_beta)
qed

lemma mpn_submul_1_spec:
  assumes "limbs_at s up xs" "length xs = n" "limbs_at s rp zs" "length zs = n" "up_ok rp up n" "1 \<le> n"
  shows "\<exists>cl rs. mpn_submul_1 rp up n vl s = Inr (cl, put s rp rs) \<and> length rs = n \<and>
    lval rs - LIMB_B ^ n * uint cl = lval zs - lval xs * uint vl"
proof -
  let ?Inv = "\<lambda>i (c :: limb) rs. lval rs - LIMB_B ^ i * uint c = lval (take i zs) - lval (take i xs) * uint vl"
  let ?l = "\<lambda>c a. snd (gmp_umul_ppmm a vl) + c" and ?h = "\<lambda>c a. of_bool (snd (gmp_umul_ppmm a vl) + c < c) + fst (gmp_umul_ppmm a vl)"
  let ?f = "\<lambda>c a b. b - ?l c a" and ?g = "\<lambda>c a b. ?h c a + of_bool (b < b - ?l c a)"
  have "room s rp n" using limbs_at_room [OF assms(3)] assms(4) by simp
  then have "\<exists>cl rs. for_up 0 n (\<lambda>i c. bindS (ld (up + i)) (\<lambda>a. bindS (ld (rp + i)) (\<lambda>b. bindS (st (rp + i) (?f c a b)) (\<lambda>_.
      ret (?g c a b))))) 0 s = Inr (cl, put s rp rs) \<and> length rs = n \<and> ?Inv n cl rs"
  proof (rule for_up_2 [OF assms(1-4) _ assms(5) up_ok_refl(1), where f = ?f and g = ?g])
    fix i c and rs :: "limb list"
    assume i: "i < n" "length rs = i" "?Inv i c rs"
    have p: "uint (?l c (xs ! i)) + LIMB_B * uint (?h c (xs ! i)) = uint (xs ! i) * uint vl + uint c"
      by (rule mul_carry_step [OF prod.collapse [symmetric]])
    have "uint (?f c (xs ! i) (zs ! i)) - LIMB_B * uint (?g c (xs ! i) (zs ! i)) =
        (uint (zs ! i) - uint (xs ! i) * uint vl) - uint c"
      using sub_limb_borrow [of "?l c (xs ! i)" "?h c (xs ! i)" "zs ! i"] umul_carry_bound [of "xs ! i" vl c]
      unfolding p by simp
    from lval_step_sub [OF i(3,2) this] i assms(2,4)
    show "?Inv (Suc i) (?g c (xs ! i) (zs ! i)) (rs @ [?f c (xs ! i) (zs ! i)])"
      by (simp add: lval_take_Suc algebra_simps)
  qed simp
  then show ?thesis using assms(2,4,6) by (simp add: mpn_submul_1_def Let_def bindS_def case_prod_beta)
qed

text \<open>Addition and subtraction of operands of two sizes.\<close>

lemma put_put:
  "j \<le> length rs \<Longrightarrow> put (put s rp rs) (rp + j) rs' = put s rp (take j rs @ rs' @ drop (j + length rs') rs)"
  by (auto simp: put_def nth_append intro!: limb_mem.equality ext arg_cong [where f = "nth rs"])

lemma limbs_at_rest:
  assumes "limbs_at s ap xs" "up_ok rp ap (length xs)" "length rs = n"
  shows "limbs_at (put s rp rs) (ap + n) (drop n xs)"
  using assms by (auto simp: limbs_at_def cells_put up_ok_def add.assoc)

lemma limbs_at_take: "limbs_at s ap xs \<Longrightarrow> limbs_at s ap (take n xs)"
  by (simp add: limbs_at_def)

lemma room_rest: "room s rp n \<Longrightarrow> k \<le> n \<Longrightarrow> room s (rp + k) (n - k)"
  by (auto simp: room_def add.assoc)

lemma room_less: "room s rp n \<Longrightarrow> k \<le> n \<Longrightarrow> room s rp k"
  by (simp add: room_def)

lemma up_ok_less: "up_ok rp ap n \<Longrightarrow> k \<le> n \<Longrightarrow> up_ok rp ap k"
  by (auto simp: up_ok_def)

lemma up_ok_rest: "up_ok rp ap n \<Longrightarrow> k \<le> n \<Longrightarrow> up_ok (rp + k) (ap + k) (n - k)"
  by (auto simp: up_ok_def)

lemma lval_take_drop: "n \<le> length xs \<Longrightarrow> lval (take n xs) + LIMB_B ^ n * lval (drop n xs) = lval xs"
  using lval_append [of "take n xs" "drop n xs"] by simp

lemma mpn_add_spec:
  assumes "limbs_at s ap xs" "limbs_at s bp ys" "length xs = an" "length ys = bn" "bn \<le> an"
    and "room s rp an" "up_ok rp ap an" "up_ok rp bp bn"
  shows "\<exists>cy rs. mpn_add rp ap an bp bn s = Inr (cy, put s rp rs) \<and> length rs = an \<and>
    lval rs + LIMB_B ^ an * uint cy = lval xs + lval ys \<and> uint cy \<le> 1"
proof -
  obtain cy rs where lo: "mpn_add_n rp ap bp bn s = Inr (cy, put s rp rs)" "length rs = bn"
      "lval rs + LIMB_B ^ bn * uint cy = lval (take bn xs) + lval ys" "uint cy \<le> 1"
    using mpn_add_n_spec [OF limbs_at_take [OF assms(1), of bn] _ assms(2,4) room_less [OF assms(6,5)] up_ok_less [OF assms(7,5)] assms(8)]
      assms(3,5) by auto
  show ?thesis
  proof (cases "bn < an")
    case True
    obtain cy' rs' where hi: "mpn_add_1 (rp + bn) (ap + bn) (an - bn) cy (put s rp rs) = Inr (cy', put (put s rp rs) (rp + bn) rs')"
      "length rs' = an - bn" "lval rs' + LIMB_B ^ (an - bn) * uint cy' = lval (drop bn xs) + uint cy" "uint cy' \<le> 1"
      using mpn_add_1_spec [OF limbs_at_rest [OF assms(1)], of rp rs bn "an - bn" "rp + bn" cy] assms lo(2) True
        room_rest [OF assms(6,5)] up_ok_rest [OF assms(7,5)] by auto
    have "lval (rs @ rs') + LIMB_B ^ an * uint cy' = lval rs + LIMB_B ^ bn * (lval rs' + LIMB_B ^ (an - bn) * uint cy')"
      using lo(2) assms(5) by (simp add: lval_append distrib_left flip: power_add mult.assoc)
    also have "\<dots> = lval xs + lval ys"
      unfolding hi(3) using lo(3) lval_take_drop [of bn xs] assms(3,5) by (simp add: distrib_left)
    finally show ?thesis
      using lo hi True assms(5) by (intro exI [of _ cy'] exI [of _ "rs @ rs'"]) (simp add: mpn_add_def bindS_def put_put)
  next
    case False
    then show ?thesis using lo assms(3,5) by (intro exI [of _ cy] exI [of _ rs]) (simp add: mpn_add_def bindS_def ret_def)
  qed
qed

lemma mpn_sub_spec:
  assumes "limbs_at s ap xs" "limbs_at s bp ys" "length xs = an" "length ys = bn" "bn \<le> an"
    and "room s rp an" "up_ok rp ap an" "up_ok rp bp bn"
  shows "\<exists>cy rs. mpn_sub rp ap an bp bn s = Inr (cy, put s rp rs) \<and> length rs = an \<and>
    lval rs - LIMB_B ^ an * uint cy = lval xs - lval ys \<and> uint cy \<le> 1"
proof -
  obtain cy rs where lo: "mpn_sub_n rp ap bp bn s = Inr (cy, put s rp rs)" "length rs = bn"
      "lval rs - LIMB_B ^ bn * uint cy = lval (take bn xs) - lval ys" "uint cy \<le> 1"
    using mpn_sub_n_spec [OF limbs_at_take [OF assms(1), of bn] _ assms(2,4) room_less [OF assms(6,5)] up_ok_less [OF assms(7,5)] assms(8)]
      assms(3,5) by auto
  show ?thesis
  proof (cases "bn < an")
    case True
    obtain cy' rs' where hi: "mpn_sub_1 (rp + bn) (ap + bn) (an - bn) cy (put s rp rs) = Inr (cy', put (put s rp rs) (rp + bn) rs')"
      "length rs' = an - bn" "lval rs' - LIMB_B ^ (an - bn) * uint cy' = lval (drop bn xs) - uint cy" "uint cy' \<le> 1"
      using mpn_sub_1_spec [OF limbs_at_rest [OF assms(1)], of rp rs bn "an - bn" "rp + bn" cy] assms lo(2) True
        room_rest [OF assms(6,5)] up_ok_rest [OF assms(7,5)] by auto
    have "lval (rs @ rs') - LIMB_B ^ an * uint cy' = lval rs + LIMB_B ^ bn * (lval rs' - LIMB_B ^ (an - bn) * uint cy')"
      using lo(2) assms(5) by (simp add: lval_append right_diff_distrib flip: power_add mult.assoc)
    also have "\<dots> = lval xs - lval ys"
      unfolding hi(3) using lo(3) lval_take_drop [of bn xs] assms(3,5) by (simp add: right_diff_distrib)
    finally show ?thesis
      using lo hi True assms(5) by (intro exI [of _ cy'] exI [of _ "rs @ rs'"]) (simp add: mpn_sub_def bindS_def put_put)
  next
    case False
    then show ?thesis using lo assms(3,5) by (intro exI [of _ cy] exI [of _ rs]) (simp add: mpn_sub_def bindS_def ret_def)
  qed
qed

text \<open>The product, one row per limb of the second operand.\<close>

lemma for_up_inv:
  assumes "\<And>i c s. i0 \<le> i \<Longrightarrow> i < i0 + k \<Longrightarrow> P i c s \<Longrightarrow> \<exists>c' s'. body i c s = Inr (c', s') \<and> P (Suc i) c' s'"
    and "P i0 c s"
  shows "\<exists>c' s'. for_up i0 k body c s = Inr (c', s') \<and> P (i0 + k) c' s'"
  using assms
proof (induction k arbitrary: i0 c s)
  case 0
  then show ?case by (simp add: ret_def)
next
  case (Suc k)
  from Suc.prems(1) [of i0 c s] Suc.prems(2) obtain c' s' where "body i0 c s = Inr (c', s')" "P (Suc i0) c' s'" by auto
  with Suc.IH [of "Suc i0" c' s'] Suc.prems(1) show ?case by (simp add: bindS_def)
qed

lemma st_put: "cells s p \<noteq> None \<Longrightarrow> st p x s = Inr ((), put s p [x])"
  by (auto simp: st_def put_def intro!: limb_mem.equality ext)

lemma room_cell: "room s p n \<Longrightarrow> p \<le> q \<Longrightarrow> q < p + n \<Longrightarrow> cells s q \<noteq> None"
  unfolding room_def by (metis le_add_diff_inverse nat_add_left_cancel_less)

lemma limbs_at_part: "limbs_at s p xs \<Longrightarrow> limbs_at s (p + j) (drop j xs)"
  by (auto simp: limbs_at_def add.assoc)

lemma mul_row:
  assumes s: "limbs_at s up xs" "length xs = un" "1 \<le> un" "limbs_at s vp ys" "j < length ys" "room s rp (un + length ys)"
    and d: "rp + un + length ys \<le> up \<or> up + un \<le> rp" "rp + un + length ys \<le> vp \<or> vp + length ys \<le> rp"
    and rs: "length rs = un + j" "lval rs = lval xs * lval (take j ys)"
  shows "\<exists>rs'. bindS (ld (vp + j)) (\<lambda>v. bindS (mpn_addmul_1 (rp + j) up un v) (\<lambda>c. st (rp + j + un) c)) (put s rp rs) =
      Inr ((), put s rp rs') \<and> length rs' = un + Suc j \<and> lval rs' = lval xs * lval (take (Suc j) ys)"
proof -
  have "limbs_at (put s rp rs) up xs" "limbs_at (put s rp rs) vp ys"
    using s(2,5) d rs(1) by (auto intro!: limbs_at_put_outside s)
  moreover have "limbs_at (put s rp rs) (rp + j) (drop j rs)" by (rule limbs_at_part) simp
  moreover have "up_ok (rp + j) up un" using d(1) s(5) by (auto simp: up_ok_def)
  ultimately obtain c zs where z: "mpn_addmul_1 (rp + j) up un (ys ! j) (put s rp rs) = Inr (c, put (put s rp rs) (rp + j) zs)"
      "length zs = un" "lval zs + LIMB_B ^ un * uint c = lval (drop j rs) + lval xs * uint (ys ! j)"
    and v: "ld (vp + j) (put s rp rs) = Inr (ys ! j, put s rp rs)"
    using mpn_addmul_1_spec [of "put s rp rs" up xs un "rp + j" "drop j rs" "ys ! j"] s(2,3,5) rs(1) ld_limbs_at by auto
  have p: "put (put s rp rs) (rp + j) zs = put s rp (take j rs @ zs)" using rs(1) z(2) by (simp add: put_put)
  have l: "length (take j rs @ zs) = un + j" using rs(1) z(2) by simp
  have "st (rp + j + un) c (put s rp (take j rs @ zs)) = Inr ((), put s rp ((take j rs @ zs) @ [c]))"
    using s(5) l by (intro st_snoc [OF s(6)]) simp_all
  moreover have "lval ((take j rs @ zs) @ [c]) = lval (take j rs) + LIMB_B ^ j * (lval zs + LIMB_B ^ un * uint c)"
    using rs(1) z(2) by (simp add: lval_append power_add algebra_simps)
  moreover have "\<dots> = lval xs * lval (take (Suc j) ys)"
    unfolding z(3) using lval_take_drop [of j rs] rs s(5) by (simp add: lval_take_Suc algebra_simps)
  ultimately show ?thesis using v z(1) p l by (intro exI [of _ "(take j rs @ zs) @ [c]"]) (simp add: bindS_def)
qed

lemma mpn_mul_spec:
  assumes s: "limbs_at s up xs" "length xs = un" "limbs_at s vp ys" "length ys = vn" "1 \<le> vn" "vn \<le> un" "room s rp (un + vn)"
    and d: "rp + un + vn \<le> up \<or> up + un \<le> rp" "rp + un + vn \<le> vp \<or> vp + vn \<le> rp"
  shows "\<exists>rs. mpn_mul rp up un vp vn s = Inr (rs ! (un + vn - 1), put s rp rs) \<and> length rs = un + vn \<and>
    lval rs = lval xs * lval ys"
proof -
  let ?P = "\<lambda>j (_ :: unit) t. \<exists>rs. t = put s rp rs \<and> length rs = un + j \<and> lval rs = lval xs * lval (take j ys)"
  let ?row = "\<lambda>j (_ :: unit). bindS (ld (vp + j)) (\<lambda>v. bindS (mpn_addmul_1 (rp + j) up un v) (\<lambda>c. st (rp + j + un) c))"
  have v: "ld vp s = Inr (ys ! 0, s)" using ld_limbs_at [OF s(3), of 0] s(4,5) by simp
  have "up_ok rp up un" using d(1) by (auto simp: up_ok_def)
  then obtain c rs where m: "mpn_mul_1 rp up un (ys ! 0) s = Inr (c, put s rp rs)" "length rs = un"
      "lval rs + LIMB_B ^ un * uint c = lval xs * uint (ys ! 0)"
    using mpn_mul_1_spec [OF s(1,2) room_less [OF s(7)], of "ys ! 0"] s(5,6) by auto
  have t: "st (rp + un) c (put s rp rs) = Inr ((), put s rp (rs @ [c]))"
    using m(2) s(5) by (intro st_snoc [OF s(7)]) simp_all
  have "\<exists>c' t. for_up 1 (vn - 1) ?row () (put s rp (rs @ [c])) = Inr (c', t) \<and> ?P (1 + (vn - 1)) c' t"
  proof (rule for_up_inv)
    fix i :: nat and c :: unit and t assume i: "1 \<le> i" "i < 1 + (vn - 1)" "?P i c t"
    then obtain rs where rs: "t = put s rp rs" "length rs = un + i" "lval rs = lval xs * lval (take i ys)" by auto
    have "i < length ys" "1 \<le> un" "room s rp (un + length ys)" using i(1,2) s by simp_all
    with mul_row [OF s(1,2) _ s(3), of i rp rs] d rs(2,3) s(4) obtain rs' where
      "?row i c t = Inr ((), put s rp rs')" "length rs' = un + Suc i" "lval rs' = lval xs * lval (take (Suc i) ys)"
      unfolding rs(1) by auto
    then show "\<exists>c' s'. ?row i c t = Inr (c', s') \<and> ?P (Suc i) c' s'" by blast
  next
    have "take (Suc 0) ys = [ys ! 0]" using s(4,5) by (simp add: take_Suc_conv_app_nth)
    with m show "?P 1 () (put s rp (rs @ [c]))" by (intro exI [of _ "rs @ [c]"]) (simp add: lval_append)
  qed
  then obtain c' zs where z: "for_up 1 (vn - 1) ?row () (put s rp (rs @ [c])) = Inr (c', put s rp zs)"
    "length zs = un + vn" "lval zs = lval xs * lval ys" using s(4,5) by auto
  moreover have "ld (rp + (vn - 1) + un) (put s rp zs) = Inr (zs ! (un + vn - 1), put s rp zs)"
    using ld_limbs_at [OF limbs_at_put [of s rp zs], of "un + vn - 1"] z(2) s(5) by (simp add: ac_simps)
  ultimately show ?thesis using v m(1) t s(5,6) by (intro exI [of _ zs]) (simp add: mpn_mul_def bindS_def)
qed

lemma mpn_mul_n_spec:
  assumes "limbs_at s ap xs" "length xs = n" "limbs_at s bp ys" "length ys = n" "1 \<le> n" "room s rp (n + n)"
    and "rp + n + n \<le> ap \<or> ap + n \<le> rp" "rp + n + n \<le> bp \<or> bp + n \<le> rp"
  shows "\<exists>rs. mpn_mul_n rp ap bp n s = Inr ((), put s rp rs) \<and> length rs = n + n \<and> lval rs = lval xs * lval ys"
  using mpn_mul_spec [OF assms(1-5) _ assms(6-8)] by (auto simp: mpn_mul_n_def bindS_def ret_def)

lemma mpn_sqr_spec:
  assumes "limbs_at s ap xs" "length xs = n" "1 \<le> n" "room s rp (n + n)" "rp + n + n \<le> ap \<or> ap + n \<le> rp"
  shows "\<exists>rs. mpn_sqr rp ap n s = Inr ((), put s rp rs) \<and> length rs = n + n \<and> lval rs = (lval xs)\<^sup>2"
  using mpn_mul_spec [OF assms(1,2) assms(1-3) _ assms(4,5,5)]
  by (auto simp: mpn_sqr_def bindS_def ret_def power2_eq_square)

text \<open>Copying downwards, clearing, comparing and stripping leading zeros.\<close>

lemma mpn_copyd_spec:
  assumes "limbs_at s ap xs" "length xs = n" "room s rp n" "down_ok rp ap n"
  shows "mpn_copyd rp ap n s = Inr ((), put s rp xs)"
proof -
  obtain c rs where "for_down n (\<lambda>i _. bindS (ld (ap + i)) (\<lambda>x. st (rp + i) x)) () s = Inr (c, put s rp rs)"
    "length rs = n" "rs = drop 0 xs"
  proof (rule for_down_put [where Inv = "\<lambda>k c rs. rs = drop k xs" and rp = rp])
    fix k and c :: unit and rs assume k: "k < n" "length rs = n - Suc k" "rs = drop (Suc k) xs"
    then show "\<exists>x c'. bindS (ld (ap + k)) (\<lambda>x. st (rp + k) x) (put s (rp + Suc k) rs) =
        Inr (c', put s (rp + k) (x # rs)) \<and> x # rs = drop k xs"
      using ld_down [OF assms(1,4) k(1) _ k(2)] st_cons [OF assms(3) k(1,2)] assms(2)
      by (intro exI [of _ "xs ! k"] exI [of _ "()"]) (simp add: bindS_def Cons_nth_drop_Suc)
  qed (use assms(2) in simp_all)
  then show ?thesis by (simp add: mpn_copyd_def)
qed

lemma mpn_zero_spec: "room s rp n \<Longrightarrow> mpn_zero rp n s = Inr ((), put s rp (replicate n 0))"
proof -
  assume r: "room s rp n"
  obtain c rs where "for_down n (\<lambda>i _. st (rp + i) 0) () s = Inr (c, put s rp rs)"
    "length rs = n" "rs = replicate (n - 0) 0"
  proof (rule for_down_put [where Inv = "\<lambda>k c rs. rs = replicate (n - k) 0" and rp = rp])
    fix k and c :: unit and rs assume k: "k < n" "length rs = n - Suc k" "rs = replicate (n - Suc k) (0 :: limb)"
    then have "0 # rs = replicate (n - k) 0" by (simp add: Suc_diff_Suc flip: replicate_Suc)
    then show "\<exists>x c'. st (rp + k) 0 (put s (rp + Suc k) rs) = Inr (c', put s (rp + k) (x # rs)) \<and> x # rs = replicate (n - k) 0"
      using st_cons [OF r k(1,2)] by blast
  qed simp_all
  then show ?thesis by (simp add: mpn_zero_def)
qed

lemma lval_snoc: "length xs = n \<Longrightarrow> lval (xs @ [x]) = lval xs + LIMB_B ^ n * uint x"
  by (simp add: lval_append)

lemma sgn_lval_snoc:
  assumes "length xs = n" "length ys = n" "x \<noteq> y"
  shows "sgn (lval (xs @ [x]) - lval (ys @ [y])) = (if y < x then 1 else - 1)"
proof -
  have less: "lval as + LIMB_B ^ n * uint a < lval bs + LIMB_B ^ n * uint b" if "length as = n" "a < b" for as bs and a b :: limb
  proof -
    have "uint a + 1 \<le> uint b" using that(2) unfolding uint_limb_less by linarith
    then have "LIMB_B ^ n * (uint a + 1) \<le> LIMB_B ^ n * uint b" by (intro mult_left_mono) simp_all
    then show ?thesis using lval_less [of as] lval_nonneg [of bs] that(1) by (simp add: distrib_left)
  qed
  show ?thesis using less [of xs x y ys] less [of ys y x xs] assms
    by (auto simp: lval_snoc linorder_not_less le_less)
qed

lemma limbs_at_snoc: "limbs_at s p (xs @ [x]) \<longleftrightarrow> limbs_at s p xs \<and> cells s (p + length xs) = Some (Some x)"
  by (auto simp: limbs_at_def nth_append less_Suc_eq)

lemma ld_snoc: "limbs_at s p (xs @ [x]) \<Longrightarrow> length xs = n \<Longrightarrow> ld (p + n) s = Inr (x, s)"
  by (simp add: limbs_at_snoc ld_def)

lemma mpn_cmp_spec:
  "limbs_at s ap xs \<Longrightarrow> limbs_at s bp ys \<Longrightarrow> length xs = n \<Longrightarrow> length ys = n \<Longrightarrow>
    mpn_cmp ap bp n s = Inr (sgn (lval xs - lval ys), s)"
proof (induction n arbitrary: xs ys)
  case (Suc n)
  obtain xs' x ys' y where e: "xs = xs' @ [x]" "ys = ys' @ [y]" "length xs' = n" "length ys' = n"
    using Suc.prems(3,4) unfolding length_Suc_conv_rev by blast
  have l: "ld (ap + n) s = Inr (x, s)" "ld (bp + n) s = Inr (y, s)"
    using ld_snoc Suc.prems(1,2) e by blast+
  show ?case
  proof (cases "x = y")
    case True
    then have "mpn_cmp ap bp n s = Inr (sgn (lval xs - lval ys), s)"
      using Suc.IH [of xs' ys'] Suc.prems(1,2) e by (simp add: limbs_at_snoc lval_snoc)
    then show ?thesis using l True by (simp add: bindS_def)
  next
    case False
    then show ?thesis using l sgn_lval_snoc [OF e(3,4), of x y] e by (simp add: bindS_def ret_def)
  qed
qed (simp add: ret_def)

lemma uint_pos: "x \<noteq> 0 \<Longrightarrow> 1 \<le> uint (x :: limb)"
  using uint_bounds(1) [of x] uint_0_iff [of x] by linarith

lemma lval_ge_top:
  assumes "xs \<noteq> []" "last xs \<noteq> 0"
  shows "LIMB_B ^ (length xs - 1) \<le> lval xs"
proof -
  have "LIMB_B ^ (length xs - 1) * 1 \<le> LIMB_B ^ (length xs - 1) * uint (last xs)"
    using uint_pos [OF assms(2)] by (intro mult_left_mono) simp_all
  moreover have "lval xs = lval (butlast xs) + LIMB_B ^ (length xs - 1) * uint (last xs)"
    using assms(1) lval_snoc [of "butlast xs" "length xs - 1" "last xs"] by simp
  ultimately show ?thesis using lval_nonneg [of "butlast xs"] by linarith
qed

lemma mpn_cmp4_spec:
  assumes "limbs_at s ap xs" "limbs_at s bp ys"
    and "xs \<noteq> [] \<Longrightarrow> last xs \<noteq> 0" "ys \<noteq> [] \<Longrightarrow> last ys \<noteq> 0"
  shows "mpn_cmp4 ap (length xs) bp (length ys) s = Inr (sgn (lval xs - lval ys), s)"
proof -
  have less: "lval as < lval bs" if "length as < length bs" "last bs \<noteq> 0" for as bs
  proof -
    have "LIMB_B ^ length as \<le> LIMB_B ^ (length bs - 1)" using that(1) less_imp_le [OF LIMB_B_pos(3)] by (intro power_increasing) simp_all
    moreover have "bs \<noteq> []" using that(1) by auto
    ultimately show ?thesis using lval_less [of as] lval_ge_top [of bs] that(2) by linarith
  qed
  show ?thesis
  proof (cases "length xs = length ys")
    case True
    then show ?thesis using mpn_cmp_spec [OF assms(1,2)] by (simp add: mpn_cmp4_def)
  next
    case False
    then consider "length xs < length ys" "ys \<noteq> []" | "length ys < length xs" "xs \<noteq> []" by fastforce
    then show ?thesis
      by cases (use less [of xs ys] less [of ys xs] assms(3,4) in \<open>auto simp: mpn_cmp4_def ret_def\<close>)
  qed
qed

lemma mpn_normalized_size_spec:
  "limbs_at s xp xs \<Longrightarrow> length xs = n \<Longrightarrow> \<exists>k \<le> n. mpn_normalized_size xp n s = Inr (k, s) \<and>
    lval (take k xs) = lval xs \<and> (0 < k \<longrightarrow> xs ! (k - 1) \<noteq> 0)"
proof (induction n arbitrary: xs)
  case (Suc n)
  obtain xs' x where e: "xs = xs' @ [x]" "length xs' = n"
    using Suc.prems(2) unfolding length_Suc_conv_rev by blast
  show ?case
  proof (cases "x = 0")
    case True
    from Suc.IH [of xs'] Suc.prems e obtain k where "k \<le> n" "mpn_normalized_size xp n s = Inr (k, s)"
      "lval (take k xs') = lval xs'" "0 < k \<longrightarrow> xs' ! (k - 1) \<noteq> 0" by (auto simp: limbs_at_snoc)
    then show ?thesis using e True ld_snoc Suc.prems(1)
      by (intro exI [of _ k]) (auto simp: bindS_def lval_snoc nth_append)
  next
    case False
    then show ?thesis using e ld_snoc Suc.prems(1)
      by (intro exI [of _ "Suc n"]) (auto simp: bindS_def ret_def nth_append)
  qed
qed (simp add: ret_def)

lemma lval_0_iff: "lval xs = 0 \<longleftrightarrow> (\<forall>x \<in> set xs. x = 0)"
proof (induction xs)
  case (Cons x xs)
  then show ?case using lval_nonneg [of xs] uint_bounds(1) [of x] by (auto simp: add_nonneg_eq_0_iff uint_0_iff)
qed simp

lemma mpn_zero_p_spec:
  assumes "limbs_at s rp xs" "length xs = n"
  shows "mpn_zero_p rp n s = Inr (lval xs = 0, s)"
proof -
  obtain k where k: "k \<le> n" "mpn_normalized_size rp n s = Inr (k, s)"
    "lval (take k xs) = lval xs" "0 < k \<longrightarrow> xs ! (k - 1) \<noteq> 0"
    using mpn_normalized_size_spec [OF assms] by blast
  have "k = 0 \<longleftrightarrow> lval xs = 0"
  proof
    assume "lval xs = 0"
    then show "k = 0" using k(1,4) assms(2) nth_mem [of "k - 1" xs] by (auto simp: lval_0_iff)
  qed (use k(3) in simp)
  then show ?thesis using k(2) by (simp add: mpn_zero_p_def bindS_def ret_def)
qed

end
