(* ===== verification/Mpn_Shift.thy ===== *)
theory Mpn_Shift
  imports Mpn_Basic
begin

unbundle bit_operations_syntax

text \<open>
  Shifts, bit scans, complement and negation of the mpn layer of mini-gmp.  The loops that need not
  return are partial functions; \<^const>\<open>No_return\<close> stands for a run that does not end.
\<close>

section \<open>Shifts\<close>

definition mpn_lshift :: "nat \<Rightarrow> nat \<Rightarrow> nat \<Rightarrow> nat \<Rightarrow> limb mp" where
  "mpn_lshift rp up n cnt =
     bindS (assertS (1 \<le> n)) (\<lambda>_.
     bindS (assertS (1 \<le> cnt)) (\<lambda>_.
     bindS (assertS (cnt < GMP_LIMB_BITS)) (\<lambda>_.
     let tnc = GMP_LIMB_BITS - cnt in
     bindS (ld (up + (n - 1))) (\<lambda>low_limb.
     let retval = drop_bit tnc low_limb; high_limb = push_bit cnt low_limb in
     bindS (for_down (n - 1) (\<lambda>i high_limb.
       bindS (ld (up + i)) (\<lambda>low_limb.
       bindS (st (rp + 1 + i) (high_limb OR drop_bit tnc low_limb)) (\<lambda>_.
       ret (push_bit cnt low_limb)))) high_limb) (\<lambda>high_limb.
     bindS (st rp high_limb) (\<lambda>_.
     ret retval))))))"

definition mpn_rshift :: "nat \<Rightarrow> nat \<Rightarrow> nat \<Rightarrow> nat \<Rightarrow> limb mp" where
  "mpn_rshift rp up n cnt =
     bindS (assertS (1 \<le> n)) (\<lambda>_.
     bindS (assertS (1 \<le> cnt)) (\<lambda>_.
     bindS (assertS (cnt < GMP_LIMB_BITS)) (\<lambda>_.
     let tnc = GMP_LIMB_BITS - cnt in
     bindS (ld up) (\<lambda>high_limb.
     let retval = push_bit tnc high_limb; low_limb = drop_bit cnt high_limb in
     bindS (for_up 0 (n - 1) (\<lambda>i low_limb.
       bindS (ld (up + 1 + i)) (\<lambda>high_limb.
       bindS (st (rp + i) (low_limb OR push_bit tnc high_limb)) (\<lambda>_.
       ret (drop_bit cnt high_limb)))) low_limb) (\<lambda>low_limb.
     bindS (st (rp + (n - 1)) low_limb) (\<lambda>_.
     ret retval))))))"

section \<open>Scans\<close>

partial_function (option) scan_loop ::
  "limb \<Rightarrow> nat \<Rightarrow> nat \<Rightarrow> nat \<Rightarrow> limb \<Rightarrow> limb_mem \<Rightarrow> (c_error \<times> limb_mem + (limb \<times> nat) option \<times> limb_mem) option" where
  "scan_loop l i up un ux s =
     (if l = 0
      then if i + 1 = un then Some (Inr (None, s))
           else (case ld (up + (i + 1)) s of
                   Inl e \<Rightarrow> Some (Inl e)
                 | Inr (x, s') \<Rightarrow> scan_loop (ux XOR x) (i + 1) up un ux s')
      else Some (Inr (Some (l, i), s)))"

definition mpn_common_scan :: "limb \<Rightarrow> nat \<Rightarrow> nat \<Rightarrow> nat \<Rightarrow> limb \<Rightarrow> limb mp" where
  "mpn_common_scan l i up un ux =
     bindS (assertS (ux = 0 \<or> ux = GMP_LIMB_MAX)) (\<lambda>_.
     bindS (assertS (i \<le> un)) (\<lambda>_.
     bindS (\<lambda>s. case scan_loop l i up un ux s of None \<Rightarrow> Inl (No_return, s) | Some r \<Rightarrow> r) (\<lambda>r.
     case r of
       None \<Rightarrow> ret (if ux = 0 then NOT 0 else of_nat (un * GMP_LIMB_BITS))
     | Some (l, i) \<Rightarrow>
         (case gmp_ctz l of
            None \<Rightarrow> stop No_return
          | Some cnt \<Rightarrow> ret (of_nat i * of_nat GMP_LIMB_BITS + of_nat cnt)))))"

definition mpn_scan1 :: "nat \<Rightarrow> nat \<Rightarrow> limb mp" where
  "mpn_scan1 ptr b =
     (let i = b div GMP_LIMB_BITS in
      bindS (ld (ptr + i)) (\<lambda>x.
      mpn_common_scan (x AND push_bit (b mod GMP_LIMB_BITS) GMP_LIMB_MAX) i ptr i 0))"

definition mpn_scan0 :: "nat \<Rightarrow> nat \<Rightarrow> limb mp" where
  "mpn_scan0 ptr b =
     (let i = b div GMP_LIMB_BITS in
      bindS (ld (ptr + i)) (\<lambda>x.
      mpn_common_scan (NOT x AND push_bit (b mod GMP_LIMB_BITS) GMP_LIMB_MAX) i ptr i GMP_LIMB_MAX))"

section \<open>Complement and negation\<close>

definition mpn_com :: "nat \<Rightarrow> nat \<Rightarrow> nat \<Rightarrow> unit mp" where
  "mpn_com rp up n = for_up 0 n (\<lambda>i _. bindS (ld (up + i)) (\<lambda>x. bindS (st (rp + i) (NOT x)) (\<lambda>_. ret ()))) ()"

partial_function (option) neg_loop ::
  "nat \<Rightarrow> nat \<Rightarrow> int \<Rightarrow> limb_mem \<Rightarrow> (c_error \<times> limb_mem + limb \<times> limb_mem) option" where
  "neg_loop rp up n s =
     (case ld up s of
        Inl e \<Rightarrow> Some (Inl e)
      | Inr (x, s) \<Rightarrow>
          if x = 0
          then (case st rp 0 s of
                  Inl e \<Rightarrow> Some (Inl e)
                | Inr (_, s) \<Rightarrow> if n - 1 = 0 then Some (Inr (0, s)) else neg_loop (rp + 1) (up + 1) (n - 1) s)
          else Some (bindS (st rp (- x)) (\<lambda>_.
                     bindS (mpn_com (rp + 1) (up + 1) (nat (n - 1))) (\<lambda>_.
                     ret 1)) s))"

definition mpn_neg :: "nat \<Rightarrow> nat \<Rightarrow> int \<Rightarrow> limb mp" where
  "mpn_neg rp up n s = (case neg_loop rp up n s of None \<Rightarrow> Inl (No_return, s) | Some r \<Rightarrow> r)"

declare scan_loop.simps [code] neg_loop.simps [code]

section \<open>What the shifts compute\<close>

lemma shift_parts:
  assumes "0 < cnt" "cnt < 64"
  shows "uint (push_bit cnt x) + LIMB_B * uint (drop_bit (64 - cnt) x) = 2 ^ cnt * uint (x :: limb)"
proof -
  have "2 ^ cnt * uint x = 2 ^ cnt * uint x mod LIMB_B + LIMB_B * (2 ^ cnt * uint x div LIMB_B)" by simp
  moreover have "uint (push_bit cnt x) = 2 ^ cnt * uint x mod LIMB_B"
    unfolding unsigned_push_bit_eq by (simp add: push_bit_eq_mult take_bit_eq_mod LIMB_B_def mult.commute)
  moreover have "LIMB_B = 2 ^ cnt * 2 ^ (64 - cnt)" using assms by (simp add: LIMB_B_def flip: power_add)
  moreover have "2 ^ cnt * uint x div (2 ^ cnt * 2 ^ (64 - cnt)) = uint x div 2 ^ (64 - cnt)"
    by (rule div_mult_mult1) simp
  moreover have "uint (drop_bit (64 - cnt) x) = uint x div 2 ^ (64 - cnt)"
    using uint_bounds [of x] unfolding unsigned_drop_bit_eq
    by (simp add: drop_bit_eq_div take_bit_int_eq_self LIMB_B_def)
  ultimately show ?thesis by argo
qed

lemma shift_or:
  assumes "0 < cnt" "cnt < 64"
  shows "uint (push_bit cnt x OR drop_bit (64 - cnt) y) = uint (push_bit cnt x) + uint (drop_bit (64 - cnt) (y :: limb))"
proof -
  have d: "uint (push_bit cnt x) AND uint (drop_bit (64 - cnt) y) = 0"
    using assms by (auto simp: bit_eq_iff bit_simps dest: bit_imp_le_length)
  have "uint (push_bit cnt x OR drop_bit (64 - cnt) y) = uint (push_bit cnt x) OR uint (drop_bit (64 - cnt) y)"
    by (rule unsigned_or_eq)
  then show ?thesis using d by (simp add: disjunctive_add_eq_or)
qed


lemma drop_nth_lval: "k < length xs \<Longrightarrow> lval (drop k xs) = uint (xs ! k) + LIMB_B * lval (drop (Suc k) xs)"
  by (simp flip: Cons_nth_drop_Suc)

lemma mpn_lshift_spec:
  assumes "limbs_at s up xs" "length xs = n" "room s rp n" "down_ok rp up n" "1 \<le> n" "0 < cnt" "cnt < 64"
  shows "\<exists>h rs. mpn_lshift rp up n cnt s = Inr (h, put s rp rs) \<and> length rs = n \<and>
    lval rs + LIMB_B ^ n * uint h = 2 ^ cnt * lval xs \<and>
    (\<forall>i. 0 < i \<longrightarrow> i < n \<longrightarrow> rs ! i = push_bit cnt (xs ! i) OR drop_bit (64 - cnt) (xs ! (i - 1)))"
proof -
  let ?t = "64 - cnt"
  let ?h = "drop_bit ?t (xs ! (n - 1))"
  let ?Inv = "\<lambda>k h rs. h = push_bit cnt (xs ! k) \<and>
    (\<forall>j < length rs. rs ! j = push_bit cnt (xs ! (Suc k + j)) OR drop_bit ?t (xs ! (k + j))) \<and>
    uint h + LIMB_B * lval rs + LIMB_B ^ (n - k) * uint ?h = 2 ^ cnt * lval (drop k xs)"
  let ?body = "\<lambda>i h. bindS (ld (up + i)) (\<lambda>low. bindS (st (rp + 1 + i) (h OR drop_bit ?t low)) (\<lambda>_. ret (push_bit cnt low)))"
  note parts = shift_parts [OF assms(6,7)]
  have ok: "down_ok (rp + 1) up (n - 1)" "room s (rp + 1) (n - 1)"
    using assms(3,4,5) room_rest [OF assms(3), of 1] by (auto simp: down_ok_def)
  obtain h rs where r: "for_down (n - 1) ?body (push_bit cnt (xs ! (n - 1))) s = Inr (h, put s (rp + 1) rs)"
    "length rs = n - 1" "?Inv 0 h rs"
  proof (rule for_down_put [where Inv = ?Inv and rp = "rp + 1"])
    fix k h rs assume k: "k < n - 1" "length rs = n - 1 - Suc k" "?Inv (Suc k) h rs"
    let ?x = "h OR drop_bit ?t (xs ! k)"
    have x: "uint ?x = uint h + uint (drop_bit ?t (xs ! k))" using k(3) shift_or [OF assms(6,7)] by simp
    have "n - k = Suc (n - Suc k)" using k(1) by simp
    then have "uint (push_bit cnt (xs ! k)) + LIMB_B * lval (?x # rs) + LIMB_B ^ (n - k) * uint ?h =
        uint (push_bit cnt (xs ! k)) + LIMB_B * uint (drop_bit ?t (xs ! k)) +
        LIMB_B * (uint h + LIMB_B * lval rs + LIMB_B ^ (n - Suc k) * uint ?h)"
      by (simp add: x algebra_simps)
    also have "\<dots> = 2 ^ cnt * lval (drop k xs)"
      unfolding parts conjunct2 [OF conjunct2 [OF k(3)]] using k(1) assms(2) by (simp add: drop_nth_lval [of k] algebra_simps)
    finally have "?Inv k (push_bit cnt (xs ! k)) (?x # rs)" using k(3) by (auto simp: nth_Cons' less_Suc_eq_0_disj)
    then show "\<exists>x h'. ?body k h (put s (rp + 1 + Suc k) rs) = Inr (h', put s (rp + 1 + k) (x # rs)) \<and> ?Inv k h' (x # rs)"
      using ld_down [OF assms(1) ok(1) k(1) _ k(2)] st_cons [OF ok(2) k(1,2)] k(1) assms(2)
      by (intro exI [of _ ?x] exI [of _ "push_bit cnt (xs ! k)"]) (simp add: bindS_def ret_def)
  next
    have "drop (n - 1) xs = [xs ! (n - 1)]"
      using assms(2,5) Cons_nth_drop_Suc [of "n - 1" xs] by simp
    then show "?Inv (n - 1) (push_bit cnt (xs ! (n - 1))) []" using parts [of "xs ! (n - 1)"] assms(5) by simp
  qed
  have t: "st rp h (put s (rp + 1) rs) = Inr ((), put s rp (h # rs))"
    using st_cons [OF assms(3), of 0 rs] r(2) assms(5) by simp
  have "(h # rs) ! i = push_bit cnt (xs ! i) OR drop_bit ?t (xs ! (i - 1))" if "0 < i" "i < n" for i
    using that conjunct1 [OF conjunct2 [OF r(3)]] r(2) by (cases i) simp_all
  then show ?thesis using r(1,2) conjunct2 [OF conjunct2 [OF r(3)]] t assms(2,5,6,7) ld_limbs_at [OF assms(1), of "n - 1"]
    by (intro exI [of _ ?h] exI [of _ "h # rs"]) (simp add: mpn_lshift_def Let_def bindS_def ret_def GMP_LIMB_BITS_def)
qed

lemma mpn_rshift_spec:
  assumes "limbs_at s up xs" "length xs = n" "room s rp n" "up_ok rp up n" "1 \<le> n" "0 < cnt" "cnt < 64"
  shows "\<exists>l rs. mpn_rshift rp up n cnt s = Inr (l, put s rp rs) \<and> length rs = n \<and>
    uint l + LIMB_B * lval rs = 2 ^ (64 - cnt) * lval xs"
proof -
  let ?t = "64 - cnt"
  let ?l = "push_bit ?t (xs ! 0)"
  let ?Inv = "\<lambda>i c rs. c = drop_bit cnt (xs ! i) \<and>
    uint ?l + LIMB_B * (lval rs + LIMB_B ^ i * uint c) = 2 ^ ?t * lval (take (Suc i) xs)"
  let ?f = "\<lambda>c a. c OR push_bit ?t a" and ?g = "\<lambda>c a. drop_bit cnt a"
  have t: "0 < ?t" "?t < 64" "64 - ?t = cnt" using assms(6,7) by simp_all
  note parts = shift_parts [OF t(1,2), unfolded t(3)]
  have src: "limbs_at s (up + 1) (drop 1 xs)" "length (drop 1 xs) = n - 1" "room s rp (n - 1)" "up_ok rp (up + 1) (n - 1)"
    using assms(2,4,5) limbs_at_part [OF assms(1), of 1] room_less [OF assms(3)] by (auto simp: up_ok_def)
  have "\<exists>c rs. for_up 0 (n - 1) (\<lambda>i c. bindS (ld (up + 1 + i)) (\<lambda>a. bindS (st (rp + i) (?f c a)) (\<lambda>_. ret (?g c a))))
      (drop_bit cnt (xs ! 0)) s = Inr (c, put s rp rs) \<and> length rs = n - 1 \<and> ?Inv (n - 1) c rs"
  proof (rule for_up_1 [OF src, where f = ?f and g = ?g])
    show "?Inv 0 (drop_bit cnt (xs ! 0)) []"
      using parts [of "xs ! 0"] assms(2,5) by (simp add: take_Suc_conv_app_nth)
  next
    fix i c and rs :: "limb list" assume i: "i < n - 1" "length rs = i" "?Inv i c rs"
    let ?a = "xs ! Suc i"
    have a: "drop 1 xs ! i = ?a" using i(1) assms(2) by simp
    have "uint (?f c ?a) = uint c + uint (push_bit ?t ?a)"
      using i(3) shift_or [OF t(1,2), of ?a "xs ! i"] t(3) by (simp add: or.commute)
    then have "uint ?l + LIMB_B * (lval (rs @ [?f c ?a]) + LIMB_B ^ Suc i * uint (?g c ?a)) =
        uint ?l + LIMB_B * (lval rs + LIMB_B ^ i * uint c) +
        LIMB_B ^ Suc i * (uint (push_bit ?t ?a) + LIMB_B * uint (drop_bit cnt ?a))"
      using i(2) by (simp add: lval_append algebra_simps)
    also have "\<dots> = 2 ^ ?t * lval (take (Suc (Suc i)) xs)"
      unfolding parts conjunct2 [OF i(3)] using i(1) assms(2) by (simp add: lval_take_Suc [of "Suc i"] algebra_simps)
    finally show "?Inv (Suc i) (?g c (drop 1 xs ! i)) (rs @ [?f c (drop 1 xs ! i)])" unfolding a by simp
  qed
  then obtain c rs where r: "for_up 0 (n - 1) (\<lambda>i c. bindS (ld (up + 1 + i)) (\<lambda>a. bindS (st (rp + i) (?f c a)) (\<lambda>_. ret (?g c a))))
      (drop_bit cnt (xs ! 0)) s = Inr (c, put s rp rs)" "length rs = n - 1" "?Inv (n - 1) c rs" by blast
  have "st (rp + (n - 1)) c (put s rp rs) = Inr ((), put s rp (rs @ [c]))"
    using r(2) assms(5) by (intro st_snoc [OF assms(3)]) simp_all
  moreover have "ld up s = Inr (xs ! 0, s)" using ld_limbs_at [OF assms(1), of 0] assms(2,5) by simp
  moreover have "lval (rs @ [c]) = lval rs + LIMB_B ^ (n - 1) * uint c" by (rule lval_snoc) (rule r(2))
  ultimately show ?thesis using r(1,2) conjunct2 [OF r(3)] assms(2,5,6,7)
    by (intro exI [of _ ?l] exI [of _ "rs @ [c]"]) (simp add: mpn_rshift_def Let_def bindS_def ret_def GMP_LIMB_BITS_def)
qed

lemma uint_not_limb: "uint (NOT x :: limb) = LIMB_B - 1 - uint x"
proof -
  have "x + NOT x = - 1" by (simp add: not_eq_complement)
  then have "uint (x + NOT x) = LIMB_B - 1" by (simp add: LIMB_B_def unsigned_minus_1_eq_mask mask_eq_exp_minus_1)
  moreover have "uint (x + NOT x) = uint x + uint (NOT x) - LIMB_B * of_bool (x + NOT x < x)" by (rule carry_add(2))
  ultimately show ?thesis using uint_bounds [of x] uint_bounds [of "NOT x"] by (cases "x + NOT x < x") auto
qed

lemma mpn_com_spec:
  assumes "limbs_at s up xs" "length xs = n" "room s rp n" "up_ok rp up n"
  shows "mpn_com rp up n s = Inr ((), put s rp (map NOT xs))" "lval (map NOT xs) = LIMB_B ^ n - 1 - lval xs"
proof -
  have "\<exists>c rs. mpn_com rp up n s = Inr (c, put s rp rs) \<and> length rs = n \<and> rs = map NOT (take n xs)"
    unfolding mpn_com_def
    by (rule for_up_1 [OF assms, where f = "\<lambda>c a. NOT a" and g = "\<lambda>c a. ()" and Inv = "\<lambda>i c rs. rs = map NOT (take i xs)"])
      (use assms(2) in \<open>auto simp: take_Suc_conv_app_nth\<close>)
  then show "mpn_com rp up n s = Inr ((), put s rp (map NOT xs))" using assms(2) by auto
  have "lval (map NOT xs) = LIMB_B ^ length xs - 1 - lval xs"
    by (induction xs) (simp_all add: uint_not_limb right_diff_distrib)
  then show "lval (map NOT xs) = LIMB_B ^ n - 1 - lval xs" by (simp add: assms(2))
qed


lemma put_app: "length xs = n \<Longrightarrow> put (put s rp xs) (rp + n) ys = put s rp (xs @ ys)"
  by (simp add: put_put)

lemma uint_minus_limb: "x \<noteq> 0 \<Longrightarrow> uint (- x :: limb) = LIMB_B - uint x"
  using borrow_sub(1) [of 0 x] uint_pos [of x] by (simp add: uint_limb_less)

lemma neg_loop_spec:
  assumes "limbs_at s up (x # xs)" "room s rp (Suc (length xs))" "up_ok rp up (Suc (length xs))"
  shows "\<exists>r rs. neg_loop rp up (int (Suc (length xs))) s = Some (Inr (r, put s rp rs)) \<and> length rs = Suc (length xs) \<and>
    lval rs + lval (x # xs) = LIMB_B ^ Suc (length xs) * uint r \<and> uint r = of_bool (lval (x # xs) \<noteq> 0)"
  using assms
proof (induction xs arbitrary: s up rp x)
  case Nil
  then have "ld up s = Inr (x, s)" "st rp y s = Inr ((), put s rp [y])" for y
    using ld_limbs_at [OF Nil(1), of 0] st_put [of s rp y] by (auto simp: room_def)
  then show ?case using uint_minus_limb [of x] uint_pos [of x]
    by (subst neg_loop.simps) (auto simp: bindS_def ret_def mpn_com_def intro!: exI)
next
  case (Cons y ys)
  then have l: "ld up s = Inr (x, s)" "st rp z s = Inr ((), put s rp [z])" for z
    using ld_limbs_at [OF Cons.prems(1), of 0] st_put [of s rp z] by (auto simp: room_def)
  let ?n = "length (y # ys)"
  have "drop 1 (x # y # ys) = y # ys" by simp
  then have rest: "limbs_at (put s rp [z]) (up + 1) (y # ys)" "room (put s rp [z]) (rp + 1) ?n" "up_ok (rp + 1) (up + 1) ?n" for z
    using limbs_at_rest [of s up "x # y # ys" rp "[z]" 1] room_rest [of s rp "Suc ?n" 1] up_ok_rest [of rp up "Suc ?n" 1] Cons.prems
    by simp_all
  show ?case
  proof (cases "x = 0")
    case True
    from Cons.IH [of "put s rp [0]" "up + 1" y "rp + 1"] rest obtain r rs where
      "neg_loop (rp + 1) (up + 1) (int ?n) (put s rp [0]) = Some (Inr (r, put (put s rp [0]) (rp + 1) rs))"
      "length rs = ?n" "lval rs + lval (y # ys) = LIMB_B ^ ?n * uint r" "uint r = of_bool (lval (y # ys) \<noteq> 0)" by auto
    moreover have "lval (0 # rs) + lval (x # y # ys) = LIMB_B * (lval rs + lval (y # ys))"
      using True by (simp add: distrib_left)
    ultimately show ?thesis using l True put_app [of "[0]" 1]
      by (subst neg_loop.simps) (auto intro!: exI [of _ r] exI [of _ "0 # rs"])
  next
    case False
    have "mpn_com (rp + 1) (up + 1) ?n (put s rp [- x]) = Inr ((), put s rp (- x # map NOT (y # ys)))"
      "lval (map NOT (y # ys)) = LIMB_B ^ ?n - 1 - lval (y # ys)"
      using mpn_com_spec [OF rest(1) [of "- x"] _ rest(2,3)] put_app [of "[- x]" 1 s rp] by simp_all
    moreover have "0 < lval (x # y # ys)"
      unfolding lval.simps(2) [of x] using uint_pos [OF False] lval_nonneg [of "y # ys"] by (intro add_pos_nonneg) simp_all
    moreover have "nat (int (Suc ?n) - 1) = ?n" by simp
    moreover have "lval (- x # map NOT (y # ys)) + lval (x # y # ys) = LIMB_B ^ Suc ?n * uint (1 :: limb)"
      unfolding lval.simps(2) [of "- x"] lval.simps(2) [of x] uint_minus_limb [OF False] \<open>lval (map NOT (y # ys)) = _\<close>
      by (simp add: right_diff_distrib del: lval.simps)
    ultimately show ?thesis using l False
      by (subst neg_loop.simps)
        (auto simp: bindS_def ret_def simp del: lval.simps(2) list.map intro!: exI [of _ 1] exI [of _ "- x # map NOT (y # ys)"])
  qed
qed

lemma mpn_neg_spec:
  assumes "limbs_at s up xs" "length xs = n" "room s rp n" "up_ok rp up n" "0 < n"
  shows "\<exists>r rs. mpn_neg rp up (int n) s = Inr (r, put s rp rs) \<and> length rs = n \<and>
    lval rs + lval xs = LIMB_B ^ n * uint r \<and> uint r = of_bool (lval xs \<noteq> 0)"
proof -
  obtain x ys where "xs = x # ys" using assms(2,5) by (cases xs) auto
  then show ?thesis using neg_loop_spec [of s up x ys rp] assms by (auto simp: mpn_neg_def simp del: lval.simps(2))
qed

lemma scan_loop_spec:
  assumes "limbs_at s up xs" "i \<le> k" "k < length xs" "un \<le> i"
    and "\<And>j. i < j \<Longrightarrow> j < k \<Longrightarrow> ux XOR xs ! j = 0" "i < k \<Longrightarrow> l = 0" "(if i = k then l else ux XOR xs ! k) \<noteq> 0"
  shows "scan_loop l i up un ux s = Some (Inr (Some (if i = k then l else ux XOR xs ! k, k), s))"
  using assms(2-)
proof (induction "k - i" arbitrary: l i)
  case 0
  then show ?case by (subst scan_loop.simps) simp
next
  case (Suc d)
  then have i: "i < k" "l = 0" by simp_all
  have "ld (up + (i + 1)) s = Inr (xs ! (i + 1), s)" using i Suc.prems by (intro ld_limbs_at [OF assms(1)]) simp
  moreover have "scan_loop (ux XOR xs ! (i + 1)) (i + 1) up un ux s =
      Some (Inr (Some (if i + 1 = k then ux XOR xs ! (i + 1) else ux XOR xs ! k, k), s))"
    using Suc.prems Suc.hyps(2) i(1) by (intro Suc.hyps(1)) (auto split: if_splits)
  ultimately show ?case using i Suc.prems(3) by (subst scan_loop.simps) auto
qed

lemma gmp_ctz_bit:
  assumes "bit x k" "\<And>j. j < k \<Longrightarrow> \<not> bit x j"
  shows "gmp_ctz x = Some k"
proof -
  have "x \<noteq> 0" using assms(1) by auto
  then obtain m h where m: "gmp_ctz x = Some m" "m < 64" "uint x = 2 ^ m * (2 * h + 1)"
    using gmp_ctz_spec by blast
  have b: "bit x j \<longleftrightarrow> odd (uint x div 2 ^ j)" for j
    using bit_uint_iff [of x j] bit_iff_odd [of "uint x" j] bit_imp_le_length [of x j] by auto
  have "bit x m" unfolding b m(3) by simp
  then have "\<not> m < k" using assms(2) by blast
  moreover have "\<not> bit x j" if "j < m" for j
  proof -
    have "uint x = 2 ^ j * (2 * 2 ^ (m - Suc j) * (2 * h + 1))"
      using that unfolding m(3) by (simp flip: power_add power_Suc)
    then have "uint x div 2 ^ j = 2 * 2 ^ (m - Suc j) * (2 * h + 1)" by simp
    then show ?thesis unfolding b by simp
  qed
  then have "\<not> k < m" using assms(1) by blast
  ultimately show ?thesis using m(1) by simp
qed


text \<open>
  A scan for ones (\<open>ux = 0\<close>), or for zeros (\<open>ux = NOT 0\<close>), started at bit \<open>b\<close> where the first hit is bit \<open>b'\<close>.
\<close>

lemma scan_hit:
  assumes xs: "limbs_at s ptr xs" and b: "b \<le> b'" "b' < 64 * length xs"
    and u: "ux = 0 \<or> ux = GMP_LIMB_MAX"
    and hit: "bit (ux XOR xs ! (b' div 64)) (b' mod 64)"
    and miss: "\<And>j. b \<le> j \<Longrightarrow> j < b' \<Longrightarrow> \<not> bit (ux XOR xs ! (j div 64)) (j mod 64)"
  shows "mpn_common_scan ((ux XOR xs ! (b div 64)) AND push_bit (b mod 64) GMP_LIMB_MAX) (b div 64) ptr (b div 64) ux s =
    Inr (of_nat b', s)"
proof -
  let ?x = "\<lambda>i. ux XOR xs ! i" and ?i = "b div 64" and ?k = "b' div 64"
  let ?l = "?x ?i AND push_bit (b mod 64) GMP_LIMB_MAX"
  let ?y = "if ?i = ?k then ?l else ?x ?k"
  have le: "?i \<le> ?k" "?k < length xs" using b by (simp_all add: div_le_mono)
  have l: "bit ?l j \<longleftrightarrow> bit (?x ?i) j \<and> b mod 64 \<le> j" if "j < 64" for j
    using that by (auto simp: bit_simps GMP_LIMB_MAX_def)
  have m: "\<not> bit (?x i) j" if "j < 64" "b \<le> i * 64 + j" "i * 64 + j < b'" for i j
    using miss [of "i * 64 + j"] that by simp
  have z: "w = 0" if "\<And>j. j < 64 \<Longrightarrow> \<not> bit w j" for w :: limb
    using that by (intro bit_word_eqI) simp
  have "?l = 0" if "?i < ?k"
  proof (rule z)
    fix j :: nat assume "j < 64"
    moreover have "?i * 64 + j < b'" using that \<open>j < 64\<close> by linarith
    moreover have "b mod 64 \<le> j \<Longrightarrow> b \<le> ?i * 64 + j" using div_mult_mod_eq [of b 64] by linarith
    ultimately show "\<not> bit ?l j" using l [of j] m [of j ?i] by blast
  qed
  moreover have "?x j = 0" if "?i < j" "j < ?k" for j
    by (rule z) (use m [of _ j] that in \<open>auto\<close>)
  moreover have "?i = ?k \<Longrightarrow> b mod 64 \<le> b' mod 64" using b(1) div_mult_mod_eq [of b 64] div_mult_mod_eq [of b' 64] by linarith
  then have y: "bit ?y (b' mod 64)" using hit l [of "b' mod 64"] by auto
  have nz: "w \<noteq> 0" if "bit w j" for w :: limb and j using that by auto
  have "?y \<noteq> 0" by (rule nz [OF y])
  ultimately have "scan_loop ?l ?i ptr ?i ux s = Some (Inr (Some (?y, ?k), s))"
    using scan_loop_spec [OF xs le order_refl] by simp
  moreover have "gmp_ctz ?y = Some (b' mod 64)"
  proof (rule gmp_ctz_bit [OF y])
    fix j assume j: "j < b' mod 64"
    then have "j < 64" "?k * 64 + j < b'" using div_mult_mod_eq [of b' 64] by linarith+
    moreover have "b \<le> ?k * 64 + j" if "?i < ?k \<or> b mod 64 \<le> j" using that le(1) div_mult_mod_eq [of b 64] by linarith
    ultimately show "\<not> bit ?y j" using l [of j] m [of j ?k] le(1) by (cases "?i = ?k") auto
  qed
  moreover have "of_nat ?k * of_nat 64 + of_nat (b' mod 64) = (of_nat b' :: limb)"
    by (simp only: of_nat_add [symmetric] of_nat_mult [symmetric] div_mult_mod_eq)
  ultimately show ?thesis using u
    by (simp add: mpn_common_scan_def bindS_def ret_def GMP_LIMB_BITS_def)
qed


definition limb_bit :: "limb list \<Rightarrow> nat \<Rightarrow> bool" where
  "limb_bit xs b = bit (xs ! (b div 64)) (b mod 64)"

lemma mpn_scan1_spec:
  assumes "limbs_at s ptr xs" "b \<le> b'" "b' < 64 * length xs" "limb_bit xs b'" "\<And>j. b \<le> j \<Longrightarrow> j < b' \<Longrightarrow> \<not> limb_bit xs j"
  shows "mpn_scan1 ptr b s = Inr (of_nat b', s)"
proof -
  have "ld (ptr + b div 64) s = Inr (xs ! (b div 64), s)" using assms(2,3) by (intro ld_limbs_at [OF assms(1)]) simp
  then show ?thesis using scan_hit [OF assms(1-3), of 0] assms(4,5)
    by (simp add: mpn_scan1_def Let_def bindS_def GMP_LIMB_BITS_def limb_bit_def)
qed

lemma mpn_scan0_spec:
  assumes "limbs_at s ptr xs" "b \<le> b'" "b' < 64 * length xs" "\<not> limb_bit xs b'" "\<And>j. b \<le> j \<Longrightarrow> j < b' \<Longrightarrow> limb_bit xs j"
  shows "mpn_scan0 ptr b s = Inr (of_nat b', s)"
proof -
  have "ld (ptr + b div 64) s = Inr (xs ! (b div 64), s)" using assms(2,3) by (intro ld_limbs_at [OF assms(1)]) simp
  moreover have "GMP_LIMB_MAX XOR x = NOT x" for x by (auto simp: GMP_LIMB_MAX_def bit_eq_iff bit_simps)
  ultimately show ?thesis using scan_hit [OF assms(1-3), of GMP_LIMB_MAX] assms(4,5)
    by (simp add: mpn_scan0_def Let_def bindS_def GMP_LIMB_BITS_def limb_bit_def bit_simps)
qed

end
