(* ===== verification/Mpn_Div.thy ===== *)
theory Mpn_Div
  imports Mpn_Shift
begin

unbundle bit_operations_syntax

text \<open>
  Division in the mpn layer of mini-gmp: the precomputed inverse of a divisor, and the division of
  a number by one limb, by two limbs and by any number of limbs.  A null quotient pointer is
  \<open>None\<close>.
\<close>

section \<open>The inverse of a divisor\<close>

text \<open>\<^verbatim>\<open>struct gmp_div_inverse\<close>; the field \<^verbatim>\<open>d0\<close> stays uninitialised for a divisor of one limb.\<close>

record gmp_div_inverse =
  inv_shift :: nat
  inv_d1 :: limb
  inv_d0 :: "limb option"
  inv_di :: limb

definition clzS :: "limb \<Rightarrow> nat mp" where
  "clzS x = (case gmp_clz x of None \<Rightarrow> stop No_return | Some k \<Rightarrow> ret k)"

definition initS :: "limb option \<Rightarrow> limb mp" where
  "initS x = (case x of None \<Rightarrow> stop Uninit_read | Some v \<Rightarrow> ret v)"

definition mpn_div_qr_1_invert :: "limb \<Rightarrow> gmp_div_inverse mp" where
  "mpn_div_qr_1_invert d =
     bindS (assertS (d > 0)) (\<lambda>_.
     bindS (clzS d) (\<lambda>shift.
     let d1 = push_bit shift d in
     bindS (lift (mpn_invert_limb d1)) (\<lambda>di.
     ret \<lparr>inv_shift = shift, inv_d1 = d1, inv_d0 = None, inv_di = di\<rparr>)))"

definition mpn_div_qr_2_invert :: "limb \<Rightarrow> limb \<Rightarrow> gmp_div_inverse mp" where
  "mpn_div_qr_2_invert d1 d0 =
     bindS (assertS (d1 > 0)) (\<lambda>_.
     bindS (clzS d1) (\<lambda>shift.
     let (d1, d0) =
       (if 0 < shift then (push_bit shift d1 OR drop_bit (GMP_LIMB_BITS - shift) d0, push_bit shift d0)
        else (d1, d0)) in
     bindS (lift (mpn_invert_3by2 d1 d0)) (\<lambda>di.
     ret \<lparr>inv_shift = shift, inv_d1 = d1, inv_d0 = Some d0, inv_di = di\<rparr>)))"

definition mpn_div_qr_invert :: "nat \<Rightarrow> nat \<Rightarrow> gmp_div_inverse mp" where
  "mpn_div_qr_invert dp dn =
     bindS (assertS (0 < dn)) (\<lambda>_.
     if dn = 1 then bindS (ld dp) mpn_div_qr_1_invert
     else if dn = 2 then bindS (ld (dp + 1)) (\<lambda>d1. bindS (ld dp) (\<lambda>d0. mpn_div_qr_2_invert d1 d0))
     else
       bindS (ld (dp + (dn - 1))) (\<lambda>d1.
       bindS (ld (dp + (dn - 2))) (\<lambda>d0.
       bindS (assertS (d1 > 0)) (\<lambda>_.
       bindS (clzS d1) (\<lambda>shift.
       bindS (if 0 < shift then
                bindS (ld (dp + (dn - 3))) (\<lambda>x.
                ret (push_bit shift d1 OR drop_bit (GMP_LIMB_BITS - shift) d0,
                  push_bit shift d0 OR drop_bit (GMP_LIMB_BITS - shift) x))
              else ret (d1, d0)) (\<lambda>(d1, d0).
       bindS (lift (mpn_invert_3by2 d1 d0)) (\<lambda>di.
       ret \<lparr>inv_shift = shift, inv_d1 = d1, inv_d0 = Some d0, inv_di = di\<rparr>)))))))"

section \<open>Division\<close>

definition stq :: "nat option \<Rightarrow> nat \<Rightarrow> limb \<Rightarrow> unit mp" where
  "stq qp i q = (case qp of None \<Rightarrow> ret () | Some p \<Rightarrow> st (p + i) q)"

definition mpn_div_qr_1_preinv :: "nat option \<Rightarrow> nat \<Rightarrow> nat \<Rightarrow> gmp_div_inverse \<Rightarrow> limb mp" where
  "mpn_div_qr_1_preinv qp np nn iv =
     bindS (if 0 < inv_shift iv then
              bindS (gmp_xalloc_limbs nn) (\<lambda>tp.
              bindS (mpn_lshift tp np nn (inv_shift iv)) (\<lambda>r.
              ret (tp, r)))
            else ret (np, 0)) (\<lambda>(np, r).
     bindS (for_down nn (\<lambda>i r.
       bindS (ld (np + i)) (\<lambda>n.
       let (q, r) = gmp_udiv_qrnnd_preinv r n (inv_d1 iv) (inv_di iv) in
       bindS (stq qp i q) (\<lambda>_.
       ret r))) r) (\<lambda>r.
     bindS (whenS (0 < inv_shift iv) (gmp_free np)) (\<lambda>_.
     ret (drop_bit (inv_shift iv) r))))"

definition mpn_div_qr_1 :: "nat option \<Rightarrow> nat \<Rightarrow> nat \<Rightarrow> limb \<Rightarrow> limb mp" where
  "mpn_div_qr_1 qp np nn d =
     bindS (assertS (d > 0)) (\<lambda>_.
     if d AND (d - 1) = 0 then
       bindS (ld np) (\<lambda>x.
       bindS (case qp of
           None \<Rightarrow> ret ()
         | Some qp \<Rightarrow>
             if d \<le> 1 then mpn_copyi qp np nn
             else (case gmp_ctz d of
                     None \<Rightarrow> stop No_return
                   | Some shift \<Rightarrow> bindS (mpn_rshift qp np nn shift) (\<lambda>_. ret ()))) (\<lambda>_.
       ret (x AND (d - 1))))
     else bindS (mpn_div_qr_1_invert d) (\<lambda>iv. mpn_div_qr_1_preinv qp np nn iv))"

definition mpn_div_qr_2_preinv :: "nat option \<Rightarrow> nat \<Rightarrow> nat \<Rightarrow> nat \<Rightarrow> gmp_div_inverse \<Rightarrow> unit mp" where
  "mpn_div_qr_2_preinv qp rp np nn iv =
     bindS (assertS (2 \<le> nn)) (\<lambda>_.
     let shift = inv_shift iv; d1 = inv_d1 iv; di = inv_di iv in
     bindS (initS (inv_d0 iv)) (\<lambda>d0.
     bindS (if 0 < shift then
              bindS (gmp_xalloc_limbs nn) (\<lambda>tp.
              bindS (mpn_lshift tp np nn shift) (\<lambda>r1.
              ret (tp, r1)))
            else ret (np, 0)) (\<lambda>(np, r1).
     bindS (ld (np + (nn - 1))) (\<lambda>r0.
     bindS (for_down (nn - 1) (\<lambda>i (r1, r0).
       bindS (ld (np + i)) (\<lambda>n0.
       let (q, r) = gmp_udiv_qr_3by2 r1 r0 n0 d1 d0 di in
       bindS (stq qp i q) (\<lambda>_.
       ret r))) (r1, r0)) (\<lambda>(r1, r0).
     bindS (if 0 < shift then
              bindS (assertS (push_bit (GMP_LIMB_BITS - shift) r0 = 0)) (\<lambda>_.
              bindS (gmp_free np) (\<lambda>_.
              ret (drop_bit shift r1, drop_bit shift r0 OR push_bit (GMP_LIMB_BITS - shift) r1)))
            else ret (r1, r0)) (\<lambda>(r1, r0).
     bindS (st (rp + 1) r1) (\<lambda>_.
     st rp r0)))))))"

definition div_pi1_step ::
  "nat option \<Rightarrow> nat \<Rightarrow> nat \<Rightarrow> nat \<Rightarrow> limb \<Rightarrow> limb \<Rightarrow> limb \<Rightarrow> nat \<Rightarrow> limb \<Rightarrow> limb mp" where
  "div_pi1_step qp np dp dn d1 d0 dinv i n1 =
     bindS (ld (np + (dn - 1 + i))) (\<lambda>n0.
     bindS (if n1 = d1 \<and> n0 = d0 then
              bindS (mpn_submul_1 (np + i) dp dn GMP_LIMB_MAX) (\<lambda>_.
              bindS (ld (np + (dn - 1 + i))) (\<lambda>n1.
              ret (GMP_LIMB_MAX, n1)))
            else
              bindS (ld (np + (dn - 2 + i))) (\<lambda>x.
              let (q, n1, n0) = gmp_udiv_qr_3by2 n1 n0 x d1 d0 dinv in
              bindS (mpn_submul_1 (np + i) dp (dn - 2) q) (\<lambda>cy.
              let cy1 = of_bool (n0 < cy); n0 = n0 - cy; cy = of_bool (n1 < cy1); n1 = n1 - cy1 in
              bindS (st (np + (dn - 2 + i)) n0) (\<lambda>_.
              if cy \<noteq> (0 :: limb) then
                bindS (mpn_add_n (np + i) (np + i) dp (dn - 1)) (\<lambda>c.
                ret (q - 1, n1 + (d1 + c)))
              else ret (q, n1))))) (\<lambda>(q, n1).
     bindS (stq qp i q) (\<lambda>_.
     ret n1)))"

definition mpn_div_qr_pi1 :: "nat option \<Rightarrow> nat \<Rightarrow> nat \<Rightarrow> limb \<Rightarrow> nat \<Rightarrow> nat \<Rightarrow> limb \<Rightarrow> unit mp" where
  "mpn_div_qr_pi1 qp np nn n1 dp dn dinv =
     bindS (assertS (2 < dn)) (\<lambda>_.
     bindS (assertS (dn \<le> nn)) (\<lambda>_.
     bindS (ld (dp + (dn - 1))) (\<lambda>d1.
     bindS (ld (dp + (dn - 2))) (\<lambda>d0.
     bindS (assertS (d1 AND GMP_LIMB_HIGHBIT \<noteq> 0)) (\<lambda>_.
     bindS (for_down (nn - dn + 1) (div_pi1_step qp np dp dn d1 d0 dinv) n1) (\<lambda>n1.
     st (np + (dn - 1)) n1))))))"

definition gmp_assert_nocarry :: "limb mp \<Rightarrow> unit mp" where
  "gmp_assert_nocarry m = bindS m (\<lambda>cy. assertS (cy = 0))"

definition mpn_div_qr_preinv :: "nat option \<Rightarrow> nat \<Rightarrow> nat \<Rightarrow> nat \<Rightarrow> nat \<Rightarrow> gmp_div_inverse \<Rightarrow> unit mp" where
  "mpn_div_qr_preinv qp np nn dp dn iv =
     bindS (assertS (0 < dn)) (\<lambda>_.
     bindS (assertS (dn \<le> nn)) (\<lambda>_.
     if dn = 1 then bindS (mpn_div_qr_1_preinv qp np nn iv) (\<lambda>r. st np r)
     else if dn = 2 then mpn_div_qr_2_preinv qp np np nn iv
     else
       bindS (ld (dp + (dn - 1))) (\<lambda>x.
       bindS (assertS (inv_d1 iv = x)) (\<lambda>_.
       bindS (initS (inv_d0 iv)) (\<lambda>d0.
       bindS (ld (dp + (dn - 2))) (\<lambda>x.
       bindS (assertS (d0 = x)) (\<lambda>_.
       bindS (assertS (inv_d1 iv AND GMP_LIMB_HIGHBIT \<noteq> 0)) (\<lambda>_.
       let shift = inv_shift iv in
       bindS (if 0 < shift then mpn_lshift np np nn shift else ret 0) (\<lambda>nh.
       bindS (mpn_div_qr_pi1 qp np nn nh dp dn (inv_di iv)) (\<lambda>_.
       whenS (0 < shift) (gmp_assert_nocarry (mpn_rshift np np dn shift))))))))))))"

definition mpn_div_qr :: "nat option \<Rightarrow> nat \<Rightarrow> nat \<Rightarrow> nat \<Rightarrow> nat \<Rightarrow> unit mp" where
  "mpn_div_qr qp np nn dp dn =
     bindS (assertS (0 < dn)) (\<lambda>_.
     bindS (assertS (dn \<le> nn)) (\<lambda>_.
     bindS (mpn_div_qr_invert dp dn) (\<lambda>iv.
     bindS (if 2 < dn \<and> 0 < inv_shift iv then
              bindS (gmp_xalloc_limbs dn) (\<lambda>tp.
              bindS (gmp_assert_nocarry (mpn_lshift tp dp dn (inv_shift iv))) (\<lambda>_.
              ret (Some tp)))
            else ret None) (\<lambda>tp.
     bindS (mpn_div_qr_preinv qp np nn (case tp of None \<Rightarrow> dp | Some tp \<Rightarrow> tp) dn iv) (\<lambda>_.
     case tp of None \<Rightarrow> ret () | Some tp \<Rightarrow> gmp_free tp)))))"

section \<open>Scratch memory and quotients\<close>

text \<open>Nothing lives above the break.\<close>

definition mem_ok :: "limb_mem \<Rightarrow> bool" where
  "mem_ok s \<longleftrightarrow> (\<forall>q \<ge> brk s. cells s q = None \<and> blocks s q = None)"

definition fresh :: "limb_mem \<Rightarrow> nat \<Rightarrow> limb_mem" where
  "fresh s n = s\<lparr>cells := (\<lambda>q. if brk s \<le> q \<and> q < brk s + n then Some None else cells s q),
     brk := brk s + n + 1, blocks := (blocks s)(brk s \<mapsto> n)\<rparr>"

lemma xalloc_fresh: "0 < n \<Longrightarrow> n * 8 < max_alloc \<Longrightarrow> gmp_xalloc_limbs n s = Inr (brk s, fresh s n)"
  by (simp add: gmp_xalloc_limbs_def bindS_def fresh_def)

lemma mem_ok_less: "mem_ok s \<Longrightarrow> cells s q = Some c \<Longrightarrow> q < brk s"
  unfolding mem_ok_def by (metis linorder_not_less option.distinct(1))

lemma limbs_at_fresh: "limbs_at s p xs \<Longrightarrow> mem_ok s \<Longrightarrow> limbs_at (fresh s n) p xs"
  unfolding limbs_at_def fresh_def using mem_ok_less by fastforce

lemma room_fresh: "room (fresh s n) (brk s) n"
  by (simp add: room_def fresh_def)

lemma room_less_brk: "room s p n \<Longrightarrow> mem_ok s \<Longrightarrow> 0 < n \<Longrightarrow> p + n \<le> brk s"
proof -
  assume "room s p n" "mem_ok s" "0 < n"
  then have "cells s (p + (n - 1)) \<noteq> None" unfolding room_def by (metis diff_less zero_less_one)
  then show ?thesis using mem_ok_less [OF \<open>mem_ok s\<close>, of "p + (n - 1)"] \<open>0 < n\<close> by auto
qed

lemma room_fresh_old: "room s p n \<Longrightarrow> mem_ok s \<Longrightarrow> room (fresh s k) p n"
  by (auto simp: room_def fresh_def)

text \<open>The quotient limbs written so far, when there is a quotient pointer.\<close>

definition putq :: "limb_mem \<Rightarrow> nat option \<Rightarrow> nat \<Rightarrow> limb list \<Rightarrow> limb_mem" where
  "putq s qp k qs = (case qp of None \<Rightarrow> s | Some p \<Rightarrow> put s (p + k) qs)"

definition qroom :: "limb_mem \<Rightarrow> nat option \<Rightarrow> nat \<Rightarrow> bool" where
  "qroom s qp n = (case qp of None \<Rightarrow> True | Some p \<Rightarrow> room s p n)"

definition qdown :: "nat option \<Rightarrow> nat \<Rightarrow> nat \<Rightarrow> bool" where
  "qdown qp ap n = (case qp of None \<Rightarrow> True | Some p \<Rightarrow> down_ok p ap n)"

lemma putq_Nil [simp]: "putq s qp k [] = s"
  by (simp add: putq_def split: option.splits)

lemma stq_cons:
  assumes "qroom s qp n" "k < n" "length qs = n - Suc k"
  shows "stq qp k q (putq s qp (Suc k) qs) = Inr ((), putq s qp k (q # qs))"
  using assms st_cons by (auto simp: stq_def putq_def qroom_def split: option.splits)

lemma ld_putq:
  assumes "limbs_at s ap as" "qdown qp ap n" "k < n" "k < length as" "length qs = n - Suc k"
  shows "ld (ap + k) (putq s qp (Suc k) qs) = Inr (as ! k, putq s qp (Suc k) qs)"
  using assms ld_down ld_limbs_at by (auto simp: putq_def qdown_def split: option.splits)

lemma qroom_fresh: "qroom s qp n \<Longrightarrow> mem_ok s \<Longrightarrow> qroom (put (fresh s k) p rs) qp n"
  by (auto simp: qroom_def room_fresh_old split: option.splits)

lemma qdown_fresh: "qroom s qp n \<Longrightarrow> mem_ok s \<Longrightarrow> qdown qp (brk s) n"
  using room_less_brk by (cases "n = 0") (auto simp: qroom_def qdown_def down_ok_def split: option.splits)

lemma free_fresh:
  assumes "mem_ok s" "length rs = n" "qroom s qp (length qs)"
  shows "gmp_free (brk s) (putq (put (fresh s n) (brk s) rs) qp 0 qs) = Inr ((), (putq s qp 0 qs)\<lparr>brk := brk s + n + 1\<rparr>)"
proof -
  have b: "blocks (putq (put (fresh s n) (brk s) rs) qp 0 qs) = (blocks s)(brk s \<mapsto> n)"
    by (simp add: putq_def put_def fresh_def split: option.splits)
  have "q < brk s" if "qp = Some p" "p \<le> q" "q < p + length qs" for p q
    using that assms(3) room_less_brk [OF _ assms(1), of p "length qs"] by (cases qs) (auto simp: qroom_def)
  then have qs: "\<not> brk s \<le> q" if "qp = Some p" "p \<le> q" "q < p + length qs" for p q
    using that linorder_not_le by blast
  have "cells s q = None" if "brk s \<le> q" for q using assms(1) that by (simp add: mem_ok_def)
  moreover have "blocks s (brk s) = None" using assms(1) by (simp add: mem_ok_def)
  ultimately show ?thesis
    using assms(2) unfolding gmp_free_def
    by (auto simp: b putq_def put_def fresh_def split: option.splits intro!: limb_mem.equality ext dest: qs)
qed

lemma for_down_inv:
  assumes "\<And>k c s. k < n \<Longrightarrow> P (Suc k) c s \<Longrightarrow> \<exists>c' s'. body k c s = Inr (c', s') \<and> P k c' s'" and "P n c s"
  shows "\<exists>c' s'. for_down n body c s = Inr (c', s') \<and> P 0 c' s'"
  using assms
proof (induction n arbitrary: c s)
  case (Suc n)
  from Suc.prems(1) [of n c s] Suc.prems(2) obtain c' s' where "body n c s = Inr (c', s')" "P n c' s'" by auto
  with Suc.IH [of c' s'] Suc.prems(1) show ?case by (simp add: bindS_def)
qed (simp add: ret_def)

section \<open>Division by one limb\<close>

lemma div_1_loop:
  assumes "limbs_at t np xs" "length xs = n" "qroom t qp n" "qdown qp np n" "inverse_limb d di" "r < d"
  shows "\<exists>r' qs. for_down n (\<lambda>i r. bindS (ld (np + i)) (\<lambda>x. let (q, r) = gmp_udiv_qrnnd_preinv r x d di in
      bindS (stq qp i q) (\<lambda>_. ret r))) r t = Inr (r', putq t qp 0 qs) \<and> length qs = n \<and> r' < d \<and>
    uint r' + uint d * lval qs = uint r * LIMB_B ^ n + lval xs"
proof -
  let ?P = "\<lambda>k r' t'. \<exists>qs. t' = putq t qp k qs \<and> length qs = n - k \<and> r' < d \<and>
    uint r' + uint d * lval qs = uint r * LIMB_B ^ (n - k) + lval (drop k xs)"
  let ?body = "\<lambda>i r. bindS (ld (np + i)) (\<lambda>x. let (q, r) = gmp_udiv_qrnnd_preinv r x d di in bindS (stq qp i q) (\<lambda>_. ret r))"
  have "\<exists>c' s'. for_down n ?body r t = Inr (c', s') \<and> ?P 0 c' s'"
  proof (rule for_down_inv)
    fix k c s' assume k: "k < n" "?P (Suc k) c s'"
    then obtain qs where qs: "s' = putq t qp (Suc k) qs" "length qs = n - Suc k" "c < d"
      "uint c + uint d * lval qs = uint r * LIMB_B ^ (n - Suc k) + lval (drop (Suc k) xs)" by auto
    obtain q r' where qr: "gmp_udiv_qrnnd_preinv c (xs ! k) d di = (q, r')" by force
    have v: "uint q = (uint c * LIMB_B + uint (xs ! k)) div uint d" "uint r' = (uint c * LIMB_B + uint (xs ! k)) mod uint d"
      using udiv_qrnnd_preinv_val [OF assms(5) qs(3) qr] by simp_all
    then have e: "uint r' + uint d * uint q = uint c * LIMB_B + uint (xs ! k)" by simp
    have "0 < uint d" using qs(3) uint_bounds(1) [of c] unfolding uint_limb_less by linarith
    then have "r' < d" by (simp add: uint_limb_less v(2))
    have "uint r' + uint d * lval (q # qs) = (uint r' + uint d * uint q) + LIMB_B * (uint d * lval qs)"
      by (simp add: algebra_simps)
    also have "\<dots> = uint (xs ! k) + LIMB_B * (uint c + uint d * lval qs)" unfolding e by (simp add: algebra_simps)
    also have "\<dots> = uint r * LIMB_B ^ Suc (n - Suc k) + lval (drop k xs)"
      unfolding qs(4) using k(1) assms(2) by (simp add: drop_nth_lval [of k] algebra_simps)
    finally have "?P k r' (putq t qp k (q # qs))"
      using qs k(1) \<open>r' < d\<close> by (intro exI [of _ "q # qs"]) (simp add: Suc_diff_Suc)
    moreover have "?body k c s' = Inr (r', putq t qp k (q # qs))"
      using ld_putq [OF assms(1,4) k(1) _ qs(2)] stq_cons [OF assms(3) k(1) qs(2)] k(1) assms(2) qr by (simp add: bindS_def qs(1) ret_def)
    ultimately show "\<exists>c' s''. ?body k c s' = Inr (c', s'') \<and> ?P k c' s''" by blast
  qed (use assms(2,6) in simp)
  then show ?thesis by auto
qed


lemma high_bit_iff: "GMP_LIMB_HIGHBIT \<le> d \<longleftrightarrow> LIMB_B \<le> 2 * uint d"
  by (simp add: uint_limb_less GMP_LIMB_HIGHBIT_def LIMB_B_def)

lemma inverse_limb_3by2: "inverse_3by2 d 0 di \<Longrightarrow> inverse_limb d di"
proof -
  assume i: "inverse_3by2 d 0 di"
  have "(LIMB_B * LIMB_B * LIMB_B - 1) div (uint d * LIMB_B) = (LIMB_B * LIMB_B * LIMB_B - 1) div LIMB_B div uint d"
    by (simp add: mult.commute [of "uint d"] zdiv_zmult2_eq)
  also have "(LIMB_B * LIMB_B * LIMB_B - 1) div LIMB_B = LIMB_B * LIMB_B - 1"
    by (simp add: LIMB_B_def)
  finally show ?thesis using i by (simp add: inverse_3by2_def inverse_limb_def val2_def)
qed

lemma div_qr_1_invert_spec:
  assumes "d \<noteq> 0"
  shows "\<exists>iv. mpn_div_qr_1_invert d s = Inr (iv, s) \<and> inv_shift iv < 64 \<and>
    uint (inv_d1 iv) = 2 ^ inv_shift iv * uint d \<and> inverse_limb (inv_d1 iv) (inv_di iv)"
proof -
  obtain k where k: "gmp_clz d = Some k" "k < 64" "2 ^ 63 \<le> uint d * 2 ^ k" "uint d * 2 ^ k < 2 ^ 64"
    using gmp_clz_spec [OF assms] by auto
  have u: "uint (push_bit k d) = uint d * 2 ^ k" using k(4) by (intro uint_push_bit) (simp add: LIMB_B_def)
  then have "GMP_LIMB_HIGHBIT \<le> push_bit k d" using k(3) by (simp add: uint_limb_less GMP_LIMB_HIGHBIT_def)
  from mpn_invert_3by2_spec [OF this, of 0] obtain di where
    "mpn_invert_limb (push_bit k d) = Inr di" "inverse_limb (push_bit k d) di"
    using inverse_limb_3by2 by (auto simp: mpn_invert_limb_def)
  moreover have "d > 0" using assms by (simp add: word_gt_0)
  ultimately show ?thesis using k(1,2) u
    by (simp add: mpn_div_qr_1_invert_def bindS_def clzS_def Let_def mult.commute)
qed

text \<open>The value \<open>2 ^ k\<close> divides out of a division shifted by \<open>k\<close> bits.\<close>

lemma shifted_div:
  assumes "r + (2 ^ k * d) * q = 2 ^ k * (n :: int)" "0 \<le> r" "r < 2 ^ k * d" "0 < d"
  shows "q = n div d" "r div 2 ^ k = n mod d" "r = 2 ^ k * (n mod d)"
proof -
  have "r = 2 ^ k * (n - d * q)" using assms(1) by (simp add: algebra_simps)
  then obtain m where m: "r = 2 ^ k * m" "n = d * q + m" by (metis add.commute diff_add_cancel)
  then have "0 \<le> m" "m < d" using assms(2,3) by (simp_all add: zero_le_mult_iff)
  then show "q = n div d" "r div 2 ^ k = n mod d" "r = 2 ^ k * (n mod d)" unfolding m by (simp_all add: assms(4))
qed

lemma shift_high_less:
  assumes "lval rs + LIMB_B ^ n * h = 2 ^ k * lval xs" "length xs = n"
  shows "h < 2 ^ k"
proof -
  have "LIMB_B ^ n * h \<le> 2 ^ k * lval xs" using assms(1) lval_nonneg [of rs] by simp
  also have "\<dots> < 2 ^ k * LIMB_B ^ n" using lval_less [of xs] assms(2) by simp
  finally show ?thesis by (simp add: mult.commute [of "2 ^ k"])
qed

lemma div_qr_1_preinv_spec:
  fixes d :: limb
  assumes "limbs_at s np xs" "length xs = n" "0 < n" "n * 8 < max_alloc" "mem_ok s" "qroom s qp n" "qdown qp np n"
    and "d \<noteq> 0" "inv_shift iv < 64" "uint (inv_d1 iv) = 2 ^ inv_shift iv * uint d" "inverse_limb (inv_d1 iv) (inv_di iv)"
  shows "\<exists>r qs b. mpn_div_qr_1_preinv qp np n iv s = Inr (r, (putq s qp 0 qs)\<lparr>brk := b\<rparr>) \<and> length qs = n \<and>
    lval qs = lval xs div uint d \<and> uint r = lval xs mod uint d \<and> brk s \<le> b"
proof -
  let ?k = "inv_shift iv" and ?d1 = "inv_d1 iv"
  let ?loop = "\<lambda>np. for_down n (\<lambda>i r. bindS (ld (np + i)) (\<lambda>x. let (q, r) = gmp_udiv_qrnnd_preinv r x ?d1 (inv_di iv) in
      bindS (stq qp i q) (\<lambda>_. ret r)))"
  have d: "0 < uint d" using uint_pos [OF assms(8)] by simp
  have fin: "lval qs = lval xs div uint d \<and> uint (drop_bit ?k r) = lval xs mod uint d"
    if "r < ?d1" "uint r + uint ?d1 * lval qs = 2 ^ ?k * lval xs" for r qs
  proof -
    have "uint (drop_bit ?k r) = uint r div 2 ^ ?k"
      using uint_bounds [of r] unfolding unsigned_drop_bit_eq by (simp add: drop_bit_eq_div take_bit_int_eq_self LIMB_B_def)
    then show ?thesis using shifted_div [of "uint r" ?k "uint d" "lval qs" "lval xs"] that d uint_bounds(1) [of r]
      unfolding assms(10) uint_limb_less by simp
  qed
  show ?thesis
  proof (cases "0 < ?k")
    case True
    let ?t = "fresh s n"
    obtain h rs where l: "mpn_lshift (brk s) np n ?k ?t = Inr (h, put ?t (brk s) rs)" "length rs = n"
        "lval rs + LIMB_B ^ n * uint h = 2 ^ ?k * lval xs"
      using mpn_lshift_spec [OF limbs_at_fresh [OF assms(1,5)] assms(2) room_fresh _ _ True assms(9)] assms(1,2,3,5)
        room_less_brk [OF limbs_at_room [OF assms(1)] assms(5)] by (auto simp: down_ok_def)
    have "2 ^ ?k * 1 \<le> 2 ^ ?k * uint d" using d by (intro mult_left_mono) simp_all
    then have "h < ?d1" using shift_high_less [OF l(3) assms(2)] unfolding uint_limb_less assms(10) by linarith
    obtain r qs where q: "?loop (brk s) h (put ?t (brk s) rs) = Inr (r, putq (put ?t (brk s) rs) qp 0 qs)" "length qs = n" "r < ?d1"
        "uint r + uint ?d1 * lval qs = uint h * LIMB_B ^ n + lval rs"
      using div_1_loop [OF limbs_at_put l(2) qroom_fresh [OF assms(6,5)] qdown_fresh [OF assms(6,5)] assms(11) \<open>h < ?d1\<close>] by blast
    have "gmp_free (brk s) (putq (put ?t (brk s) rs) qp 0 qs) = Inr ((), (putq s qp 0 qs)\<lparr>brk := brk s + n + 1\<rparr>)"
      using assms(6) q(2) by (intro free_fresh [OF assms(5) l(2)]) simp
    then show ?thesis
      using xalloc_fresh [OF assms(3,4)] l q True fin [OF q(3), of qs]
      by (intro exI [of _ "drop_bit ?k r"] exI [of _ qs] exI [of _ "brk s + n + 1"])
        (simp add: mpn_div_qr_1_preinv_def bindS_def ret_def mult.commute)
  next
    case False
    have "(0 :: limb) < ?d1" using assms(10) d by (simp add: uint_limb_less)
    then obtain r qs where "?loop np 0 s = Inr (r, putq s qp 0 qs)" "length qs = n" "r < ?d1" "uint r + uint ?d1 * lval qs = lval xs"
      using div_1_loop [OF assms(1,2,6,7,11), of 0] by auto
    moreover have "putq s qp 0 qs = (putq s qp 0 qs)\<lparr>brk := brk s\<rparr>"
      by (auto simp: putq_def put_def split: option.splits)
    ultimately show ?thesis using False fin [of r qs]
      by (intro exI [of _ r] exI [of _ qs] exI [of _ "brk s"]) (simp add: mpn_div_qr_1_preinv_def bindS_def ret_def)
  qed
qed


lemma lval_surj: "0 \<le> v \<Longrightarrow> v < LIMB_B ^ n \<Longrightarrow> \<exists>xs. length xs = n \<and> lval xs = v"
proof (induction n arbitrary: v)
  case (Suc n)
  have "LIMB_B * (v div LIMB_B) < LIMB_B * LIMB_B ^ n"
    using Suc.prems(2) pos_mod_sign [OF LIMB_B_pos(1), of v] mult_div_mod_eq [of LIMB_B v] unfolding power_Suc by linarith
  then have "v div LIMB_B < LIMB_B ^ n" by simp
  then obtain xs where xs: "length xs = n" "lval xs = v div LIMB_B"
    using Suc.IH [of "v div LIMB_B"] Suc.prems(1) by (auto simp: pos_imp_zdiv_nonneg_iff)
  have "uint (word_of_int v :: limb) = v mod LIMB_B" by (simp add: uint_word_of_int LIMB_B_def)
  then show ?case using xs by (intro exI [of _ "word_of_int v # xs"]) simp
qed simp

text \<open>The special case of a power of two.\<close>

lemma power_of_two_limb:
  assumes "d \<noteq> 0" "d AND (d - 1) = 0"
  shows "\<exists>k < 64. gmp_ctz d = Some k \<and> uint d = 2 ^ k"
proof -
  obtain k h where k: "gmp_ctz d = Some k" "k < 64" "uint d = 2 ^ k * (2 * h + 1)"
    using gmp_ctz_spec [OF assms(1)] by blast
  have "\<not> d < 1" using uint_pos [OF assms(1)] by (simp add: uint_limb_less)
  then have "uint (d - 1) = uint d - 1" using borrow_sub(1) [of d 1] by simp
  moreover have "uint d AND uint (d - 1) = 0" using assms(2) by (simp flip: unsigned_and_eq)
  ultimately have "drop_bit (Suc k) (uint d AND (uint d - 1)) = 0" by simp
  moreover have "drop_bit (Suc k) (uint d) = h" unfolding drop_bit_eq_div k(3) by simp
  moreover have "drop_bit (Suc k) (uint d - 1) = h"
  proof -
    have "uint d - 1 = (2 ^ k - 1) + 2 ^ Suc k * h" unfolding k(3) by (simp add: algebra_simps)
    then have "drop_bit (Suc k) (uint d - 1) = ((2 ^ k - 1) + 2 ^ Suc k * h) div 2 ^ Suc k" unfolding drop_bit_eq_div by (rule arg_cong)
    also have "\<dots> = h + (2 ^ k - 1) div 2 ^ Suc k" by (rule div_mult_self2) simp
    finally have "drop_bit (Suc k) (uint d - 1) = h + (2 ^ k - 1) div 2 ^ Suc k" .
    moreover have "(2 ^ k - 1 :: int) div 2 ^ Suc k = 0"
      using one_le_power [of "2 :: int" k] unfolding power_Suc by (intro div_pos_pos_trivial) linarith+
    ultimately show ?thesis by simp
  qed
  ultimately have "h = 0" by (simp add: drop_bit_and)
  then show ?thesis using k by auto
qed

lemma and_power_of_two: "uint d = 2 ^ k \<Longrightarrow> uint (x AND (d - 1)) = uint x mod 2 ^ k" for x d :: limb
proof -
  assume d: "uint d = 2 ^ k"
  then have "\<not> d < 1" using one_le_power [of "2 :: int" k] by (simp add: uint_limb_less linorder_not_less)
  then have "uint (d - 1) = mask k" using borrow_sub(1) [of d 1] d by (simp add: mask_eq_exp_minus_1)
  then show ?thesis by (simp add: unsigned_and_eq take_bit_eq_mod flip: take_bit_eq_mask)
qed

lemma lval_mod_power: "k \<le> 64 \<Longrightarrow> lval (x # xs) mod 2 ^ k = uint x mod 2 ^ k"
proof -
  assume "k \<le> 64"
  then have "LIMB_B = 2 ^ k * 2 ^ (64 - k)" by (simp add: LIMB_B_def flip: power_add)
  then have "lval (x # xs) = uint x + 2 ^ k * (2 ^ (64 - k) * lval xs)" by simp
  then show ?thesis by (simp only: mod_mult_self2)
qed

lemma rshift_div:
  assumes "uint (l :: limb) + LIMB_B * v = 2 ^ (64 - k) * n" "k < 64"
  shows "v = n div 2 ^ k"
proof -
  have B: "LIMB_B = 2 ^ (64 - k) * 2 ^ k" using assms(2) by (simp add: LIMB_B_def flip: power_add)
  have "(uint l + LIMB_B * v) div LIMB_B = v" using uint_bounds [of l] by simp
  moreover have "2 ^ (64 - k) * n div LIMB_B = n div 2 ^ k" unfolding B by (rule div_mult_mult1) simp
  ultimately show ?thesis using assms(1) by simp
qed

definition qsame :: "nat option \<Rightarrow> nat \<Rightarrow> nat \<Rightarrow> bool" where
  "qsame qp np n \<longleftrightarrow> (\<forall>p. qp = Some p \<longrightarrow> p = np \<or> p + n \<le> np \<or> np + n \<le> p)"

lemma div_qr_1_spec:
  assumes "limbs_at s np xs" "length xs = n" "0 < n" "n * 8 < max_alloc" "mem_ok s" "qroom s qp n" "qsame qp np n" "d \<noteq> 0"
  shows "\<exists>r qs b. mpn_div_qr_1 qp np n d s = Inr (r, (putq s qp 0 qs)\<lparr>brk := b\<rparr>) \<and> length qs = n \<and>
    lval qs = lval xs div uint d \<and> uint r = lval xs mod uint d \<and> brk s \<le> b"
proof (cases "d AND (d - 1) = 0")
  case False
  obtain iv where iv: "mpn_div_qr_1_invert d s = Inr (iv, s)" "inv_shift iv < 64"
    "uint (inv_d1 iv) = 2 ^ inv_shift iv * uint d" "inverse_limb (inv_d1 iv) (inv_di iv)"
    using div_qr_1_invert_spec [OF assms(8)] by blast
  have "qdown qp np n" using assms(7) by (auto simp: qsame_def qdown_def down_ok_def split: option.splits)
  from div_qr_1_preinv_spec [OF assms(1-6) this assms(8) iv(2-4)] show ?thesis
    using False assms(8) iv(1) by (simp add: mpn_div_qr_1_def bindS_def word_gt_0)
next
  case True
  obtain k where k: "k < 64" "gmp_ctz d = Some k" "uint d = 2 ^ k" using power_of_two_limb [OF assms(8) True] by blast
  obtain x ys where x: "xs = x # ys" using assms(2,3) by (cases xs) auto
  have r: "uint (x AND (d - 1)) = lval xs mod uint d"
    unfolding and_power_of_two [OF k(3)] k(3) x using k(1) by (intro lval_mod_power [symmetric]) simp
  have l: "ld np s = Inr (x, s)" using ld_limbs_at [OF assms(1), of 0] x by simp
  have u: "up_ok p np n" "room s p n" if "qp = Some p" for p
    using assms(6,7) that by (auto simp: qsame_def up_ok_def qroom_def)
  let ?q = "case qp of None \<Rightarrow> ret () | Some qp \<Rightarrow> if d \<le> 1 then mpn_copyi qp np n
    else (case gmp_ctz d of None \<Rightarrow> stop No_return | Some shift \<Rightarrow> bindS (mpn_rshift qp np n shift) (\<lambda>_. ret ()))"
  have "\<exists>qs. ?q s = Inr ((), putq s qp 0 qs) \<and> length qs = n \<and> lval qs = lval xs div uint d"
  proof (cases "qp")
    case None
    have "lval xs div uint d \<le> lval xs" using zdiv_mono2 [of "lval xs" 1 "uint d"] lval_nonneg [of xs] uint_pos [OF assms(8)] by simp
    then obtain qs where "length qs = n" "lval qs = lval xs div uint d"
      using lval_surj [of "lval xs div uint d" n] lval_less [of xs] assms(2) lval_nonneg [of xs] k(3)
      by (auto simp: pos_imp_zdiv_nonneg_iff)
    then show ?thesis using None by (auto simp: putq_def ret_def)
  next
    case (Some p)
    show ?thesis
    proof (cases "d \<le> 1")
      case True
      then have "uint d = 1" using uint_pos [OF assms(8)] by (simp add: uint_limb_less)
      then show ?thesis using mpn_copyi_spec [OF assms(1,2) u(2,1) [OF Some]] Some True assms(2)
        by (intro exI [of _ xs]) (simp add: putq_def)
    next
      case False
      then have "0 < k" using k(3) by (cases k) (auto simp: uint_limb_less)
      from mpn_rshift_spec [OF assms(1,2) u(2,1) [OF Some] _ this k(1)] assms(3) obtain l rs where
        "mpn_rshift p np n k s = Inr (l, put s p rs)" "length rs = n" "uint l + LIMB_B * lval rs = 2 ^ (64 - k) * lval xs" by auto
      then show ?thesis using False Some k rshift_div [of l "lval rs" k "lval xs"]
        by (intro exI [of _ rs]) (simp add: bindS_def ret_def putq_def)
    qed
  qed
  then obtain qs where q: "?q s = Inr ((), putq s qp 0 qs)" "length qs = n" "lval qs = lval xs div uint d" by blast
  have "putq s qp 0 qs = (putq s qp 0 qs)\<lparr>brk := brk s\<rparr>" by (auto simp: putq_def put_def split: option.splits)
  then show ?thesis using q l r True assms(8)
    by (intro exI [of _ "x AND (d - 1)"] exI [of _ qs] exI [of _ "brk s"]) (simp add: mpn_div_qr_1_def bindS_def ret_def word_gt_0)
qed

end
