(* ===== verification/Mpn_Div_Gen.thy ===== *)
theory Mpn_Div_Gen
  imports Mpn_Div
begin

unbundle bit_operations_syntax

text \<open>
  Correctness of the division of mini-gmp: the inverse of a divisor of two or more limbs, the division
  by two limbs, one turn of the schoolbook division, and the whole of \<^const>\<open>mpn_div_qr\<close>.
\<close>

section \<open>Division by two limbs\<close>

lemma uint_clz:
  assumes "d \<noteq> 0"
  obtains k where "gmp_clz d = Some k" "k < 64" "uint (push_bit k d) = 2 ^ k * uint d" "LIMB_B \<le> 2 * uint (push_bit k d)"
proof -
  obtain k where k: "gmp_clz d = Some k" "k < 64" "2 ^ 63 \<le> uint d * 2 ^ k" "uint d * 2 ^ k < 2 ^ 64"
    using gmp_clz_spec [OF assms] by auto
  have u: "uint (push_bit k d) = uint d * 2 ^ k" using k(4) by (intro uint_push_bit) (simp add: LIMB_B_def)
  moreover have "LIMB_B \<le> 2 * uint (push_bit k d)" using k(3) u by (simp add: LIMB_B_def)
  ultimately show ?thesis using k(1,2) that by (simp add: mult.commute)
qed

lemma val2_shift:
  assumes "0 < k" "k < 64" "uint (push_bit k d1) = 2 ^ k * uint d1"
  shows "val2 (push_bit k d1 OR drop_bit (64 - k) d0, push_bit k d0) = 2 ^ k * val2 (d1, d0)"
  using shift_or [OF assms(1,2), of d1 d0] shift_parts [OF assms(1,2), of d0] assms(3)
  by (simp add: val2_def algebra_simps)

lemma div_qr_2_invert_spec:
  assumes "d1 \<noteq> 0"
  shows "\<exists>iv e0. mpn_div_qr_2_invert d1 d0 s = Inr (iv, s) \<and> inv_shift iv < 64 \<and> inv_d0 iv = Some e0 \<and>
    val2 (inv_d1 iv, e0) = 2 ^ inv_shift iv * val2 (d1, d0) \<and> inverse_3by2 (inv_d1 iv) e0 (inv_di iv)"
proof -
  obtain k where k: "gmp_clz d1 = Some k" "k < 64" "uint (push_bit k d1) = 2 ^ k * uint d1" "LIMB_B \<le> 2 * uint (push_bit k d1)"
    using uint_clz [OF assms] by blast
  define e1 where "e1 = (if 0 < k then push_bit k d1 OR drop_bit (64 - k) d0 else d1)"
  define e0 where "e0 = (if 0 < k then push_bit k d0 else d0)"
  have v: "val2 (e1, e0) = 2 ^ k * val2 (d1, d0)"
    using val2_shift [OF _ k(2,3)] by (simp add: e1_def e0_def)
  have "uint (push_bit k d1) \<le> uint e1" using shift_or [OF _ k(2), of d1 d0] by (simp add: e1_def)
  then have "GMP_LIMB_HIGHBIT \<le> e1" unfolding high_bit_iff using k(4) by linarith
  from mpn_invert_3by2_spec [OF this, of e0] obtain di where
    di: "mpn_invert_3by2 e1 e0 = Inr di" "inverse_3by2 e1 e0 di" by blast
  have e: "(if 0 < k then (push_bit k d1 OR drop_bit (GMP_LIMB_BITS - k) d0, push_bit k d0) else (d1, d0)) = (e1, e0)"
    by (simp add: e1_def e0_def GMP_LIMB_BITS_def)
  have "d1 > 0" using assms by (simp add: word_gt_0)
  then show ?thesis unfolding mpn_div_qr_2_invert_def using k(1,2) v di
    by (simp add: bindS_def clzS_def e Let_def)
qed

lemma div_2_loop:
  assumes "limbs_at t np xs" "length xs = n" "qroom t qp n" "qdown qp np n" "inverse_3by2 d1 d0 di" "val2 r < val2 (d1, d0)"
  shows "\<exists>r' qs. for_down n (\<lambda>i (r1, r0). bindS (ld (np + i)) (\<lambda>x. let (q, r) = gmp_udiv_qr_3by2 r1 r0 x d1 d0 di in
      bindS (stq qp i q) (\<lambda>_. ret r))) r t = Inr (r', putq t qp 0 qs) \<and> length qs = n \<and> val2 r' < val2 (d1, d0) \<and>
    val2 r' + val2 (d1, d0) * lval qs = val2 r * LIMB_B ^ n + lval xs"
proof -
  let ?D = "val2 (d1, d0)"
  let ?P = "\<lambda>k r' t'. \<exists>qs. t' = putq t qp k qs \<and> length qs = n - k \<and> val2 r' < ?D \<and>
    val2 r' + ?D * lval qs = val2 r * LIMB_B ^ (n - k) + lval (drop k xs)"
  let ?body = "\<lambda>i (r1, r0). bindS (ld (np + i)) (\<lambda>x. let (q, r) = gmp_udiv_qr_3by2 r1 r0 x d1 d0 di in
    bindS (stq qp i q) (\<lambda>_. ret r))"
  have "\<exists>c' s'. for_down n ?body r t = Inr (c', s') \<and> ?P 0 c' s'"
  proof (rule for_down_inv)
    fix k c s' assume k: "k < n" "?P (Suc k) c s'"
    then obtain qs where qs: "s' = putq t qp (Suc k) qs" "length qs = n - Suc k" "val2 c < ?D"
      "val2 c + ?D * lval qs = val2 r * LIMB_B ^ (n - Suc k) + lval (drop (Suc k) xs)" by auto
    obtain r1 r0 where c: "c = (r1, r0)" by force
    obtain q r' where qr: "gmp_udiv_qr_3by2 r1 r0 (xs ! k) d1 d0 di = (q, r')" by (rule prod.exhaust)
    have v: "uint q = (val2 c * LIMB_B + uint (xs ! k)) div ?D" "val2 r' = (val2 c * LIMB_B + uint (xs ! k)) mod ?D"
      using udiv_qr_3by2_val [OF assms(5) _ qr] qs(3) c by simp_all
    then have e: "val2 r' + ?D * uint q = val2 c * LIMB_B + uint (xs ! k)" by simp
    have "0 < ?D" using qs(3) val2_bounds(1) [of c] by linarith
    then have "val2 r' < ?D" unfolding v(2) by simp
    have "val2 r' + ?D * lval (q # qs) = (val2 r' + ?D * uint q) + LIMB_B * (?D * lval qs)"
      by (simp add: algebra_simps)
    also have "\<dots> = uint (xs ! k) + LIMB_B * (val2 c + ?D * lval qs)" unfolding e by (simp add: algebra_simps)
    also have "\<dots> = val2 r * LIMB_B ^ Suc (n - Suc k) + lval (drop k xs)"
      unfolding qs(4) using k(1) assms(2) by (simp add: drop_nth_lval [of k] algebra_simps)
    finally have "?P k r' (putq t qp k (q # qs))"
      using qs k(1) \<open>val2 r' < ?D\<close> by (intro exI [of _ "q # qs"]) (simp add: Suc_diff_Suc)
    moreover have "?body k c s' = Inr (r', putq t qp k (q # qs))"
      using ld_putq [OF assms(1,4) k(1) _ qs(2)] stq_cons [OF assms(3) k(1) qs(2)] k(1) assms(2) qr c by (simp add: bindS_def qs(1) ret_def)
    ultimately show "\<exists>c' s''. ?body k c s' = Inr (c', s'') \<and> ?P k c' s''" by blast
  qed (use assms(2,6) in simp)
  then show ?thesis by auto
qed


lemma limb_power_parts: "k < 64 \<Longrightarrow> LIMB_B = 2 ^ (64 - k) * 2 ^ k"
  by (simp add: LIMB_B_def flip: power_add)

lemma uint_drop_limb: "uint (drop_bit k x :: limb) = uint x div 2 ^ k"
  using uint_bounds [of x] unfolding unsigned_drop_bit_eq by (simp add: drop_bit_eq_div take_bit_int_eq_self LIMB_B_def)

lemma unshift_val2:
  assumes "0 < k" "k < 64" "val2 (r1, r0) = 2 ^ k * v"
  shows "push_bit (64 - k) r0 = 0" "val2 (drop_bit k r1, drop_bit k r0 OR push_bit (64 - k) r1) = v"
proof -
  let ?t = "64 - k"
  have B: "LIMB_B = 2 ^ ?t * 2 ^ k" by (rule limb_power_parts [OF assms(2)])
  have t: "0 < ?t" "?t < 64" "64 - ?t = k" using assms(1,2) by simp_all
  have r0: "uint r0 = 2 ^ k * (v - 2 ^ ?t * uint r1)"
    using assms(3) unfolding val2_def B by (simp add: algebra_simps)
  have "2 ^ ?t * uint r0 = LIMB_B * (v - 2 ^ ?t * uint r1)" unfolding B r0 by (simp only: mult.assoc)
  moreover have "uint (push_bit ?t r0) = 2 ^ ?t * uint r0 mod LIMB_B"
    unfolding unsigned_push_bit_eq by (simp add: push_bit_eq_mult take_bit_eq_mod LIMB_B_def mult.commute)
  ultimately show "push_bit ?t r0 = 0" by (simp add: uint_0_iff)
  have "uint (drop_bit k r0) = v - 2 ^ ?t * uint r1" unfolding uint_drop_limb r0 by simp
  moreover have "uint (push_bit ?t r1 OR drop_bit k r0) = uint (push_bit ?t r1) + uint (drop_bit k r0)"
    using shift_or [OF t(1,2), of r1 r0] t(3) by simp
  moreover have "uint (push_bit ?t r1) + LIMB_B * uint (drop_bit k r1) = 2 ^ ?t * uint r1"
    using shift_parts [OF t(1,2), of r1] t(3) by simp
  ultimately show "val2 (drop_bit k r1, drop_bit k r0 OR push_bit ?t r1) = v"
    unfolding or.commute [of "drop_bit k r0"] by (simp add: val2_def mult.commute)
qed

lemma lval_2: "lval [r0, r1] = val2 (r1, r0)"
  by (simp add: val2_def)

lemma st_two:
  assumes "room s p 2"
  shows "bindS (st (p + 1) r1) (\<lambda>_. st p r0) s = Inr ((), put s p [r0, r1])"
proof -
  have "st (p + 1) r1 s = Inr ((), put s (p + 1) [r1])" using st_cons [OF assms, of 1 "[]" r1] by simp
  then show ?thesis using st_cons [OF assms, of 0 "[r1]" r0] by (simp add: bindS_def)
qed


lemma high_less:
  assumes "uint (h :: limb) < 2 ^ k" "k < 64" "GMP_LIMB_HIGHBIT \<le> d"
  shows "uint h < uint d"
proof -
  have "(2 :: int) ^ k \<le> 2 ^ 63" using assms(2) by (intro power_increasing) simp_all
  then show ?thesis using assms(1,3) unfolding high_bit_iff by (simp add: LIMB_B_def)
qed

text \<open>The remainder overwrites the low limbs of the dividend.\<close>

lemma div_qr_2_preinv_spec:
  assumes s: "limbs_at s np xs" "length xs = n" "2 \<le> n" "n * 8 < max_alloc" "mem_ok s" "qroom s qp (n - 1)" "qdown qp np (n - 1)"
    and iv: "inv_shift iv < 64" "inv_d0 iv = Some e0" "val2 (inv_d1 iv, e0) = 2 ^ inv_shift iv * D"
      "inverse_3by2 (inv_d1 iv) e0 (inv_di iv)" "0 < D"
  shows "\<exists>qs rs b. mpn_div_qr_2_preinv qp np np n iv s = Inr ((), put ((putq s qp 0 qs)\<lparr>brk := b\<rparr>) np rs) \<and>
    length qs = n - 1 \<and> length rs = 2 \<and> lval qs = lval xs div D \<and> lval rs = lval xs mod D"
proof -
  let ?k = "inv_shift iv" and ?d1 = "inv_d1 iv"
  let ?loop = "\<lambda>np. for_down (n - 1) (\<lambda>i (r1, r0). bindS (ld (np + i)) (\<lambda>x. let (q, r) = gmp_udiv_qr_3by2 r1 r0 x ?d1 e0 (inv_di iv) in
      bindS (stq qp i q) (\<lambda>_. ret r)))"
  have room: "room ((putq s qp 0 qs)\<lparr>brk := b\<rparr>) np 2" for qs b
    using limbs_at_room [OF s(1)] s(2,3) by (auto simp: room_def putq_def cells_put split: option.splits)
  have run: "\<exists>r qs. ?loop p (h, ys ! (n - 1)) t = Inr (r, putq t qp 0 qs) \<and> length qs = n - 1 \<and>
      lval qs = lval xs div D \<and> val2 r = 2 ^ ?k * (lval xs mod D) \<and> ld (p + (n - 1)) t = Inr (ys ! (n - 1), t)"
    if l: "limbs_at t p ys" "length ys = n" "lval ys + LIMB_B ^ n * uint h = 2 ^ ?k * lval xs" "uint h < uint ?d1"
      and q: "qroom t qp (n - 1)" "qdown qp p (n - 1)" for t p ys h
  proof -
    have "val2 (h, ys ! (n - 1)) < val2 (?d1, e0)"
      using l(4) val2_less [of ?d1 e0 h "ys ! (n - 1)"] by (auto simp: uint_limb_less not_le [symmetric])
    from div_2_loop [OF limbs_at_take [OF l(1), of "n - 1"] _ q iv(4) this] l(2) obtain r qs where
      r: "?loop p (h, ys ! (n - 1)) t = Inr (r, putq t qp 0 qs)" "length qs = n - 1" "val2 r < val2 (?d1, e0)"
      "val2 r + val2 (?d1, e0) * lval qs = val2 (h, ys ! (n - 1)) * LIMB_B ^ (n - 1) + lval (take (n - 1) ys)" by auto
    have "val2 (h, ys ! (n - 1)) * LIMB_B ^ (n - 1) + lval (take (n - 1) ys) = lval ys + LIMB_B ^ n * uint h"
      using lval_take_Suc [of "n - 1" ys] l(2) s(3) by (cases n) (simp_all add: val2_def algebra_simps)
    with r(4) l(3) iv(3) have "val2 r + (2 ^ ?k * D) * lval qs = 2 ^ ?k * lval xs" by simp
    from shifted_div [OF this val2_bounds(1) _ iv(5)] r iv(3) show ?thesis
      using ld_limbs_at [OF l(1), of "n - 1"] l(2) s(3) by auto
  qed
  show ?thesis
  proof (cases "0 < ?k")
    case True
    let ?t = "fresh s n"
    obtain h ys where l: "mpn_lshift (brk s) np n ?k ?t = Inr (h, put ?t (brk s) ys)" "length ys = n"
        "lval ys + LIMB_B ^ n * uint h = 2 ^ ?k * lval xs"
      using mpn_lshift_spec [OF limbs_at_fresh [OF s(1,5)] s(2) room_fresh _ _ True iv(1)] s
        room_less_brk [OF limbs_at_room [OF s(1)] s(5)] by (auto simp: down_ok_def)
    have "uint h < uint ?d1" by (rule high_less [OF shift_high_less [OF l(3) s(2)] iv(1)]) (use iv(4) in \<open>simp add: inverse_3by2_def\<close>)
    from run [OF limbs_at_put l(2,3) this qroom_fresh [OF s(6,5), of n] qdown_fresh [OF s(6,5)]] obtain r1 r0 qs where
      q: "?loop (brk s) (h, ys ! (n - 1)) (put ?t (brk s) ys) = Inr ((r1, r0), putq (put ?t (brk s) ys) qp 0 qs)" "length qs = n - 1"
        "lval qs = lval xs div D" "val2 (r1, r0) = 2 ^ ?k * (lval xs mod D)"
        "ld (brk s + (n - 1)) (put ?t (brk s) ys) = Inr (ys ! (n - 1), put ?t (brk s) ys)" by auto
    note u = unshift_val2 [OF True iv(1) q(4)]
    let ?r = "(drop_bit ?k r1, drop_bit ?k r0 OR push_bit (64 - ?k) r1)"
    let ?b = "brk s + n + 1"
    have "gmp_free (brk s) (putq (put ?t (brk s) ys) qp 0 qs) = Inr ((), (putq s qp 0 qs)\<lparr>brk := ?b\<rparr>)"
      using s(6) q(2) by (intro free_fresh [OF s(5) l(2)]) simp
    then have "mpn_div_qr_2_preinv qp np np n iv s = Inr ((), put ((putq s qp 0 qs)\<lparr>brk := ?b\<rparr>) np [snd ?r, fst ?r])"
      using xalloc_fresh [of n s] s(3,4) l q(1,2,5) True u(1) st_two [OF room [of ?b qs], of "fst ?r" "snd ?r"] iv(2)
      by (simp add: mpn_div_qr_2_preinv_def Let_def bindS_def initS_def GMP_LIMB_BITS_def)
    moreover have "length [snd ?r, fst ?r] = 2" "lval [snd ?r, fst ?r] = lval xs mod D" using u(2) by (simp_all add: lval_2 del: lval.simps)
    ultimately show ?thesis using q(2,3) by blast
  next
    case False
    have "LIMB_B \<le> 2 * uint ?d1" using iv(4) by (simp add: inverse_3by2_def high_bit_iff)
    then have "uint (0 :: limb) < uint ?d1" unfolding unsigned_0 using LIMB_B_pos(1) by linarith
    from run [OF s(1,2) _ this s(6,7)] False obtain r1 r0 qs where
      q: "?loop np (0, xs ! (n - 1)) s = Inr ((r1, r0), putq s qp 0 qs)" "length qs = n - 1"
        "lval qs = lval xs div D" "val2 (r1, r0) = lval xs mod D" "ld (np + (n - 1)) s = Inr (xs ! (n - 1), s)" by auto
    have "putq s qp 0 qs = (putq s qp 0 qs)\<lparr>brk := brk s\<rparr>" by (auto simp: putq_def put_def split: option.splits)
    then have "mpn_div_qr_2_preinv qp np np n iv s = Inr ((), put ((putq s qp 0 qs)\<lparr>brk := brk s\<rparr>) np [r0, r1])"
      using s(3) q False st_two [OF room [of "brk s" qs], of r1 r0] iv(2)
      by (simp add: mpn_div_qr_2_preinv_def Let_def bindS_def initS_def)
    moreover have "length [r0, r1] = 2" "lval [r0, r1] = lval xs mod D" using q(4) by (simp_all add: lval_2 del: lval.simps)
    ultimately show ?thesis using q(2,3) by blast
  qed
qed

section \<open>Schoolbook division: the arithmetic of one turn\<close>

text \<open>
  \<open>V\<close> is the value of the two high limbs of the divisor \<open>D = V * P + dl\<close>, with \<open>P = LIMB_B ^ m\<close>.
\<close>

lemma pi1_equal:
  fixes P V dl w :: int
  assumes "1 \<le> P" "LIMB_B \<le> V" "0 \<le> dl" "dl < P" "0 \<le> w" "V * (P * LIMB_B) + w < (V * P + dl) * LIMB_B"
  shows "0 \<le> V * (P * LIMB_B) + w - (LIMB_B - 1) * (V * P + dl)"
    "V * (P * LIMB_B) + w - (LIMB_B - 1) * (V * P + dl) < V * P + dl"
proof -
  have "dl * LIMB_B \<le> P * LIMB_B" using assms(4) by (intro mult_right_mono) simp_all
  moreover have "LIMB_B * P \<le> V * P" using assms(1,2) by (intro mult_right_mono) simp_all
  moreover have e: "V * (P * LIMB_B) + w - (LIMB_B - 1) * (V * P + dl) = w - dl * LIMB_B + V * P + dl"
    by (simp add: algebra_simps)
  ultimately show "0 \<le> V * (P * LIMB_B) + w - (LIMB_B - 1) * (V * P + dl)"
    unfolding e using assms(3,5) by (simp only: mult.commute [of LIMB_B P])
  have "w < dl * LIMB_B" using assms(6) by (simp add: algebra_simps)
  then show "V * (P * LIMB_B) + w - (LIMB_B - 1) * (V * P + dl) < V * P + dl" unfolding e by simp
qed

lemma pi1_general:
  fixes P V dl wl wl' cy q r n3 :: int
  assumes "1 \<le> P" "LIMB_B \<le> V" "0 \<le> dl" "dl < P" "0 \<le> wl" "wl < P" "0 \<le> wl'" "wl' < P"
    and "n3 = V * q + r" "0 \<le> r" "r < V" "0 \<le> q" "q < LIMB_B" "wl' - P * cy = wl - dl * q"
  shows "n3 * P + wl - q * (V * P + dl) = (r - cy) * P + wl'"
    and "cy \<le> r \<Longrightarrow> 0 \<le> (r - cy) * P + wl' \<and> (r - cy) * P + wl' < V * P + dl"
    and "r < cy \<Longrightarrow> 0 \<le> (r - cy) * P + wl' + (V * P + dl) \<and> (r - cy) * P + wl' < 0 \<and> 0 < q"
proof -
  show e: "n3 * P + wl - q * (V * P + dl) = (r - cy) * P + wl'"
    using assms(14) unfolding assms(9) by (simp add: algebra_simps)
  have e': "(r - cy) * P + wl' = r * P + wl - dl * q" using assms(14) by (simp add: algebra_simps)
  have "0 \<le> dl * q" using assms by simp
  have "dl * q \<le> P * LIMB_B" using assms by (intro mult_mono) simp_all
  have "P * LIMB_B \<le> V * P" using assms(1,2) by (simp add: mult.commute)
  have "r * P \<le> (V - 1) * P" using assms(1,11) by (intro mult_right_mono) simp_all
  then have "r * P \<le> V * P - P" by (simp add: left_diff_distrib)
  show "0 \<le> (r - cy) * P + wl' \<and> (r - cy) * P + wl' < V * P + dl" if "cy \<le> r"
  proof
    have "0 \<le> (r - cy) * P" using that assms(1) by simp
    then show "0 \<le> (r - cy) * P + wl'" using assms(7) by simp
    show "(r - cy) * P + wl' < V * P + dl"
      unfolding e' using \<open>0 \<le> dl * q\<close> \<open>r * P \<le> V * P - P\<close> assms(3,6) by linarith
  qed
  show "0 \<le> (r - cy) * P + wl' + (V * P + dl) \<and> (r - cy) * P + wl' < 0 \<and> 0 < q" if "r < cy"
  proof (intro conjI)
    have "0 \<le> r * P" using assms(1,10) by simp
    then show "0 \<le> (r - cy) * P + wl' + (V * P + dl)"
      unfolding e' using \<open>dl * q \<le> P * LIMB_B\<close> \<open>P * LIMB_B \<le> V * P\<close> assms(3,5) by linarith
    have "(r - cy) * P \<le> (- 1) * P" using that assms(1) by (intro mult_right_mono) simp_all
    then show neg: "(r - cy) * P + wl' < 0" using assms(8) by simp
    show "0 < q" using neg \<open>0 \<le> r * P\<close> assms(5,12) unfolding e' by (cases "q = 0") simp_all
  qed
qed

section \<open>Schoolbook division: the memory\<close>

text \<open>
  The dividend at \<open>np\<close>, the divisor at \<open>dp\<close> and the quotient lie apart; \<open>div_mem\<close> is the memory
  with the current contents \<open>ws\<close> of the dividend and the quotient limbs from \<open>j\<close> upwards.
\<close>

definition div_layout :: "limb_mem \<Rightarrow> nat \<Rightarrow> nat \<Rightarrow> nat option \<Rightarrow> nat \<Rightarrow> nat \<Rightarrow> limb list \<Rightarrow> bool" where
  "div_layout s np nn qp qn dp ds \<longleftrightarrow> limbs_at s dp ds \<and> room s np nn \<and> qroom s qp qn \<and>
     (np + nn \<le> dp \<or> dp + length ds \<le> np) \<and>
     (\<forall>p. qp = Some p \<longrightarrow> (p + qn \<le> np \<or> np + nn \<le> p) \<and> (p + qn \<le> dp \<or> dp + length ds \<le> p))"

definition div_mem :: "limb_mem \<Rightarrow> nat \<Rightarrow> nat option \<Rightarrow> limb list \<Rightarrow> nat \<Rightarrow> limb list \<Rightarrow> limb_mem" where
  "div_mem s np qp ws j qs = putq (put s np ws) qp j qs"

lemma div_mem_dp:
  assumes "div_layout s np nn qp qn dp ds" "length ws = nn" "j + length qs \<le> qn"
  shows "limbs_at (div_mem s np qp ws j qs) dp ds"
  using assms by (auto simp: div_layout_def div_mem_def putq_def split: option.splits intro!: limbs_at_put_outside)

lemma div_mem_np:
  assumes "div_layout s np nn qp qn dp ds" "length ws = nn" "j + length qs \<le> qn"
  shows "limbs_at (div_mem s np qp ws j qs) np ws"
proof (cases qp)
  case None
  then show ?thesis by (simp add: div_mem_def putq_def)
next
  case (Some p)
  then have "p + qn \<le> np \<or> np + nn \<le> p" using assms(1) by (simp add: div_layout_def)
  then show ?thesis using Some assms(2,3) limbs_at_put_outside [OF limbs_at_put, of np ws "p + j" qs]
    by (auto simp: div_mem_def putq_def)
qed

lemma put_commute:
  "p + length xs \<le> q \<or> q + length ys \<le> p \<Longrightarrow> put (put s p xs) q ys = put (put s q ys) p xs"
  by (auto simp: put_def intro!: limb_mem.equality ext)

lemma div_mem_put:
  assumes "div_layout s np nn qp qn dp ds" "length ws = nn" "j + length qs \<le> qn" "i + length rs \<le> nn"
  shows "put (div_mem s np qp ws j qs) (np + i) rs = div_mem s np qp (take i ws @ rs @ drop (i + length rs) ws) j qs"
proof (cases qp)
  case None
  then show ?thesis using assms by (simp add: div_mem_def putq_def put_put)
next
  case (Some p)
  then have "p + qn \<le> np \<or> np + nn \<le> p" using assms(1) by (simp add: div_layout_def)
  then have "put (put (put s np ws) (p + j) qs) (np + i) rs = put (put (put s np ws) (np + i) rs) (p + j) qs"
    using assms(3,4) by (intro put_commute) auto
  then show ?thesis using Some assms by (simp add: div_mem_def putq_def put_put)
qed

lemma div_mem_st:
  assumes "div_layout s np nn qp qn dp ds" "length ws = nn" "j + length qs \<le> qn" "i < nn"
  shows "st (np + i) x (div_mem s np qp ws j qs) = Inr ((), div_mem s np qp (ws[i := x]) j qs)"
proof -
  have "cells (div_mem s np qp ws j qs) (np + i) \<noteq> None"
    using div_mem_np [OF assms(1-3)] assms(2,4) by (simp add: limbs_at_def)
  then show ?thesis using st_put div_mem_put [OF assms(1-3), of i "[x]"] assms(2,4)
    by (simp add: upd_conv_take_nth_drop)
qed

lemma div_mem_stq:
  assumes "div_layout s np nn qp qn dp ds" "k < qn" "length qs = qn - Suc k"
  shows "stq qp k q (div_mem s np qp ws (Suc k) qs) = Inr ((), div_mem s np qp ws k (q # qs))"
  unfolding div_mem_def
proof (rule stq_cons [OF _ assms(2,3)])
  show "qroom (put s np ws) qp qn" using assms(1) by (auto simp: div_layout_def qroom_def split: option.splits)
qed

section \<open>Schoolbook division: one turn\<close>

lemma lval_app_2: "length xs = m \<Longrightarrow> lval (xs @ [y, z]) = val2 (z, y) * LIMB_B ^ m + lval xs"
  by (simp add: lval_append val2_def algebra_simps)

lemma bounded_eq:
  fixes v w c k :: int
  assumes "v + k * c = w" "0 \<le> v" "v < k" "0 \<le> w" "w < k"
  shows "c = 0" "v = w"
proof -
  have "c = w div k" unfolding assms(1) [symmetric] using assms(2,3) by simp
  then show "c = 0" using assms(4,5) by simp
  then show "v = w" using assms(1) by simp
qed

lemma pi1_step_equal:
  assumes L: "div_layout s np nn qp qn dp ds" and ws: "ws = pre @ wl @ [x, d0] @ post" "length ws = nn" "length pre = k" "length wl = m"
    and ds: "ds = dl @ [d0, d1]" "length dl = m" and q: "k < qn" "length qs = qn - Suc k" and V: "LIMB_B \<le> val2 (d1, d0)"
    and N: "uint d1 * LIMB_B ^ (m + 2) + lval (wl @ [x, d0]) < lval ds * LIMB_B"
  shows "\<exists>ys z. div_pi1_step qp np dp (m + 2) d1 d0 dinv k d1 (div_mem s np qp ws (Suc k) qs) =
      Inr (z, div_mem s np qp (pre @ ys @ [z] @ post) k (GMP_LIMB_MAX # qs)) \<and> length ys = m + 1 \<and>
    lval (ys @ [z]) < lval ds \<and>
    lval (ys @ [z]) + lval ds * uint GMP_LIMB_MAX = uint d1 * LIMB_B ^ (m + 2) + lval (wl @ [x, d0])"
proof -
  let ?T = "div_mem s np qp ws (Suc k) qs" and ?P = "LIMB_B ^ m" and ?V = "val2 (d1, d0)"
  let ?N = "uint d1 * LIMB_B ^ (m + 2) + lval (wl @ [x, d0])"
  have qs: "Suc k + length qs \<le> qn" using q by simp
  note mem = div_mem_np [OF L ws(2) qs] div_mem_dp [OF L ws(2) qs]
  have z: "limbs_at ?T (np + k) (wl @ [x, d0])"
    using limbs_at_take [OF limbs_at_part [OF mem(1), of k], of "m + 2"] ws by simp
  have "up_ok (np + k) dp (m + 2)" using L ws ds by (auto simp: div_layout_def up_ok_def)
  from mpn_submul_1_spec [OF mem(2) _ z _ this, of GMP_LIMB_MAX] ws(4) ds(2) obtain cl rs where
    r: "mpn_submul_1 (np + k) dp (m + 2) GMP_LIMB_MAX ?T = Inr (cl, put ?T (np + k) rs)" "length rs = m + 2"
      "lval rs - LIMB_B ^ (m + 2) * uint cl = lval (wl @ [x, d0]) - lval ds * uint GMP_LIMB_MAX" using ds(1) by auto
  have mx: "uint GMP_LIMB_MAX = LIMB_B - 1" by (simp add: GMP_LIMB_MAX_def LIMB_B_def unsigned_minus_1_eq_mask mask_eq_exp_minus_1)
  have D: "lval ds = ?V * ?P + lval dl" unfolding ds(1) by (rule lval_app_2 [OF ds(2)])
  have "?N = ?V * (?P * LIMB_B) + lval (wl @ [x])" using ws(4) by (simp add: lval_append val2_def algebra_simps)
  with pi1_equal [of ?P ?V "lval dl" "lval (wl @ [x])"] N V ds(2) lval_less [of dl] lval_nonneg
  have b: "0 \<le> ?N - (LIMB_B - 1) * lval ds" "?N - (LIMB_B - 1) * lval ds < lval ds"
    unfolding D by (simp_all add: one_le_power less_imp_le)
  have "lval rs + LIMB_B ^ (m + 2) * (uint d1 - uint cl) = ?N - (LIMB_B - 1) * lval ds"
    using r(3) unfolding mx by (simp add: algebra_simps)
  from bounded_eq(2) [OF this lval_nonneg _ b(1)] have v: "lval rs = ?N - (LIMB_B - 1) * lval ds"
    using lval_less [of rs] lval_less [of ds] b(2) r(2) ds by simp
  obtain ys y where y: "rs = ys @ [y]" "length ys = m + 1" using r(2) by (cases rs rule: rev_cases) auto
  have p: "put ?T (np + k) rs = div_mem s np qp (pre @ rs @ post) (Suc k) qs"
    using div_mem_put [OF L ws(2) qs, of k rs] r(2) ws by simp
  have l': "length (pre @ rs @ post) = nn" using ws r(2) by simp
  have "ld (np + (m + 1 + k)) ?T = Inr (d0, ?T)"
    using ld_limbs_at [OF mem(1), of "m + 1 + k"] ws by (simp add: nth_append)
  moreover have "ld (np + (m + 1 + k)) (div_mem s np qp (pre @ rs @ post) (Suc k) qs) = Inr (y, div_mem s np qp (pre @ rs @ post) (Suc k) qs)"
    using ld_limbs_at [OF div_mem_np [OF L l' qs], of "m + 1 + k"] ws(3) y by (simp add: nth_append)
  ultimately have "div_pi1_step qp np dp (m + 2) d1 d0 dinv k d1 ?T = Inr (y, div_mem s np qp (pre @ ys @ [y] @ post) k (GMP_LIMB_MAX # qs))"
    using r(1) p div_mem_stq [OF L q] y(1) by (simp add: div_pi1_step_def bindS_def ret_def)
  moreover have "lval (ys @ [y]) + lval ds * uint GMP_LIMB_MAX = ?N" unfolding mx using v y(1) by (simp add: algebra_simps)
  moreover have "lval (ys @ [y]) < lval ds" using v y(1) b(2) by simp
  ultimately show ?thesis using y(2) by blast
qed

lemma sub_two:
  fixes r1 r0 cy :: limb
  defines "c1 \<equiv> of_bool (r0 < cy)"
  shows "val2 (r1 - c1, r0 - cy) = val2 (r1, r0) - uint cy + LIMB_B * LIMB_B * of_bool (r1 < c1)"
    and "r1 < c1 \<longleftrightarrow> val2 (r1, r0) < uint cy"
proof -
  have a: "uint (r0 - cy) = uint r0 - uint cy + LIMB_B * of_bool (r0 < cy)" by (rule borrow_sub(1))
  have b: "uint (r1 - c1) = uint r1 - of_bool (r0 < cy) + LIMB_B * of_bool (r1 < c1)"
    using borrow_sub(1) [of r1 c1] by (simp add: c1_def)
  show v: "val2 (r1 - c1, r0 - cy) = val2 (r1, r0) - uint cy + LIMB_B * LIMB_B * of_bool (r1 < c1)"
    unfolding val2_def fst_conv snd_conv a b by (simp only: algebra_simps)
  show "r1 < c1 \<longleftrightarrow> val2 (r1, r0) < uint cy"
    using v val2_bounds [of "(r1 - c1, r0 - cy)"] uint_bounds [of cy] by (cases "r1 < c1") auto
qed

end
