(* ===== verification/Mpn_Div_Full.thy ===== *)
theory Mpn_Div_Full
  imports Mpn_Div_Gen
begin

unbundle bit_operations_syntax

text \<open>
  Correctness of the schoolbook division \<^const>\<open>mpn_div_qr_pi1\<close> and of \<^const>\<open>mpn_div_qr\<close>, for divisors of any size.
\<close>

section \<open>One turn\<close>

lemma add_back:
  fixes n1 d1 c :: limb and P X l :: int
  assumes "uint n1 + uint d1 + uint c = k" "k * P + l = X + LIMB_B * P" "0 \<le> X" "X < LIMB_B * P" "0 \<le> l" "l < P"
  shows "uint (n1 + (d1 + c)) * P + l = X"
proof -
  have P: "0 < P" using assms(5,6) by linarith
  have "(LIMB_B - 1) * P < k * P" using assms(2,3,6) by (simp add: left_diff_distrib)
  then have "LIMB_B \<le> k" using P by simp
  moreover have "k * P < (2 * LIMB_B) * P" using assms(2,4,5) by simp
  then have "k < 2 * LIMB_B" using P by simp
  moreover have "uint (n1 + (d1 + c)) = k mod LIMB_B"
    unfolding uint_limb_ops(1) assms(1) [symmetric] by (simp add: mod_simps add.assoc)
  ultimately have "uint (n1 + (d1 + c)) = k - LIMB_B" by (simp add: mod_LIMB_B)
  then show ?thesis using assms(2) by (simp add: left_diff_distrib)
qed

lemma inverse_top:
  assumes "inverse_3by2 d1 d0 di"
  shows "LIMB_B \<le> val2 (d1, d0)"
proof -
  have "LIMB_B \<le> 2 * uint d1" using assms by (simp add: inverse_3by2_def high_bit_iff)
  then have "1 \<le> uint d1" using LIMB_B_pos(1) by linarith
  then have "1 * LIMB_B \<le> uint d1 * LIMB_B" by (intro mult_right_mono) simp_all
  then show ?thesis unfolding val2_def fst_conv snd_conv using uint_bounds(1) [of d0] by linarith
qed

lemma pi1_step_general:
  assumes L: "div_layout s np nn qp qn dp ds" and ws: "ws = pre @ wl @ [x, n0] @ post" "length ws = nn" "length pre = k" "length wl = m"
    and ds: "ds = dl @ [d0, d1]" "length dl = m" "1 \<le> m" and q: "k < qn" "length qs = qn - Suc k"
    and i: "inverse_3by2 d1 d0 dinv" and n: "val2 (n1, n0) < val2 (d1, d0)" "\<not> (n1 = d1 \<and> n0 = d0)"
  shows "\<exists>ys z q. div_pi1_step qp np dp (m + 2) d1 d0 dinv k n1 (div_mem s np qp ws (Suc k) qs) =
      Inr (z, div_mem s np qp (pre @ ys @ [n0] @ post) k (q # qs)) \<and> length ys = m + 1 \<and>
    uint z * LIMB_B ^ (m + 1) + lval ys < lval ds \<and>
    uint z * LIMB_B ^ (m + 1) + lval ys + lval ds * uint q = uint n1 * LIMB_B ^ (m + 2) + lval (wl @ [x, n0])"
proof -
  let ?P = "LIMB_B ^ m" and ?V = "val2 (d1, d0)"
  let ?N = "uint n1 * LIMB_B ^ (m + 2) + lval (wl @ [x, n0])" and ?T = "\<lambda>ys. div_mem s np qp (pre @ ys @ [n0] @ post) (Suc k) qs"
  have qs: "Suc k + length qs \<le> qn" using q by simp
  have l: "length (pre @ ys @ [n0] @ post) = nn" if "length ys = m + 1" for ys using that ws by simp
  obtain q r1 r0 where d: "gmp_udiv_qr_3by2 n1 n0 x d1 d0 dinv = (q, r1, r0)" by (metis prod_cases3)
  have dv: "uint q = (val2 (n1, n0) * LIMB_B + uint x) div ?V" "val2 (r1, r0) = (val2 (n1, n0) * LIMB_B + uint x) mod ?V"
    using udiv_qr_3by2_val [OF i n(1) d] by simp_all
  have w: "limbs_at (?T (wl @ [x])) (np + k) wl"
    using limbs_at_take [OF limbs_at_part [OF div_mem_np [OF L l qs], of "wl @ [x]" k], of m] ws by simp
  have "limbs_at (?T (wl @ [x])) dp dl"
    using limbs_at_take [OF div_mem_dp [OF L l qs], of "wl @ [x]" m] ws ds by simp
  moreover have up: "up_ok (np + k) dp m" "up_ok (np + k) dp (m + 1)" using L ws ds by (auto simp: div_layout_def up_ok_def)
  ultimately obtain cy wl' where
    u: "mpn_submul_1 (np + k) dp m q (?T (wl @ [x])) = Inr (cy, put (?T (wl @ [x])) (np + k) wl')" "length wl' = m"
      "lval wl' - ?P * uint cy = lval wl - lval dl * uint q"
    using mpn_submul_1_spec [OF _ ds(2) w ws(4), of dp q] ds(3) by blast
  define c1 where "c1 = (of_bool (r0 < cy) :: limb)"
  let ?ys = "wl' @ [r0 - cy]" and ?r = "val2 (r1, r0) - uint cy"
  note two = sub_two [of r1 r0 cy, folded c1_def]
  have step: "div_pi1_step qp np dp (m + 2) d1 d0 dinv k n1 (div_mem s np qp ws (Suc k) qs) =
      bindS (if r1 < c1 then bindS (mpn_add_n (np + k) (np + k) dp (m + 1)) (\<lambda>c. ret (q - 1, r1 - c1 + (d1 + c))) else ret (q, r1 - c1))
        (\<lambda>(q, n1). bindS (stq qp k q) (\<lambda>_. ret n1)) (?T ?ys)"
  proof -
    have W: "ws = pre @ (wl @ [x]) @ [n0] @ post" using ws(1) by simp
    have "ld (np + (m + 1 + k)) (?T (wl @ [x])) = Inr (n0, ?T (wl @ [x]))" "ld (np + (m + k)) (?T (wl @ [x])) = Inr (x, ?T (wl @ [x]))"
      using ld_limbs_at [OF div_mem_np [OF L l qs], of "wl @ [x]" "m + 1 + k"]
        ld_limbs_at [OF div_mem_np [OF L l qs], of "wl @ [x]" "m + k"] ws(3,4) by (simp_all add: nth_append)
    moreover have "put (?T (wl @ [x])) (np + k) wl' = ?T (wl' @ [x])"
      using div_mem_put [OF L l qs, of "wl @ [x]" k wl'] ws u(2) by simp
    moreover have "st (np + (m + k)) (r0 - cy) (?T (wl' @ [x])) = Inr ((), ?T ?ys)"
      using div_mem_st [OF L l qs, of "wl' @ [x]" "m + k"] ws u(2) by (simp add: list_update_append)
    ultimately show ?thesis using d u(1) n(2) unfolding W div_pi1_step_def c1_def by (auto simp: bindS_def Let_def)
  qed
  have D: "lval ds = ?V * ?P + lval dl" unfolding ds(1) by (rule lval_app_2 [OF ds(2)])
  have "0 < ?V" using n(1) val2_bounds(1) [of "(n1, n0)"] by linarith
  have "LIMB_B \<le> ?V" by (rule inverse_top [OF i])
  have n3: "val2 (n1, n0) * LIMB_B + uint x = ?V * uint q + val2 (r1, r0)" unfolding dv by simp
  have N: "?N = (val2 (n1, n0) * LIMB_B + uint x) * ?P + lval wl"
    using ws(4) by (simp add: lval_append val2_def algebra_simps)
  have bnd: "1 \<le> ?P" "0 \<le> lval dl" "lval dl < ?P" "0 \<le> lval wl" "lval wl < ?P" "0 \<le> lval wl'" "lval wl' < ?P"
    using lval_less [of dl] lval_less [of wl] lval_less [of wl'] ds(2) ws(4) u(2) by (simp_all add: lval_nonneg one_le_power less_imp_le)
  have rb: "0 \<le> val2 (r1, r0)" "val2 (r1, r0) < ?V" unfolding dv using \<open>0 < ?V\<close> by simp_all
  note g = pi1_general [OF bnd(1) \<open>LIMB_B \<le> ?V\<close> bnd(2-7) n3 rb uint_bounds [of q] u(3)]
  have e: "uint z * LIMB_B ^ (m + 1) + lval (wl' @ [y]) = val2 (z, y) * ?P + lval wl'" for z y
    using u(2) by (simp add: lval_append val2_def algebra_simps)
  show ?thesis
  proof (cases "r1 < c1")
    case False
    have "uint (r1 - c1) * LIMB_B ^ (m + 1) + lval ?ys = ?r * ?P + lval wl'" unfolding e two(1) using False by simp
    moreover have "?r * ?P + lval wl' < lval ds" using g(2) False two(2) unfolding D by simp
    moreover have "?r * ?P + lval wl' + lval ds * uint q = ?N" using g(1) unfolding N D by (simp add: algebra_simps)
    moreover have "length ?ys = m + 1" using u(2) by simp
    ultimately show ?thesis using step False div_mem_stq [OF L q] by (intro exI [of _ ?ys] exI [of _ "r1 - c1"] exI [of _ q]) (simp add: bindS_def)
  next
    case True
    have y: "length ?ys = m + 1" "length (dl @ [d0]) = m + 1" using u(2) ds(2) by simp_all
    have "limbs_at (?T ?ys) (np + k) ?ys"
      using limbs_at_take [OF limbs_at_part [OF div_mem_np [OF L l qs], of ?ys k], of "m + 1"] ws(3) y by simp
    moreover have "limbs_at (?T ?ys) dp (dl @ [d0])"
      using limbs_at_take [OF div_mem_dp [OF L l qs], of ?ys "m + 1"] y ds by simp
    moreover have "room (?T ?ys) (np + k) (m + 1)" using limbs_at_room [OF calculation(1)] y(1) by simp
    ultimately obtain c rs where a: "mpn_add_n (np + k) (np + k) dp (m + 1) (?T ?ys) = Inr (c, put (?T ?ys) (np + k) rs)" "length rs = m + 1"
        "lval rs + LIMB_B ^ (m + 1) * uint c = lval ?ys + lval (dl @ [d0])"
      using mpn_add_n_spec [OF _ y(1) _ y(2) _ up_ok_refl(1) up(2)] by blast
    have p: "put (?T ?ys) (np + k) rs = ?T rs"
      using div_mem_put [OF L l qs, of ?ys k rs] ws y(1) a(2) by simp
    let ?X = "?r * ?P + lval wl' + lval ds" and ?z = "r1 - c1 + (d1 + c)"
    have b: "0 \<le> ?X" "?X < lval ds" "0 < uint q" using g(3) True two(2) unfolding D by auto
    have "uint ?z * LIMB_B ^ (m + 1) + lval rs = ?X"
    proof (rule add_back [OF refl])
      have "(uint (r1 - c1) + uint d1 + uint c) * LIMB_B ^ (m + 1) + lval rs =
          (uint (r1 - c1) * LIMB_B ^ (m + 1) + lval ?ys) + (uint d1 * LIMB_B ^ (m + 1) + lval (dl @ [d0]))"
        using a(3) by (simp add: algebra_simps)
      also have "\<dots> = (?r + LIMB_B * LIMB_B) * ?P + lval wl' + lval ds"
        unfolding e two(1) using True ds by (simp add: lval_append val2_def algebra_simps)
      finally show "(uint (r1 - c1) + uint d1 + uint c) * LIMB_B ^ (m + 1) + lval rs = ?X + LIMB_B * LIMB_B ^ (m + 1)"
        by (simp add: algebra_simps)
      show "?X < LIMB_B * LIMB_B ^ (m + 1)" using b(2) lval_less [of ds] ds by simp
    qed (use b(1) lval_less [of rs] a(2) in \<open>simp_all add: lval_nonneg\<close>)
    moreover have q1: "uint (q - 1) = uint q - 1" using borrow_sub(1) [of q 1] b(3) by (simp add: uint_limb_less)
    have "?X + lval ds * uint (q - 1) = ?N" using g(1) unfolding N D q1 by (simp add: algebra_simps)
    ultimately show ?thesis using step True a(1,2) p b(2) div_mem_stq [OF L q]
      by (intro exI [of _ rs] exI [of _ ?z] exI [of _ "q - 1"]) (simp add: bindS_def)
  qed
qed

lemma list_window:
  assumes "k + m + 2 \<le> length ws"
  shows "ws = take k ws @ take m (drop k ws) @ [ws ! (k + m), ws ! (k + m + 1)] @ drop (k + m + 2) ws"
proof -
  have "drop (k + m) ws = ws ! (k + m) # ws ! (k + m + 1) # drop (k + m + 2) ws"
    using assms by (simp add: Cons_nth_drop_Suc)
  moreover have "drop k ws = take m (drop k ws) @ drop (k + m) ws"
    by (metis append_take_drop_id drop_drop add.commute)
  ultimately show ?thesis by (metis append_take_drop_id append_Cons append_Nil)
qed

lemma val2_top:
  fixes P :: int
  assumes "val2 a * P + u < val2 b * P + v" "0 \<le> u" "0 \<le> v" "v < P"
  shows "val2 a \<le> val2 b"
proof (rule ccontr)
  assume "\<not> ?thesis"
  then have "(val2 b + 1) * P \<le> val2 a * P" using assms by (intro mult_right_mono) simp_all
  then show False using assms by (simp add: distrib_right)
qed

lemma pi1_turn:
  fixes m :: nat and n1 :: limb and ws ds :: "limb list" and k :: nat
  defines "R \<equiv> uint n1 * LIMB_B ^ (m + 1) + lval (take (m + 1) (drop (Suc k) ws))"
  assumes L: "div_layout s np nn qp qn dp ds" and ws: "length ws = nn" "k + m + 2 \<le> nn"
    and ds: "length ds = m + 2" "1 \<le> m" and q: "k < qn" "length qs = qn - Suc k"
    and i: "inverse_3by2 (ds ! (m + 1)) (ds ! m) dinv" and R: "R < lval ds"
  shows "\<exists>z q ws'. div_pi1_step qp np dp (m + 2) (ds ! (m + 1)) (ds ! m) dinv k n1 (div_mem s np qp ws (Suc k) qs) =
      Inr (z, div_mem s np qp ws' k (q # qs)) \<and> length ws' = nn \<and> take k ws' = take k ws \<and>
    uint z * LIMB_B ^ (m + 1) + lval (take (m + 1) (drop k ws')) < lval ds \<and>
    uint z * LIMB_B ^ (m + 1) + lval (take (m + 1) (drop k ws')) + lval ds * uint q = R * LIMB_B + uint (ws ! k)"
proof -
  let ?d1 = "ds ! (m + 1)" and ?d0 = "ds ! m" and ?dl = "take m ds" and ?P = "LIMB_B ^ m"
  let ?pre = "take k ws" and ?wl = "take m (drop k ws)" and ?x = "ws ! (k + m)" and ?n0 = "ws ! (k + m + 1)" and ?post = "drop (k + m + 2) ws"
  have W: "ws = ?pre @ ?wl @ [?x, ?n0] @ ?post" using ws by (intro list_window) simp
  have len: "length ?pre = k" "length ?wl = m" "length ?dl = m" using ws ds by simp_all
  have dsE: "ds = ?dl @ [?d0, ?d1]" using list_window [of 0 m ds] ds by simp
  have win: "?wl @ [?x, ?n0] = ws ! k # take (m + 1) (drop (Suc k) ws)"
  proof -
    have "?wl @ [?x, ?n0] = take (m + 2) (drop k ws)" using ws by (simp add: take_Suc_conv_app_nth)
    also have "\<dots> = ws ! k # take (m + 1) (drop (Suc k) ws)" using ws by (simp flip: Cons_nth_drop_Suc)
    finally show ?thesis .
  qed
  have N: "uint n1 * LIMB_B ^ (m + 2) + lval (?wl @ [?x, ?n0]) = R * LIMB_B + uint (ws ! k)"
    unfolding win R_def by (simp add: algebra_simps)
  have D: "lval ds = val2 (?d1, ?d0) * ?P + lval ?dl" using lval_app_2 [OF len(3), of ?d0 ?d1] dsE by simp
  have res: "take (m + 1) (drop k (?pre @ ys @ zs)) = ys" "take k (?pre @ ys @ zs) = ?pre" if "length ys = m + 1" for ys zs
    using that len(1) by simp_all
  have "take (m + 1) (drop (Suc k) ws) = take m (drop (Suc k) ws) @ [?n0]" using ws by (simp add: take_Suc_conv_app_nth)
  then have "R = val2 (n1, ?n0) * ?P + lval (take m (drop (Suc k) ws))"
    using ws by (simp add: R_def lval_append val2_def algebra_simps)
  then have top: "val2 (n1, ?n0) \<le> val2 (?d1, ?d0)"
    using val2_top R lval_less [of ?dl] lval_nonneg len(3) unfolding D by metis
  have V: "LIMB_B \<le> val2 (?d1, ?d0)" by (rule inverse_top [OF i])
  show ?thesis
  proof (cases "n1 = ?d1 \<and> ?n0 = ?d0")
    case True
    have "(R + 1) * LIMB_B \<le> lval ds * LIMB_B" using R by (intro mult_right_mono) simp_all
    then have n: "R * LIMB_B + uint (ws ! k) < lval ds * LIMB_B" using uint_bounds(2) [of "ws ! k"] by (simp only: distrib_right)
    have W': "ws = ?pre @ ?wl @ [?x, ?d0] @ ?post" using W unfolding conjunct2 [OF True] .
    have N': "uint ?d1 * LIMB_B ^ (m + 2) + lval (?wl @ [?x, ?d0]) = R * LIMB_B + uint (ws ! k)"
      using N unfolding conjunct1 [OF True] conjunct2 [OF True] .
    obtain ys z where "div_pi1_step qp np dp (m + 2) ?d1 ?d0 dinv k n1 (div_mem s np qp ws (Suc k) qs) =
        Inr (z, div_mem s np qp (?pre @ ys @ [z] @ ?post) k (GMP_LIMB_MAX # qs))" "length ys = m + 1"
      "lval (ys @ [z]) < lval ds" "lval (ys @ [z]) + lval ds * uint GMP_LIMB_MAX = R * LIMB_B + uint (ws ! k)"
      using pi1_step_equal [OF L W' ws(1) len(1,2) dsE len(3) q V n [folded N']] unfolding N' conjunct1 [OF True] by blast
    then show ?thesis using res [of ys "[z] @ ?post"] ws len(1)
      by (intro exI [of _ z] exI [of _ GMP_LIMB_MAX] exI [of _ "?pre @ ys @ [z] @ ?post"]) (simp add: lval_append algebra_simps)
  next
    case False
    then have "val2 (n1, ?n0) < val2 (?d1, ?d0)"
      using top unfolding not_le [symmetric] val2_less by auto
    then obtain ys z q where "div_pi1_step qp np dp (m + 2) ?d1 ?d0 dinv k n1 (div_mem s np qp ws (Suc k) qs) =
        Inr (z, div_mem s np qp (?pre @ ys @ [?n0] @ ?post) k (q # qs))" "length ys = m + 1"
      "uint z * LIMB_B ^ (m + 1) + lval ys < lval ds" "uint z * LIMB_B ^ (m + 1) + lval ys + lval ds * uint q = R * LIMB_B + uint (ws ! k)"
      using pi1_step_general [OF L W ws(1) len(1,2) dsE len(3) ds(2) q i _ False] unfolding N by blast
    then show ?thesis using res [of ys "[?n0] @ ?post"] ws len(1)
      by (intro exI [of _ z] exI [of _ q] exI [of _ "?pre @ ys @ [?n0] @ ?post"]) simp
  qed
qed

section \<open>The loop\<close>

lemma high_bit_and: "x AND GMP_LIMB_HIGHBIT = 0 \<longleftrightarrow> \<not> GMP_LIMB_HIGHBIT \<le> x"
  using top_bits [of x 63] top_masks(2) by (simp add: high_bit_iff LIMB_B_def not_le)

lemma put_same: "limbs_at s p xs \<Longrightarrow> put s p xs = s"
  unfolding put_def limbs_at_def by (auto intro!: limb_mem.equality ext) (metis le_add_diff_inverse nat_add_left_cancel_less)

lemma pi1_spec:
  assumes L: "div_layout s np nn qp (nn - dn + 1) dp ds" and xs: "limbs_at s np xs" "length xs = nn"
    and ds: "length ds = dn" "2 < dn" "dn \<le> nn"
    and i: "inverse_3by2 (ds ! (dn - 1)) (ds ! (dn - 2)) dinv" and n1: "uint n1 < uint (ds ! (dn - 1))"
  shows "\<exists>ws qs. mpn_div_qr_pi1 qp np nn n1 dp dn dinv s = Inr ((), div_mem s np qp ws 0 qs) \<and>
    length ws = nn \<and> length qs = nn - dn + 1 \<and> lval (take dn ws) < lval ds \<and>
    lval (take dn ws) + lval ds * lval qs = uint n1 * LIMB_B ^ nn + lval xs"
proof -
  define m where "m = dn - 2"
  have dn: "dn = m + 2" "1 \<le> m" "dn - 1 = m + 1" "dn - 2 = m" using ds by (simp_all add: m_def)
  let ?qn = "nn - dn + 1"
  let ?R = "\<lambda>z ws k. uint z * LIMB_B ^ (m + 1) + lval (take (m + 1) (drop k ws))"
  let ?step = "div_pi1_step qp np dp (m + 2) (ds ! (m + 1)) (ds ! m) dinv"
  let ?I = "\<lambda>k z t. \<exists>ws qs. t = div_mem s np qp ws k qs \<and> length ws = nn \<and> length qs = ?qn - k \<and> take k ws = take k xs \<and>
    ?R z ws k < lval ds \<and> ?R z ws k + lval ds * lval qs = uint n1 * LIMB_B ^ (nn - k) + lval (drop k xs)"
  have "\<exists>z t. for_down ?qn ?step n1 s = Inr (z, t) \<and> ?I 0 z t"
  proof (rule for_down_inv)
    fix k t and z :: limb assume k: "k < ?qn" "?I (Suc k) z t"
    then obtain ws qs where w: "t = div_mem s np qp ws (Suc k) qs" "length ws = nn" "length qs = ?qn - Suc k" "take (Suc k) ws = take (Suc k) xs"
      "?R z ws (Suc k) < lval ds" "?R z ws (Suc k) + lval ds * lval qs = uint n1 * LIMB_B ^ (nn - Suc k) + lval (drop (Suc k) xs)" by blast
    have kn: "k + m + 2 \<le> nn" "k < nn" using k(1) dn ds by simp_all
    obtain z' q ws' where v: "?step k z t = Inr (z', div_mem s np qp ws' k (q # qs))" "length ws' = nn" "take k ws' = take k ws"
      "?R z' ws' k < lval ds" "?R z' ws' k + lval ds * uint q = ?R z ws (Suc k) * LIMB_B + uint (ws ! k)"
      using pi1_turn [OF L w(2) kn(1) ds(1) [unfolded dn(1)] dn(2) k(1) w(3) i [unfolded dn(3,4)] w(5)]
      unfolding w(1) by blast
    have "ws ! k = xs ! k" using w(4) by (metis lessI nth_take)
    have "?R z' ws' k + lval ds * lval (q # qs) = (?R z' ws' k + lval ds * uint q) + LIMB_B * (lval ds * lval qs)"
      by (simp add: algebra_simps)
    also have "\<dots> = uint (xs ! k) + LIMB_B * (?R z ws (Suc k) + lval ds * lval qs)"
      unfolding v(5) \<open>ws ! k = xs ! k\<close> by (simp add: algebra_simps)
    also have "\<dots> = uint n1 * LIMB_B ^ Suc (nn - Suc k) + lval (drop k xs)"
      unfolding w(6) using kn(2) xs(2) by (simp add: drop_nth_lval [of k] algebra_simps)
    finally have "?R z' ws' k + lval ds * lval (q # qs) = uint n1 * LIMB_B ^ (nn - k) + lval (drop k xs)"
      using kn(2) by (simp add: Suc_diff_Suc)
    moreover have "take k ws' = take k xs" using v(3) w(4) by (metis le_SucI order_refl take_take min.absorb1)
    ultimately have "?I k z' (div_mem s np qp ws' k (q # qs))"
      using v(2,4) w(3) k(1) by (intro exI [of _ ws'] exI [of _ "q # qs"]) simp
    then show "\<exists>z' t'. ?step k z t = Inr (z', t') \<and> ?I k z' t'" using v(1) by blast
  next
    have len: "length (drop ?qn xs) = m + 1" "nn - ?qn = m + 1" using xs(2) ds dn by simp_all
    have "(uint n1 + 1) * LIMB_B ^ (m + 1) \<le> uint (ds ! (m + 1)) * LIMB_B ^ (m + 1)"
      using n1 dn(3) by (intro mult_right_mono) simp_all
    moreover have "uint (ds ! (m + 1)) * LIMB_B ^ (m + 1) \<le> lval ds"
      using lval_take_Suc [of "m + 1" ds] lval_nonneg [of "take (m + 1) ds"] ds(1) dn(1) by (simp add: mult.commute)
    ultimately have "uint n1 * LIMB_B ^ (m + 1) + lval (drop ?qn xs) < lval ds"
      using lval_less [of "drop ?qn xs"] unfolding len by (simp only: distrib_right)
    then show "?I ?qn n1 s" using put_same [OF xs(1)] xs(2) len
      by (intro exI [of _ xs] exI [of _ "[]"]) (simp add: div_mem_def)
  qed
  then obtain z ws qs where w: "for_down ?qn ?step n1 s = Inr (z, div_mem s np qp ws 0 qs)" "length ws = nn" "length qs = ?qn"
    "?R z ws 0 < lval ds" "?R z ws 0 + lval ds * lval qs = uint n1 * LIMB_B ^ nn + lval xs" by auto
  let ?ws = "ws[dn - 1 := z]"
  have "lval (take dn ?ws) = ?R z ws 0"
    using w(2) ds dn by (simp add: take_Suc_conv_app_nth lval_append algebra_simps)
  moreover have "st (np + (dn - 1)) z (div_mem s np qp ws 0 qs) = Inr ((), div_mem s np qp ?ws 0 qs)"
    using div_mem_st [OF L w(2), of 0 qs "dn - 1"] w(3) ds by simp
  moreover have "ds ! (dn - 1) AND GMP_LIMB_HIGHBIT \<noteq> 0" using i by (simp add: inverse_3by2_def high_bit_and)
  moreover have dl: "m + 1 < length ds" "m < length ds" using ds(1) dn by simp_all
  ultimately have "mpn_div_qr_pi1 qp np nn n1 dp dn dinv s = Inr ((), div_mem s np qp ?ws 0 qs)"
    using w(1) ds(2,3) ld_limbs_at [OF _ dl(1), of s dp] ld_limbs_at [OF _ dl(2), of s dp] L dn
    by (simp add: mpn_div_qr_pi1_def bindS_def div_layout_def del: for_down.simps)
  then show ?thesis using w(2-5) \<open>lval (take dn ?ws) = _\<close> by (intro exI [of _ ?ws] exI [of _ qs]) simp
qed

section \<open>The whole division\<close>

lemma div_qr_invert_spec:
  assumes "limbs_at s dp ds" "length ds = dn" "2 < dn" "ds ! (dn - 1) \<noteq> 0"
  shows "\<exists>iv e1 e0. mpn_div_qr_invert dp dn s = Inr (iv, s) \<and> inv_shift iv < 64 \<and> inv_d1 iv = e1 \<and> inv_d0 iv = Some e0 \<and>
    inverse_3by2 e1 e0 (inv_di iv) \<and> 2 ^ inv_shift iv * uint (ds ! (dn - 1)) < LIMB_B \<and>
    (e1, e0) = (if 0 < inv_shift iv then
        (push_bit (inv_shift iv) (ds ! (dn - 1)) OR drop_bit (64 - inv_shift iv) (ds ! (dn - 2)),
         push_bit (inv_shift iv) (ds ! (dn - 2)) OR drop_bit (64 - inv_shift iv) (ds ! (dn - 3)))
      else (ds ! (dn - 1), ds ! (dn - 2)))"
proof -
  let ?d1 = "ds ! (dn - 1)" and ?d0 = "ds ! (dn - 2)" and ?x = "ds ! (dn - 3)"
  obtain k where k: "gmp_clz ?d1 = Some k" "k < 64" "uint (push_bit k ?d1) = 2 ^ k * uint ?d1" "LIMB_B \<le> 2 * uint (push_bit k ?d1)"
    using uint_clz [OF assms(4)] by blast
  define e1 where "e1 = (if 0 < k then push_bit k ?d1 OR drop_bit (64 - k) ?d0 else ?d1)"
  define e0 where "e0 = (if 0 < k then push_bit k ?d0 OR drop_bit (64 - k) ?x else ?d0)"
  have "uint (push_bit k ?d1) \<le> uint e1" using shift_or [OF _ k(2), of ?d1 ?d0] by (simp add: e1_def)
  then have "GMP_LIMB_HIGHBIT \<le> e1" unfolding high_bit_iff using k(4) by linarith
  from mpn_invert_3by2_spec [OF this, of e0] obtain di where
    di: "mpn_invert_3by2 e1 e0 = Inr di" "inverse_3by2 e1 e0 di" by blast
  have "?d1 > 0" using assms(4) by (simp add: word_gt_0)
  moreover have "ld (dp + (dn - 1)) s = Inr (?d1, s)" "ld (dp + (dn - 2)) s = Inr (?d0, s)" "ld (dp + (dn - 3)) s = Inr (?x, s)"
  proof -
    have "dn - 1 < length ds" "dn - 2 < length ds" "dn - 3 < length ds" using assms(2,3) by simp_all
    from this [THEN ld_limbs_at [OF assms(1)]] show "ld (dp + (dn - 1)) s = Inr (?d1, s)" "ld (dp + (dn - 2)) s = Inr (?d0, s)"
      "ld (dp + (dn - 3)) s = Inr (?x, s)" by simp_all
  qed
  ultimately have "mpn_div_qr_invert dp dn s = Inr (\<lparr>inv_shift = k, inv_d1 = e1, inv_d0 = Some e0, inv_di = di\<rparr>, s)"
    using k(1) di(1) assms(3) unfolding e1_def e0_def
    by (cases "0 < k") (simp_all add: mpn_div_qr_invert_def bindS_def clzS_def GMP_LIMB_BITS_def)
  moreover have "2 ^ k * uint ?d1 < LIMB_B" using uint_bounds(2) [of "push_bit k ?d1"] k(3) by simp
  ultimately show ?thesis using k(2) di(2) by (simp add: e1_def e0_def)
qed

lemma fresh_put:
  assumes "mem_ok s" "room s p (length xs)"
  shows "put (fresh s n) p xs = fresh (put s p xs) n" "mem_ok (put s p xs)" "brk (put s p xs) = brk s"
proof -
  have lt: "q < brk s" if "p \<le> q" "q < p + length xs" for q
    using room_less_brk [OF assms(2,1)] that by (cases xs) auto
  then have ge: "\<not> brk s \<le> q" if "p \<le> q" "q < p + length xs" for q using that not_le by blast
  show "brk (put s p xs) = brk s" by (simp add: put_def)
  show "mem_ok (put s p xs)" using assms(1) lt unfolding mem_ok_def by (auto simp: put_def dest: ge)
  show "put (fresh s n) p xs = fresh (put s p xs) n"
    by (auto simp: put_def fresh_def intro!: limb_mem.equality ext dest: ge)
qed

lemma free_scratch:
  assumes "mem_ok s" "length rs = n" "room s np (length ws)" "qroom s qp (length qs)" "0 < length ws"
  shows "gmp_free (brk s) (div_mem (put (fresh s n) (brk s) rs) np qp ws 0 qs) = Inr ((), (div_mem s np qp ws 0 qs)\<lparr>brk := brk s + n + 1\<rparr>)"
proof -
  let ?s = "put s np ws"
  note f = fresh_put [OF assms(1,3)]
  have "np + length ws \<le> brk s" by (rule room_less_brk [OF assms(3,1,5)])
  then have "put (put (fresh s n) (brk s) rs) np ws = put (fresh ?s n) (brk ?s) rs"
    using put_commute [of np ws "brk s" rs "fresh s n"] f by simp
  moreover have "qroom ?s qp (length qs)" using assms(4) by (auto simp: qroom_def split: option.splits)
  ultimately show ?thesis using free_fresh [OF f(2) assms(2), of qp qs] f(3) by (simp add: div_mem_def)
qed

lemma nocarry:
  assumes "LIMB_B * v = uint (l :: limb) + LIMB_B * w"
  shows "l = 0" "w = v"
proof -
  have "uint l = LIMB_B * (v - w)" using assms by (simp add: algebra_simps)
  then have "uint l mod LIMB_B = 0" by simp
  then have "uint l = 0" using uint_bounds [of l] by simp
  then show "l = 0" "w = v" using assms by (simp_all add: uint_0_iff)
qed

text \<open>The division with a divisor of three or more limbs that is normalised, at \<open>dp\<close>.\<close>

lemma div_qr_preinv_gen:
  assumes L: "div_layout s np nn qp (nn - dn + 1) dp es" and xs: "limbs_at s np xs" "length xs = nn"
    and dn: "length es = dn" "2 < dn" "dn \<le> nn" and k: "inv_shift iv < 64" "lval es = 2 ^ inv_shift iv * D" "0 < D"
    and iv: "inv_d1 iv = es ! (dn - 1)" "inv_d0 iv = Some (es ! (dn - 2))" "inverse_3by2 (es ! (dn - 1)) (es ! (dn - 2)) (inv_di iv)"
  shows "\<exists>ws qs. mpn_div_qr_preinv qp np nn dp dn iv s = Inr ((), div_mem s np qp ws 0 qs) \<and> length ws = nn \<and>
    length qs = nn - dn + 1 \<and> lval qs = lval xs div D \<and> lval (take dn ws) = lval xs mod D"
proof -
  let ?k = "inv_shift iv" and ?qn = "nn - dn + 1"
  have high: "GMP_LIMB_HIGHBIT \<le> es ! (dn - 1)" using iv(3) by (simp add: inverse_3by2_def)
  have "\<exists>h ys. (if 0 < ?k then mpn_lshift np np nn ?k else ret 0) s = Inr (h, put s np ys) \<and> length ys = nn \<and>
      lval ys + LIMB_B ^ nn * uint h = 2 ^ ?k * lval xs"
  proof (cases "0 < ?k")
    case True
    then show ?thesis using mpn_lshift_spec [OF xs limbs_at_room [OF xs(1), unfolded xs(2)] up_ok_refl(2) _ True k(1)] dn by auto
  next
    case False
    then show ?thesis using put_same [OF xs(1)] xs(2) by (intro exI [of _ 0] exI [of _ xs]) simp
  qed
  then obtain h ys where h: "(if 0 < ?k then mpn_lshift np np nn ?k else ret 0) s = Inr (h, put s np ys)" "length ys = nn"
    "lval ys + LIMB_B ^ nn * uint h = 2 ^ ?k * lval xs" by blast
  have L': "div_layout (put s np ys) np nn qp ?qn dp es"
    using L h(2) by (auto simp: div_layout_def qroom_def intro!: limbs_at_put_outside split: option.splits)
  have "uint h < uint (es ! (dn - 1))" by (rule high_less [OF shift_high_less [OF h(3) xs(2)] k(1) high])
  from pi1_spec [OF L' limbs_at_put h(2) dn iv(3) this] obtain ws qs where
    p: "mpn_div_qr_pi1 qp np nn h dp dn (inv_di iv) (put s np ys) = Inr ((), div_mem (put s np ys) np qp ws 0 qs)"
      "length ws = nn" "length qs = ?qn" "lval (take dn ws) < lval es"
      "lval (take dn ws) + lval es * lval qs = uint h * LIMB_B ^ nn + lval ys" by blast
  have mem: "div_mem (put s np ys) np qp ws 0 qs = div_mem s np qp ws 0 qs" if "length ws = nn" for ws
    using put_put [of 0 ys s np ws] h(2) that by (simp add: div_mem_def)
  have v: "lval qs = lval xs div D" "lval (take dn ws) = 2 ^ ?k * (lval xs mod D)"
    using shifted_div [of "lval (take dn ws)" ?k D "lval qs" "lval xs"] p(4,5) h(3) k(2,3) lval_nonneg by (simp_all add: mult.commute)
  have "\<exists>ws'. whenS (0 < ?k) (gmp_assert_nocarry (mpn_rshift np np dn ?k)) (div_mem s np qp ws 0 qs) = Inr ((), div_mem s np qp ws' 0 qs) \<and>
      length ws' = nn \<and> lval (take dn ws') = lval xs mod D"
  proof (cases "0 < ?k")
    case True
    let ?T = "div_mem s np qp ws 0 qs"
    have q0: "0 + length qs \<le> ?qn" using p(3) by simp
    have t: "limbs_at ?T np (take dn ws)" "length (take dn ws) = dn"
      using limbs_at_take [OF div_mem_np [OF L p(2) q0]] p(2) dn by simp_all
    obtain l rs where r: "mpn_rshift np np dn ?k ?T = Inr (l, put ?T np rs)" "length rs = dn"
      "uint l + LIMB_B * lval rs = 2 ^ (64 - ?k) * lval (take dn ws)"
      using mpn_rshift_spec [OF t limbs_at_room [OF t(1), unfolded t(2)] up_ok_refl(1) _ True k(1)] dn by auto
    have "LIMB_B * (lval xs mod D) = uint l + LIMB_B * lval rs"
      unfolding r(3) v(2) by (simp only: limb_power_parts [OF k(1)] mult.assoc)
    from nocarry [OF this] have "l = 0" "lval rs = lval xs mod D" by simp_all
    moreover have "put ?T np rs = div_mem s np qp (rs @ drop dn ws) 0 qs"
      using div_mem_put [OF L p(2) q0, of 0 rs] r(2) dn by simp
    ultimately show ?thesis using True r(1,2) p(2) dn
      by (intro exI [of _ "rs @ drop dn ws"]) (simp add: gmp_assert_nocarry_def bindS_def)
  next
    case False
    then show ?thesis using p(2) v(2) by (intro exI [of _ ws]) simp
  qed
  then obtain ws' where w: "whenS (0 < ?k) (gmp_assert_nocarry (mpn_rshift np np dn ?k)) (div_mem s np qp ws 0 qs) = Inr ((), div_mem s np qp ws' 0 qs)"
      "length ws' = nn" "lval (take dn ws') = lval xs mod D" by blast
  have "dn - 1 < length es" "dn - 2 < length es" using dn by simp_all
  from this [THEN ld_limbs_at [of s dp es, rotated]] have "ld (dp + (dn - 1)) s = Inr (es ! (dn - 1), s)" "ld (dp + (dn - 2)) s = Inr (es ! (dn - 2), s)"
    using L by (simp_all add: div_layout_def)
  then have "mpn_div_qr_preinv qp np nn dp dn iv s = Inr ((), div_mem s np qp ws' 0 qs)"
    using h(1) p(1) w(1) dn iv(1,2) high mem [OF p(2)] by (simp add: mpn_div_qr_preinv_def bindS_def initS_def Let_def high_bit_and)
  then show ?thesis using w(2,3) p(3) v(1) by blast
qed


lemma brk_same [simp]: "(div_mem s np qp ws j qs)\<lparr>brk := brk s\<rparr> = div_mem s np qp ws j qs"
  by (auto simp: div_mem_def putq_def put_def split: option.splits)

lemma st_brk: "st p x t = Inr ((), t') \<Longrightarrow> st p x (t\<lparr>brk := b\<rparr>) = Inr ((), t'\<lparr>brk := b\<rparr>)"
  by (auto simp: st_def split: option.splits)

lemma put_brk: "put (t\<lparr>brk := b\<rparr>) p xs = (put t p xs)\<lparr>brk := b\<rparr>"
  by (auto simp: put_def intro!: limb_mem.equality ext)

definition div_result :: "limb_mem \<Rightarrow> nat \<Rightarrow> nat option \<Rightarrow> nat \<Rightarrow> int \<Rightarrow> int \<Rightarrow> nat \<Rightarrow> limb_mem \<Rightarrow> bool" where
  "div_result s np qp nn N D dn t \<longleftrightarrow> (\<exists>ws qs b. t = (div_mem s np qp ws 0 qs)\<lparr>brk := b\<rparr> \<and> length ws = nn \<and>
     length qs = nn - dn + 1 \<and> lval qs = N div D \<and> lval (take dn ws) = N mod D)"

lemma div_qr_one:
  assumes L: "div_layout s np nn qp nn dp [d]" and xs: "limbs_at s np xs" "length xs = nn" "0 < nn"
    and m: "mem_ok s" "nn * 8 < max_alloc" "d \<noteq> 0"
  shows "\<exists>t. mpn_div_qr qp np nn dp 1 s = Inr ((), t) \<and> div_result s np qp nn (lval xs) (uint d) 1 t"
proof -
  obtain iv where iv: "mpn_div_qr_1_invert d s = Inr (iv, s)" "inv_shift iv < 64"
    "uint (inv_d1 iv) = 2 ^ inv_shift iv * uint d" "inverse_limb (inv_d1 iv) (inv_di iv)"
    using div_qr_1_invert_spec [OF m(3)] by blast
  have "qroom s qp nn" "qdown qp np nn" using L by (auto simp: div_layout_def qdown_def down_ok_def split: option.splits)
  from div_qr_1_preinv_spec [OF xs m(2,1) this m(3) iv(2-4)] obtain r qs b where
    r: "mpn_div_qr_1_preinv qp np nn iv s = Inr (r, (putq s qp 0 qs)\<lparr>brk := b\<rparr>)" "length qs = nn"
      "lval qs = lval xs div uint d" "uint r = lval xs mod uint d" by blast
  have "putq s qp 0 qs = div_mem s np qp xs 0 qs" by (simp add: div_mem_def put_same [OF xs(1)])
  then have "st np r ((putq s qp 0 qs)\<lparr>brk := b\<rparr>) = Inr ((), (div_mem s np qp (xs[0 := r]) 0 qs)\<lparr>brk := b\<rparr>)"
    using st_brk [OF div_mem_st [OF L xs(2), of 0 qs 0]] r(2) xs(3) by simp
  moreover have "ld dp s = Inr (d, s)" using L ld_limbs_at [of s dp "[d]" 0] by (simp add: div_layout_def)
  ultimately have "mpn_div_qr qp np nn dp 1 s = Inr ((), (div_mem s np qp (xs[0 := r]) 0 qs)\<lparr>brk := b\<rparr>)"
    using r(1) iv(1) xs(3) by (simp add: mpn_div_qr_def mpn_div_qr_invert_def mpn_div_qr_preinv_def bindS_def)
  moreover have "lval (take 1 (xs[0 := r])) = lval xs mod uint d" using xs(2,3) r(4) by (cases xs) simp_all
  ultimately show ?thesis using r(2,3) xs(2,3) unfolding div_result_def by fastforce
qed

lemma div_qr_two:
  assumes L: "div_layout s np nn qp (nn - 1) dp [d0, d1]" and xs: "limbs_at s np xs" "length xs = nn" "2 \<le> nn"
    and m: "mem_ok s" "nn * 8 < max_alloc" "d1 \<noteq> 0"
  shows "\<exists>t. mpn_div_qr qp np nn dp 2 s = Inr ((), t) \<and> div_result s np qp nn (lval xs) (lval [d0, d1]) 2 t"
proof -
  obtain iv e0 where iv: "mpn_div_qr_2_invert d1 d0 s = Inr (iv, s)" "inv_shift iv < 64" "inv_d0 iv = Some e0"
    "val2 (inv_d1 iv, e0) = 2 ^ inv_shift iv * val2 (d1, d0)" "inverse_3by2 (inv_d1 iv) e0 (inv_di iv)"
    using div_qr_2_invert_spec [OF m(3)] by blast
  have q: "qroom s qp (nn - 1)" "qdown qp np (nn - 1)" using L by (auto simp: div_layout_def qdown_def down_ok_def split: option.splits)
  have "0 < uint d1 * LIMB_B" using uint_pos [OF m(3)] by (intro mult_pos_pos) simp_all
  then have "0 < val2 (d1, d0)" unfolding val2_def fst_conv snd_conv using uint_bounds(1) [of d0] by linarith
  from div_qr_2_preinv_spec [OF xs m(2,1) q iv(2-5) this] obtain qs rs b where
    r: "mpn_div_qr_2_preinv qp np np nn iv s = Inr ((), put ((putq s qp 0 qs)\<lparr>brk := b\<rparr>) np rs)" "length qs = nn - 1" "length rs = 2"
      "lval qs = lval xs div val2 (d1, d0)" "lval rs = lval xs mod val2 (d1, d0)" by blast
  have "putq s qp 0 qs = div_mem s np qp xs 0 qs" by (simp add: div_mem_def put_same [OF xs(1)])
  then have "put ((putq s qp 0 qs)\<lparr>brk := b\<rparr>) np rs = (div_mem s np qp (rs @ drop 2 xs) 0 qs)\<lparr>brk := b\<rparr>"
    using div_mem_put [OF L xs(2), of 0 qs 0 rs] r(2,3) xs(3) by (simp add: put_brk numeral_2_eq_2)
  moreover have "ld (dp + 1) s = Inr (d1, s)" "ld dp s = Inr (d0, s)"
    using L ld_limbs_at [of s dp "[d0, d1]" 0] ld_limbs_at [of s dp "[d0, d1]" 1] by (simp_all add: div_layout_def)
  ultimately have "mpn_div_qr qp np nn dp 2 s = Inr ((), (div_mem s np qp (rs @ drop 2 xs) 0 qs)\<lparr>brk := b\<rparr>)"
    using r(1) iv(1) xs(3) by (simp add: mpn_div_qr_def mpn_div_qr_invert_def mpn_div_qr_preinv_def bindS_def)
  moreover have "length (rs @ drop 2 xs) = nn" "take 2 (rs @ drop 2 xs) = rs" using r(3) xs(2,3) by simp_all
  moreover have "nn - 1 = nn - 2 + 1" using xs(3) by simp
  ultimately show ?thesis using r(2,4,5) unfolding div_result_def lval_2 by metis
qed


lemma shifted_less:
  assumes "length ds = dn" "0 < dn" "k < 64" "2 ^ k * uint (ds ! (dn - 1)) < LIMB_B"
  shows "2 ^ k * lval ds < LIMB_B ^ dn"
proof -
  let ?d = "uint (ds ! (dn - 1))"
  have "2 ^ k * ?d < 2 ^ k * 2 ^ (64 - k)" using assms(4) unfolding limb_power_parts [OF assms(3)] by (simp add: mult.commute)
  then have "?d < 2 ^ (64 - k)" by simp
  then have "2 ^ k * (?d + 1) \<le> 2 ^ k * 2 ^ (64 - k)" by (intro mult_left_mono) simp_all
  then have "2 ^ k * (?d + 1) \<le> LIMB_B" unfolding limb_power_parts [OF assms(3)] by (simp add: mult.commute)
  then have "2 ^ k * (?d + 1) * LIMB_B ^ (dn - 1) \<le> LIMB_B * LIMB_B ^ (dn - 1)" by (intro mult_right_mono) simp_all
  moreover have "lval ds < (?d + 1) * LIMB_B ^ (dn - 1)"
    using lval_take_Suc [of "dn - 1" ds] lval_less [of "take (dn - 1) ds"] assms(1,2) by (simp add: algebra_simps)
  then have "2 ^ k * lval ds < 2 ^ k * ((?d + 1) * LIMB_B ^ (dn - 1))" by simp
  ultimately show ?thesis using assms(2) by (simp add: mult.assoc power_eq_if)
qed

lemma div_qr_many:
  assumes L: "div_layout s np nn qp (nn - dn + 1) dp ds" and xs: "limbs_at s np xs" "length xs = nn"
    and dn: "length ds = dn" "2 < dn" "dn \<le> nn" "ds ! (dn - 1) \<noteq> 0" and m: "mem_ok s" "dn * 8 < max_alloc"
  shows "\<exists>t. mpn_div_qr qp np nn dp dn s = Inr ((), t) \<and> div_result s np qp nn (lval xs) (lval ds) dn t"
proof -
  have ds: "limbs_at s dp ds" "room s np nn" "qroom s qp (nn - dn + 1)" using L by (simp_all add: div_layout_def)
  obtain iv e1 e0 where iv: "mpn_div_qr_invert dp dn s = Inr (iv, s)" "inv_shift iv < 64" "inv_d1 iv = e1" "inv_d0 iv = Some e0"
    "inverse_3by2 e1 e0 (inv_di iv)" "2 ^ inv_shift iv * uint (ds ! (dn - 1)) < LIMB_B"
    "(e1, e0) = (if 0 < inv_shift iv then
        (push_bit (inv_shift iv) (ds ! (dn - 1)) OR drop_bit (64 - inv_shift iv) (ds ! (dn - 2)),
         push_bit (inv_shift iv) (ds ! (dn - 2)) OR drop_bit (64 - inv_shift iv) (ds ! (dn - 3)))
      else (ds ! (dn - 1), ds ! (dn - 2)))"
    using div_qr_invert_spec [OF ds(1) dn(1,2,4)] by (elim exE conjE) (rule that)
  let ?k = "inv_shift iv"
  have ne: "ds \<noteq> []" using dn by auto
  moreover have "last ds \<noteq> 0" using dn last_conv_nth [OF ne] by simp
  ultimately have "ds \<noteq> []" "last ds \<noteq> 0" .
  from lval_ge_top [OF this] have D: "0 < lval ds" using zero_less_power [OF LIMB_B_pos(1), of "length ds - 1"] by linarith
  show ?thesis
  proof (cases "0 < ?k")
    case False
    then have e: "inv_d1 iv = ds ! (dn - 1)" "inv_d0 iv = Some (ds ! (dn - 2))" "inverse_3by2 (ds ! (dn - 1)) (ds ! (dn - 2)) (inv_di iv)"
      using iv by simp_all
    have "lval ds = 2 ^ ?k * lval ds" using False by simp
    from div_qr_preinv_gen [OF L xs dn(1-3) iv(2) this D e] obtain ws qs where
      r: "mpn_div_qr_preinv qp np nn dp dn iv s = Inr ((), div_mem s np qp ws 0 qs)" "length ws = nn" "length qs = nn - dn + 1"
        "lval qs = lval xs div lval ds" "lval (take dn ws) = lval xs mod lval ds" by blast
    then have "div_result s np qp nn (lval xs) (lval ds) dn (div_mem s np qp ws 0 qs)"
      unfolding div_result_def by (metis brk_same)
    then show ?thesis using r(1) iv(1) False dn by (simp add: mpn_div_qr_def bindS_def)
  next
    case True
    let ?t = "fresh s dn" and ?tp = "brk s"
    have below: "dp + dn \<le> brk s" "np + nn \<le> brk s"
      using room_less_brk [OF limbs_at_room [OF ds(1)] m(1)] room_less_brk [OF ds(2) m(1)] dn by simp_all
    have qbelow: "p + (nn - dn + 1) \<le> brk s" if "qp = Some p" for p
      by (rule room_less_brk [OF _ m(1)]) (use ds(3) that in \<open>simp_all add: qroom_def\<close>)
    obtain h es where e: "mpn_lshift ?tp dp dn ?k ?t = Inr (h, put ?t ?tp es)" "length es = dn" "lval es + LIMB_B ^ dn * uint h = 2 ^ ?k * lval ds"
        "\<And>i. 0 < i \<Longrightarrow> i < dn \<Longrightarrow> es ! i = push_bit ?k (ds ! i) OR drop_bit (64 - ?k) (ds ! (i - 1))"
      using mpn_lshift_spec [OF limbs_at_fresh [OF ds(1) m(1)] dn(1) room_fresh _ _ True iv(2)] below(1) dn by (auto simp: down_ok_def)
    have "2 ^ ?k * lval ds < LIMB_B ^ dn" using shifted_less [OF dn(1) _ iv(2,6)] dn(2) by simp
    then have v: "lval es = 2 ^ ?k * lval ds" "h = 0"
      using bounded_eq [OF e(3) lval_nonneg] lval_less [of es] e(2) D by (simp_all add: uint_0_iff)
    have iv': "inv_d1 iv = es ! (dn - 1)" "inv_d0 iv = Some (es ! (dn - 2))" "inverse_3by2 (es ! (dn - 1)) (es ! (dn - 2)) (inv_di iv)"
      using iv(3,4,5,7) e(4) [of "dn - 1"] e(4) [of "dn - 2"] dn True by (simp_all add: numeral_3_eq_3 numeral_2_eq_2)
    let ?s = "put ?t ?tp es"
    have L': "div_layout ?s np nn qp (nn - dn + 1) ?tp es"
      using L below qbelow e(2) ds m(1) by (auto simp: div_layout_def qroom_fresh room_fresh_old)
    have "limbs_at ?s np xs" using below(2) xs(2) by (intro limbs_at_put_outside limbs_at_fresh [OF xs(1) m(1)]) simp
    from div_qr_preinv_gen [OF L' this xs(2) e(2) dn(2,3) iv(2) v(1) D iv'] obtain ws qs where
      r: "mpn_div_qr_preinv qp np nn ?tp dn iv ?s = Inr ((), div_mem ?s np qp ws 0 qs)" "length ws = nn" "length qs = nn - dn + 1"
        "lval qs = lval xs div lval ds" "lval (take dn ws) = lval xs mod lval ds" by blast
    let ?u = "(div_mem s np qp ws 0 qs)\<lparr>brk := brk s + dn + 1\<rparr>"
    have "gmp_free ?tp (div_mem ?s np qp ws 0 qs) = Inr ((), ?u)"
      using free_scratch [OF m(1) e(2), of np ws qp qs] ds r(2,3) dn by simp
    then have "mpn_div_qr qp np nn dp dn s = Inr ((), ?u)"
      using r(1) iv(1) True dn xalloc_fresh [of dn s] m(2) e(1) v(2) by (simp add: mpn_div_qr_def bindS_def gmp_assert_nocarry_def)
    moreover have "div_result s np qp nn (lval xs) (lval ds) dn ?u" using r(2-5) unfolding div_result_def by blast
    ultimately show ?thesis by blast
  qed
qed

lemma mpn_div_qr_spec:
  assumes L: "div_layout s np nn qp (nn - dn + 1) dp ds" and xs: "limbs_at s np xs" "length xs = nn"
    and dn: "length ds = dn" "0 < dn" "dn \<le> nn" "last ds \<noteq> 0" and m: "mem_ok s" "nn * 8 < max_alloc"
  shows "\<exists>t. mpn_div_qr qp np nn dp dn s = Inr ((), t) \<and> div_result s np qp nn (lval xs) (lval ds) dn t"
proof -
  have top: "ds ! (dn - 1) \<noteq> 0" using dn last_conv_nth [of ds] by auto
  consider (one) d where "dn = 1" "ds = [d]" | (two) d0 d1 where "dn = 2" "ds = [d0, d1]" | (many) "2 < dn"
    using dn(1,2) by (cases ds rule: remdups_adj.cases) (auto, metis length_0_conv One_nat_def)
  then show ?thesis
  proof cases
    case one
    then show ?thesis using div_qr_one [of s np nn qp dp d xs] assms top by simp
  next
    case two
    then have "nn - dn + 1 = nn - 1" using dn(3) by simp
    then show ?thesis using two div_qr_two [of s np nn qp dp d0 d1 xs] assms top by simp
  next
    case many
    then show ?thesis using div_qr_many [OF L xs dn(1) many dn(3) top m(1)] dn(3) m(2) by simp
  qed
qed

end
