(* ===== verification/Mpn_Str.thy ===== *)
theory Mpn_Str
  imports Mpn_Div_Full
begin

unbundle bit_operations_syntax

text \<open>
  The conversion of numbers to and from digits in a base from 2 to 256.  Digits are numbers, not characters, with the most
  significant digit first; the buffer of digits is passed along and returned, its cells uninitialised until they are written.
\<close>

section \<open>Definitions\<close>

type_synonym uchar = "8 word"

definition mpn_base_power_of_two_p :: "32 word \<Rightarrow> nat" where
  "mpn_base_power_of_two_p b =
     (if b = 2 then 1 else if b = 4 then 2 else if b = 8 then 3 else if b = 16 then 4 else if b = 32 then 5
      else if b = 64 then 6 else if b = 128 then 7 else if b = 256 then 8 else 0)"

record mpn_base_info =
  bi_exp :: nat
  bi_bb :: limb

definition mpn_get_base_info :: "limb \<Rightarrow> mpn_base_info mp" where
  "mpn_get_base_info b =
     (if b = 0 then stop Div_by_zero
      else
        let m = GMP_LIMB_MAX div b in
        bindS (whileS (\<lambda>(exp, p). p \<le> m) (\<lambda>(exp, p). ret (exp + 1, p * b)) (1, b)) (\<lambda>(exp, p).
        ret \<lparr>bi_exp = exp, bi_bb = p\<rparr>))"

definition mpn_limb_size_in_base_2 :: "limb \<Rightarrow> nat mp" where
  "mpn_limb_size_in_base_2 u =
     bindS (assertS (u > 0)) (\<lambda>_.
     bindS (clzS u) (\<lambda>shift.
     ret (GMP_LIMB_BITS - shift)))"

definition get_str_bits_digit :: "nat \<Rightarrow> nat \<Rightarrow> nat \<Rightarrow> nat \<Rightarrow> nat \<times> nat \<times> uchar carray \<Rightarrow> (nat \<times> nat \<times> uchar carray) mp" where
  "get_str_bits_digit bits up un j = (\<lambda>(i, shift, sp).
     bindS (ld (up + i)) (\<lambda>u.
     bindS (whenS (GMP_LIMB_BITS \<le> shift) (stop Bad_shift)) (\<lambda>_.
     let digit = (ucast (drop_bit shift u) :: uchar); shift = shift + bits in
     bindS (if GMP_LIMB_BITS \<le> shift then
              let i = i + 1 in
              if i < un then
                let shift = shift - GMP_LIMB_BITS in
                bindS (ld (up + i)) (\<lambda>u.
                ret (i, shift, digit OR ucast (push_bit (bits - shift) u)))
              else ret (i, shift, digit)
            else ret (i, shift, digit)) (\<lambda>(i, shift, digit).
     bindS (lift (c_write sp j (digit AND mask bits))) (\<lambda>sp.
     ret (i, shift, sp))))))"

definition mpn_get_str_bits :: "uchar carray \<Rightarrow> nat \<Rightarrow> nat \<Rightarrow> nat \<Rightarrow> (nat \<times> uchar carray) mp" where
  "mpn_get_str_bits sp bits up un =
     bindS (if un = 0 then stop Out_of_bounds else ld (up + (un - 1))) (\<lambda>u.
     bindS (mpn_limb_size_in_base_2 u) (\<lambda>size.
     let sn = ((un - 1) * GMP_LIMB_BITS + size + bits - 1) div bits in
     bindS (for_down sn (get_str_bits_digit bits up un) (0, 0, sp)) (\<lambda>(i, shift, sp).
     ret (sn, sp))))"

text \<open>The argument \<open>off\<close> is the position in the buffer at which the digits of the limb start.\<close>

definition limb_get_str_step :: "nat \<Rightarrow> gmp_div_inverse \<Rightarrow> nat \<times> limb \<times> uchar carray \<Rightarrow> (nat \<times> limb \<times> uchar carray) mp" where
  "limb_get_str_step off binv = (\<lambda>(i, w, sp).
     bindS (whenS (inv_shift binv = 0 \<or> GMP_LIMB_BITS \<le> inv_shift binv) (stop Bad_shift)) (\<lambda>_.
     let h = drop_bit (GMP_LIMB_BITS - inv_shift binv) w;
         l = push_bit (inv_shift binv) w;
         (w, r) = gmp_udiv_qrnnd_preinv h l (inv_d1 binv) (inv_di binv) in
     bindS (assertS (push_bit (GMP_LIMB_BITS - inv_shift binv) r = 0)) (\<lambda>_.
     bindS (lift (c_write sp (off + i) (ucast (drop_bit (inv_shift binv) r)))) (\<lambda>sp.
     ret (i + 1, w, sp)))))"

definition mpn_limb_get_str :: "uchar carray \<Rightarrow> nat \<Rightarrow> limb \<Rightarrow> gmp_div_inverse \<Rightarrow> (nat \<times> uchar carray) mp" where
  "mpn_limb_get_str sp off w binv =
     bindS (whileS (\<lambda>(i, w, sp). w > 0) (limb_get_str_step off binv) (0, w, sp)) (\<lambda>(i, w, sp).
     ret (i, sp))"

definition get_str_turn ::
  "gmp_div_inverse \<Rightarrow> gmp_div_inverse \<Rightarrow> nat \<Rightarrow> nat \<Rightarrow> nat \<times> nat \<times> uchar carray \<Rightarrow> (nat \<times> nat \<times> uchar carray) mp" where
  "get_str_turn binv bbinv exp up = (\<lambda>(un, sn, sp).
     bindS (mpn_div_qr_1_preinv (Some up) up un bbinv) (\<lambda>w.
     bindS (ld (up + (un - 1))) (\<lambda>top.
     let un = un - of_bool (top = 0) in
     bindS (mpn_limb_get_str sp sn w binv) (\<lambda>(done, sp).
     bindS (for_up done (exp - done) (\<lambda>_ (sn, sp).
       bindS (lift (c_write sp sn 0)) (\<lambda>sp.
       ret (sn + 1, sp))) (sn + done, sp)) (\<lambda>(sn, sp).
     ret (un, sn, sp))))))"

definition get_str_blocks ::
  "gmp_div_inverse \<Rightarrow> mpn_base_info \<Rightarrow> nat \<Rightarrow> nat \<Rightarrow> uchar carray \<Rightarrow> (nat \<times> nat \<times> uchar carray) mp" where
  "get_str_blocks binv info up un sp =
     (if 1 < un then
        bindS (mpn_div_qr_1_invert (bi_bb info)) (\<lambda>bbinv.
        bindS (get_str_turn binv bbinv (bi_exp info) up (un, 0, sp)) (\<lambda>c.
        whileS (\<lambda>(un, sn, sp). 1 < un) (get_str_turn binv bbinv (bi_exp info) up) c))
      else ret (un, 0, sp))"

definition reverse_digits :: "nat \<Rightarrow> uchar carray \<Rightarrow> uchar carray mp" where
  "reverse_digits sn sp =
     for_up 0 (sn div 2) (\<lambda>i sp.
       bindS (lift (c_read sp i)) (\<lambda>t.
       bindS (lift (c_read sp (sn - i - 1))) (\<lambda>x.
       bindS (lift (c_write sp i x)) (\<lambda>sp.
       lift (c_write sp (sn - i - 1) t))))) sp"

definition mpn_get_str_other :: "uchar carray \<Rightarrow> int \<Rightarrow> mpn_base_info \<Rightarrow> nat \<Rightarrow> nat \<Rightarrow> (nat \<times> uchar carray) mp" where
  "mpn_get_str_other sp base info up un =
     bindS (mpn_div_qr_1_invert (of_int base)) (\<lambda>binv.
     bindS (get_str_blocks binv info up un sp) (\<lambda>(un, sn, sp).
     bindS (ld up) (\<lambda>w.
     bindS (mpn_limb_get_str sp sn w binv) (\<lambda>(done, sp).
     let sn = sn + done in
     bindS (reverse_digits sn sp) (\<lambda>sp.
     ret (sn, sp))))))"

definition mpn_get_str :: "uchar carray \<Rightarrow> int \<Rightarrow> nat \<Rightarrow> nat \<Rightarrow> (nat \<times> uchar carray) mp" where
  "mpn_get_str sp base up un =
     bindS (assertS (0 < un)) (\<lambda>_.
     bindS (ld (up + (un - 1))) (\<lambda>u.
     bindS (assertS (u > 0)) (\<lambda>_.
     let bits = mpn_base_power_of_two_p (uint_of base) in
     if bits \<noteq> 0 then mpn_get_str_bits sp bits up un
     else bindS (mpn_get_base_info (of_int base)) (\<lambda>info. mpn_get_str_other sp base info up un))))"

definition set_str_bits_digit :: "nat \<Rightarrow> uchar carray \<Rightarrow> nat \<Rightarrow> nat \<Rightarrow> nat \<times> nat \<Rightarrow> (nat \<times> nat) mp" where
  "set_str_bits_digit rp sp bits j = (\<lambda>(rn, shift).
     bindS (lift (c_read sp j)) (\<lambda>x.
     if shift = 0 then bindS (st (rp + rn) (ucast x)) (\<lambda>_. ret (rn + 1, shift + bits))
     else
       bindS (ld (rp + (rn - 1))) (\<lambda>u.
       bindS (st (rp + (rn - 1)) (u OR push_bit shift (ucast x))) (\<lambda>_.
       let shift = shift + bits in
       if GMP_LIMB_BITS \<le> shift then
         let shift = shift - GMP_LIMB_BITS in
         if 0 < shift then bindS (st (rp + rn) (drop_bit (bits - shift) (ucast x))) (\<lambda>_. ret (rn + 1, shift))
         else ret (rn, shift)
       else ret (rn, shift)))))"

definition mpn_set_str_bits :: "nat \<Rightarrow> uchar carray \<Rightarrow> nat \<Rightarrow> nat \<Rightarrow> nat mp" where
  "mpn_set_str_bits rp sp sn bits =
     bindS (for_down sn (set_str_bits_digit rp sp bits) (0, 0)) (\<lambda>(rn, shift).
     mpn_normalized_size rp rn)"

text \<open>The value of the digits from \<open>j\<close> on, of which there are \<open>k\<close>: \<open>w = w * b + sp[j++]\<close>, starting with the first digit.\<close>

definition digits_word :: "uchar carray \<Rightarrow> limb \<Rightarrow> nat \<Rightarrow> nat \<Rightarrow> limb mp" where
  "digits_word sp b j k =
     bindS (lift (c_read sp j)) (\<lambda>x.
     for_up (j + 1) (k - 1) (\<lambda>j w.
       bindS (lift (c_read sp j)) (\<lambda>x.
       ret (w * b + ucast x))) (ucast x))"

definition set_str_turn :: "nat \<Rightarrow> uchar carray \<Rightarrow> limb \<Rightarrow> mpn_base_info \<Rightarrow> nat \<times> nat \<Rightarrow> (nat \<times> nat) mp" where
  "set_str_turn rp sp b info = (\<lambda>(rn, j).
     bindS (digits_word sp b j (bi_exp info)) (\<lambda>w.
     bindS (mpn_mul_1 rp rp rn (bi_bb info)) (\<lambda>cy.
     bindS (mpn_add_1 rp rp rn w) (\<lambda>c.
     let cy = cy + c in
     bindS (whenS (cy > 0) (st (rp + rn) cy)) (\<lambda>_.
     ret (rn + of_bool (cy > 0), j + bi_exp info))))))"

definition mpn_set_str_other :: "nat \<Rightarrow> uchar carray \<Rightarrow> nat \<Rightarrow> limb \<Rightarrow> mpn_base_info \<Rightarrow> nat mp" where
  "mpn_set_str_other rp sp sn b info =
     bindS (assertS (0 < sn)) (\<lambda>_.
     bindS (whenS (bi_exp info = 0) (stop Div_by_zero)) (\<lambda>_.
     let k = 1 + (sn - 1) mod bi_exp info in
     bindS (digits_word sp b 0 k) (\<lambda>w.
     bindS (st rp w) (\<lambda>_.
     bindS (whileS (\<lambda>(rn, j). j < sn) (set_str_turn rp sp b info) (1, k)) (\<lambda>(rn, j).
     bindS (assertS (j = sn)) (\<lambda>_.
     ret rn))))))"

definition mpn_set_str :: "nat \<Rightarrow> uchar carray \<Rightarrow> nat \<Rightarrow> int \<Rightarrow> nat mp" where
  "mpn_set_str rp sp sn base =
     (if sn = 0 then ret 0
      else
        let bits = mpn_base_power_of_two_p (uint_of base) in
        if bits \<noteq> 0 then mpn_set_str_bits rp sp sn bits
        else bindS (mpn_get_base_info (of_int base)) (\<lambda>info. mpn_set_str_other rp sp sn (of_int base) info))"

section \<open>Powers of the base\<close>

lemma uint_max_div: "uint (GMP_LIMB_MAX div b) = (LIMB_B - 1) div uint b"
  by (simp add: uint_div_distrib GMP_LIMB_MAX_def LIMB_B_def unsigned_minus_1_eq_mask mask_eq_exp_minus_1)

lemma base_step:
  fixes b p :: limb
  assumes "b \<noteq> 0" "p \<le> GMP_LIMB_MAX div b"
  shows "uint (p * b) = uint p * uint b"
proof -
  have "uint p * uint b \<le> (LIMB_B - 1) div uint b * uint b"
    using assms(2) by (intro mult_right_mono) (simp_all add: word_le_def uint_max_div)
  also have "\<dots> \<le> LIMB_B - 1" using uint_pos [OF assms(1)] by (simp add: LIMB_B_def) (smt (verit) minus_mod_eq_mult_div mult.commute pos_mod_sign)
  finally have "uint p * uint b < 2 ^ 64" unfolding LIMB_B_def by linarith
  then show ?thesis using uint_mult_lem [of p b] by simp
qed

lemma base_info_spec:
  assumes "2 \<le> uint b"
  shows "\<exists>info. mpn_get_base_info b s = Inr (info, s) \<and> 1 \<le> bi_exp info \<and> uint (bi_bb info) = uint b ^ bi_exp info \<and>
    LIMB_B \<le> uint b ^ Suc (bi_exp info)"
proof -
  let ?m = "GMP_LIMB_MAX div b"
  let ?P = "\<lambda>(e, p) t. t = s \<and> 1 \<le> e \<and> uint (p :: limb) = uint b ^ e"
  have b: "b \<noteq> 0" using assms by auto
  have "\<exists>c t. whileS (\<lambda>(e, p). p \<le> ?m) (\<lambda>(e, p). ret (e + 1, p * b)) (1, b) s = Inr (c, t) \<and> ?P c t \<and> \<not> (\<lambda>(e, p). p \<le> ?m) c"
  proof (rule whileS_total [where m = "\<lambda>(e, p) _. nat (LIMB_B - uint p)"])
    fix c t assume c: "?P c t" "(\<lambda>(e, p). p \<le> ?m) c"
    obtain e p where e: "c = (e, p)" by force
    have u: "uint (p * b) = uint p * uint b" using base_step [OF b] c(2) e by simp
    have "0 < uint b ^ e" using assms by (intro zero_less_power) linarith
    then have "0 < uint p" using c e by simp
    then have "uint p * 1 < uint p * uint b" using assms by (intro mult_strict_left_mono) simp_all
    then have "uint p < uint (p * b)" using u by simp
    then have "nat (LIMB_B - uint (p * b)) < nat (LIMB_B - uint p)" using uint_bounds [of p] by linarith
    then show "\<exists>c' s'. (\<lambda>(e, p). ret (e + 1, p * b)) c t = Inr (c', s') \<and> ?P c' s' \<and> (\<lambda>(e, p) _. nat (LIMB_B - uint p)) c' s' < (\<lambda>(e, p) _. nat (LIMB_B - uint p)) c t"
      using c e u by (simp add: ac_simps)
  qed simp
  then obtain e p where r: "whileS (\<lambda>(e, p). p \<le> ?m) (\<lambda>(e, p). ret (e + 1, p * b)) (1, b) s = Inr ((e, p), s)"
    "1 \<le> e" "uint p = uint b ^ e" "\<not> p \<le> ?m" by auto
  have "(LIMB_B - 1) div uint b < uint p" using r(4) by (simp add: word_le_def uint_max_div)
  then have "((LIMB_B - 1) div uint b + 1) * uint b \<le> uint p * uint b" by (intro mult_right_mono) simp_all
  moreover have "(LIMB_B - 1) mod uint b < uint b" using assms by simp
  moreover have "(LIMB_B - 1) div uint b * uint b + (LIMB_B - 1) mod uint b = LIMB_B - 1" by simp
  ultimately have "LIMB_B - 1 < uint p * uint b" unfolding distrib_right by linarith
  then have "LIMB_B \<le> uint b ^ Suc e" using r(3) by (simp add: mult.commute)
  then show ?thesis using r b by (simp add: mpn_get_base_info_def bindS_def Let_def)
qed

lemma base_one_forever: "mpn_get_base_info 1 s = Inl (No_return, s)"
proof -
  have "whileS (\<lambda>(e, p). p \<le> GMP_LIMB_MAX) (\<lambda>(e, p). ret (Suc e, p)) (Suc 0, 1) s = Inl (No_return, s)"
    by (rule whileS_forever [where P = "\<lambda>(e, p) _. p = 1"]) (auto simp: GMP_LIMB_MAX_def)
  then show ?thesis by (simp add: mpn_get_base_info_def bindS_def)
qed

section \<open>Values of digits\<close>

definition dval :: "int \<Rightarrow> uchar list \<Rightarrow> int" where
  "dval b ds = foldl (\<lambda>v d. v * b + uint d) 0 ds"

definition digits_ok :: "int \<Rightarrow> uchar list \<Rightarrow> bool" where
  "digits_ok b ds \<longleftrightarrow> (\<forall>d \<in> set ds. uint d < b)"

lemma dval_Nil [simp]: "dval b [] = 0"
  by (simp add: dval_def)

lemma dval_snoc: "dval b (ds @ [d]) = dval b ds * b + uint d"
  by (simp add: dval_def)

lemma dval_append: "dval b (ds @ es) = dval b ds * b ^ length es + dval b es"
proof (induction es rule: rev_induct)
  case (snoc e es)
  then show ?case using dval_snoc [of b "ds @ es" e] by (simp add: dval_snoc algebra_simps)
qed simp

lemma dval_Cons: "dval b (d # ds) = uint d * b ^ length ds + dval b ds"
  using dval_append [of b "[d]" ds] by (simp add: dval_def)

lemma digits_ok_simps [simp]:
  "digits_ok b []"
  "digits_ok b (d # ds) \<longleftrightarrow> uint d < b \<and> digits_ok b ds"
  "digits_ok b (ds @ es) \<longleftrightarrow> digits_ok b ds \<and> digits_ok b es"
  "digits_ok b (rev ds) \<longleftrightarrow> digits_ok b ds"
  by (auto simp: digits_ok_def)

lemma dval_nonneg: "0 \<le> b \<Longrightarrow> 0 \<le> dval b ds"
  by (induction ds rule: rev_induct) (simp_all add: dval_snoc)

lemma dval_less:
  assumes "digits_ok b ds" "0 < b"
  shows "dval b ds < b ^ length ds"
  using assms
proof (induction ds rule: rev_induct)
  case (snoc d ds)
  then have "dval b ds * b \<le> (b ^ length ds - 1) * b" by (intro mult_right_mono) simp_all
  then show ?case using snoc.prems by (simp add: dval_snoc algebra_simps)
qed simp

lemma dval_zeros: "dval b (replicate n 0 @ ds) = dval b ds"
  by (induction n) (simp_all add: dval_Cons)

lemma dval_ge:
  assumes "ds \<noteq> []" "hd ds \<noteq> 0" "0 < b"
  shows "b ^ (length ds - 1) \<le> dval b ds"
proof -
  obtain d es where ds: "ds = d # es" using assms(1) by (cases ds) auto
  have "1 \<le> uint d" using assms(2) ds uint_0_iff [of d] uint_bounded [of d] by (simp add: order_less_le int_one_le_iff_zero_less)
  then have "1 * b ^ length es \<le> uint d * b ^ length es" using assms(3) by (intro mult_right_mono) simp_all
  moreover have "0 \<le> dval b es" using assms(3) by (intro dval_nonneg) simp
  moreover have "b ^ (length ds - 1) = 1 * b ^ length es" by (simp add: ds)
  ultimately show ?thesis unfolding ds dval_Cons by linarith
qed

text \<open>The digits of a number without leading zeros are no more than fit under a power of the base.\<close>

lemma digits_fit:
  assumes "dval b ds < b ^ m" "ds = [] \<or> hd ds \<noteq> 0" "1 < b"
  shows "length ds \<le> m"
proof (cases "ds = []")
  case False
  then have "b ^ (length ds - 1) < b ^ m" using dval_ge [of ds b] assms by linarith
  then have "length ds - 1 < m" using assms(3) by (rule power_less_imp_less_exp [rotated])
  then show ?thesis by simp
qed simp

section \<open>The digits of one limb\<close>

lemma limb_digit:
  fixes w d :: limb
  assumes "0 < k" "k < 64" "uint d1 = 2 ^ k * uint d" "inverse_limb d1 di" "1 \<le> uint d"
    and "gmp_udiv_qrnnd_preinv (drop_bit (64 - k) w) (push_bit k w) d1 di = (q, r)"
  shows "uint q = uint w div uint d" "uint (drop_bit k r) = uint w mod uint d" "push_bit (64 - k) r = 0"
proof -
  let ?h = "drop_bit (64 - k) w" and ?l = "push_bit k w"
  have v: "uint ?l + LIMB_B * uint ?h = 2 ^ k * uint w" by (rule shift_parts [OF assms(1,2)])
  have "LIMB_B * uint ?h \<le> 2 ^ k * uint w" using v uint_bounds(1) [of ?l] by linarith
  also have "\<dots> < 2 ^ k * LIMB_B" using uint_bounds(2) [of w] by (intro mult_strict_left_mono) simp_all
  finally have "LIMB_B * uint ?h < LIMB_B * 2 ^ k" by (simp add: mult.commute)
  then have "uint ?h < 2 ^ k" by simp
  moreover have "2 ^ k * 1 \<le> 2 ^ k * uint d" using assms(5) by (intro mult_left_mono) simp_all
  ultimately have "?h < d1" unfolding uint_limb_less assms(3) by linarith
  from udiv_qrnnd_preinv_val [OF assms(4) this assms(6)] v
  have qr: "uint q = 2 ^ k * uint w div uint d1" "uint r = 2 ^ k * uint w mod uint d1" by (simp_all add: ac_simps)
  have "uint r < uint d1" using assms(3,5) unfolding qr(2) by (intro pos_mod_bound) simp
  moreover have "uint r + 2 ^ k * uint d * uint q = 2 ^ k * uint w" unfolding qr assms(3) [symmetric] by simp
  ultimately have s: "uint q = uint w div uint d" "uint r div 2 ^ k = uint w mod uint d" "uint r = 2 ^ k * (uint w mod uint d)"
    using shifted_div [of "uint r" k "uint d" "uint q" "uint w"] assms(3,5) uint_bounds(1) [of r] by simp_all
  show "uint q = uint w div uint d" by (rule s)
  show "uint (drop_bit k r) = uint w mod uint d"
    using s(2) uint_bounds [of r] unfolding unsigned_drop_bit_eq by (simp add: drop_bit_eq_div take_bit_int_eq_self LIMB_B_def)
  have "uint (push_bit (64 - k) r) = 2 ^ (64 - k) * uint r mod 2 ^ 64"
    unfolding unsigned_push_bit_eq take_bit_eq_mod push_bit_eq_mult [of _ "uint r"] by (simp add: mult.commute)
  also have "2 ^ (64 - k) * uint r = 2 ^ 64 * (uint w mod uint d)"
    unfolding s(3) mult.assoc [symmetric] using assms(2) by (simp flip: power_add)
  finally show "push_bit (64 - k) r = 0" by (simp add: unsigned_eq_0_iff)
qed

text \<open>The buffer with the digits \<open>ds\<close> written from \<open>off\<close> on.\<close>

definition fill :: "uchar carray \<Rightarrow> nat \<Rightarrow> uchar list \<Rightarrow> uchar carray" where
  "fill sp off ds = take off sp @ map Some ds @ drop (off + length ds) sp"

lemma length_fill [simp]: "off + length ds \<le> length sp \<Longrightarrow> length (fill sp off ds) = length sp"
  by (simp add: fill_def)

lemma fill_Nil [simp]: "fill sp off [] = sp"
  by (simp add: fill_def)

lemma fill_fill:
  "off + length ds \<le> length sp \<Longrightarrow> fill (fill sp off ds) (off + length ds) es = fill sp off (ds @ es)"
  by (simp add: fill_def add.assoc add.commute [of "length es"])

lemma c_write_fill:
  assumes "off + length ds < length sp"
  shows "c_write (fill sp off ds) (off + length ds) d = Inr (fill sp off (ds @ [d]))"
proof -
  obtain c cs where c: "drop (off + length ds) sp = c # cs" using assms by (cases "drop (off + length ds) sp") auto
  then have "drop (Suc (off + length ds)) sp = cs" by (metis drop_Suc_Cons drop_drop drop0 plus_1_eq_Suc)
  then have "(fill sp off ds)[off + length ds := Some d] = fill sp off (ds @ [d])"
    using assms c by (simp add: fill_def list_update_append)
  then show ?thesis using assms by (simp add: c_write_def)
qed

definition base_inv :: "gmp_div_inverse \<Rightarrow> limb \<Rightarrow> bool" where
  "base_inv iv d \<longleftrightarrow> 0 < inv_shift iv \<and> inv_shift iv < 64 \<and> uint (inv_d1 iv) = 2 ^ inv_shift iv * uint d \<and>
     inverse_limb (inv_d1 iv) (inv_di iv) \<and> 2 \<le> uint d \<and> uint d \<le> 256"

lemma div_less_power:
  assumes "(w :: int) < b ^ Suc n" "0 < b"
  shows "w div b < b ^ n"
proof -
  have "b * (w div b) \<le> w" using assms(2) mult_div_mod_eq [of b w] pos_mod_sign [of b w] by linarith
  then have "b * (w div b) < b * b ^ n" using assms(1) by simp
  then show ?thesis using assms(2) by simp
qed

lemma limb_get_str_step_spec:
  assumes "base_inv iv d" "v \<noteq> 0" "off + length ds < length sp"
  shows "\<exists>q x. limb_get_str_step off iv (length ds, v, fill sp off ds) s = Inr ((Suc (length ds), q, fill sp off (ds @ [x])), s) \<and>
    uint q = uint v div uint d \<and> uint x = uint v mod uint d"
proof -
  let ?k = "inv_shift iv" and ?b = "uint d"
  note iv = assms(1) [unfolded base_inv_def]
  obtain q r where qr: "gmp_udiv_qrnnd_preinv (drop_bit (64 - ?k) v) (push_bit ?k v) (inv_d1 iv) (inv_di iv) = (q, r)" by force
  have r: "uint q = uint v div ?b" "uint (drop_bit ?k r) = uint v mod ?b" "push_bit (64 - ?k) r = 0"
    using limb_digit [OF _ _ _ _ _ qr] iv by auto
  let ?d = "ucast (drop_bit ?k r) :: uchar"
  have "uint v mod ?b < 256" using iv pos_mod_bound [of ?b "uint v"] by linarith
  moreover have "0 \<le> uint v mod ?b" using iv by (intro pos_mod_sign) simp
  ultimately have d: "uint ?d = uint v mod ?b" using r(2) by (simp add: uint_up_ucast unsigned_ucast_eq take_bit_eq_mod)
  have "limb_get_str_step off iv (length ds, v, fill sp off ds) s = Inr ((Suc (length ds), q, fill sp off (ds @ [?d])), s)"
    using iv qr r(3) c_write_fill [OF assms(3), of ?d] by (simp add: limb_get_str_step_def bindS_def assertS_def GMP_LIMB_BITS_def)
  with r(1) d show ?thesis by blast
qed

definition limb_str_inv :: "uchar carray \<Rightarrow> nat \<Rightarrow> limb \<Rightarrow> limb \<Rightarrow> nat \<Rightarrow> nat \<times> limb \<times> uchar carray \<Rightarrow> bool" where
  "limb_str_inv sp off d w n = (\<lambda>(i, v, sp'). \<exists>ds. length ds = i \<and> sp' = fill sp off ds \<and> i \<le> n \<and> uint v < uint d ^ (n - i) \<and>
     digits_ok (uint d) ds \<and> dval (uint d) (rev ds) + uint v * uint d ^ i = uint w \<and> (v = 0 \<longrightarrow> ds = [] \<or> last ds \<noteq> 0))"

lemma limb_str_inv_step:
  assumes "base_inv iv d" "limb_str_inv sp off d w n (i, v, sp')" "v \<noteq> 0" "off + n \<le> length sp"
  shows "\<exists>c. limb_get_str_step off iv (i, v, sp') s = Inr (c, s) \<and> limb_str_inv sp off d w n c \<and> unat (fst (snd c)) < unat v"
proof -
  let ?b = "uint d"
  note iv = assms(1) [unfolded base_inv_def]
  from assms(2) obtain ds where ds: "length ds = i" "sp' = fill sp off ds" "i \<le> n" "uint v < ?b ^ (n - i)" "digits_ok ?b ds"
    "dval ?b (rev ds) + uint v * ?b ^ i = uint w" by (auto simp: limb_str_inv_def)
  have v: "1 \<le> uint v" using assms(3) by (rule uint_pos)
  have "i < n" using ds(3,4) v by (cases "i = n") auto
  then have n: "n - i = Suc (n - Suc i)" by simp
  obtain q x where q: "limb_get_str_step off iv (i, v, sp') s = Inr ((Suc i, q, fill sp off (ds @ [x])), s)"
    "uint q = uint v div ?b" "uint x = uint v mod ?b"
    using limb_get_str_step_spec [OF assms(1,3), of off ds sp s] ds(1,2) assms(4) \<open>i < n\<close> by auto
  have "uint q < ?b ^ (n - Suc i)" unfolding q(2) by (rule div_less_power) (use ds(4) n iv in simp_all)
  moreover have "dval ?b (rev (ds @ [x])) + uint q * ?b ^ Suc i = uint w"
  proof -
    have "uint v * ?b ^ i = (uint v mod ?b) * ?b ^ i + (uint v div ?b) * ?b ^ Suc i"
      by (metis (no_types, lifting) add.commute distrib_right div_mult_mod_eq mult.assoc power_Suc)
    then show ?thesis using ds(1,6) by (simp add: dval_Cons q)
  qed
  moreover have "x \<noteq> 0" if "q = 0"
  proof -
    have "uint v div ?b = 0" using that q(2) by simp
    then have "uint x = uint v" using q(3) div_mult_mod_eq [of "uint v" ?b] by simp
    then show ?thesis using v by auto
  qed
  moreover have "uint x < ?b" using iv unfolding q(3) by (intro pos_mod_bound) simp
  ultimately have "limb_str_inv sp off d w n (Suc i, q, fill sp off (ds @ [x]))"
    unfolding limb_str_inv_def prod.case by (intro exI [of _ "ds @ [x]"]) (use ds(1,5) \<open>i < n\<close> in auto)
  moreover have "uint v div ?b < uint v" using v iv by (intro int_div_less_self) auto
  then have "q < v" unfolding uint_limb_less q(2) .
  then have "unat q < unat v" by (rule unat_mono)
  ultimately show ?thesis using q(1) by auto
qed

lemma limb_get_str_spec:
  assumes "base_inv iv d" "uint w < uint d ^ n" "off + n \<le> length sp"
  shows "\<exists>ds. mpn_limb_get_str sp off w iv s = Inr ((length ds, fill sp off ds), s) \<and> length ds \<le> n \<and>
    digits_ok (uint d) ds \<and> dval (uint d) (rev ds) = uint w \<and> (ds = [] \<or> last ds \<noteq> 0)"
proof -
  let ?P = "\<lambda>c t. t = s \<and> limb_str_inv sp off d w n c"
  have "\<exists>c t. whileS (\<lambda>(i, w, sp). w > 0) (limb_get_str_step off iv) (0, w, sp) s = Inr (c, t) \<and> ?P c t \<and> \<not> (\<lambda>(i, w, sp). w > 0) c"
  proof (rule whileS_total [where m = "\<lambda>(i, v, sp) _. unat v"])
    fix c t assume P: "?P c t" and v0: "(\<lambda>(i, w, sp). w > 0) c"
    obtain i v sp' where c: "c = (i, v, sp')" by (cases c) auto
    then have "v \<noteq> 0" using v0 by auto
    from limb_str_inv_step [OF assms(1) _ this assms(3)] P c show
      "\<exists>c' s'. limb_get_str_step off iv c t = Inr (c', s') \<and> ?P c' s' \<and> (\<lambda>(i, v, sp) _. unat v) c' s' < (\<lambda>(i, v, sp) _. unat v) c t"
      by fastforce
  qed (use assms(2) in \<open>simp add: limb_str_inv_def\<close>)
  then obtain c where c: "whileS (\<lambda>(i, w, sp). w > 0) (limb_get_str_step off iv) (0, w, sp) s = Inr (c, s)"
    "limb_str_inv sp off d w n c" "\<not> (\<lambda>(i, w, sp). w > 0) c" by blast
  obtain i v sp' where e: "c = (i, v, sp')" by (cases c) auto
  then have "v = 0" using c(3) by (simp add: word_neq_0_conv [symmetric])
  with c e obtain ds where "c = (length ds, 0, fill sp off ds)" "length ds \<le> n" "digits_ok (uint d) ds" "dval (uint d) (rev ds) = uint w"
    "ds = [] \<or> last ds \<noteq> 0" by (auto simp: limb_str_inv_def)
  then show ?thesis using c(1) by (intro exI [of _ ds]) (simp add: mpn_limb_get_str_def bindS_def)
qed

section \<open>Bases that are no powers of two\<close>

lemma pad_spec:
  assumes "off + length ds + k \<le> length sp"
  shows "for_up i k (\<lambda>_ (sn, sp). bindS (lift (c_write sp sn 0)) (\<lambda>sp. ret (sn + 1, sp))) (off + length ds, fill sp off ds) s =
    Inr ((off + length ds + k, fill sp off (ds @ replicate k 0)), s)"
  using assms
proof (induction k arbitrary: i ds)
  case (Suc k)
  have "replicate (Suc k) (0 :: uchar) = [0] @ replicate k 0" by simp
  then show ?case using Suc.IH [of "ds @ [0]" "Suc i"] Suc.prems c_write_fill [of off ds sp 0]
    by (simp add: bindS_def del: replicate_Suc)
qed simp

lemma quotient_top:
  assumes "last xs \<noteq> 0" "2 \<le> length xs" "length qs = length xs" "lval qs = lval xs div v" "0 < v" "v < LIMB_B"
  shows "\<exists>ys zs. qs = ys @ zs \<and> length ys = length xs - of_bool (last qs = 0) \<and> ys \<noteq> [] \<and> last ys \<noteq> 0 \<and> lval ys = lval qs"
proof (cases "last qs = 0")
  case True
  let ?n = "length xs - 2"
  have "qs \<noteq> []" using assms(2,3) by auto
  then have q: "qs = butlast qs @ [0]" using True append_butlast_last_id [of qs] by simp
  have l: "lval (butlast qs) = lval qs" using arg_cong [OF q, of lval] by (simp add: lval_append)
  have "LIMB_B ^ ?n * v \<le> LIMB_B ^ ?n * LIMB_B" using assms(6) by (intro mult_left_mono) simp_all
  also have "\<dots> = LIMB_B ^ Suc ?n" by (rule power_Suc2 [symmetric])
  also have "\<dots> = LIMB_B ^ (length xs - 1)" using assms(2) by (intro arg_cong [where f = "power LIMB_B"]) simp
  also have "\<dots> \<le> lval xs" using assms(1,2) by (intro lval_ge_top) auto
  finally have "LIMB_B ^ ?n \<le> lval qs" using assms(4,5) zdiv_mono1 [of "LIMB_B ^ ?n * v" "lval xs" v] by simp
  moreover have ne: "butlast qs \<noteq> []" using assms(2,3) by (cases qs rule: rev_cases) (auto simp: numeral_2_eq_2)
  have "last (butlast qs) \<noteq> 0"
  proof
    assume "last (butlast qs) = 0"
    then have "lval (butlast qs) = lval (butlast (butlast qs))"
      using arg_cong [OF append_butlast_last_id [OF ne], of lval] by (simp add: lval_append)
    then have "lval qs < LIMB_B ^ length (butlast (butlast qs))" using l lval_less [of "butlast (butlast qs)"] by simp
    then show False using \<open>LIMB_B ^ ?n \<le> lval qs\<close> assms(3) by (simp add: numeral_2_eq_2)
  qed
  ultimately show ?thesis using q l True assms(3) ne by (intro exI [of _ "butlast qs"] exI [of _ "[0]"]) simp
next
  case False
  then show ?thesis using assms(2,3) by (intro exI [of _ qs] exI [of _ "[]"]) auto
qed

text \<open>The memory in which only the number at \<open>up\<close> and the break have changed.\<close>

definition num_mem :: "limb_mem \<Rightarrow> nat \<Rightarrow> nat \<Rightarrow> limb list \<Rightarrow> limb_mem \<Rightarrow> bool" where
  "num_mem s up n xs t \<longleftrightarrow> (\<exists>zs b. t = (put s up (xs @ zs))\<lparr>brk := b\<rparr> \<and> length xs + length zs = n \<and> brk s \<le> b)"

lemma num_memD:
  assumes "num_mem s up n xs t" "room s up n" "mem_ok s"
  shows "limbs_at t up xs" "room t up n" "mem_ok t" "length xs \<le> n"
proof -
  obtain zs b where t: "t = (put s up (xs @ zs))\<lparr>brk := b\<rparr>" "length xs + length zs = n" "brk s \<le> b"
    using assms(1) by (auto simp: num_mem_def)
  have "mem_ok (put s up (xs @ zs))" "brk (put s up (xs @ zs)) = brk s" using fresh_put [OF assms(3)] assms(2) t(2) by simp_all
  then show "mem_ok t" using t(1,3) by (simp add: mem_ok_def)
  show "limbs_at t up xs" unfolding t(1) by (auto simp: limbs_at_def cells_put nth_append)
  show "room t up n" using assms(2) unfolding t(1) by (simp add: room_def cells_put)
  show "length xs \<le> n" using t(2) by simp
qed

lemma num_mem_put:
  assumes "num_mem s up n xs t" "length xs = length (ys @ zs)" "brk t \<le> b"
  shows "num_mem s up n ys ((put t up (ys @ zs))\<lparr>brk := b\<rparr>)"
proof -
  obtain ws b' where t: "t = (put s up (xs @ ws))\<lparr>brk := b'\<rparr>" "length xs + length ws = n" "brk s \<le> b'"
    using assms(1) by (auto simp: num_mem_def)
  have "put (put s up (xs @ ws)) up (ys @ zs) = put s up (ys @ (zs @ ws))"
    using put_put [of 0 "xs @ ws" s up "ys @ zs"] assms(2) by simp
  then have "(put t up (ys @ zs))\<lparr>brk := b\<rparr> = (put s up (ys @ (zs @ ws)))\<lparr>brk := b\<rparr>" unfolding t(1) put_brk by simp
  moreover have "brk s \<le> b" "length ys + length (zs @ ws) = n" using assms(2,3) t by simp_all
  ultimately show ?thesis unfolding num_mem_def by blast
qed

definition limb_inv :: "gmp_div_inverse \<Rightarrow> limb \<Rightarrow> bool" where
  "limb_inv iv d \<longleftrightarrow> d \<noteq> 0 \<and> inv_shift iv < 64 \<and> uint (inv_d1 iv) = 2 ^ inv_shift iv * uint d \<and> inverse_limb (inv_d1 iv) (inv_di iv)"

lemma get_str_turn_spec:
  assumes mem: "num_mem s up n xs t" "room s up n" "mem_ok s" "n * 8 < max_alloc"
    and xs: "2 \<le> length xs" "last xs \<noteq> 0"
    and inv: "base_inv binv d" "limb_inv bbinv bb" "uint bb = uint d ^ e"
    and sp: "sn + e \<le> length sp"
  shows "\<exists>ys ds t'. get_str_turn binv bbinv e up (length xs, sn, sp) t = Inr ((length ys, sn + e, fill sp sn ds), t') \<and>
    num_mem s up n ys t' \<and> ys \<noteq> [] \<and> last ys \<noteq> 0 \<and> length ds = e \<and> digits_ok (uint d) ds \<and>
    lval xs = lval ys * uint d ^ e + dval (uint d) (rev ds)"
proof -
  note t = num_memD [OF mem(1-3)]
  have "room t up (length xs)" "xs \<noteq> []" using t(2,4) xs(1) by (auto simp: room_def)
  then obtain w qs b where q: "mpn_div_qr_1_preinv (Some up) up (length xs) bbinv t = Inr (w, (put t up qs)\<lparr>brk := b\<rparr>)" "length qs = length xs"
      "lval qs = lval xs div uint bb" "uint w = lval xs mod uint bb" "brk t \<le> b"
    using div_qr_1_preinv_spec [OF t(1) refl, where qp = "Some up" and iv = bbinv and d = bb] xs(1) t(3,4) mem(4) inv(2)
    by (auto simp: qroom_def qdown_def putq_def limb_inv_def)
  let ?t = "(put t up qs)\<lparr>brk := b\<rparr>"
  have bb: "0 < uint bb" "uint bb < LIMB_B" using uint_pos [of bb] uint_bounds(2) [of bb] inv(2) by (auto simp: limb_inv_def)
  obtain ys zs where ys: "qs = ys @ zs" "length ys = length xs - of_bool (last qs = 0)" "ys \<noteq> []" "last ys \<noteq> 0" "lval ys = lval qs"
    using quotient_top [OF xs(2,1) q(2,3) bb] by blast
  have nm: "num_mem s up n ys ?t" using num_mem_put [OF mem(1) _ q(5), of ys zs] q(2) ys(1) by simp
  have "limbs_at ?t up qs" by (simp add: limbs_at_def cells_put)
  then have top: "ld (up + (length xs - 1)) ?t = Inr (last qs, ?t)"
    using ld_limbs_at [of ?t up qs "length xs - 1"] q(2) xs(1) last_conv_nth [of qs] by fastforce
  have "uint w < uint d ^ e" unfolding q(4) inv(3) [symmetric] using bb(1) by (rule pos_mod_bound)
  then obtain ds where ds: "mpn_limb_get_str sp sn w binv ?t = Inr ((length ds, fill sp sn ds), ?t)" "length ds \<le> e" "digits_ok (uint d) ds"
      "dval (uint d) (rev ds) = uint w"
    using limb_get_str_spec [OF inv(1) _ sp] by blast
  have pad: "for_up (length ds) (e - length ds) (\<lambda>_ (sn, sp). bindS (lift (c_write sp sn 0)) (\<lambda>sp. ret (sn + 1, sp))) (sn + length ds, fill sp sn ds) ?t =
      Inr ((sn + e, fill sp sn (ds @ replicate (e - length ds) 0)), ?t)"
    using pad_spec [of sn ds "e - length ds" sp "length ds" ?t] ds(2) sp by simp
  let ?ds = "ds @ replicate (e - length ds) 0"
  have "get_str_turn binv bbinv e up (length xs, sn, sp) t = Inr ((length ys, sn + e, fill sp sn ?ds), ?t)"
    using q(1) top ds(1) pad ys(2) by (simp add: get_str_turn_def bindS_def Let_def del: for_up.simps)
  moreover have "dval (uint d) (rev ?ds) = uint w" using ds(4) dval_zeros [of "uint d" "e - length ds" "rev ds"] by simp
  moreover have "digits_ok (uint d) ?ds" using ds(3) inv(1) by (auto simp: digits_ok_def base_inv_def)
  moreover have "lval xs = lval ys * uint d ^ e + uint w" unfolding ys(5) q(3,4) inv(3) [symmetric] by simp
  ultimately show ?thesis using nm ys(3,4) ds(2) by (intro exI [of _ ys] exI [of _ ?ds] exI [of _ ?t]) simp
qed

lemma nth_fill_0: "i < length ds \<Longrightarrow> length ds \<le> length sp \<Longrightarrow> fill sp 0 ds ! i = Some (ds ! i)"
  by (simp add: fill_def nth_append)

lemma fill_update: "i < length ds \<Longrightarrow> (fill sp 0 ds)[i := Some d] = fill sp 0 (ds[i := d])"
  by (simp add: fill_def list_update_append map_update)

text \<open>The digits when the outermost \<open>i\<close> pairs have been exchanged.\<close>

lemma reverse_digits_spec:
  assumes "length ds \<le> length sp"
  shows "reverse_digits (length ds) (fill sp 0 ds) s = Inr (fill sp 0 (rev ds), s)"
proof -
  let ?n = "length ds"
  let ?es = "\<lambda>i. map (\<lambda>j. if j < i \<or> ?n - i \<le> j then ds ! (?n - 1 - j) else ds ! j) [0..<?n]"
  let ?body = "\<lambda>i sp. bindS (lift (c_read sp i)) (\<lambda>t. bindS (lift (c_read sp (?n - i - 1))) (\<lambda>x.
      bindS (lift (c_write sp i x)) (\<lambda>sp. lift (c_write sp (?n - i - 1) t))))"
  let ?P = "\<lambda>i sp' t. t = s \<and> sp' = fill sp 0 (?es i)"
  have start: "?es 0 = ds" by (rule nth_equalityI) simp_all
  have "\<exists>c t. for_up 0 (?n div 2) ?body (fill sp 0 ds) s = Inr (c, t) \<and> ?P (0 + ?n div 2) c t"
  proof (rule for_up_inv)
    fix i c t assume i: "i < 0 + ?n div 2" "?P i c t"
    then have l: "i < ?n" "?n - i - 1 < ?n" "\<not> ?n - i \<le> i" "\<not> ?n - i - 1 < i" "\<not> ?n - i \<le> ?n - i - 1" by linarith+
    have "(?es i)[i := ds ! (?n - i - 1), ?n - i - 1 := ds ! i] = ?es (Suc i)"
    proof (rule nth_equalityI)
      fix j assume "j < length ((?es i)[i := ds ! (?n - i - 1), ?n - i - 1 := ds ! i])"
      then have j: "j < ?n" by simp
      show "(?es i)[i := ds ! (?n - i - 1), ?n - i - 1 := ds ! i] ! j = ?es (Suc i) ! j"
        using j l i(1) by (cases "j = i"; cases "j = ?n - i - 1") (auto simp: nth_list_update intro!: arg_cong [where f = "nth ds"])
    qed simp
    then have "(fill sp 0 (?es i))[i := Some (ds ! (?n - i - 1)), ?n - i - 1 := Some (ds ! i)] = fill sp 0 (?es (Suc i))"
      using l by (simp add: fill_update)
    moreover have "c_read (fill sp 0 (?es i)) i = Inr (ds ! i)" "c_read (fill sp 0 (?es i)) (?n - i - 1) = Inr (ds ! (?n - i - 1))"
      using l assms by (simp_all add: c_read_def nth_fill_0)
    ultimately show "\<exists>c' t'. ?body i c t = Inr (c', t') \<and> ?P (Suc i) c' t'"
      using i(2) l assms by (simp add: bindS_def c_write_def)
  qed (simp only: start)
  moreover have "?es (?n div 2) = rev ds"
    by (rule nth_equalityI) (auto simp: rev_nth intro!: arg_cong [where f = "nth ds"])
  ultimately show ?thesis by (simp add: reverse_digits_def)
qed

definition str_inv :: "limb_mem \<Rightarrow> nat \<Rightarrow> nat \<Rightarrow> int \<Rightarrow> int \<Rightarrow> uchar carray \<Rightarrow> nat \<times> nat \<times> uchar carray \<Rightarrow> limb_mem \<Rightarrow> bool" where
  "str_inv s up n b N sp = (\<lambda>(un, sn, sp') t. \<exists>ys ds. un = length ys \<and> sn = length ds \<and> sp' = fill sp 0 ds \<and>
     num_mem s up n ys t \<and> ys \<noteq> [] \<and> last ys \<noteq> 0 \<and> digits_ok b ds \<and> lval ys * b ^ length ds + dval b (rev ds) = N)"

lemma str_inv_fits:
  assumes "lval ys * b ^ k + dval b ds = N" "N < b ^ m" "b ^ e \<le> lval ys" "1 < b"
  shows "k + e < m"
proof -
  have "b ^ e * b ^ k \<le> lval ys * b ^ k" using assms(3,4) by (intro mult_right_mono) simp_all
  moreover have "0 \<le> dval b ds" using assms(4) by (intro dval_nonneg) simp
  ultimately have "b ^ e * b ^ k < b ^ m" using assms(1,2) by linarith
  then have "b ^ (k + e) < b ^ m" by (simp add: power_add mult.commute)
  then show ?thesis using power_less_imp_less_exp assms(4) by blast
qed

lemma str_inv_turn:
  assumes mem: "room s up n" "mem_ok s" "n * 8 < max_alloc"
    and inv: "base_inv binv d" "limb_inv bbinv bb" "uint bb = uint d ^ e" "0 < e"
    and sp: "N < uint d ^ m" "m \<le> length sp"
    and c: "str_inv s up n (uint d) N sp (un, sn, sp') t" "1 < un"
  shows "\<exists>c' t'. get_str_turn binv bbinv e up (un, sn, sp') t = Inr (c', t') \<and> str_inv s up n (uint d) N sp c' t' \<and>
    length sp - fst (snd c') < length sp - sn"
proof -
  let ?b = "uint d"
  obtain ys ds where i: "un = length ys" "sn = length ds" "sp' = fill sp 0 ds" "num_mem s up n ys t" "ys \<noteq> []" "last ys \<noteq> 0"
      "digits_ok ?b ds" "lval ys * ?b ^ length ds + dval ?b (rev ds) = N"
    using c(1) by (auto simp: str_inv_def)
  have b: "1 < ?b" using inv(1) by (simp add: base_inv_def)
  have "LIMB_B ^ 1 \<le> LIMB_B ^ (length ys - 1)" using c(2) i(1) by (intro power_increasing) (simp_all add: LIMB_B_def)
  also have "\<dots> \<le> lval ys" by (rule lval_ge_top [OF i(5,6)])
  finally have "?b ^ e \<le> lval ys" using uint_bounds(2) [of bb] inv(3) by simp
  then have fits: "sn + e < m" using str_inv_fits [OF i(8) sp(1) _ b] i(2) by simp
  have len: "length sp' = length sp" using fits sp(2) i(2,3) by simp
  have len2: "2 \<le> length ys" using c(2) i(1) by simp
  have "sn + e \<le> length sp'" using fits sp(2) len by simp
  from get_str_turn_spec [OF i(4) mem len2 i(6) inv(1-3) this]
  obtain zs es t' where t': "get_str_turn binv bbinv e up (un, sn, sp') t = Inr ((length zs, sn + e, fill sp' sn es), t')"
      "num_mem s up n zs t'" "zs \<noteq> []" "last zs \<noteq> 0" "length es = e" "digits_ok ?b es" "lval ys = lval zs * ?b ^ e + dval ?b (rev es)"
    unfolding i(1) by blast
  have "fill sp' sn es = fill sp 0 (ds @ es)" using fill_fill [of 0 ds sp es] fits sp(2) i(2,3) by simp
  moreover have "lval zs * ?b ^ length (ds @ es) + dval ?b (rev (ds @ es)) = N"
    using i(8) t'(5,7) by (simp add: dval_append power_add algebra_simps)
  ultimately have "str_inv s up n ?b N sp (length zs, sn + e, fill sp' sn es) t'"
    unfolding str_inv_def prod.case using t'(2-6) i(2,7) by (intro exI [of _ zs] exI [of _ "ds @ es"]) simp
  then show ?thesis using t'(1) fits sp(2) inv(4) by (intro exI [of _ "(length zs, sn + e, fill sp' sn es)"] exI [of _ t']) simp
qed

lemma str_inv_loop:
  assumes mem: "room s up n" "mem_ok s" "n * 8 < max_alloc"
    and inv: "base_inv binv d" "limb_inv bbinv bb" "uint bb = uint d ^ e" "0 < e"
    and sp: "N < uint d ^ m" "m \<le> length sp"
    and c: "str_inv s up n (uint d) N sp c t"
  shows "\<exists>c' t'. whileS (\<lambda>(un, sn, sp). 1 < un) (get_str_turn binv bbinv e up) c t = Inr (c', t') \<and> str_inv s up n (uint d) N sp c' t' \<and> fst c' = 1"
proof -
  have "\<exists>c' t'. whileS (\<lambda>(un, sn, sp). 1 < un) (get_str_turn binv bbinv e up) c t = Inr (c', t') \<and> str_inv s up n (uint d) N sp c' t' \<and>
      \<not> (\<lambda>(un, sn, sp). 1 < un) c'"
  proof (rule whileS_total [where m = "\<lambda>c _. length sp - fst (snd c)"])
    fix c t assume i: "str_inv s up n (uint d) N sp c t" "(\<lambda>(un, sn, sp). 1 < un) c"
    obtain un sn sp' where c: "c = (un, sn, sp')" by (cases c) auto
    then show "\<exists>c' s'. get_str_turn binv bbinv e up c t = Inr (c', s') \<and> str_inv s up n (uint d) N sp c' s' \<and>
        length sp - fst (snd c') < length sp - fst (snd c)"
      using str_inv_turn [OF mem inv sp, of un sn sp' t] i by simp
  qed (rule c)
  then obtain c' t' where c': "whileS (\<lambda>(un, sn, sp). 1 < un) (get_str_turn binv bbinv e up) c t = Inr (c', t')"
    "str_inv s up n (uint d) N sp c' t'" "\<not> (\<lambda>(un, sn, sp). 1 < un) c'" by blast
  obtain un sn sp' where e: "c' = (un, sn, sp')" by (cases c') auto
  have "un \<noteq> 0" using c'(2) e by (auto simp: str_inv_def)
  then have "fst c' = 1" using c'(3) e by simp
  with c'(1,2) show ?thesis by blast
qed

definition base_ok :: "limb \<Rightarrow> int \<Rightarrow> bool" where
  "base_ok d b \<longleftrightarrow> d = of_int b \<and> uint d = b \<and> 2 \<le> b \<and> b \<le> 256"

lemma base_invert:
  assumes "base_ok d b"
  shows "\<exists>iv. mpn_div_qr_1_invert d s = Inr (iv, s) \<and> base_inv iv d"
proof -
  have d: "d \<noteq> 0" "2 \<le> uint d" "uint d \<le> 256" using assms by (auto simp: base_ok_def)
  obtain iv where iv: "mpn_div_qr_1_invert d s = Inr (iv, s)" "inv_shift iv < 64"
    "uint (inv_d1 iv) = 2 ^ inv_shift iv * uint d" "inverse_limb (inv_d1 iv) (inv_di iv)"
    using div_qr_1_invert_spec [OF d(1)] by blast
  have "0 < inv_shift iv"
  proof (rule ccontr)
    assume "\<not> 0 < inv_shift iv"
    then have "uint (inv_d1 iv) \<le> 256" using iv(3) d(3) by simp
    then show False using iv(4) by (simp add: inverse_limb_def uint_limb_less GMP_LIMB_HIGHBIT_def)
  qed
  with iv d show ?thesis by (auto simp: base_inv_def)
qed

lemma limb_invert:
  assumes "d \<noteq> 0"
  shows "\<exists>iv. mpn_div_qr_1_invert d s = Inr (iv, s) \<and> limb_inv iv d"
  using div_qr_1_invert_spec [OF assms, of s] assms by (auto simp: limb_inv_def)

lemma get_str_finish:
  assumes "str_inv s up n (uint d) N sp (1, sn, sp') t" "room s up n" "mem_ok s" "base_inv binv d" "N < uint d ^ m" "m \<le> length sp"
  shows "\<exists>w ds rs. ld up t = Inr (w, t) \<and> mpn_limb_get_str sp' sn w binv t = Inr ((length ds, fill sp' sn ds), t) \<and>
    reverse_digits (sn + length ds) (fill sp' sn ds) t = Inr (fill sp 0 rs, t) \<and> length rs = sn + length ds \<and>
    (\<exists>zs. length zs = n \<and> num_mem s up n zs t) \<and> digits_ok (uint d) rs \<and> dval (uint d) rs = N \<and> rs \<noteq> [] \<and> hd rs \<noteq> 0"
proof -
  let ?b = "uint d"
  obtain ys ds where i: "length ys = 1" "sn = length ds" "sp' = fill sp 0 ds" "num_mem s up n ys t" "last ys \<noteq> 0"
      "digits_ok ?b ds" "lval ys * ?b ^ length ds + dval ?b (rev ds) = N"
    using assms(1) by (auto simp: str_inv_def)
  obtain y where y: "ys = [y]" "y \<noteq> 0" using i(1,5) by (cases ys) auto
  have b: "1 < ?b" using assms(4) by (simp add: base_inv_def)
  have "limbs_at t up ys" using num_memD(1) [OF i(4) assms(2,3)] .
  then have ld: "ld up t = Inr (y, t)" using ld_limbs_at [of t up ys 0] y(1) by simp
  have "uint y * ?b ^ sn \<le> N" using i(2,7) y(1) dval_nonneg [of ?b "rev ds"] b by simp
  moreover have "sn < m" using str_inv_fits [OF i(7) assms(5) _ b, of 0] i(2) y uint_pos [of y] by simp
  then have "?b ^ m = ?b ^ (m - sn) * ?b ^ sn" by (simp flip: power_add)
  ultimately have "uint y * ?b ^ sn < ?b ^ (m - sn) * ?b ^ sn" using assms(5) by linarith
  then have "uint y < ?b ^ (m - sn)" using b by (simp add: mult_less_cancel_right)
  moreover have len: "length sp' = length sp" using \<open>sn < m\<close> assms(6) i(2,3) by simp
  then have "sn + (m - sn) \<le> length sp'" using \<open>sn < m\<close> assms(6) by simp
  ultimately obtain es where es: "mpn_limb_get_str sp' sn y binv t = Inr ((length es, fill sp' sn es), t)" "length es \<le> m - sn"
      "digits_ok ?b es" "dval ?b (rev es) = uint y" "es = [] \<or> last es \<noteq> 0"
    using limb_get_str_spec [OF assms(4)] by blast
  have ne: "es \<noteq> []" using es(4) y(2) uint_pos [of y] by auto
  have f: "fill sp' sn es = fill sp 0 (ds @ es)" using fill_fill [of 0 ds sp es] \<open>sn < m\<close> assms(6) i(2,3) by simp
  have "reverse_digits (sn + length es) (fill sp' sn es) t = Inr (fill sp 0 (rev (ds @ es)), t)"
    using reverse_digits_spec [of "ds @ es" sp t] es(2) \<open>sn < m\<close> assms(6) i(2) f by simp
  moreover have "dval ?b (rev (ds @ es)) = N" using i(7) es(4) y(1) by (simp add: dval_append)
  moreover have "hd (rev (ds @ es)) \<noteq> 0" using es(5) ne by (simp add: hd_rev)
  moreover obtain zs b where "t = (put s up (ys @ zs))\<lparr>brk := b\<rparr>" "length ys + length zs = n" "brk s \<le> b"
    using i(4) by (auto simp: num_mem_def)
  then have "\<exists>zs. length zs = n \<and> num_mem s up n zs t"
    unfolding num_mem_def by (intro exI [of _ "ys @ zs"]) auto
  ultimately show ?thesis using ld es(1,3) i(2,6) ne by (intro exI [of _ y] exI [of _ es] exI [of _ "rev (ds @ es)"]) simp
qed

lemma num_mem_start:
  assumes "limbs_at s up xs"
  shows "num_mem s up (length xs) xs s"
proof -
  have "s = (put s up (xs @ []))\<lparr>brk := brk s\<rparr>"
    using assms unfolding put_def limbs_at_def by (auto intro!: limb_mem.equality ext) (metis le_add_diff_inverse nat_add_left_cancel_less)
  then show ?thesis unfolding num_mem_def by (metis add_0_right list.size(3) order_refl)
qed

lemma get_str_blocks_spec:
  assumes xs: "limbs_at s up xs" "xs \<noteq> []" "last xs \<noteq> 0"
    and mem: "mem_ok s" "length xs * 8 < max_alloc"
    and b: "base_inv binv d" "uint (bi_bb info) = uint d ^ bi_exp info" "0 < bi_exp info"
    and sp: "lval xs < uint d ^ m" "m \<le> length sp"
  shows "\<exists>sn sp' t. get_str_blocks binv info up (length xs) sp s = Inr ((1, sn, sp'), t) \<and>
    str_inv s up (length xs) (uint d) (lval xs) sp (1, sn, sp') t"
proof -
  let ?n = "length xs"
  note room = limbs_at_room [OF xs(1)]
  have start: "str_inv s up ?n (uint d) (lval xs) sp (?n, 0, sp) s"
    unfolding str_inv_def prod.case using num_mem_start [OF xs(1)] xs(2,3) by (intro exI [of _ xs] exI [of _ "[]"]) simp
  have "bi_bb info \<noteq> 0" using b(1,2) by (auto simp: base_inv_def)
  then obtain bbinv where bbinv: "mpn_div_qr_1_invert (bi_bb info) s = Inr (bbinv, s)" "limb_inv bbinv (bi_bb info)"
    using limb_invert by blast
  show ?thesis
  proof (cases "1 < ?n")
    case True
    obtain c t where c: "get_str_turn binv bbinv (bi_exp info) up (?n, 0, sp) s = Inr (c, t)" "str_inv s up ?n (uint d) (lval xs) sp c t"
      using str_inv_turn [OF room mem b(1) bbinv(2) b(2,3) sp start True] by blast
    obtain c' t' where "whileS (\<lambda>(un, sn, sp). 1 < un) (get_str_turn binv bbinv (bi_exp info) up) c t = Inr (c', t')"
        "str_inv s up ?n (uint d) (lval xs) sp c' t'" "fst c' = 1"
      using str_inv_loop [OF room mem b(1) bbinv(2) b(2,3) sp c(2)] by blast
    then show ?thesis using bbinv(1) c(1) True by (cases c') (simp add: get_str_blocks_def bindS_def)
  next
    case False
    then have "?n = 1" using xs(2) by (cases xs) auto
    then show ?thesis using start by (simp add: get_str_blocks_def)
  qed
qed

lemma get_str_other_spec:
  assumes xs: "limbs_at s up xs" "xs \<noteq> []" "last xs \<noteq> 0"
    and mem: "mem_ok s" "length xs * 8 < max_alloc"
    and b: "base_ok d b" "uint (bi_bb info) = b ^ bi_exp info" "1 \<le> bi_exp info"
    and sp: "lval xs < b ^ m" "m \<le> length sp"
  shows "\<exists>rs zs t. mpn_get_str_other sp b info up (length xs) s = Inr ((length rs, fill sp 0 rs), t) \<and>
    length zs = length xs \<and> num_mem s up (length xs) zs t \<and> digits_ok b rs \<and> dval b rs = lval xs \<and> rs \<noteq> [] \<and> hd rs \<noteq> 0"
proof -
  let ?n = "length xs"
  have d: "d = of_int b" "uint d = b" using b(1) by (auto simp: base_ok_def)
  obtain binv where binv: "mpn_div_qr_1_invert d s = Inr (binv, s)" "base_inv binv d" using base_invert [OF b(1)] by blast
  have fit: "uint (bi_bb info) = uint d ^ bi_exp info" "0 < bi_exp info" "lval xs < uint d ^ m" using sp(1) b(2,3) d(2) by simp_all
  obtain sn sp' t where l: "get_str_blocks binv info up ?n sp s = Inr ((1, sn, sp'), t)"
      "str_inv s up ?n (uint d) (lval xs) sp (1, sn, sp') t"
    using get_str_blocks_spec [OF xs mem binv(2) fit sp(2)] by blast
  from get_str_finish [OF l(2) limbs_at_room [OF xs(1)] mem(1) binv(2) fit(3) sp(2)] obtain w ds rs zs where
    f: "ld up t = Inr (w, t)" "mpn_limb_get_str sp' sn w binv t = Inr ((length ds, fill sp' sn ds), t)"
      "reverse_digits (sn + length ds) (fill sp' sn ds) t = Inr (fill sp 0 rs, t)" "length rs = sn + length ds"
      "length zs = ?n" "num_mem s up ?n zs t" "digits_ok b rs" "dval b rs = lval xs" "rs \<noteq> []" "hd rs \<noteq> 0"
    unfolding d(2) by blast
  have "mpn_get_str_other sp b info up ?n s = Inr ((length rs, fill sp 0 rs), t)"
    unfolding mpn_get_str_other_def d(1) [symmetric] using binv(1) l(1) f(1-4) by (simp add: bindS_def Let_def)
  with f(5-) show ?thesis by blast
qed

section \<open>Bases that are powers of two\<close>

lemma bit_lval: "bit (lval xs) n \<longleftrightarrow> n < 64 * length xs \<and> limb_bit xs n"
proof (induction xs arbitrary: n)
  case (Cons x xs)
  have "uint x + LIMB_B * lval xs = uint x + push_bit 64 (lval xs)" by (simp add: push_bit_eq_mult LIMB_B_def)
  also have "\<dots> = uint x OR push_bit 64 (lval xs)" by (rule disjunctive_add) (auto simp: bit_simps dest: bit_imp_le_length)
  finally have "bit (lval (x # xs)) n = (if n < 64 then bit x n else bit (lval xs) (n - 64))"
    by (auto simp: bit_simps dest: bit_imp_le_length)
  moreover have "limb_bit (x # xs) n = limb_bit xs (n - 64)" if "64 \<le> n"
    using that by (simp add: limb_bit_def nth_Cons' le_div_geq le_mod_geq)
  moreover have "limb_bit (x # xs) n = bit x n" if "n < 64" using that by (simp add: limb_bit_def)
  ultimately show ?case using Cons [of "n - 64"] by (cases "n < 64") auto
qed simp

text \<open>The digit of \<open>2^(bits * k)\<close>.\<close>

definition bits_digit :: "nat \<Rightarrow> int \<Rightarrow> nat \<Rightarrow> uchar" where
  "bits_digit bits N k = of_int (take_bit bits (drop_bit (bits * k) N))"

lemma uint_bits_digit:
  assumes "bits \<le> 8"
  shows "uint (bits_digit bits N k) = N div 2 ^ (bits * k) mod 2 ^ bits"
proof -
  have "take_bit 8 (take_bit bits x) = take_bit bits x" for x :: int using assms by (simp add: min_def)
  then have "uint (bits_digit bits N k) = take_bit bits (drop_bit (bits * k) N)" by (simp add: bits_digit_def uint_word_of_int_eq)
  then show ?thesis by (simp add: take_bit_eq_mod drop_bit_eq_div)
qed

lemma dval_bits:
  assumes "bits \<le> 8"
  shows "dval (2 ^ bits) (rev (map (bits_digit bits N) [0..<n])) = N mod 2 ^ (bits * n)"
proof (induction n)
  case (Suc n)
  have "N mod 2 ^ (bits * Suc n) = N mod (2 ^ (bits * n) * 2 ^ bits)" by (simp add: power_add mult.commute)
  also have "\<dots> = 2 ^ (bits * n) * (N div 2 ^ (bits * n) mod 2 ^ bits) + N mod 2 ^ (bits * n)" by (rule zmod_zmult2_eq) simp
  finally show ?case using Suc by (simp add: dval_Cons uint_bits_digit [OF assms] power_mult)
qed simp

lemma bit_bits_digit:
  assumes "bits \<le> 8"
  shows "bit (bits_digit bits (lval xs) k) n \<longleftrightarrow> n < bits \<and> bits * k + n < 64 * length xs \<and> limb_bit xs (bits * k + n)"
  using assms by (auto simp: bits_digit_def bit_simps bit_lval)

lemma limb_bit_near:
  assumes "h < 64" "n < 64"
  shows "limb_bit xs (64 * i + h + n) = (if h + n < 64 then bit (xs ! i) (h + n) else bit (xs ! Suc i) (h + n - 64))"
proof -
  have split: "limb_bit xs (64 * l + m) = bit (xs ! l) m" if "m < 64" for l m
    using that by (simp add: limb_bit_def)
  show ?thesis
  proof (cases "h + n < 64")
    case True
    then show ?thesis using split [of "h + n" i] by (simp add: add.assoc)
  next
    case False
    then have "64 * i + h + n = 64 * Suc i + (h + n - 64)" by simp
    moreover have "h + n - 64 < 64" using assms by simp
    ultimately show ?thesis using False split [of "h + n - 64" "Suc i"] by presburger
  qed
qed

lemma digit_over_limbs:
  assumes b: "0 < bits" "bits \<le> 8" and p: "bits * k = 64 * i + h" "h < 64" and l: "64 \<le> h + bits" "Suc i < length xs"
  shows "(ucast (drop_bit h (xs ! i)) OR ucast (push_bit (64 - h) (xs ! Suc i))) AND mask bits = bits_digit bits (lval xs) k"
proof (rule bit_word_eqI)
  fix n assume "n < LENGTH(8)"
  then have n: "n < 64" "64 * i + h + n < 64 * length xs" using p(2) l(2) by simp_all
  have "bit (ucast (drop_bit h (xs ! i)) OR ucast (push_bit (64 - h) (xs ! Suc i)) :: uchar) n =
      (if h + n < 64 then bit (xs ! i) (h + n) else bit (xs ! Suc i) (h + n - 64))"
    using \<open>n < LENGTH(8)\<close> p(2) l(1) b(2) by (auto simp: bit_simps add.commute dest: bit_imp_le_length)
  then show "bit ((ucast (drop_bit h (xs ! i)) OR ucast (push_bit (64 - h) (xs ! Suc i))) AND mask bits :: uchar) n =
      bit (bits_digit bits (lval xs) k) n"
    using n \<open>n < LENGTH(8)\<close> unfolding bit_bits_digit [OF b(2)] p(1) limb_bit_near [OF p(2) n(1)] bit_and_iff by (auto simp: bit_mask_iff)
qed

lemma digit_in_limb:
  assumes b: "0 < bits" "bits \<le> 8" and p: "bits * k = 64 * i + h" "h < 64" and l: "h + bits < 64 \<or> Suc i = length xs" "i < length xs"
  shows "ucast (drop_bit h (xs ! i)) AND mask bits = bits_digit bits (lval xs) k"
proof (rule bit_word_eqI)
  fix n assume n: "n < LENGTH(8)"
  have "bit (ucast (drop_bit h (xs ! i)) :: uchar) n = bit (xs ! i) (h + n)"
    using n by (simp add: bit_simps)
  moreover have "bit (xs ! i) (h + n) = (64 * i + h + n < 64 * length xs \<and> limb_bit xs (64 * i + h + n))" if "n < bits"
  proof (cases "h + n < 64")
    case True
    then show ?thesis using limb_bit_near [OF p(2), of n xs i] n l(2) by simp
  next
    case False
    then show ?thesis using l that by (auto dest: bit_imp_le_length)
  qed
  ultimately show "bit (ucast (drop_bit h (xs ! i)) AND mask bits :: uchar) n = bit (bits_digit bits (lval xs) k) n"
    using n unfolding bit_bits_digit [OF b(2)] p(1) bit_and_iff by (auto simp: bit_mask_iff)
qed

lemma get_digit_step:
  assumes xs: "limbs_at s up xs" and b: "0 < bits" "bits \<le> 8" and p: "bits * k = 64 * i + h" "h < 64" "i < length xs"
    and j: "j < length sp"
  shows "\<exists>i' h'. get_str_bits_digit bits up (length xs) j (i, h, sp) s = Inr ((i', h', sp[j := Some (bits_digit bits (lval xs) k)]), s) \<and>
    (bits * Suc k < 64 * length xs \<longrightarrow> bits * Suc k = 64 * i' + h' \<and> h' < 64 \<and> i' < length xs)"
proof -
  have ld: "ld (up + l) s = Inr (xs ! l, s)" if "l < length xs" for l using ld_limbs_at [OF xs that] .
  consider "h + bits < 64" | "64 \<le> h + bits" "Suc i < length xs" | "64 \<le> h + bits" "Suc i = length xs" using p(3) by linarith
  then show ?thesis
  proof cases
    case 1
    then show ?thesis using digit_in_limb [OF b p(1,2) _ p(3)] p j ld [OF p(3)]
      by (simp add: get_str_bits_digit_def bindS_def GMP_LIMB_BITS_def c_write_def)
  next
    case 2
    then have e: "bits - (h + bits - 64) = 64 - h" using p(2) by simp
    show ?thesis using digit_over_limbs [OF b p(1,2) 2] p b 2 j ld [OF p(3)] ld [OF 2(2)] e
      by (simp add: get_str_bits_digit_def bindS_def GMP_LIMB_BITS_def c_write_def)
  next
    case 3
    then show ?thesis using digit_in_limb [OF b p(1,2) _ p(3)] p b j ld [OF p(3)]
      by (simp add: get_str_bits_digit_def bindS_def GMP_LIMB_BITS_def c_write_def)
  qed
qed

lemma limb_size_spec:
  assumes "u \<noteq> 0"
  shows "\<exists>k. mpn_limb_size_in_base_2 u s = Inr (k, s) \<and> 0 < k \<and> k \<le> 64 \<and> 2 ^ (k - 1) \<le> uint u \<and> uint u < 2 ^ k"
proof -
  obtain c where c: "gmp_clz u = Some c" "c < 64" "2 ^ 63 \<le> uint u * 2 ^ c" "uint u * 2 ^ c < 2 ^ 64"
    using gmp_clz_spec [OF assms] by auto
  have "(2 :: int) ^ 63 = 2 ^ (63 - c) * 2 ^ c" "(2 :: int) ^ 64 = 2 ^ (64 - c) * 2 ^ c" using c(2) by (simp_all flip: power_add)
  then have "2 ^ (63 - c) * 2 ^ c \<le> uint u * 2 ^ c" "uint u * 2 ^ c < 2 ^ (64 - c) * 2 ^ c" using c(3,4) by linarith+
  then have "2 ^ (63 - c) \<le> uint u" "uint u < 2 ^ (64 - c)"
    unfolding mult_le_cancel_right mult_less_cancel_right by simp_all
  then show ?thesis using c(1,2) assms
    by (intro exI [of _ "64 - c"]) (simp add: mpn_limb_size_in_base_2_def bindS_def assertS_def clzS_def GMP_LIMB_BITS_def word_neq_0_conv)
qed

text \<open>The number of bits of a number with a top limb of \<open>k\<close> bits.\<close>

lemma lval_bits:
  assumes "xs \<noteq> []" "2 ^ (k - 1) \<le> uint (last xs)" "uint (last xs) < 2 ^ k" "0 < k"
  shows "2 ^ ((length xs - 1) * 64 + k - 1) \<le> lval xs" "lval xs < 2 ^ ((length xs - 1) * 64 + k)"
proof -
  let ?n = "length xs - 1" and ?B = "LIMB_B ^ (length xs - 1)"
  have v: "lval xs = lval (butlast xs) + ?B * uint (last xs)"
    using lval_snoc [of "butlast xs" ?n "last xs"] assms(1) by simp
  have B: "?B = 2 ^ (?n * 64)" unfolding LIMB_B_def power_mult [symmetric] by (simp only: mult.commute)
  have "2 ^ (?n * 64 + k - 1) = ?B * 2 ^ (k - 1)" unfolding B using assms(4) by (simp flip: power_add)
  also have "\<dots> \<le> ?B * uint (last xs)" using assms(2) by (intro mult_left_mono) simp_all
  finally show "2 ^ (?n * 64 + k - 1) \<le> lval xs" using v lval_nonneg [of "butlast xs"] by linarith
  have "lval (butlast xs) < ?B" using lval_less [of "butlast xs"] by simp
  moreover have "?B * (uint (last xs) + 1) \<le> ?B * 2 ^ k" using assms(3) by (intro mult_left_mono) simp_all
  ultimately have "lval xs < ?B * 2 ^ k" using v by (simp add: distrib_left)
  then show "lval xs < 2 ^ (?n * 64 + k)" unfolding B by (simp add: power_add)
qed

lemma ceil_div:
  assumes "0 < (b :: nat)" "0 < l"
  shows "l \<le> b * ((l + b - 1) div b)" "b * ((l + b - 1) div b - 1) \<le> l - 1" "0 < (l + b - 1) div b"
proof -
  let ?q = "(l + b - 1) div b"
  have "l + b - 1 = b * ?q + (l + b - 1) mod b" "(l + b - 1) mod b < b" using assms(1) by simp_all
  then show "l \<le> b * ?q" by linarith
  then show q: "0 < ?q" using assms(2) by (intro Nat.gr0I) simp
  have "b * ?q \<le> l + b - 1" by (simp add: mult.commute)
  moreover have "b * (?q - 1) + b = b * ?q" using q by (cases ?q) simp_all
  ultimately show "b * (?q - 1) \<le> l - 1" using assms(2) by linarith
qed

lemma get_digits_loop:
  assumes xs: "limbs_at s up xs" and b: "0 < bits" "bits \<le> 8" and n: "bits * (n - 1) < 64 * length xs" "n \<le> length sp" "0 < length xs"
  shows "\<exists>c. for_down n (get_str_bits_digit bits up (length xs)) (0, 0, sp) s = Inr (c, s) \<and>
    snd (snd c) = fill sp 0 (rev (map (bits_digit bits (lval xs)) [0..<n]))"
proof -
  let ?ds = "\<lambda>k. rev (map (bits_digit bits (lval xs)) [0..<k])"
  let ?P = "\<lambda>j (i, h, sp') t. t = s \<and> j \<le> n \<and> sp' = fill sp j (?ds (n - j)) \<and>
    (bits * (n - j) < 64 * length xs \<longrightarrow> bits * (n - j) = 64 * i + h \<and> h < 64 \<and> i < length xs)"
  have "\<exists>c t. for_down n (get_str_bits_digit bits up (length xs)) (0, 0, sp) s = Inr (c, t) \<and> ?P 0 c t"
  proof (rule for_down_inv [where P = ?P])
    fix j c t assume j: "j < n" "?P (Suc j) c t"
    obtain i h sp' where c: "c = (i, h, sp')" by (cases c) auto
    define k where "k = n - Suc j"
    have k: "n - j = Suc k" "bits * k \<le> bits * (n - 1)" using j(1) unfolding k_def by (simp, intro mult_le_mono2) simp
    have p: "bits * k = 64 * i + h" "h < 64" "i < length xs" "t = s" "sp' = fill sp (Suc j) (?ds k)"
      using j(2) c k(2) n(1) unfolding k_def by auto
    have len: "Suc j + k = n" using j(1) by (simp add: k_def)
    have "j < length sp'" using p(5) n(2) len by simp
    from get_digit_step [OF xs b p(1-3) this] obtain i' h' where d:
      "get_str_bits_digit bits up (length xs) j c t = Inr ((i', h', sp'[j := Some (bits_digit bits (lval xs) k)]), s)"
      "bits * Suc k < 64 * length xs \<longrightarrow> bits * Suc k = 64 * i' + h' \<and> h' < 64 \<and> i' < length xs"
      unfolding c p(4) by blast
    have "sp'[j := Some (bits_digit bits (lval xs) k)] = fill sp j (?ds (Suc k))"
      using n(2) len unfolding p(5) by (simp add: fill_def list_update_append take_Suc_conv_app_nth)
    then show "\<exists>c' t'. get_str_bits_digit bits up (length xs) j c t = Inr (c', t') \<and> ?P j c' t'"
      using d j(1) k(1) by (intro exI [of _ "(i', h', fill sp j (?ds (Suc k)))"] exI [of _ s]) simp
  qed (use n(3) in simp)
  then show ?thesis by auto
qed

lemma get_str_bits_spec:
  assumes xs: "limbs_at s up xs" "xs \<noteq> []" "last xs \<noteq> 0" and b: "0 < bits" "bits \<le> 8"
    and sp: "lval xs < (2 ^ bits) ^ m" "m \<le> length sp"
  shows "\<exists>rs. mpn_get_str_bits sp bits up (length xs) s = Inr ((length rs, fill sp 0 rs), s) \<and>
    digits_ok (2 ^ bits) rs \<and> dval (2 ^ bits) rs = lval xs \<and> rs \<noteq> [] \<and> hd rs \<noteq> 0"
proof -
  let ?n = "length xs" and ?b = "2 ^ bits :: int"
  obtain k where k: "mpn_limb_size_in_base_2 (last xs) s = Inr (k, s)" "0 < k" "k \<le> 64" "2 ^ (k - 1) \<le> uint (last xs)" "uint (last xs) < 2 ^ k"
    using limb_size_spec [OF xs(3)] by blast
  define l sn where "l = (?n - 1) * 64 + k" and "sn = (l + bits - 1) div bits"
  note v = lval_bits [OF xs(2) k(4,5,2), folded l_def]
  have c: "l \<le> bits * sn" "bits * (sn - 1) \<le> l - 1" "0 < sn" "0 < l"
    using ceil_div [OF b(1), of l] k(2) by (simp_all add: l_def sn_def)
  have lo: "?b ^ (sn - 1) \<le> lval xs"
    using c(2) v(1) power_increasing [of "bits * (sn - 1)" "l - 1" "2 :: int"] by (simp add: power_mult)
  have hi: "lval xs < 2 ^ (bits * sn)" by (rule less_le_trans [OF v(2)]) (rule power_increasing [OF c(1)], simp)
  have "l \<le> 64 * ?n" using k(3) xs(2) by (cases xs) (simp_all add: l_def)
  then have pos: "bits * (sn - 1) < 64 * ?n" using c(2,4) by linarith
  have "?b ^ (sn - 1) < ?b ^ m" using lo sp(1) by simp
  then have "sn - 1 < m" using b(1) by (intro power_less_imp_less_exp [of ?b]) simp_all
  then have "sn \<le> length sp" using sp(2) by simp
  let ?rs = "rev (map (bits_digit bits (lval xs)) [0..<sn])"
  obtain i where i: "for_down sn (get_str_bits_digit bits up ?n) (0, 0, sp) s = Inr (i, s)" "snd (snd i) = fill sp 0 ?rs"
    using get_digits_loop [OF xs(1) b pos \<open>sn \<le> length sp\<close>] xs(2) by blast
  have "ld (up + (?n - 1)) s = Inr (last xs, s)" using ld_limbs_at [OF xs(1), of "?n - 1"] xs(2) by (simp add: last_conv_nth)
  moreover have "((?n - 1) * GMP_LIMB_BITS + k + bits - 1) div bits = sn" by (simp add: sn_def l_def GMP_LIMB_BITS_def)
  ultimately have "mpn_get_str_bits sp bits up ?n s = Inr ((sn, fill sp 0 ?rs), s)"
    using k(1) i xs(2) unfolding mpn_get_str_bits_def by (cases i) (simp add: bindS_def Let_def del: for_down.simps)
  moreover have ok: "digits_ok ?b ?rs" using b(2) by (auto simp: digits_ok_def uint_bits_digit)
  moreover have val: "dval ?b ?rs = lval xs" using dval_bits [OF b(2), of "lval xs" sn] hi lval_nonneg [of xs] by simp
  moreover have "hd ?rs \<noteq> 0"
  proof
    assume z: "hd ?rs = 0"
    have ne: "?rs \<noteq> []" using c(3) by simp
    have "lval xs = dval ?b (tl ?rs)" using dval_Cons [of ?b 0 "tl ?rs"] val z list.collapse [OF ne] by simp
    also have "\<dots> < ?b ^ length (tl ?rs)" using ok list.collapse [OF ne] digits_ok_simps(2) [of ?b "hd ?rs" "tl ?rs"] by (intro dval_less) simp_all
    finally show False using lo by simp
  qed
  ultimately show ?thesis using c(3) by (intro exI [of _ ?rs]) simp
qed

section \<open>Numbers to digits\<close>

lemma base_power_spec:
  assumes "2 \<le> b" "b \<le> 256" "mpn_base_power_of_two_p (uint_of b) = k" "0 < k"
  shows "b = 2 ^ k" "k \<le> 8"
proof -
  have "uint (uint_of b) = b" using assms(1,2) by (simp add: uint_of_def uint_word_of_int)
  then have "uint_of b = x \<Longrightarrow> b = uint x" for x by simp
  then show "b = 2 ^ k" "k \<le> 8" using assms(3,4) by (auto simp: mpn_base_power_of_two_p_def split: if_splits)
qed

lemma base_ok_of_int: "2 \<le> b \<Longrightarrow> b \<le> 256 \<Longrightarrow> base_ok (of_int b) b"
  by (simp add: base_ok_def uint_word_of_int)

lemma base_info_of_int:
  assumes "2 \<le> b" "b \<le> 256"
  shows "\<exists>info. mpn_get_base_info (of_int b) s = Inr (info, s) \<and> 1 \<le> bi_exp info \<and> uint (bi_bb info) = b ^ bi_exp info \<and>
    LIMB_B \<le> b ^ Suc (bi_exp info)"
  using base_info_spec [of "of_int b" s] base_ok_of_int [OF assms] assms(1) by (auto simp: base_ok_def)

lemma mpn_get_str_spec:
  assumes xs: "limbs_at s up xs" "xs \<noteq> []" "last xs \<noteq> 0" and mem: "mem_ok s" "length xs * 8 < max_alloc"
    and b: "2 \<le> b" "b \<le> 256" and sp: "lval xs < b ^ m" "m \<le> length sp"
  shows "\<exists>rs zs t. mpn_get_str sp b up (length xs) s = Inr ((length rs, fill sp 0 rs), t) \<and>
    length zs = length xs \<and> num_mem s up (length xs) zs t \<and> digits_ok b rs \<and> dval b rs = lval xs \<and> rs \<noteq> [] \<and> hd rs \<noteq> 0"
proof -
  let ?k = "mpn_base_power_of_two_p (uint_of b)"
  have "ld (up + (length xs - 1)) s = Inr (last xs, s)" using ld_limbs_at [OF xs(1), of "length xs - 1"] xs(2) by (simp add: last_conv_nth)
  then have start: "mpn_get_str sp b up (length xs) s =
      (if ?k \<noteq> 0 then mpn_get_str_bits sp ?k up (length xs) s
       else bindS (mpn_get_base_info (of_int b)) (\<lambda>info. mpn_get_str_other sp b info up (length xs)) s)"
    using xs(2,3) by (simp add: mpn_get_str_def bindS_def assertS_def Let_def word_neq_0_conv)
  show ?thesis
  proof (cases "?k = 0")
    case True
    obtain info where i: "mpn_get_base_info (of_int b) s = Inr (info, s)" "1 \<le> bi_exp info" "uint (bi_bb info) = b ^ bi_exp info"
      using base_info_of_int [OF b] by blast
    have "bindS (mpn_get_base_info (of_int b)) (\<lambda>info. mpn_get_str_other sp b info up (length xs)) s =
        mpn_get_str_other sp b info up (length xs) s" using i(1) by (simp add: bindS_def)
    then show ?thesis using start True get_str_other_spec [OF xs mem base_ok_of_int [OF b] i(3,2) sp] by simp
  next
    case False
    then have k: "0 < ?k" "b = 2 ^ ?k" "?k \<le> 8" using base_power_spec [OF b refl] by simp_all
    have sp': "lval xs < (2 ^ ?k) ^ m" using sp(1) unfolding k(2) [symmetric] .
    obtain rs where "mpn_get_str_bits sp ?k up (length xs) s = Inr ((length rs, fill sp 0 rs), s)"
        "digits_ok b rs" "dval b rs = lval xs" "rs \<noteq> []" "hd rs \<noteq> 0"
      using get_str_bits_spec [OF xs k(1,3) sp' sp(2)] unfolding k(2) [symmetric] by blast
    then show ?thesis using start False num_mem_start [OF xs(1)] by (intro exI [of _ rs] exI [of _ xs] exI [of _ s]) simp
  qed
qed

end
