(* ===== verification/Mpn_Props.thy ===== *)
theory Mpn_Props
  imports Mpn_Div_Full
begin

unbundle bit_operations_syntax

text \<open>
  The properties of the limb arithmetic and of the mpn layer of mini-gmp.
\<close>

section \<open>Sample memories\<close>

text \<open>Limbs \<open>xs\<close> at address 0, then \<open>n\<close> uninitialised limbs.\<close>

definition mem_of :: "limb list \<Rightarrow> nat \<Rightarrow> limb_mem" where
  "mem_of xs n = \<lparr>cells = (\<lambda>q. if q < length xs then Some (Some (xs ! q)) else if q < length xs + n then Some None else None),
     brk = length xs + n, blocks = Map.empty\<rparr>"

lemma limbs_at_mem_of: "p + length ys \<le> length xs \<Longrightarrow> ys = take (length ys) (drop p xs) \<Longrightarrow> limbs_at (mem_of xs n) p ys"
proof -
  assume len: "p + length ys \<le> length xs" and eq: "ys = take (length ys) (drop p xs)"
  have "ys ! i = xs ! (p + i)" if "i < length ys" for i
    using arg_cong [OF eq, of "\<lambda>l. l ! i"] that len by simp
  then show ?thesis using len by (simp add: limbs_at_def mem_of_def)
qed

lemma room_mem_of: "p + k \<le> length xs + n \<Longrightarrow> room (mem_of xs n) p k"
  by (auto simp: room_def mem_of_def)

lemma mem_ok_mem_of: "mem_ok (mem_of xs n)"
  by (simp add: mem_ok_def mem_of_def)

lemmas mem_of_facts = limbs_at_mem_of room_mem_of mem_ok_mem_of

section \<open>Limbs\<close>

text \<open>
  C15. The inverse that \<^verbatim>\<open>mpn_invert_limb\<close> computes for a normalised divisor makes \<^verbatim>\<open>gmp_udiv_qrnnd_preinv\<close>
  return the exact quotient and remainder of a two-limb number whose high limb is below the divisor.
\<close>

theorem limb_division:
  assumes "GMP_LIMB_HIGHBIT \<le> d" "nh < d"
  shows "\<exists>di q r. mpn_invert_limb d = Inr di \<and> gmp_udiv_qrnnd_preinv nh nl d di = (q, r) \<and>
    uint q = (uint nh * 2 ^ 64 + uint nl) div uint d \<and> uint r = (uint nh * 2 ^ 64 + uint nl) mod uint d"
proof -
  obtain di where di: "mpn_invert_3by2 d 0 = Inr di" "inverse_3by2 d 0 di" using mpn_invert_3by2_spec [OF assms(1)] by blast
  obtain q r where qr: "gmp_udiv_qrnnd_preinv nh nl d di = (q, r)" by force
  from udiv_qrnnd_preinv_val [OF inverse_limb_3by2 [OF di(2)] assms(2) qr] show ?thesis
    using di(1) qr by (simp add: mpn_invert_limb_def LIMB_B_def)
qed

theorem limb_division_witness:
  "\<exists>di q r. mpn_invert_limb (2 ^ 63 + 5) = Inr di \<and> gmp_udiv_qrnnd_preinv 7 9 (2 ^ 63 + 5) di = (q, r) \<and>
    uint q = (7 * 2 ^ 64 + 9) div (2 ^ 63 + 5) \<and> uint r = (7 * 2 ^ 64 + 9) mod (2 ^ 63 + 5)"
  using limb_division [of "2 ^ 63 + 5" 7 9] by (simp add: GMP_LIMB_HIGHBIT_def)

text \<open>
  C16. For a normalised divisor of two limbs, \<^verbatim>\<open>mpn_invert_3by2\<close> returns the inverse floor((B^3 - 1) / D) - B, and
  with it \<^verbatim>\<open>gmp_udiv_qr_3by2\<close> returns the exact quotient and remainder of a three-limb number.
\<close>

theorem limb_division_3by2:
  assumes "GMP_LIMB_HIGHBIT \<le> d1" "val2 (n2, n1) < val2 (d1, d0)"
  shows "\<exists>m q r. mpn_invert_3by2 d1 d0 = Inr m \<and> uint m = (2 ^ 192 - 1) div val2 (d1, d0) - 2 ^ 64 \<and>
    gmp_udiv_qr_3by2 n2 n1 n0 d1 d0 m = (q, r) \<and>
    uint q = (val2 (n2, n1) * 2 ^ 64 + uint n0) div val2 (d1, d0) \<and>
    val2 r = (val2 (n2, n1) * 2 ^ 64 + uint n0) mod val2 (d1, d0)"
proof -
  obtain m where m: "mpn_invert_3by2 d1 d0 = Inr m" "inverse_3by2 d1 d0 m" using mpn_invert_3by2_spec [OF assms(1)] by blast
  obtain q r where qr: "gmp_udiv_qr_3by2 n2 n1 n0 d1 d0 m = (q, r)" by (rule prod.exhaust)
  from udiv_qr_3by2_val [OF m(2) assms(2) qr] show ?thesis
    using m qr by (intro exI [of _ m] exI [of _ q] exI [of _ r]) (simp add: inverse_3by2_def LIMB_B_def)
qed

theorem limb_division_3by2_witness:
  "\<exists>m q r. mpn_invert_3by2 (2 ^ 63) 1 = Inr m \<and> gmp_udiv_qr_3by2 3 4 5 (2 ^ 63) 1 m = (q, r) \<and>
    uint q = (val2 (3, 4) * 2 ^ 64 + 5) div val2 (2 ^ 63, 1)"
proof -
  have "GMP_LIMB_HIGHBIT \<le> 2 ^ 63" "val2 (3, 4) < val2 (2 ^ 63, 1)"
    by (simp_all add: GMP_LIMB_HIGHBIT_def val2_def LIMB_B_def)
  from limb_division_3by2 [OF this, of 5] show ?thesis by (elim exE conjE) (rule exI, rule exI, rule exI, intro conjI, assumption+, simp)
qed

text \<open>
  C17. The loops of \<^verbatim>\<open>gmp_clz\<close> and \<^verbatim>\<open>gmp_ctz\<close> end exactly for the limbs other than zero; the count of \<^verbatim>\<open>gmp_clz\<close>
  moves the highest bit to position 63, and that of \<^verbatim>\<open>gmp_ctz\<close> is the position of the lowest bit.
\<close>

theorem bit_counts_return:
  "(gmp_clz x = None \<longleftrightarrow> x = 0) \<and> (gmp_ctz x = None \<longleftrightarrow> x = 0) \<and>
    (x = 0 \<or> (\<exists>k < 64. gmp_clz x = Some k \<and> 2 ^ 63 \<le> uint x * 2 ^ k \<and> uint x * 2 ^ k < 2 ^ 64)) \<and>
    (x = 0 \<or> (\<exists>k < 64. gmp_ctz x = Some k \<and> bit x k \<and> uint x mod 2 ^ k = 0))"
proof (cases "x = 0")
  case True
  then show ?thesis by (simp add: gmp_clz_zero gmp_ctz_def)
next
  case False
  obtain k h where k: "gmp_ctz x = Some k" "k < 64" "uint x = 2 ^ k * (2 * h + 1)" using gmp_ctz_spec [OF False] by blast
  have "bit (uint x) k" unfolding bit_iff_odd k(3) by simp
  then have "bit x k" by (simp add: bit_uint_iff)
  then show ?thesis using k gmp_clz_spec [OF False] by fastforce
qed


section \<open>Numbers\<close>

lemma lval_inj: "length xs = length ys \<Longrightarrow> lval xs = lval ys \<Longrightarrow> xs = ys"
proof (induction xs ys rule: list_induct2)
  case (Cons x xs y ys)
  have "LIMB_B * lval xs + uint x = LIMB_B * lval ys + uint y" using Cons.prems by simp
  then have "uint x = uint y" "lval xs = lval ys"
    using uint_bounds [of x] uint_bounds [of y]
    by (metis (no_types) mod_mult_self4 mod_pos_pos_trivial, metis add_right_cancel mod_mult_self4 mod_pos_pos_trivial LIMB_B_pos(4) mult_left_cancel)
  then show ?case using Cons.IH by (simp add: word_uint_eq_iff)
qed simp

text \<open>
  Adding a number to another and subtracting it from the sum gives the first number back, in place, and the
  borrow of the subtraction is the carry of the addition.
\<close>

theorem add_then_sub:
  assumes "limbs_at s ap xs" "limbs_at s bp ys" "length ys \<le> length xs" "room s rp (length xs)"
    and "up_ok rp ap (length xs)" "rp + length xs \<le> bp \<or> bp + length ys \<le> rp"
  shows "\<exists>cy s1 s2. mpn_add rp ap (length xs) bp (length ys) s = Inr (cy, s1) \<and>
    mpn_sub rp rp (length xs) bp (length ys) s1 = Inr (cy, s2) \<and> limbs_at s2 rp xs \<and> limbs_at s2 bp ys"
proof -
  let ?P = "LIMB_B ^ length xs"
  have up: "up_ok rp bp (length ys)" using assms(3,6) by (auto simp: up_ok_def)
  obtain cy rs where a: "mpn_add rp ap (length xs) bp (length ys) s = Inr (cy, put s rp rs)" "length rs = length xs"
      "lval rs + ?P * uint cy = lval xs + lval ys"
    using mpn_add_spec [OF assms(1,2) refl refl assms(3-5) up] by blast
  have ys: "limbs_at (put s rp rs) bp ys" using assms(2,6) a(2) by (intro limbs_at_put_outside) auto
  obtain bw zs where b: "mpn_sub rp rp (length xs) bp (length ys) (put s rp rs) = Inr (bw, put (put s rp rs) rp zs)"
      "length zs = length xs" "lval zs - ?P * uint bw = lval rs - lval ys"
    using mpn_sub_spec [OF limbs_at_put ys a(2) refl assms(3) room_put [OF assms(4)] up_ok_refl(1) up] by blast
  have "lval zs + ?P * (uint cy - uint bw) = lval xs" using a(3) b(3) by (simp add: right_diff_distrib)
  from bounded_eq [OF this lval_nonneg _ lval_nonneg] have "uint cy = uint bw" "lval zs = lval xs"
    using lval_less [of zs] lval_less [of xs] b(2) by simp_all
  then have "cy = bw" "zs = xs" using lval_inj [of zs xs] b(2) by (simp_all add: word_uint_eq_iff)
  moreover have "limbs_at (put (put s rp rs) rp zs) bp ys" using assms(6) b(2) by (intro limbs_at_put_outside [OF ys]) auto
  ultimately show ?thesis using a(1) b(1) by auto
qed

theorem add_then_sub_witness:
  "\<exists>cy s1 s2. mpn_add 3 0 2 2 1 (mem_of [- 1, - 1, 5] 2) = Inr (cy, s1) \<and>
    mpn_sub 3 3 2 2 1 s1 = Inr (cy, s2) \<and> limbs_at s2 3 [- 1, - 1] \<and> limbs_at s2 2 [5]"
  using add_then_sub [of "mem_of [- 1, - 1, 5] 2" 0 "[- 1, - 1]" 2 "[5]" 3]
  by (simp add: mem_of_facts up_ok_def numeral_2_eq_2)

text \<open>
  C18. \<^verbatim>\<open>mpn_mul\<close> writes the product of two numbers, as \<open>un + vn\<close> limbs, returns its top limb and changes nothing else,
  for a destination apart from the operands, which may be the same.
\<close>

theorem mul_correct:
  assumes "limbs_at s up xs" "limbs_at s vp ys" "0 < length ys" "length ys \<le> length xs" "room s rp (length xs + length ys)"
    and "rp + length xs + length ys \<le> up \<or> up + length xs \<le> rp" "rp + length xs + length ys \<le> vp \<or> vp + length ys \<le> rp"
  shows "\<exists>rs. mpn_mul rp up (length xs) vp (length ys) s = Inr (last rs, put s rp rs) \<and>
    length rs = length xs + length ys \<and> lval rs = lval xs * lval ys"
proof -
  have "1 \<le> length ys" using assms(3) by linarith
  from mpn_mul_spec [OF assms(1) refl assms(2) refl this assms(4,5,6,7)] obtain rs where
    rs: "mpn_mul rp up (length xs) vp (length ys) s = Inr (rs ! (length xs + length ys - 1), put s rp rs)"
      "length rs = length xs + length ys" "lval rs = lval xs * lval ys" by blast
  moreover have "rs \<noteq> []" using assms(3) rs(2) by auto
  ultimately show ?thesis using last_conv_nth [of rs] by (intro exI [of _ rs]) simp
qed

theorem mul_correct_witness:
  "\<exists>rs. mpn_mul 2 0 2 0 2 (mem_of [3, - 1] 4) = Inr (last rs, put (mem_of [3, - 1] 4) 2 rs) \<and> length rs = 4 \<and>
    lval rs = lval [3, - 1] * lval [3, - 1]"
  using mul_correct [of "mem_of [3, - 1] 4" 0 "[3, - 1]" 0 "[3, - 1]" 2]
  by (simp add: mem_of_facts numeral_2_eq_2 numeral_eq_Suc del: lval.simps)


text \<open>
  C19. When no bit is lost, shifting left and then right by the same count restores the number in place, with nothing shifted
  out on either side.
\<close>

theorem shift_roundtrip:
  assumes "limbs_at s up xs" "0 < length xs" "0 < cnt" "cnt < 64" "2 ^ cnt * lval xs < LIMB_B ^ length xs"
  shows "\<exists>s1 s2. mpn_lshift up up (length xs) cnt s = Inr (0, s1) \<and> mpn_rshift up up (length xs) cnt s1 = Inr (0, s2) \<and> limbs_at s2 up xs"
proof -
  let ?n = "length xs"
  have n: "1 \<le> ?n" using assms(2) by linarith
  have room: "room s up ?n" by (rule limbs_at_room [OF assms(1)])
  obtain h rs where l: "mpn_lshift up up ?n cnt s = Inr (h, put s up rs)" "length rs = ?n" "lval rs + LIMB_B ^ ?n * uint h = 2 ^ cnt * lval xs"
    using mpn_lshift_spec [OF assms(1) refl room up_ok_refl(2) n assms(3,4)] by blast
  from bounded_eq [OF l(3) lval_nonneg] have h: "h = 0" "lval rs = 2 ^ cnt * lval xs"
    using lval_less [of rs] l(2) assms(5) lval_nonneg [of xs] by (simp_all add: uint_0_iff)
  obtain k zs where r: "mpn_rshift up up ?n cnt (put s up rs) = Inr (k, put (put s up rs) up zs)" "length zs = ?n"
      "uint k + LIMB_B * lval zs = 2 ^ (64 - cnt) * lval rs"
    using mpn_rshift_spec [OF limbs_at_put l(2) room_put [OF room] up_ok_refl(1) n assms(3,4)] by blast
  have "LIMB_B * lval xs = uint k + LIMB_B * lval zs"
    unfolding r(3) h(2) by (simp only: limb_power_parts [OF assms(4)] mult.assoc)
  from nocarry [OF this] have "k = 0" "zs = xs" using lval_inj r(2) by simp_all
  then show ?thesis using l(1) r(1) h(1) by auto
qed

theorem shift_roundtrip_witness:
  "\<exists>s1 s2. mpn_lshift 0 0 2 3 (mem_of [- 1, 5] 0) = Inr (0, s1) \<and> mpn_rshift 0 0 2 3 s1 = Inr (0, s2) \<and> limbs_at s2 0 [- 1, 5]"
  using shift_roundtrip [of "mem_of [- 1, 5] 0" 0 "[- 1, 5]" 3]
  by (simp add: mem_of_facts LIMB_B_def unsigned_minus_1_eq_mask mask_eq_exp_minus_1 flip: numeral_2_eq_2)

text \<open>
  C20. \<^verbatim>\<open>mpn_div_qr\<close> divides any number by any number that has no leading zero limb and is not longer: it leaves the
  remainder in the low limbs of the dividend, writes the quotient where a pointer to it is given, gives its scratch memory
  back and changes nothing else.
\<close>

theorem div_correct:
  assumes "limbs_at s np xs" "limbs_at s dp ds" "ds \<noteq> []" "last ds \<noteq> 0" "length ds \<le> length xs"
    and "qroom s qp (length xs - length ds + 1)" "np + length xs \<le> dp \<or> dp + length ds \<le> np"
    and "\<forall>p. qp = Some p \<longrightarrow> (p + (length xs - length ds + 1) \<le> np \<or> np + length xs \<le> p) \<and>
      (p + (length xs - length ds + 1) \<le> dp \<or> dp + length ds \<le> p)"
    and "mem_ok s" "length xs * 8 < max_alloc"
  shows "\<exists>ws qs b. mpn_div_qr qp np (length xs) dp (length ds) s =
      Inr ((), (case qp of None \<Rightarrow> put s np ws | Some p \<Rightarrow> put (put s np ws) p qs)\<lparr>brk := b\<rparr>) \<and>
    length ws = length xs \<and> length qs = length xs - length ds + 1 \<and>
    lval qs = lval xs div lval ds \<and> lval (take (length ds) ws) = lval xs mod lval ds"
proof -
  have "div_layout s np (length xs) qp (length xs - length ds + 1) dp ds"
    using assms limbs_at_room [OF assms(1)] by (simp add: div_layout_def)
  from mpn_div_qr_spec [OF this assms(1) refl refl _ assms(5,4,9,10)] assms(3) show ?thesis
    by (auto simp: div_result_def div_mem_def putq_def cong: option.case_cong)
qed

theorem div_correct_witness:
  "\<exists>ws qs b. mpn_div_qr (Some 5) 0 3 3 2 (mem_of [7, 8, 9, 1, 2] 2) =
      Inr ((), (put (put (mem_of [7, 8, 9, 1, 2] 2) 0 ws) 5 qs)\<lparr>brk := b\<rparr>) \<and>
    lval qs = lval [7, 8, 9] div lval [1, 2] \<and> lval (take 2 ws) = lval [7, 8, 9] mod lval [1, 2]"
  using div_correct [of "mem_of [7, 8, 9, 1, 2] 2" 0 "[7, 8, 9]" 3 "[1, 2]" "Some 5"]
  by (simp add: mem_of_facts qroom_def max_alloc_def flip: numeral_2_eq_2 del: lval.simps) blast


text \<open>
  Division by one limb: the shift that \<^verbatim>\<open>mpn_div_qr_1\<close> uses for powers of two and the division with a precomputed
  inverse that it uses otherwise both compute the quotient and the remainder, also in place.
\<close>

theorem div_1_correct:
  assumes "limbs_at s np xs" "xs \<noteq> []" "d \<noteq> 0" "qroom s qp (length xs)"
    and "\<forall>p. qp = Some p \<longrightarrow> p = np \<or> p + length xs \<le> np \<or> np + length xs \<le> p"
    and "mem_ok s" "length xs * 8 < max_alloc"
  shows "\<exists>r qs b. mpn_div_qr_1 qp np (length xs) d s =
      Inr (r, (case qp of None \<Rightarrow> s | Some p \<Rightarrow> put s p qs)\<lparr>brk := b\<rparr>) \<and>
    length qs = length xs \<and> lval qs = lval xs div uint d \<and> uint r = lval xs mod uint d"
proof -
  have "0 < length xs" using assms(2) by simp
  moreover have "qsame qp np (length xs)" using assms(5) by (simp add: qsame_def)
  ultimately obtain r qs b where "mpn_div_qr_1 qp np (length xs) d s = Inr (r, (putq s qp 0 qs)\<lparr>brk := b\<rparr>)" "length qs = length xs"
      "lval qs = lval xs div uint d" "uint r = lval xs mod uint d"
    using div_qr_1_spec [OF assms(1) refl _ assms(7,6,4) _ assms(3)] by blast
  moreover have "putq s qp 0 qs = (case qp of None \<Rightarrow> s | Some p \<Rightarrow> put s p qs)"
    by (simp add: putq_def split: option.splits)
  ultimately show ?thesis by metis
qed

theorem div_1_correct_witness:
  "\<exists>r qs b. mpn_div_qr_1 (Some 0) 0 2 10 (mem_of [7, 8] 0) = Inr (r, (put (mem_of [7, 8] 0) 0 qs)\<lparr>brk := b\<rparr>) \<and>
    lval qs = lval [7, 8] div 10 \<and> uint r = lval [7, 8] mod 10"
  using div_1_correct [of "mem_of [7, 8] 0" 0 "[7, 8]" 10 "Some 0"]
  by (simp add: mem_of_facts qroom_def max_alloc_def flip: numeral_2_eq_2 del: lval.simps) blast

lemma scan_loop_zeros:
  assumes "limbs_at s up xs" "cells s (up + length xs) = None" "un \<le> i" "i < length xs"
    and "\<forall>j. i < j \<longrightarrow> j < length xs \<longrightarrow> xs ! j = 0"
  shows "scan_loop 0 i up un 0 s = Some (Inl (Out_of_bounds, s))"
  using assms(3-)
proof (induction "length xs - i" arbitrary: i)
  case (Suc d)
  show ?case
  proof (cases "i + 1 = length xs")
    case True
    then show ?thesis using Suc.prems(1) assms(2) by (subst scan_loop.simps) (simp add: ld_def)
  next
    case False
    then have l: "ld (up + (i + 1)) s = Inr (xs ! (i + 1), s)" using Suc.prems(2) by (intro ld_limbs_at [OF assms(1)]) simp
    moreover have "xs ! (i + 1) = 0" using Suc.prems(2,3) False by simp
    moreover have "scan_loop 0 (i + 1) up un 0 s = Some (Inl (Out_of_bounds, s))"
      using Suc.prems Suc.hyps(2) False by (intro Suc.hyps(1)) simp_all
    ultimately show ?thesis using Suc.prems(1) by (subst scan_loop.simps) simp
  qed
qed simp

text \<open>
  A scan for a one bit that no limb from the starting position on holds does not stop at the end of the number: it
  leaves the array.
\<close>

theorem scan_without_bit:
  assumes "limbs_at s ptr xs" "cells s (ptr + length xs) = None" "b < 64 * length xs"
    and "\<forall>j. b \<le> j \<longrightarrow> j < 64 * length xs \<longrightarrow> \<not> limb_bit xs j"
  shows "mpn_scan1 ptr b s = Inl (Out_of_bounds, s)"
proof -
  let ?i = "b div 64"
  have i: "?i < length xs" using assms(3) by simp
  have miss: "\<not> bit (xs ! n) m" if "n < length xs" "m < 64" "b \<le> n * 64 + m" for n m
    using assms(4) [rule_format, of "n * 64 + m"] that by (simp add: limb_bit_def)
  have z: "w = 0" if "\<And>j. j < 64 \<Longrightarrow> \<not> bit w j" for w :: limb
    using that by (intro bit_word_eqI) simp
  have "xs ! ?i AND push_bit (b mod 64) GMP_LIMB_MAX = 0"
  proof (rule z)
    fix j :: nat assume "j < 64"
    moreover have "b \<le> ?i * 64 + j" if "b mod 64 \<le> j" using that div_mult_mod_eq [of b 64] by linarith
    ultimately show "\<not> bit (xs ! ?i AND push_bit (b mod 64) GMP_LIMB_MAX) j"
      using miss [OF i] by (auto simp: bit_simps)
  qed
  moreover have "xs ! j = 0" if "?i < j" "j < length xs" for j
  proof (rule z)
    fix m :: nat assume "m < 64"
    moreover have "b \<le> j * 64 + m" using that(1) by linarith
    ultimately show "\<not> bit (xs ! j) m" using miss [OF that(2)] by blast
  qed
  ultimately show ?thesis
    using scan_loop_zeros [OF assms(1,2) order_refl i] ld_limbs_at [OF assms(1) i]
    by (simp add: mpn_scan1_def mpn_common_scan_def Let_def bindS_def GMP_LIMB_BITS_def)
qed

theorem scan_without_bit_witness: "mpn_scan1 0 3 (mem_of [5, 0] 0) = Inl (Out_of_bounds, mem_of [5, 0] 0)"
proof (rule scan_without_bit [of "mem_of [5, 0] 0" 0 "[5, 0]" 3])
  show "\<forall>j. 3 \<le> j \<longrightarrow> j < 64 * length [5, 0 :: limb] \<longrightarrow> \<not> limb_bit [5, 0] j"
  proof (intro allI impI)
    fix j :: nat assume j: "3 \<le> j" "j < 64 * length [5, 0 :: limb]"
    then consider "j div 64 = 0" "3 \<le> j mod 64" | "j div 64 = 1" by fastforce
    moreover have "take_bit 3 (5 :: limb) = 5" by simp
    then have "\<not> bit (5 :: limb) n" if "3 \<le> n" for n using bit_take_bit_iff [of 3 "5 :: limb" n] that by simp
    ultimately show "\<not> limb_bit [5, 0] j" by cases (auto simp: limb_bit_def)
  qed
qed (simp_all add: mem_of_facts, simp add: mem_of_def)


definition wf_inverse :: "gmp_div_inverse \<Rightarrow> bool" where
  "wf_inverse iv \<longleftrightarrow> inv_shift iv < GMP_LIMB_BITS \<and> GMP_LIMB_HIGHBIT \<le> inv_d1 iv \<and>
     (case inv_d0 iv of
        None \<Rightarrow> uint (inv_di iv) = (2 ^ 128 - 1) div uint (inv_d1 iv) - 2 ^ 64
      | Some d0 \<Rightarrow> uint (inv_di iv) = (2 ^ 192 - 1) div val2 (inv_d1 iv, d0) - 2 ^ 64)"

lemma one_two_many: "ds \<noteq> [] \<Longrightarrow> (\<exists>d. ds = [d]) \<or> (\<exists>d0 d1. ds = [d0, d1]) \<or> 2 < length ds"
  by (cases ds; cases "tl ds"; cases "tl (tl ds)") auto

lemma invert_1_d0: "mpn_div_qr_1_invert d s = Inr (iv, s') \<Longrightarrow> inv_d0 iv = None"
  by (auto simp: mpn_div_qr_1_invert_def bindS_eq_Inr Let_def)

text \<open>
  Every inverse that the library builds, for a divisor of one, two or more limbs without leading zeros, is well formed:
  the shift is below the size of a limb, the high limb is normalised, and the inverse is the one that the division by one
  or by two limbs relies on.
\<close>

theorem inverse_well_formed:
  assumes "limbs_at s dp ds" "ds \<noteq> []" "last ds \<noteq> 0"
  shows "\<exists>iv. mpn_div_qr_invert dp (length ds) s = Inr (iv, s) \<and> wf_inverse iv \<and> (inv_d0 iv = None \<longleftrightarrow> length ds = 1)"
proof -
  let ?n = "length ds"
  have top: "ds ! (?n - 1) \<noteq> 0" using assms(3) last_conv_nth [OF assms(2)] by simp
  consider (one) d where "ds = [d]" | (two) d0 d1 where "ds = [d0, d1]" | (many) "2 < ?n"
    using one_two_many [OF assms(2)] by blast
  then show ?thesis
  proof cases
    case one
    then obtain iv where iv: "mpn_div_qr_1_invert d s = Inr (iv, s)" "inv_shift iv < 64" "inverse_limb (inv_d1 iv) (inv_di iv)"
      using div_qr_1_invert_spec [of d s] top by auto
    then have "wf_inverse iv" "inv_d0 iv = None"
      using invert_1_d0 [OF iv(1)] by (simp_all add: wf_inverse_def inverse_limb_def GMP_LIMB_BITS_def LIMB_B_def)
    then show ?thesis using iv(1) one ld_limbs_at [OF assms(1), of 0] by (simp add: mpn_div_qr_invert_def bindS_def)
  next
    case two
    then obtain iv e0 where iv: "mpn_div_qr_2_invert d1 d0 s = Inr (iv, s)" "inv_shift iv < 64" "inv_d0 iv = Some e0"
        "inverse_3by2 (inv_d1 iv) e0 (inv_di iv)"
      using div_qr_2_invert_spec [of d1 d0 s] top by auto
    then have "wf_inverse iv" by (simp add: wf_inverse_def inverse_3by2_def GMP_LIMB_BITS_def LIMB_B_def)
    then show ?thesis using iv two ld_limbs_at [OF assms(1), of 0] ld_limbs_at [OF assms(1), of 1]
      by (simp add: mpn_div_qr_invert_def bindS_def)
  next
    case many
    obtain iv e0 where iv: "mpn_div_qr_invert dp ?n s = Inr (iv, s)" "inv_shift iv < 64" "inv_d0 iv = Some e0"
        "inverse_3by2 (inv_d1 iv) e0 (inv_di iv)"
      using div_qr_invert_spec [OF assms(1) refl many top] by blast
    then have "wf_inverse iv" by (simp add: wf_inverse_def inverse_3by2_def GMP_LIMB_BITS_def LIMB_B_def)
    then show ?thesis using iv many by auto
  qed
qed

theorem inverse_well_formed_witness:
  "\<exists>iv. mpn_div_qr_invert 0 3 (mem_of [1, 2, 3] 0) = Inr (iv, mem_of [1, 2, 3] 0) \<and> wf_inverse iv"
  using inverse_well_formed [of "mem_of [1, 2, 3] 0" 0 "[1, 2, 3]"]
  by (simp add: mem_of_facts flip: numeral_3_eq_3) blast

end
