(* ===== verification/Mpn_Str_Set.thy ===== *)
theory Mpn_Str_Set
  imports Mpn_Str Mpn_Props
begin

unbundle bit_operations_syntax

text \<open>
  The correctness of the conversion from digits to numbers, for bases that are powers of two and for the others, and the
  properties of both conversions.
\<close>

section \<open>Bases that are no powers of two\<close>

definition reads :: "uchar carray \<Rightarrow> uchar list \<Rightarrow> bool" where
  "reads sp ds \<longleftrightarrow> (\<forall>j < length ds. c_read sp j = Inr (ds ! j))"

lemma dval_bound:
  assumes "digits_ok b ds" "0 < b" "length ds \<le> k"
  shows "dval b ds < b ^ k"
  using dval_less [OF assms(1,2)] power_increasing [OF assms(3), of b] assms(2) by simp

lemma digits_ok_take [simp]: "digits_ok b ds \<Longrightarrow> digits_ok b (take k (drop j ds))"
  by (auto simp: digits_ok_def dest!: in_set_takeD in_set_dropD)

lemma digits_word_spec:
  assumes sp: "reads sp ds" "digits_ok (uint d) ds" "0 < uint d" and k: "0 < k" "j + k \<le> length ds" "uint d ^ k \<le> LIMB_B"
  shows "\<exists>w. digits_word sp d j k s = Inr (w, s) \<and> uint w = dval (uint d) (take k (drop j ds))"
proof -
  let ?b = "uint d"
  let ?P = "\<lambda>i (w :: limb) t. t = s \<and> uint w = dval ?b (take (i - j) (drop j ds))"
  have ucast: "uint (ucast (x :: uchar) :: limb) = uint x" for x by (simp add: uint_up_ucast is_up)
  have rd: "c_read sp i = Inr (ds ! i)" if "i < j + k" for i using sp(1) k(2) that by (auto simp: reads_def)
  have snoc: "take (Suc i - j) (drop j ds) = take (i - j) (drop j ds) @ [ds ! i]" if "j \<le> i" "i < j + k" for i
    using that k(2) by (simp add: Suc_diff_le take_Suc_conv_app_nth)
  have "\<exists>w t. for_up (j + 1) (k - 1) (\<lambda>j w. bindS (lift (c_read sp j)) (\<lambda>x. ret (w * d + ucast x))) (ucast (ds ! j)) s = Inr (w, t) \<and>
      ?P (j + 1 + (k - 1)) w t"
  proof (rule for_up_inv [where P = ?P])
    fix i w t assume i: "j + 1 \<le> i" "i < j + 1 + (k - 1)" "?P i w t"
    have v: "uint w * ?b + uint (ds ! i) = dval ?b (take (Suc i - j) (drop j ds))" using i snoc [of i] by (simp add: dval_snoc)
    also have "\<dots> < ?b ^ k" using sp(2,3) i(2) k(1) by (intro dval_bound) auto
    finally have "uint w * ?b + uint (ds ! i) < LIMB_B" using k(3) by linarith
    then have "uint (w * d + ucast (ds ! i)) = uint w * ?b + uint (ds ! i)"
      by (simp add: uint_limb_ops ucast mod_simps)
    then show "\<exists>c' t'. bindS (lift (c_read sp i)) (\<lambda>x. ret (w * d + ucast x)) t = Inr (c', t') \<and> ?P (Suc i) c' t'"
      using rd [of i] i v by (simp add: bindS_def)
  next
    show "?P (j + 1) (ucast (ds ! j)) s" using snoc [of j] k(1) by (simp add: ucast dval_snoc [of _ "[]", simplified])
  qed
  then show ?thesis using rd [of j] k(1) by (auto simp: digits_word_def bindS_def simp del: for_up.simps)
qed

lemma dval_take_le:
  assumes "0 < b"
  shows "dval b (take j ds) \<le> dval b ds"
proof -
  have "dval b ds = dval b (take j ds) * b ^ length (drop j ds) + dval b (drop j ds)"
    using dval_append [of b "take j ds" "drop j ds"] by (simp only: append_take_drop_id)
  moreover have "dval b (take j ds) * 1 \<le> dval b (take j ds) * b ^ length (drop j ds)"
    using assms by (intro mult_left_mono dval_nonneg one_le_power) simp_all
  ultimately show ?thesis using dval_nonneg [of b "drop j ds"] assms by linarith
qed

lemma last_nonzero:
  assumes "length rs = Suc k" "LIMB_B ^ k \<le> lval rs"
  shows "last rs \<noteq> 0"
proof
  assume z: "last rs = 0"
  have "rs \<noteq> []" using assms(1) by auto
  then have "lval rs = lval (butlast rs @ [0])" using z append_butlast_last_id [of rs] by simp
  also have "\<dots> < LIMB_B ^ k" using lval_less [of "butlast rs"] assms(1) by (simp add: lval_append)
  finally show False using assms(2) by simp
qed

definition set_other_inv :: "limb_mem \<Rightarrow> nat \<Rightarrow> int \<Rightarrow> uchar list \<Rightarrow> nat \<Rightarrow> nat \<times> nat \<Rightarrow> limb_mem \<Rightarrow> bool" where
  "set_other_inv s rp b ds e = (\<lambda>(rn, j) t. \<exists>rs. t = put s rp rs \<and> length rs = rn \<and> 1 \<le> rn \<and> lval rs = dval b (take j ds) \<and>
     (rn = 1 \<or> last rs \<noteq> 0) \<and> j \<le> length ds \<and> e dvd length ds - j)"

lemma put_again: "length ys = length xs \<Longrightarrow> put (put s p xs) p ys = put s p ys"
  using put_put [of 0 xs s p ys] by simp

text \<open>Multiplying by the power of the base and adding the value of a block of digits, in place.\<close>

lemma mul_add_spec:
  assumes "room s rp (length rs)" "rs \<noteq> []" "uint w < uint bb"
  shows "\<exists>us vs cl c. mpn_mul_1 rp rp (length rs) bb (put s rp rs) = Inr (cl, put s rp us) \<and>
    mpn_add_1 rp rp (length rs) w (put s rp us) = Inr (c, put s rp vs) \<and> length vs = length rs \<and>
    lval vs + LIMB_B ^ length rs * uint (cl + c) = lval rs * uint bb + uint w"
proof -
  let ?n = "length rs" and ?B = "LIMB_B ^ length rs"
  have n: "0 < ?n" using assms(2) by simp
  have at: "limbs_at (put s rp us) rp us" "room (put s rp us) rp ?n" for us using assms(1) by simp_all
  obtain us cl where us: "mpn_mul_1 rp rp ?n bb (put s rp rs) = Inr (cl, put (put s rp rs) rp us)" "length us = ?n"
      "lval us + ?B * uint cl = lval rs * uint bb"
    using mpn_mul_1_spec [OF at(1) refl at(2), of bb] n by auto
  obtain vs c where vs: "mpn_add_1 rp rp ?n w (put s rp us) = Inr (c, put (put s rp us) rp vs)" "length vs = ?n"
      "lval vs + ?B * uint c = lval us + uint w"
    using mpn_add_1_spec [OF at(1) us(2) at(2), of w] n by auto
  have tot: "lval vs + ?B * (uint cl + uint c) = lval rs * uint bb + uint w" using us(3) vs(3) by (simp add: distrib_left)
  have "lval rs * uint bb \<le> (?B - 1) * uint bb" using lval_less [of rs] by (intro mult_right_mono) simp_all
  then have "?B * (uint cl + uint c) < ?B * uint bb"
    unfolding left_diff_distrib using tot assms(3) lval_nonneg [of vs] by linarith
  then have "uint cl + uint c < LIMB_B" using uint_bounds(2) [of bb] by simp
  then have "uint (cl + c) = uint cl + uint c" using uint_bounds(1) [of cl] uint_bounds(1) [of c] by (simp add: uint_limb_ops)
  then show ?thesis using us(1,2) vs(1,2) tot by (intro exI [of _ us] exI [of _ vs] exI [of _ cl] exI [of _ c]) (simp add: put_again)
qed

lemma set_str_turn_spec:
  assumes sp: "reads sp ds" "digits_ok (uint d) ds" "2 \<le> uint d"
    and bb: "uint (bi_bb info) = uint d ^ bi_exp info" "1 \<le> bi_exp info"
    and room: "room s rp n" "dval (uint d) ds < LIMB_B ^ n" "0 < n"
    and i: "set_other_inv s rp (uint d) ds (bi_exp info) (rn, j) t" "j < length ds"
  shows "\<exists>rn' t'. set_str_turn rp sp d info (rn, j) t = Inr ((rn', j + bi_exp info), t') \<and>
    set_other_inv s rp (uint d) ds (bi_exp info) (rn', j + bi_exp info) t'"
proof -
  let ?b = "uint d" and ?bb = "bi_bb info" and ?e = "bi_exp info"
  obtain rs where rs: "t = put s rp rs" "length rs = rn" "1 \<le> rn" "lval rs = dval ?b (take j ds)" "rn = 1 \<or> last rs \<noteq> 0"
      "?e dvd length ds - j" using i(1) by (auto simp: set_other_inv_def)
  have b: "0 < ?b" using sp(3) by simp
  have je: "j + ?e \<le> length ds" using rs(6) i(2) dvd_imp_le [of ?e "length ds - j"] by simp
  obtain w where w: "digits_word sp d j ?e t = Inr (w, t)" "uint w = dval ?b (take ?e (drop j ds))"
    using digits_word_spec [OF sp(1,2) b _ je] bb uint_bounds(2) [of ?bb] by auto
  have wb: "uint w < uint ?bb" unfolding w(2) bb(1) using sp(2) b by (intro dval_bound) simp_all
  have fits: "k < n" if "LIMB_B ^ k \<le> dval ?b (take l ds)" for k l
    using le_less_trans [OF order_trans [OF that dval_take_le [OF b]] room(2)] by (rule power_less_imp_less_exp [rotated]) simp
  have top: "rn = 1 \<or> LIMB_B ^ (rn - 1) \<le> lval rs" using rs(2,3,5) lval_ge_top [of rs] by (cases rs) auto
  then have "rn \<le> n" using fits [of "rn - 1" j] rs(4) room(3) by auto
  then have "room s rp (length rs)" "rs \<noteq> []" using room(1) rs(2,3) by (auto simp: room_def)
  from mul_add_spec [OF this wb] obtain us vs cl c where m: "mpn_mul_1 rp rp rn ?bb t = Inr (cl, put s rp us)"
      "mpn_add_1 rp rp rn w (put s rp us) = Inr (c, put s rp vs)" "length vs = rn" "lval vs + LIMB_B ^ rn * uint (cl + c) = lval rs * uint ?bb + uint w"
    unfolding rs(1,2) by blast
  have "take (j + ?e) ds = take j ds @ take ?e (drop j ds)" by (rule take_add)
  then have v: "lval vs + LIMB_B ^ rn * uint (cl + c) = dval ?b (take (j + ?e) ds)"
    using m(4) rs(4) w(2) bb(1) je by (simp add: dval_append)
  have dvd: "?e dvd length ds - (j + ?e)" using rs(6) by (metis diff_diff_left dvd_diff_nat dvd_refl)
  show ?thesis
  proof (cases "cl + c = 0")
    case True
    have "last vs \<noteq> 0" if "rn \<noteq> 1"
    proof -
      have "LIMB_B ^ (rn - 1) \<le> lval vs"
        using top that v True rs(4) dval_take_le [OF b, of j "take (j + ?e) ds"] by simp
      then show "last vs \<noteq> 0" using last_nonzero [of vs "rn - 1"] m(3) rs(3) by simp
    qed
    then have "set_other_inv s rp ?b ds ?e (rn, j + ?e) (put s rp vs)"
      unfolding set_other_inv_def prod.case using v True m(3) rs(3) je dvd by (intro exI [of _ vs]) auto
    then show ?thesis using w(1) m True by (intro exI [of _ rn] exI [of _ "put s rp vs"]) (simp add: set_str_turn_def bindS_def)
  next
    case False
    have "LIMB_B ^ rn * 1 \<le> LIMB_B ^ rn * uint (cl + c)" using uint_pos [OF False] by (intro mult_left_mono) simp_all
    then have "LIMB_B ^ rn \<le> dval ?b (take (j + ?e) ds)" using v lval_nonneg [of vs] by linarith
    then have "rn < n" by (rule fits)
    then have "st (rp + rn) (cl + c) (put s rp vs) = Inr ((), put s rp (vs @ [cl + c]))" using st_snoc [OF room(1), of vs] m(3) by simp
    moreover have "set_other_inv s rp ?b ds ?e (rn + 1, j + ?e) (put s rp (vs @ [cl + c]))"
      unfolding set_other_inv_def prod.case using v False m(3) rs(3) je dvd by (intro exI [of _ "vs @ [cl + c]"]) (simp add: lval_snoc)
    ultimately show ?thesis using w(1) m False
      by (intro exI [of _ "rn + 1"] exI [of _ "put s rp (vs @ [cl + c])"]) (simp add: set_str_turn_def bindS_def word_neq_0_conv)
  qed
qed

lemma set_str_other_spec:
  assumes sp: "reads sp ds" "digits_ok (uint d) ds" "2 \<le> uint d" "ds \<noteq> []"
    and bb: "uint (bi_bb info) = uint d ^ bi_exp info" "1 \<le> bi_exp info"
    and room: "room s rp n" "dval (uint d) ds < LIMB_B ^ n" "0 < n"
  shows "\<exists>rs. mpn_set_str_other rp sp (length ds) d info s = Inr (length rs, put s rp rs) \<and> lval rs = dval (uint d) ds \<and>
    (length rs = 1 \<or> rs \<noteq> [] \<and> last rs \<noteq> 0)"
proof -
  let ?b = "uint d" and ?e = "bi_exp info" and ?n = "length ds"
  define k where "k = 1 + (?n - 1) mod ?e"
  have "0 < ?n" using sp(4) by simp
  have k: "0 < k" "k \<le> ?e" "?e dvd ?n - k" "0 + k \<le> ?n"
  proof -
    show "0 < k" "k \<le> ?e" using bb(2) by (simp_all add: k_def Suc_leI)
    have "?n - k = (?n - 1) - (?n - 1) mod ?e" by (simp add: k_def)
    then show "?e dvd ?n - k" by (simp only: dvd_minus_mod)
    have "(?n - 1) mod ?e \<le> ?n - 1" by (rule mod_less_eq_dividend)
    then show "0 + k \<le> ?n" using \<open>0 < ?n\<close> unfolding k_def by linarith
  qed
  have "?b ^ k \<le> ?b ^ ?e" using sp(3) k(2) by (intro power_increasing) simp_all
  then have "?b ^ k \<le> LIMB_B" "0 < ?b" using bb(1) uint_bounds(2) [of "bi_bb info"] sp(3) by linarith+
  then obtain w where w: "digits_word sp d 0 k s = Inr (w, s)" "uint w = dval ?b (take k ds)"
    using digits_word_spec [OF sp(1,2) _ k(1,4)] by auto
  have st: "st rp w s = Inr ((), put s rp [w])" using st_snoc [OF room(1), of "[]" rp w] room(3) by simp
  have start: "set_other_inv s rp ?b ds ?e (1, k) (put s rp [w])"
    unfolding set_other_inv_def prod.case using w(2) k(3,4) by (intro exI [of _ "[w]"]) simp
  have "\<exists>c t. whileS (\<lambda>(rn, j). j < ?n) (set_str_turn rp sp d info) (1, k) (put s rp [w]) = Inr (c, t) \<and>
      set_other_inv s rp ?b ds ?e c t \<and> \<not> (\<lambda>(rn, j). j < ?n) c"
  proof (rule whileS_total [where m = "\<lambda>(rn, j) _. ?n - j"])
    fix c t assume i: "set_other_inv s rp ?b ds ?e c t" "(\<lambda>(rn, j). j < ?n) c"
    obtain rn j where c: "c = (rn, j)" by force
    obtain rn' t' where "set_str_turn rp sp d info (rn, j) t = Inr ((rn', j + ?e), t')" "set_other_inv s rp ?b ds ?e (rn', j + ?e) t'"
      using set_str_turn_spec [OF sp(1-3) bb room, of rn j t] i c by auto
    then show "\<exists>c' s'. set_str_turn rp sp d info c t = Inr (c', s') \<and> set_other_inv s rp ?b ds ?e c' s' \<and>
        (\<lambda>(rn, j) _. ?n - j) c' s' < (\<lambda>(rn, j) _. ?n - j) c t"
      using i(2) c bb(2) by (intro exI [of _ "(rn', j + ?e)"] exI [of _ t']) simp
  qed (rule start)
  then obtain rn j t where l: "whileS (\<lambda>(rn, j). j < ?n) (set_str_turn rp sp d info) (1, k) (put s rp [w]) = Inr ((rn, j), t)"
    "set_other_inv s rp ?b ds ?e (rn, j) t" "\<not> j < ?n" by (metis (mono_tags, lifting) case_prod_conv surj_pair)
  obtain rs where rs: "t = put s rp rs" "length rs = rn" "1 \<le> rn" "lval rs = dval ?b (take j ds)" "rn = 1 \<or> last rs \<noteq> 0" "j \<le> ?n"
    using l(2) by (auto simp: set_other_inv_def)
  have "j = ?n" using l(3) rs(6) by simp
  then have "mpn_set_str_other rp sp ?n d info s = Inr (length rs, put s rp rs)"
    using \<open>0 < ?n\<close> w(1) st l(1) rs(1,2) bb(2) unfolding mpn_set_str_other_def Let_def k_def [symmetric]
    by (simp add: bindS_def assertS_def)
  then show ?thesis using rs(2-5) \<open>j = ?n\<close> by (intro exI [of _ rs]) auto
qed

section \<open>Bases that are powers of two\<close>

lemma or_shifted:
  assumes "uint u < 2 ^ h" "h < 64"
  shows "uint (u OR push_bit h x) = uint u + uint (push_bit h (x :: limb))"
proof -
  have "\<not> bit u n" if "h \<le> n" for n
  proof
    assume "bit u n"
    then have "bit (uint u) n" by (auto simp: bit_uint_iff dest: bit_imp_le_length)
    moreover have "take_bit h (uint u) = uint u" using assms(1) by (simp add: take_bit_int_eq_self)
    ultimately show False using that by (metis bit_take_bit_iff not_le)
  qed
  then have "uint u AND uint (push_bit h x) = 0"
    by (auto simp: bit_eq_iff bit_simps not_le)
  then show ?thesis unfolding unsigned_or_eq by (simp add: disjunctive_add_eq_or)
qed

text \<open>The limbs that the low \<open>p\<close> bits of a number take, and the position in the last of them.\<close>

definition at_bit :: "nat \<Rightarrow> nat \<Rightarrow> nat \<Rightarrow> bool" where
  "at_bit p rn h \<longleftrightarrow> h = 0 \<and> p = 64 * rn \<or> 0 < h \<and> h < 64 \<and> p + 64 = 64 * rn + h"

lemma set_top_limb:
  fixes x :: limb
  assumes "at_bit p (Suc m) h" "0 < h" "length rs = m" "lval (rs @ [u]) < 2 ^ p"
  shows "uint (u OR push_bit h x) + LIMB_B * uint (drop_bit (64 - h) x) = uint u + 2 ^ h * uint x"
    "LIMB_B ^ m * 2 ^ h = 2 ^ p"
proof -
  have h: "h < 64" "p = 64 * m + h" using assms(1,2) by (auto simp: at_bit_def)
  show p: "LIMB_B ^ m * 2 ^ h = 2 ^ p" unfolding h(2) LIMB_B_def power_mult [symmetric] by (simp add: power_add)
  have "LIMB_B ^ m * uint u < LIMB_B ^ m * 2 ^ h"
    using assms(3,4) lval_nonneg [of rs] unfolding p lval_snoc [OF assms(3)] by linarith
  then have "uint u < 2 ^ h" by simp
  then show "uint (u OR push_bit h x) + LIMB_B * uint (drop_bit (64 - h) x) = uint u + 2 ^ h * uint x"
    using or_shifted [OF _ h(1), of u x] shift_parts [OF assms(2) h(1), of x] by simp
qed

lemma drop_bit_small:
  assumes "uint x < 2 ^ k"
  shows "drop_bit k (x :: limb) = 0"
proof -
  have "uint (drop_bit k x) = uint x div 2 ^ k"
    using uint_bounds [of x] unfolding unsigned_drop_bit_eq by (simp add: drop_bit_eq_div take_bit_int_eq_self LIMB_B_def)
  also have "\<dots> = 0" using assms uint_bounds(1) [of x] by (intro div_pos_pos_trivial)
  finally show ?thesis by (simp add: unsigned_eq_0_iff)
qed

lemma st_last:
  assumes "room s rp n" "length qs < n"
  shows "st (rp + length qs) y (put s rp (qs @ [u])) = Inr ((), put s rp (qs @ [y]))"
proof -
  have "cells (put s rp (qs @ [u])) (rp + length qs) \<noteq> None" by (simp add: cells_put)
  then show ?thesis using put_put [of "length qs" "qs @ [u]" s rp "[y]"] by (simp add: st_put)
qed

definition set_bits_inv :: "limb_mem \<Rightarrow> nat \<Rightarrow> nat \<Rightarrow> uchar list \<Rightarrow> nat \<Rightarrow> nat \<times> nat \<Rightarrow> limb_mem \<Rightarrow> bool" where
  "set_bits_inv s rp bits ds j = (\<lambda>(rn, h) t. \<exists>rs. t = put s rp rs \<and> length rs = rn \<and> lval rs = dval (2 ^ bits) (drop j ds) \<and>
     at_bit (bits * (length ds - j)) rn h)"

lemma set_bits_step:
  assumes sp: "reads sp ds" "digits_ok (2 ^ bits) ds" and b: "0 < bits" "bits \<le> 8"
    and room: "room s rp n" "bits * length ds \<le> 64 * n"
    and j: "j < length ds" "set_bits_inv s rp bits ds (Suc j) (rn, h) t"
  shows "\<exists>c t'. set_str_bits_digit rp sp bits j (rn, h) t = Inr (c, t') \<and> set_bits_inv s rp bits ds j c t'"
proof -
  define k where "k = length ds - Suc j"
  let ?p = "bits * k" and ?x = "ucast (ds ! j) :: limb" and ?b = "2 ^ bits :: int"
  have k: "length ds - j = Suc k" "bits * Suc k \<le> 64 * n"
    using j(1) room(2) le_trans [OF mult_le_mono2 [of "Suc k" "length ds" bits] room(2)] by (simp_all add: k_def)
  obtain rs where rs: "t = put s rp rs" "length rs = rn" "lval rs = dval ?b (drop (Suc j) ds)" "at_bit ?p rn h"
    using j(2) by (auto simp: set_bits_inv_def k_def)
  have rd: "c_read sp j = Inr (ds ! j)" using sp(1) j(1) by (simp add: reads_def)
  have x: "uint ?x = uint (ds ! j)" by (simp add: uint_up_ucast is_up)
  have "drop j ds = ds ! j # drop (Suc j) ds" using j(1) by (simp add: Cons_nth_drop_Suc)
  then have val: "dval ?b (drop j ds) = lval rs + 2 ^ ?p * uint ?x"
    using rs(3) x by (simp add: dval_Cons k_def power_mult [symmetric] mult.commute)
  have inv: "set_bits_inv s rp bits ds j (length rs', h') (put s rp rs')" if "lval rs' = dval ?b (drop j ds)" "at_bit (bits * Suc k) (length rs') h'" for rs' h'
    using that k(1) by (auto simp: set_bits_inv_def)
  have snoc: "st (rp + length rs') y (put s rp rs') = Inr ((), put s rp (rs' @ [y]))" if "64 * length rs' < 64 * n" for rs' y
    using st_snoc [OF room(1), of rs'] that by simp
  show ?thesis
  proof (cases "h = 0")
    case True
    then have p: "?p = 64 * rn" using rs(4) by (auto simp: at_bit_def)
    then have "64 * length rs < 64 * n" using k(2) b(1) rs(2) by simp
    moreover have "LIMB_B ^ rn = 2 ^ ?p" unfolding p LIMB_B_def power_mult [symmetric] ..
    then have "lval (rs @ [?x]) = dval ?b (drop j ds)" unfolding val lval_snoc [OF rs(2)] by simp
    moreover have "at_bit (bits * Suc k) (Suc rn) bits" using p b by (simp add: at_bit_def)
    ultimately show ?thesis using inv [of "rs @ [?x]" bits] snoc [of rs ?x] True rd rs(1,2)
      by (simp add: set_str_bits_digit_def bindS_def)
  next
    case False
    then have "0 < h" "h < 64" "?p + 64 = 64 * rn + h" using rs(4) by (auto simp: at_bit_def)
    then obtain m where m: "rn = Suc m" by (cases rn) auto
    obtain qs u where q: "rs = qs @ [u]" "length qs = m" using rs(2) m by (metis length_Suc_conv_rev)
    define top hi where "top = u OR push_bit h ?x" and "hi = drop_bit (64 - h) ?x"
    have "lval rs < ?b ^ k" using dval_less [of ?b "drop (Suc j) ds"] sp(2) rs(3) digits_ok_simps(3) [of ?b "take (Suc j) ds" "drop (Suc j) ds"]
      by (simp add: k_def)
    then have less: "lval (qs @ [u]) < 2 ^ ?p" using q(1) by (simp add: power_mult)
    note t = set_top_limb(1) [OF rs(4) [unfolded m] \<open>0 < h\<close> q(2) less, of ?x, folded top_def hi_def]
      set_top_limb(2) [OF rs(4) [unfolded m] \<open>0 < h\<close> q(2) less]
    have v: "lval (qs @ [top, hi]) = dval ?b (drop j ds)"
    proof -
      have "lval (qs @ [top, hi]) = lval qs + LIMB_B ^ m * (uint top + LIMB_B * uint hi)" using q(2) by (simp add: lval_append)
      also have "\<dots> = lval qs + LIMB_B ^ m * uint u + LIMB_B ^ m * 2 ^ h * uint ?x" unfolding t(1) by (simp add: distrib_left mult.assoc)
      also have "\<dots> = dval ?b (drop j ds)" unfolding val t(2) q(1) lval_snoc [OF q(2)] ..
      finally show ?thesis .
    qed
    have "64 * m < 64 * n" using k(2) b(1) \<open>?p + 64 = 64 * rn + h\<close> m by simp
    then have run: "ld (rp + m) t = Inr (u, t)" "st (rp + m) top t = Inr ((), put s rp (qs @ [top]))"
      using st_last [OF room(1), of qs top u] ld_limbs_at [OF limbs_at_put [of s rp "qs @ [u]"], of m] q unfolding rs(1) by (simp_all add: nth_append)
    show ?thesis
    proof (cases "h + bits \<le> 64")
      case True
      have "uint (ds ! j) < ?b" using sp(2) j(1) by (auto simp: digits_ok_def)
      moreover have "?b \<le> 2 ^ (64 - h)" using True by (intro power_increasing) simp_all
      ultimately have "uint ?x < 2 ^ (64 - h)" unfolding x by linarith
      then have "hi = 0" unfolding hi_def by (rule drop_bit_small)
      then have "lval (qs @ [top]) = dval ?b (drop j ds)" using v by (simp add: lval_append)
      moreover have "at_bit (bits * Suc k) rn (if h + bits = 64 then 0 else h + bits)"
        using True \<open>?p + 64 = 64 * rn + h\<close> \<open>0 < h\<close> by (auto simp: at_bit_def)
      ultimately show ?thesis using inv [of "qs @ [top]" "if h + bits = 64 then 0 else h + bits"] run False rd q m True
        by (cases "h + bits = 64") (simp_all add: set_str_bits_digit_def bindS_def GMP_LIMB_BITS_def top_def)
    next
      case big: False
      have e: "bits - (h + bits - 64) = 64 - h" using big \<open>h < 64\<close> by simp
      have "64 * length (qs @ [top]) < 64 * n" using k(2) big \<open>?p + 64 = 64 * rn + h\<close> m q(2) by simp
      from snoc [OF this, of hi] have "st (rp + Suc m) hi (put s rp (qs @ [top])) = Inr ((), put s rp (qs @ [top, hi]))" using q(2) by simp
      moreover have "at_bit (bits * Suc k) (Suc rn) (h + bits - 64)"
        using big b \<open>?p + 64 = 64 * rn + h\<close> \<open>h < 64\<close> by (auto simp: at_bit_def)
      ultimately show ?thesis using inv [of "qs @ [top, hi]" "h + bits - 64"] v run False rd q m big e
        by (simp add: set_str_bits_digit_def bindS_def GMP_LIMB_BITS_def top_def hi_def)
    qed
  qed
qed

lemma set_str_bits_spec:
  assumes sp: "reads sp ds" "digits_ok (2 ^ bits) ds" and b: "0 < bits" "bits \<le> 8"
    and room: "room s rp n" "bits * length ds \<le> 64 * n"
  shows "\<exists>rs k. mpn_set_str_bits rp sp (length ds) bits s = Inr (k, put s rp rs) \<and> k \<le> length rs \<and>
    lval (take k rs) = dval (2 ^ bits) ds \<and> (0 < k \<longrightarrow> rs ! (k - 1) \<noteq> 0)"
proof -
  have "\<exists>c t. for_down (length ds) (set_str_bits_digit rp sp bits) (0, 0) s = Inr (c, t) \<and> set_bits_inv s rp bits ds 0 c t"
  proof (rule for_down_inv [where P = "set_bits_inv s rp bits ds"])
    fix j c t assume j: "j < length ds" "set_bits_inv s rp bits ds (Suc j) c t"
    obtain rn h where "c = (rn, h)" by force
    then show "\<exists>c' t'. set_str_bits_digit rp sp bits j c t = Inr (c', t') \<and> set_bits_inv s rp bits ds j c' t'"
      using set_bits_step [OF sp b room j(1), of rn h t] j(2) by simp
  qed (simp add: set_bits_inv_def at_bit_def)
  then obtain rn h rs where l: "for_down (length ds) (set_str_bits_digit rp sp bits) (0, 0) s = Inr ((rn, h), put s rp rs)"
      "length rs = rn" "lval rs = dval (2 ^ bits) ds"
    by (auto simp: set_bits_inv_def)
  obtain k where "k \<le> rn" "mpn_normalized_size rp rn (put s rp rs) = Inr (k, put s rp rs)"
      "lval (take k rs) = lval rs" "0 < k \<longrightarrow> rs ! (k - 1) \<noteq> 0"
    using mpn_normalized_size_spec [OF limbs_at_put [of s rp rs] l(2)] by blast
  then show ?thesis using l by (intro exI [of _ rs] exI [of _ k]) (simp add: mpn_set_str_bits_def bindS_def)
qed

section \<open>Digits to numbers\<close>

text \<open>
  The result of a conversion from digits: the first \<open>k\<close> limbs of what was written hold the value, and the top one is not
  zero unless it is the only one.
\<close>

lemma mpn_set_str_spec:
  assumes sp: "reads sp ds" "digits_ok b ds" "ds \<noteq> []" and b: "2 \<le> b" "b \<le> 256"
    and room: "room s rp n" "b ^ length ds \<le> LIMB_B ^ n"
  shows "\<exists>rs k. mpn_set_str rp sp (length ds) b s = Inr (k, put s rp rs) \<and> k \<le> length rs \<and>
    lval (take k rs) = dval b ds \<and> (1 < k \<longrightarrow> rs ! (k - 1) \<noteq> 0)"
proof -
  let ?k = "mpn_base_power_of_two_p (uint_of b)"
  have v: "dval b ds < LIMB_B ^ n" using dval_less [OF sp(2)] b(1) room(2) by linarith
  have "1 < b ^ length ds" using b(1) sp(3) by (intro one_less_power) simp_all
  then have n: "0 < n" using room(2) by (cases n) simp_all
  show ?thesis
  proof (cases "?k = 0")
    case True
    obtain info where i: "mpn_get_base_info (of_int b) s = Inr (info, s)" "1 \<le> bi_exp info" "uint (bi_bb info) = b ^ bi_exp info"
      using base_info_of_int [OF b] by blast
    have d: "uint (of_int b :: limb) = b" using base_ok_of_int [OF b] by (simp add: base_ok_def)
    obtain rs where "mpn_set_str_other rp sp (length ds) (of_int b) info s = Inr (length rs, put s rp rs)" "lval rs = dval b ds"
        "length rs = 1 \<or> rs \<noteq> [] \<and> last rs \<noteq> 0"
      using set_str_other_spec [of sp ds "of_int b" info s rp n] sp b i(2,3) room(1) v n unfolding d by blast
    then show ?thesis using True i(1) sp(3)
      by (intro exI [of _ rs] exI [of _ "length rs"]) (auto simp: mpn_set_str_def bindS_def Let_def last_conv_nth)
  next
    case False
    then have k: "0 < ?k" "b = 2 ^ ?k" "?k \<le> 8" using base_power_spec [OF b refl] by simp_all
    have "(2 :: int) ^ (?k * length ds) \<le> 2 ^ (64 * n)"
      using room(2) unfolding power_mult k(2) [symmetric] LIMB_B_def .
    then have "?k * length ds \<le> 64 * n" by (rule power_le_imp_le_exp [rotated]) simp
    from set_str_bits_spec [OF sp(1) _ k(1,3) room(1) this] sp(2) obtain rs m where
        "mpn_set_str_bits rp sp (length ds) ?k s = Inr (m, put s rp rs)" "m \<le> length rs" "lval (take m rs) = dval b ds" "0 < m \<longrightarrow> rs ! (m - 1) \<noteq> 0"
      unfolding k(2) [symmetric] by blast
    then show ?thesis using False sp(3) by (intro exI [of _ rs] exI [of _ m]) (simp add: mpn_set_str_def Let_def)
  qed
qed

lemma normalized_unique:
  assumes "lval xs = lval ys" "xs \<noteq> []" "last xs \<noteq> 0" "length ys \<le> 1 \<or> last ys \<noteq> 0"
  shows "xs = ys"
proof -
  have pos: "LIMB_B ^ (length xs - 1) \<le> lval xs" by (rule lval_ge_top [OF assms(2,3)])
  then have "0 < lval xs" by (rule less_le_trans [rotated]) simp
  then have ys: "ys \<noteq> []" using assms(1) by auto
  have "last ys \<noteq> 0"
  proof (cases "length ys \<le> 1")
    case True
    then obtain y where "ys = [y]" using ys by (cases ys) auto
    then show ?thesis using \<open>0 < lval xs\<close> assms(1) by auto
  qed (use assms(4) in simp)
  have le: "length as \<le> length bs" if "lval as = lval bs" "as \<noteq> []" "last as \<noteq> 0" for as bs
  proof -
    have "LIMB_B ^ (length as - 1) < LIMB_B ^ length bs" using lval_ge_top [OF that(2,3)] lval_less [of bs] that(1) by linarith
    then have "length as - 1 < length bs" by (rule power_less_imp_less_exp [rotated]) simp
    then show ?thesis by simp
  qed
  have "length xs = length ys" using le [OF assms(1-3)] le [OF assms(1) [symmetric] ys \<open>last ys \<noteq> 0\<close>] by simp
  then show ?thesis using lval_inj assms(1) by blast
qed

lemma reads_fill: "length rs \<le> length sp \<Longrightarrow> reads (fill sp 0 rs) rs"
  by (simp add: reads_def c_read_def nth_fill_0)

lemma digits_room:
  assumes "dval b rs = lval xs" "rs \<noteq> []" "hd rs \<noteq> 0" "2 \<le> b" "b \<le> 256"
  shows "b ^ length rs \<le> LIMB_B ^ (length xs + 1)"
proof -
  have "b ^ length rs = b * b ^ (length rs - 1)" using assms(2) by (cases rs) simp_all
  also have "\<dots> \<le> b * lval xs" using dval_ge [of rs b] assms by (intro mult_left_mono) simp_all
  also have "\<dots> \<le> LIMB_B * LIMB_B ^ length xs" using assms(4,5) lval_less [of xs] lval_nonneg [of xs] by (intro mult_mono) (simp_all add: LIMB_B_def)
  finally show ?thesis by simp
qed

section \<open>Properties\<close>

text \<open>
  C25. For every base from 2 to 256, \<^verbatim>\<open>mpn_get_str\<close> writes the digits of a normalised number, most significant first and
  without leading zeros, and returns how many there are; a buffer that can hold the digits is enough, and of the limbs only
  those of the number itself change.
\<close>

theorem get_str_correct:
  assumes "limbs_at s up xs" "xs \<noteq> []" "last xs \<noteq> 0" "mem_ok s" "length xs * 8 < max_alloc"
    and "2 \<le> base" "base \<le> 256" "lval xs < base ^ length sp"
  shows "\<exists>rs zs b. mpn_get_str sp base up (length xs) s =
      Inr ((length rs, map Some rs @ drop (length rs) sp), (put s up zs)\<lparr>brk := b\<rparr>) \<and>
    foldl (\<lambda>v d. v * base + uint d) 0 rs = lval xs \<and> (\<forall>d \<in> set rs. uint d < base) \<and> rs \<noteq> [] \<and> hd rs \<noteq> 0 \<and>
    length rs \<le> length sp \<and> length zs = length xs"
proof -
  obtain rs zs t where g: "mpn_get_str sp base up (length xs) s = Inr ((length rs, fill sp 0 rs), t)" "length zs = length xs"
      "num_mem s up (length xs) zs t" "digits_ok base rs" "dval base rs = lval xs" "rs \<noteq> []" "hd rs \<noteq> 0"
    using mpn_get_str_spec [OF assms order_refl] by blast
  obtain b where "t = (put s up zs)\<lparr>brk := b\<rparr>" using g(2,3) by (auto simp: num_mem_def)
  moreover have "length rs \<le> length sp" using digits_fit [of base rs "length sp"] g(5,7) assms(6,8) by simp
  ultimately show ?thesis using g by (intro exI [of _ rs] exI [of _ zs] exI [of _ b]) (simp add: fill_def dval_def digits_ok_def)
qed

theorem get_str_correct_witness:
  "\<exists>rs zs b. mpn_get_str (replicate 40 None) 10 0 2 (mem_of [5, 7] 0) =
      Inr ((length rs, map Some rs @ drop (length rs) (replicate 40 None)), (put (mem_of [5, 7] 0) 0 zs)\<lparr>brk := b\<rparr>) \<and>
    foldl (\<lambda>v d. v * 10 + uint d) 0 rs = lval [5, 7]"
  using get_str_correct [of "mem_of [5, 7] 0" 0 "[5, 7]" 10 "replicate 40 None"]
  by (simp add: mem_of_facts max_alloc_def LIMB_B_def flip: numeral_2_eq_2) blast

text \<open>
  C26. Reading back the digits that \<^verbatim>\<open>mpn_get_str\<close> wrote, with \<^verbatim>\<open>mpn_set_str\<close> in the same base, restores the number limb by
  limb and with its size; one limb more than the number has is room enough.
\<close>

theorem str_roundtrip:
  assumes "limbs_at s up xs" "xs \<noteq> []" "last xs \<noteq> 0" "mem_ok s" "length xs * 8 < max_alloc"
    and "2 \<le> base" "base \<le> 256" "lval xs < base ^ length sp" "room s rp (length xs + 1)"
  shows "\<exists>sn sp' t zs. mpn_get_str sp base up (length xs) s = Inr ((sn, sp'), t) \<and>
    mpn_set_str rp sp' sn base t = Inr (length xs, put t rp (xs @ zs))"
proof -
  obtain rs t where g: "mpn_get_str sp base up (length xs) s = Inr ((length rs, fill sp 0 rs), t)"
      "\<exists>zs. num_mem s up (length xs) zs t" "digits_ok base rs" "dval base rs = lval xs" "rs \<noteq> []" "hd rs \<noteq> 0"
    using mpn_get_str_spec [OF assms(1-8) order_refl] by blast
  have "length rs \<le> length sp" using digits_fit [of base rs "length sp"] g(4,6) assms(6,8) by simp
  moreover have "room t rp (length xs + 1)" using g(2) assms(9) by (auto simp: num_mem_def room_def cells_put)
  ultimately obtain ys k where k: "mpn_set_str rp (fill sp 0 rs) (length rs) base t = Inr (k, put t rp ys)" "k \<le> length ys"
      "lval (take k ys) = dval base rs" "1 < k \<longrightarrow> ys ! (k - 1) \<noteq> 0"
    using mpn_set_str_spec [OF reads_fill g(3,5) assms(6,7) _ digits_room [OF g(4-6) assms(6,7)]] by blast
  have "length (take k ys) \<le> 1 \<or> last (take k ys) \<noteq> 0" using k(2,4) last_conv_nth [of "take k ys"] by (cases "k \<le> 1"; cases ys) auto
  then have "xs = take k ys" using normalized_unique [of xs "take k ys"] k(3) g(4) assms(2,3) by simp
  then have "ys = xs @ drop k ys" "k = length xs" using k(2) by simp_all
  then show ?thesis using g(1) k(1) by metis
qed

theorem str_roundtrip_witness:
  "\<exists>sn sp' t zs. mpn_get_str (replicate 40 None) 10 0 2 (mem_of [5, 7] 3) = Inr ((sn, sp'), t) \<and>
    mpn_set_str 2 sp' sn 10 t = Inr (2, put t 2 ([5, 7] @ zs))"
  using str_roundtrip [of "mem_of [5, 7] 3" 0 "[5, 7]" 10 "replicate 40 None" 2]
  by (simp add: mem_of_facts max_alloc_def LIMB_B_def flip: numeral_2_eq_2 numeral_3_eq_3)

text \<open>
  C27. The search for the largest power of the base that fits a limb ends for every base from 2 on, with that power and its
  exponent; for base 1, which \<^verbatim>\<open>mpn_get_str\<close> and \<^verbatim>\<open>mpn_set_str\<close> do not exclude, it never ends, and base 0 divides by
  zero.
\<close>

theorem base_info_cases:
  "(2 \<le> uint b \<and> (\<exists>info. mpn_get_base_info b s = Inr (info, s) \<and> uint (bi_bb info) = uint b ^ bi_exp info \<and>
      uint b ^ bi_exp info < 2 ^ 64 \<and> 2 ^ 64 \<le> uint b ^ Suc (bi_exp info))) \<or>
    (b = 1 \<and> mpn_get_base_info b s = Inl (No_return, s)) \<or> (b = 0 \<and> mpn_get_base_info b s = Inl (Div_by_zero, s))"
proof -
  consider "2 \<le> uint b" | "b = 1" | "b = 0"
    using uint_pos [of b] word_uint_eqI [of b 1] by (cases "uint b = 1") force+
  then show ?thesis
  proof cases
    case 1
    then obtain info where "mpn_get_base_info b s = Inr (info, s)" "uint (bi_bb info) = uint b ^ bi_exp info" "LIMB_B \<le> uint b ^ Suc (bi_exp info)"
      using base_info_spec by blast
    then show ?thesis using 1 uint_bounds(2) [of "bi_bb info"] unfolding LIMB_B_def by metis
  next
    case 2
    then show ?thesis using base_one_forever by simp
  next
    case 3
    then show ?thesis by (simp add: mpn_get_base_info_def)
  qed
qed

end
