(* ===== verification/Uint64gmp.thy ===== *)
theory Uint64gmp
  imports Mpn_Shift
begin

unbundle bit_operations_syntax

text \<open>
  The 64-bit primitives that the C code extracted from the verified multiprecision library relies on,
  \<^verbatim>\<open>overlays/uint64gmp.h\<close>: double-width product, two-by-one division, additions and subtractions with carry, and the
  double-width shift.
\<close>

section \<open>The operations\<close>

text \<open>The result structures of the header have the same two fields.\<close>

record two_words =
  field_0 :: limb
  field_1 :: limb

definition ll_B :: limb where
  "ll_B = push_bit 32 1"

definition ll_lowpart :: "limb \<Rightarrow> limb" where
  "ll_lowpart t = t AND (ll_B - 1)"

definition ll_highpart :: "limb \<Rightarrow> limb" where
  "ll_highpart t = drop_bit 32 t"

definition umul_ppmm :: "limb \<Rightarrow> limb \<Rightarrow> limb \<times> limb" where
  "umul_ppmm u v =
     (let ul = ucast (ll_lowpart u) :: 32 word; uh = ucast (ll_highpart u) :: 32 word;
          vl = ucast (ll_lowpart v) :: 32 word; vh = ucast (ll_highpart v) :: 32 word;
          x0 = ucast ul * ucast vl; x1 = ucast ul * ucast vh; x2 = ucast uh * ucast vl; x3 = ucast uh * ucast vh;
          x1 = x1 + ll_highpart x0;
          x1 = x1 + x2;
          x3 = (if x1 < x2 then x3 + ll_B else x3)
      in (x3 + ll_highpart x1, push_bit 32 x1 + ll_lowpart x0))"

text \<open>One half of the division: the next half-limb of the quotient, and the remainder.\<close>

definition udiv_half :: "limb \<Rightarrow> limb \<Rightarrow> limb \<Rightarrow> (limb \<times> limb) result" where
  "udiv_half n1 h d =
     (let d1 = ll_highpart d; d0 = ll_lowpart d in
      if d1 = 0 then Inl Div_by_zero
      else
        let q1 = n1 div d1;
            r1 = n1 - q1 * d1;
            m = q1 * d0;
            r1 = r1 * ll_B OR h;
            (q1, r1) = adjust_qr q1 r1 m d
        in Inr (q1, r1 - m))"

definition udiv_qrnnd_c :: "limb \<Rightarrow> limb \<Rightarrow> limb \<Rightarrow> (limb \<times> limb) result" where
  "udiv_qrnnd_c n1 n0 d =
     bindE (udiv_half n1 (ll_highpart n0) d) (\<lambda>(q1, r1).
     bindE (udiv_half r1 (ll_lowpart n0) d) (\<lambda>(q0, r0).
     Inr (q1 * ll_B OR q0, r0)))"

definition mul64_double :: "limb \<Rightarrow> limb \<Rightarrow> two_words" where
  "mul64_double x y = (let (f1, f0) = umul_ppmm x y in \<lparr>field_0 = f0, field_1 = f1\<rparr>)"

definition div64_2by1 :: "limb \<Rightarrow> limb \<Rightarrow> limb \<Rightarrow> limb result" where
  "div64_2by1 ul uh d = bindE (udiv_qrnnd_c uh ul d) (\<lambda>(q, r). Inr q)"

definition add64_with_carry :: "limb \<Rightarrow> limb \<Rightarrow> limb \<Rightarrow> two_words" where
  "add64_with_carry x y c =
     (let r = x + y + c in \<lparr>field_0 = r, field_1 = (if r = x then c else of_bool (r < x))\<rparr>)"

definition sub64_with_borrow :: "limb \<Rightarrow> limb \<Rightarrow> limb \<Rightarrow> two_words" where
  "sub64_with_borrow x y b =
     (let r = x - y - b in \<lparr>field_0 = r, field_1 = (if x < r then 1 else if r = x then b else 0)\<rparr>)"

definition add64_3 :: "limb \<Rightarrow> limb \<Rightarrow> limb \<Rightarrow> two_words" where
  "add64_3 x y z =
     (let r = x + y; c1 = of_bool (r < y); r = r + z; c2 = of_bool (r < z) in \<lparr>field_0 = r, field_1 = c1 + c2\<rparr>)"

text \<open>Shifting by 64 bits or more is undefined.\<close>

definition lsld64 :: "limb \<Rightarrow> limb \<Rightarrow> two_words result" where
  "lsld64 x cnt =
     (if unat (64 - cnt) < 64 \<and> unat cnt < 64
      then Inr \<lparr>field_0 = push_bit (unat cnt) x, field_1 = drop_bit (unat (64 - cnt)) x\<rparr>
      else Inl Bad_shift)"

section \<open>Half-limbs\<close>

lemma ll_parts: "uint (ll_lowpart t) = uint t mod 2 ^ 32" "uint (ll_highpart t) = uint t div 2 ^ 32" "ll_B = GMP_HLIMB_BIT"
proof -
  show B: "ll_B = GMP_HLIMB_BIT" by (simp add: ll_B_def GMP_HLIMB_BIT_def)
  have "GMP_LLIMB_MASK = GMP_HLIMB_BIT - 1" by (simp add: GMP_LLIMB_MASK_def)
  then show "uint (ll_lowpart t) = uint t mod 2 ^ 32" unfolding ll_lowpart_def B using uint_halves(1) [of t] by simp
  show "uint (ll_highpart t) = uint t div 2 ^ 32" unfolding ll_highpart_def by (rule uint_halves(2))
qed

lemma umul_ppmm_gmp: "umul_ppmm u v = gmp_umul_ppmm u v"
proof -
  have m: "ll_B - 1 = GMP_LLIMB_MASK" unfolding ll_parts(3) by (simp add: GMP_LLIMB_MASK_def)
  show ?thesis unfolding umul_ppmm_def gmp_umul_ppmm_def ll_lowpart_def ll_highpart_def m
    unfolding ll_parts(3) ..
qed

lemma or_low_half:
  assumes "uint (x :: limb) < 2 ^ 32" "uint y < 2 ^ 32"
  shows "uint (x * ll_B OR y) = uint x * 2 ^ 32 + uint y"
proof -
  have "x * ll_B = push_bit 32 x" by (simp add: ll_B_def push_bit_eq_mult)
  moreover have "take_bit 32 y = y"
    using assms(2) by (metis take_bit_int_eq_self unsigned_take_bit_eq word_uint_eq_iff uint_bounds(1))
  then have "\<not> bit y n" if "32 \<le> n" for n using that by (metis bit_take_bit_iff not_le)
  then have "push_bit 32 x OR y = push_bit 32 x + y"
    by (intro disjunctive_add [symmetric]) (auto simp: bit_simps)
  ultimately show ?thesis using uint_high_low [OF assms(2), of x] assms(1) by simp
qed

lemma udiv_half_val:
  assumes d: "LIMB_B \<le> 2 * uint d" and n: "uint n1 < uint d" and h: "uint h < 2 ^ 32"
  shows "\<exists>q r. udiv_half n1 h d = Inr (q, r) \<and> uint q = (uint n1 * 2 ^ 32 + uint h) div uint d \<and>
    uint r = (uint n1 * 2 ^ 32 + uint h) mod uint d \<and> uint q < 2 ^ 32"
proof -
  let ?b = "2 ^ 32 :: int"
  define D1 D0 where D: "D1 = uint d div ?b" "D0 = uint d mod ?b"
  have dd: "uint d = D1 * ?b + D0" "0 \<le> D0" "D0 < ?b" unfolding D by simp_all
  then have D1: "?b \<le> 2 * D1" "0 < D1" "D1 < ?b" using d uint_bounds [of d] unfolding LIMB_B_def by auto
  define Q R where Q: "Q = uint n1 div D1" "R = uint n1 mod D1"
  have nn: "uint n1 = Q * D1 + R" "0 \<le> R" "R < D1" "0 \<le> Q" unfolding Q using D1 by (simp_all add: pos_imp_zdiv_nonneg_iff)
  have "Q * D1 \<le> uint n1" using nn by simp
  then have "Q * D1 < D1 * ?b + ?b" using n dd by linarith
  also have "\<dots> \<le> (?b + 2) * D1" using D1 by (simp add: algebra_simps)
  finally have "Q < ?b + 2" using D1 by simp
  then have "Q * D0 \<le> (?b + 1) * (?b - 1)" using nn(4) dd(2,3) by (intro mult_mono) simp_all
  then have QD: "0 \<le> Q * D0" "Q * D0 < LIMB_B" using nn(4) dd(2) by (simp_all add: LIMB_B_def)
  define q1 where "q1 = n1 div ll_highpart d"
  define r1 where "r1 = (n1 - q1 * ll_highpart d) * ll_B OR h"
  define m where "m = q1 * ll_lowpart d"
  have q1: "uint q1 = Q" unfolding q1_def Q D by (simp add: uint_div_distrib ll_parts)
  have "uint (q1 * ll_highpart d) = Q * D1"
    using nn uint_bounds [of n1] unfolding uint_limb_ops(3) q1 ll_parts D [symmetric] by (intro mod_LIMB_B(1)) auto
  moreover have "R < LIMB_B" using nn(3) D1(3) by (simp add: LIMB_B_def)
  ultimately have "uint (n1 - q1 * ll_highpart d) = R" using nn(1,2) unfolding uint_limb_ops(2) by (simp add: mod_LIMB_B(1))
  then have r1: "uint r1 = R * ?b + uint h" unfolding r1_def using nn(3) D1(3) h by (simp add: or_low_half)
  have m: "uint m = Q * D0" unfolding m_def uint_limb_ops(3) q1 ll_parts D [symmetric] using QD by (intro mod_LIMB_B(1))
  obtain q' r' where a: "adjust_qr q1 r1 m d = (q', r')" by force
  obtain e where e: "q' = q1 - of_nat e" "uint (r' - m) = uint r1 - uint m + int e * uint d"
    "0 < e \<Longrightarrow> uint r1 - uint m + int (e - 1) * uint d < 0"
    using adjust_qr_val [OF d a] by metis
  have val: "uint n1 * ?b + uint h = (Q - int e) * uint d + uint (r' - m)"
    unfolding e(2) r1 m nn(1) dd(1) by (simp add: algebra_simps)
  have less: "uint (r' - m) < uint d"
  proof (cases "e = 0")
    case True
    have "(R + 1) * ?b \<le> D1 * ?b" using nn(3) by (intro mult_right_mono) simp_all
    then show ?thesis using True QD(1) h dd unfolding e(2) r1 m by (simp add: distrib_right)
  next
    case False
    then have "int e * uint d = int (e - 1) * uint d + uint d" by (cases e) (simp_all add: distrib_right)
    then show ?thesis using e(3) False unfolding e(2) by simp
  qed
  have dpos: "0 < uint d" using n uint_bounds(1) [of n1] by linarith
  have q: "(uint n1 * ?b + uint h) div uint d = Q - int e" "(uint n1 * ?b + uint h) mod uint d = uint (r' - m)"
    unfolding val using less dpos by simp_all
  have K: "0 \<le> Q - int e" unfolding q(1) [symmetric] using dpos by (simp add: pos_imp_zdiv_nonneg_iff)
  have "(uint n1 + 1) * ?b \<le> uint d * ?b" using n by (intro mult_right_mono) simp_all
  then have "uint n1 * ?b + uint h < ?b * uint d" using h by (simp add: distrib_right)
  then have "(Q - int e) * uint d < ?b * uint d" using val uint_bounds(1) [of "r' - m"] by linarith
  then have K': "Q - int e < ?b" using dpos by simp
  have "uint q' = (Q - int e) mod LIMB_B"
    unfolding e(1) uint_limb_ops(2) q1 by (simp add: LIMB_B_def unsigned_of_nat take_bit_eq_mod zmod_int mod_diff_right_eq)
  then have "uint q' = Q - int e" using K K' by (simp add: mod_LIMB_B(1) LIMB_B_def)
  moreover have "ll_highpart d \<noteq> 0" using D1(2) ll_parts(2) [of d] unfolding D by auto
  then have "udiv_half n1 h d = Inr (q', r' - m)"
    using a unfolding udiv_half_def Let_def q1_def [symmetric] r1_def [symmetric] m_def [symmetric] by simp
  ultimately show ?thesis using q K' by simp
qed


lemma udiv_qrnnd_c_val:
  assumes d: "GMP_LIMB_HIGHBIT \<le> d" and n: "n1 < d"
  shows "\<exists>q r. udiv_qrnnd_c n1 n0 d = Inr (q, r) \<and> uint q = (uint n1 * LIMB_B + uint n0) div uint d \<and>
    uint r = (uint n1 * LIMB_B + uint n0) mod uint d"
proof -
  let ?b = "2 ^ 32 :: int"
  have d': "LIMB_B \<le> 2 * uint d" using d by (simp add: uint_limb_less GMP_LIMB_HIGHBIT_def LIMB_B_def)
  have n': "uint n1 < uint d" using n by (simp add: uint_limb_less)
  have dpos: "0 < uint d" using n' uint_bounds(1) [of n1] by linarith
  have "uint (ll_highpart n0) < ?b" using uint_bounds(2) [of n0] unfolding ll_parts LIMB_B_def by simp
  from udiv_half_val [OF d' n' this] obtain q1 r1 where
    one: "udiv_half n1 (ll_highpart n0) d = Inr (q1, r1)" "uint q1 = (uint n1 * ?b + uint (ll_highpart n0)) div uint d"
      "uint r1 = (uint n1 * ?b + uint (ll_highpart n0)) mod uint d" "uint q1 < ?b" by blast
  have "uint r1 < uint d" unfolding one(3) using dpos by simp
  moreover have "uint (ll_lowpart n0) < ?b" unfolding ll_parts by simp
  ultimately obtain q0 r0 where
    two: "udiv_half r1 (ll_lowpart n0) d = Inr (q0, r0)" "uint q0 = (uint r1 * ?b + uint (ll_lowpart n0)) div uint d"
      "uint r0 = (uint r1 * ?b + uint (ll_lowpart n0)) mod uint d" "uint q0 < ?b"
    using udiv_half_val [OF d'] by blast
  have e1: "uint n1 * ?b + uint (ll_highpart n0) = uint q1 * uint d + uint r1" unfolding one by simp
  have e2: "uint r1 * ?b + uint (ll_lowpart n0) = uint q0 * uint d + uint r0" unfolding two by simp
  have "uint n1 * LIMB_B + uint n0 = (uint n1 * ?b + uint (ll_highpart n0)) * ?b + uint (ll_lowpart n0)"
    unfolding ll_parts LIMB_B_def by simp
  also have "\<dots> = uint q1 * uint d * ?b + (uint r1 * ?b + uint (ll_lowpart n0))" unfolding e1 by (simp add: algebra_simps)
  also have "\<dots> = (uint q1 * ?b + uint q0) * uint d + uint r0" unfolding e2 by (simp add: algebra_simps)
  finally have v: "uint n1 * LIMB_B + uint n0 = (uint q1 * ?b + uint q0) * uint d + uint r0" .
  have "uint r0 < uint d" unfolding two(3) using dpos by simp
  then have "(uint n1 * LIMB_B + uint n0) div uint d = uint q1 * ?b + uint q0" "(uint n1 * LIMB_B + uint n0) mod uint d = uint r0"
    unfolding v using dpos by simp_all
  then show ?thesis using one(1) two(1) or_low_half [OF one(4) two(4)] by (simp add: udiv_qrnnd_c_def)
qed

lemma mul64_double_val: "uint (field_1 (mul64_double x y)) * LIMB_B + uint (field_0 (mul64_double x y)) = uint x * uint y"
  using umul_ppmm_val [of x y] by (simp add: mul64_double_def umul_ppmm_gmp val2_def case_prod_beta)

lemma add64_with_carry_val:
  assumes "uint c \<le> 1"
  shows "uint (field_1 (add64_with_carry x y c)) * LIMB_B + uint (field_0 (add64_with_carry x y c)) = uint x + uint y + uint c \<and>
    uint (field_1 (add64_with_carry x y c)) \<le> 1"
proof -
  let ?r = "x + y + c" and ?S = "uint x + uint y + uint c"
  note u = uint_bounds [of x] uint_bounds [of y] uint_bounds [of c]
  have m: "uint ?r = ?S mod LIMB_B" unfolding uint_limb_ops(1) by (simp add: mod_add_left_eq)
  consider "?S < LIMB_B" "uint ?r = ?S" | "LIMB_B \<le> ?S" "uint ?r = ?S - LIMB_B"
    using m mod_LIMB_B(1,3) [of ?S] u assms by linarith
  then show ?thesis
    unfolding add64_with_carry_def Let_def uint_limb_less word_uint_eq_iff
    by cases (use u assms in auto, (use u in linarith)+)
qed

lemma sub64_with_borrow_val:
  assumes "uint b \<le> 1"
  shows "uint (field_0 (sub64_with_borrow x y b)) - uint (field_1 (sub64_with_borrow x y b)) * LIMB_B = uint x - uint y - uint b \<and>
    uint (field_1 (sub64_with_borrow x y b)) \<le> 1"
proof -
  let ?r = "x - y - b" and ?S = "uint x - uint y - uint b"
  note u = uint_bounds [of x] uint_bounds [of y] uint_bounds [of b]
  have m: "uint ?r = ?S mod LIMB_B" unfolding uint_limb_ops(2) by (simp add: mod_diff_left_eq)
  consider "0 \<le> ?S" "uint ?r = ?S" | "?S < 0" "uint ?r = ?S + LIMB_B"
    using m mod_LIMB_B(1,2) [of ?S] u assms by linarith
  then show ?thesis
    unfolding sub64_with_borrow_def Let_def uint_limb_less word_uint_eq_iff
    by cases (use u assms in auto, (use u in linarith)+)
qed

lemma add64_3_val:
  "uint (field_1 (add64_3 x y z)) * LIMB_B + uint (field_0 (add64_3 x y z)) = uint x + uint y + uint z \<and>
    uint (field_1 (add64_3 x y z)) \<le> 2"
proof -
  let ?p = "x + y < y" and ?q = "x + y + z < z"
  have "uint (x + y + z) = uint x + uint y - LIMB_B * of_bool ?p + uint z - LIMB_B * of_bool ?q"
    unfolding carry_add(1) [of "x + y" z] unfolding carry_add(1) [of x y] ..
  moreover have "uint (of_bool ?p + of_bool ?q :: limb) = of_bool ?p + of_bool ?q" by auto
  ultimately show ?thesis by (auto simp: add64_3_def Let_def)
qed

lemma lsld64_val:
  assumes "0 < unat cnt" "unat cnt < 64"
  shows "\<exists>w. lsld64 x cnt = Inr w \<and> uint (field_1 w) * LIMB_B + uint (field_0 w) = 2 ^ unat cnt * uint x"
proof -
  have "cnt \<le> 64" using assms by (simp add: word_le_nat_alt)
  then have "unat (64 - cnt) = 64 - unat cnt" by (simp add: unat_sub)
  then show ?thesis using shift_parts [OF assms, of x] assms by (simp add: lsld64_def algebra_simps)
qed

section \<open>Properties\<close>

text \<open>
  C28. \<^verbatim>\<open>div64_2by1\<close> divides a two-word number by a normalised divisor above its high word without a division by zero,
  and returns the exact quotient.
\<close>

theorem div64_2by1_correct:
  assumes "GMP_LIMB_HIGHBIT \<le> d" "uh < d"
  shows "\<exists>q. div64_2by1 ul uh d = Inr q \<and> uint q = (uint uh * 2 ^ 64 + uint ul) div uint d"
  using udiv_qrnnd_c_val [OF assms, of ul] by (auto simp: div64_2by1_def LIMB_B_def)

theorem div64_2by1_correct_witness:
  "\<exists>q. div64_2by1 9 7 (2 ^ 63 + 1) = Inr q \<and> uint q = (7 * 2 ^ 64 + 9) div (2 ^ 63 + 1)"
  using div64_2by1_correct [of "2 ^ 63 + 1" 7 9] by (simp add: GMP_LIMB_HIGHBIT_def)

text \<open>
  C29. The product, the sum with carry in, the difference with borrow in and the sum of three words lose nothing: low word,
  high word or carry together are the exact result, and the carries are the single bits, or in a sum of three at most two,
  that the callers add on.
\<close>

theorem word_results_exact:
  assumes "uint c \<le> 1"
  shows "uint (field_1 (mul64_double x y)) * 2 ^ 64 + uint (field_0 (mul64_double x y)) = uint x * uint y \<and>
    uint (field_1 (add64_with_carry x y c)) * 2 ^ 64 + uint (field_0 (add64_with_carry x y c)) = uint x + uint y + uint c \<and>
    uint (field_1 (add64_with_carry x y c)) \<le> 1 \<and>
    uint (field_0 (sub64_with_borrow x y c)) - uint (field_1 (sub64_with_borrow x y c)) * 2 ^ 64 = uint x - uint y - uint c \<and>
    uint (field_1 (sub64_with_borrow x y c)) \<le> 1 \<and>
    uint (field_1 (add64_3 x y z)) * 2 ^ 64 + uint (field_0 (add64_3 x y z)) = uint x + uint y + uint z \<and>
    uint (field_1 (add64_3 x y z)) \<le> 2"
  using mul64_double_val [of x y] add64_with_carry_val [OF assms, of x y] sub64_with_borrow_val [OF assms, of x y] add64_3_val [of x y z]
  unfolding LIMB_B_def by blast

theorem word_results_exact_witness:
  "uint (1 :: limb) \<le> 1 \<and> uint (field_1 (add64_with_carry (- 1) (- 1) 1)) * 2 ^ 64 + uint (field_0 (add64_with_carry (- 1) (- 1) 1)) =
    uint (- 1 :: limb) + uint (- 1 :: limb) + uint (1 :: limb)"
  using word_results_exact [of 1 "- 1" "- 1"] by simp

text \<open>
  \<^verbatim>\<open>lsld64\<close> is the exact double-width shift for counts from 1 to 63, and undefined for every other count, zero included.
\<close>

theorem lsld64_cases:
  "(\<exists>w. lsld64 x cnt = Inr w \<and> 0 < unat cnt \<and> unat cnt < 64 \<and>
      uint (field_1 w) * 2 ^ 64 + uint (field_0 w) = 2 ^ unat cnt * uint x) \<or>
    (lsld64 x cnt = Inl Bad_shift \<and> (unat cnt = 0 \<or> 64 \<le> unat cnt))"
proof (cases "0 < unat cnt \<and> unat cnt < 64")
  case True
  then show ?thesis using lsld64_val [of cnt x] by (auto simp: LIMB_B_def)
next
  case False
  then consider "unat cnt = 0" | "64 \<le> unat cnt" by linarith
  then show ?thesis
  proof cases
    case 1
    then have "cnt = 0" by (simp add: unat_eq_0)
    then show ?thesis by (simp add: lsld64_def)
  next
    case 2
    then show ?thesis by (simp add: lsld64_def)
  qed
qed

end
