(* ===== verification/Mt64.thy ===== *)
theory Mt64
  imports Mpn_Basic C_Double
begin

unbundle bit_operations_syntax

text \<open>
  The 64-bit Mersenne twister \<^verbatim>\<open>random/mt19937-64.c\<close>: the state vector with its position, the two
  initialisations, the regeneration of the vector, the tempering of the results and the scaling to real intervals.
\<close>

section \<open>The generator\<close>

definition NN :: nat where "NN = 312"
definition MM :: nat where "MM = 156"
definition MATRIX_A :: "64 word" where "MATRIX_A = 0xB5026F5AA96619E9"
definition UM :: "64 word" where "UM = 0xFFFFFFFF80000000"
definition LM :: "64 word" where "LM = 0x7FFFFFFF"

record mt_state =
  mt :: "64 word list"
  mti :: nat

type_synonym 'a mtp = "(mt_state, 'a) prog"

text \<open>The static initial values: a zero vector that counts as not initialised.\<close>

definition mt_static :: mt_state where
  "mt_static = \<lparr>mt = replicate NN 0, mti = NN + 1\<rparr>"

definition rd :: "nat \<Rightarrow> 64 word mtp" where
  "rd i s = (if i < length (mt s) then Inr (mt s ! i, s) else Inl (Out_of_bounds, s))"

definition wr :: "nat \<Rightarrow> 64 word \<Rightarrow> unit mtp" where
  "wr i x s = (if i < length (mt s) then Inr ((), s\<lparr>mt := (mt s)[i := x]\<rparr>) else Inl (Out_of_bounds, s))"

definition init_genrand64 :: "64 word \<Rightarrow> unit mtp" where
  "init_genrand64 seed =
     bindS (wr 0 seed) (\<lambda>_.
     bindS (for_up 1 (NN - 1) (\<lambda>i _.
       bindS (rd (i - 1)) (\<lambda>p.
       wr i (6364136223846793005 * (p XOR drop_bit 62 p) + of_nat i))) ()) (\<lambda>_.
     modify (\<lambda>s. s\<lparr>mti := NN\<rparr>)))"

definition key_at :: "64 word list \<Rightarrow> nat \<Rightarrow> 64 word mtp" where
  "key_at key j = (if j < length key then ret (key ! j) else stop Out_of_bounds)"

text \<open>The step of the index that both loops of \<^verbatim>\<open>init_by_array64\<close> share.\<close>

definition next_index :: "nat \<Rightarrow> nat mtp" where
  "next_index i =
     (if NN \<le> i + 1 then bindS (rd (NN - 1)) (\<lambda>x. bindS (wr 0 x) (\<lambda>_. ret 1)) else ret (i + 1))"

definition init_by_array64 :: "64 word list \<Rightarrow> nat \<Rightarrow> unit mtp" where
  "init_by_array64 init_key key_length =
     bindS (init_genrand64 19650218) (\<lambda>_.
     bindS (for_up 0 (if key_length < NN then NN else key_length) (\<lambda>_ (i, j).
       bindS (rd i) (\<lambda>x.
       bindS (rd (i - 1)) (\<lambda>p.
       bindS (key_at init_key j) (\<lambda>k.
       bindS (wr i ((x XOR ((p XOR drop_bit 62 p) * 3935559000370003845)) + k + of_nat j)) (\<lambda>_.
       bindS (next_index i) (\<lambda>i.
       ret (i, if key_length \<le> j + 1 then 0 else j + 1))))))) (1, 0)) (\<lambda>(i, j).
     bindS (for_up 0 (NN - 1) (\<lambda>_ i.
       bindS (rd i) (\<lambda>x.
       bindS (rd (i - 1)) (\<lambda>p.
       bindS (wr i ((x XOR ((p XOR drop_bit 62 p) * 2862933555777941757)) - of_nat i)) (\<lambda>_.
       next_index i)))) i) (\<lambda>_.
     wr 0 (push_bit 63 1))))"

definition twist :: "64 word \<Rightarrow> 64 word \<Rightarrow> 64 word" where
  "twist u v =
     (let x = (u AND UM) OR (v AND LM) in drop_bit 1 x XOR (if x AND 1 = 0 then 0 else MATRIX_A))"

text \<open>One assignment of the regeneration: \<open>mt[i] = mt[m] ^ twist (mt[i], mt[n])\<close>.\<close>

definition regen :: "nat \<Rightarrow> nat \<Rightarrow> nat \<Rightarrow> unit mtp" where
  "regen i n m =
     bindS (rd i) (\<lambda>u.
     bindS (rd n) (\<lambda>v.
     bindS (rd m) (\<lambda>w.
     wr i (w XOR twist u v))))"

definition generate :: "unit mtp" where
  "generate =
     bindS (for_up 0 (NN - MM) (\<lambda>i _. regen i (i + 1) (i + MM)) ()) (\<lambda>_.
     bindS (for_up (NN - MM) (NN - 1 - (NN - MM)) (\<lambda>i _. regen i (i + 1) (i - (NN - MM))) ()) (\<lambda>_.
     regen (NN - 1) 0 (MM - 1)))"

definition temper :: "64 word \<Rightarrow> 64 word" where
  "temper x =
     (let x = x XOR (drop_bit 29 x AND 0x5555555555555555);
          x = x XOR (push_bit 17 x AND 0x71D67FFFEDA60000);
          x = x XOR (push_bit 37 x AND 0xFFF7EEE000000000)
      in x XOR drop_bit 43 x)"

definition genrand64_int64 :: "64 word mtp" where
  "genrand64_int64 =
     bindS (gets mti) (\<lambda>n.
     bindS (whenS (NN \<le> n)
       (bindS (whenS (n = NN + 1) (init_genrand64 5489)) (\<lambda>_.
        bindS generate (\<lambda>_.
        modify (\<lambda>s. s\<lparr>mti := 0\<rparr>))))) (\<lambda>_.
     bindS (gets mti) (\<lambda>n.
     bindS (rd n) (\<lambda>x.
     bindS (modify (\<lambda>s. s\<lparr>mti := n + 1\<rparr>)) (\<lambda>_.
     ret (temper x))))))"

definition genrand64_int63 :: "int mtp" where
  "genrand64_int63 = bindS genrand64_int64 (\<lambda>x. ret (sint (drop_bit 1 x)))"

text \<open>
  The results on real intervals.  The conversion of a word below \<open>2^53\<close> is exact; the constants are the compiler's
  divisions, rounded once, and the product is rounded again.
\<close>

definition d_mul :: "dbl \<Rightarrow> dbl \<Rightarrow> dbl" where
  "d_mul x y = d_round (fst x * fst y) (2 ^ (snd x + snd y))"

definition genrand64_real1 :: "dbl mtp" where
  "genrand64_real1 = bindS genrand64_int64 (\<lambda>x. ret (d_mul (unat (drop_bit 11 x), 0) (d_round 1 9007199254740991)))"

definition genrand64_real2 :: "dbl mtp" where
  "genrand64_real2 = bindS genrand64_int64 (\<lambda>x. ret (d_mul (unat (drop_bit 11 x), 0) (d_round 1 9007199254740992)))"

definition genrand64_real3 :: "dbl mtp" where
  "genrand64_real3 = bindS genrand64_int64 (\<lambda>x.
     ret (d_mul (d_add (unat (drop_bit 12 x), 0) (d_round 1 2)) (d_round 1 4503599627370496)))"

section \<open>The recurrence\<close>

text \<open>
  The sequence that a vector starts: its elements, then \<open>y(k + 312) = y(k + 156) XOR twist (y k) (y (k + 1))\<close>.
\<close>

function mt_seq :: "64 word list \<Rightarrow> nat \<Rightarrow> 64 word" where
  "mt_seq xs k =
     (if k < NN then xs ! k
      else mt_seq xs (k - NN + MM) XOR twist (mt_seq xs (k - NN)) (mt_seq xs (k - NN + 1)))"
  by pat_completeness auto
termination
  by (relation "measure snd") (simp_all add: NN_def MM_def)

declare mt_seq.simps [simp del]

lemma mt_seq_less: "k < NN \<Longrightarrow> mt_seq xs k = xs ! k"
  by (subst mt_seq.simps) simp

lemma mt_seq_NN: "mt_seq xs (NN + k) = mt_seq xs (k + MM) XOR twist (mt_seq xs k) (mt_seq xs (k + 1))"
  by (subst mt_seq.simps) simp

text \<open>The vector while it is regenerated: the first \<open>i\<close> elements are new.\<close>

definition mixed :: "64 word list \<Rightarrow> nat \<Rightarrow> 64 word list" where
  "mixed xs i = map (\<lambda>j. if j < i then mt_seq xs (NN + j) else xs ! j) [0..<NN]"

lemma length_mixed [simp]: "length (mixed xs i) = NN"
  by (simp add: mixed_def)

lemma nth_mixed: "j < NN \<Longrightarrow> mixed xs i ! j = (if j < i then mt_seq xs (NN + j) else xs ! j)"
  by (simp add: mixed_def)

lemma mixed_0: "length xs = NN \<Longrightarrow> mixed xs 0 = xs"
  by (simp add: list_eq_iff_nth_eq nth_mixed)

lemma mixed_Suc: "(mixed xs i)[i := mt_seq xs (NN + i)] = mixed xs (Suc i)"
  by (auto simp: list_eq_iff_nth_eq nth_mixed nth_list_update less_Suc_eq)

lemma regen_mixed:
  assumes "i < NN" "n < NN" "m < NN" "mixed xs i ! n = mt_seq xs (i + 1)" "mixed xs i ! m = mt_seq xs (i + MM)"
  shows "regen i n m (s\<lparr>mt := mixed xs i\<rparr>) = Inr ((), s\<lparr>mt := mixed xs (Suc i)\<rparr>)"
proof -
  have "(mixed xs i)[i := mt_seq xs (i + MM) XOR twist (xs ! i) (mt_seq xs (i + 1))] = mixed xs (Suc i)"
    using mixed_Suc [of xs i] assms(1) by (simp add: mt_seq_NN mt_seq_less [of i])
  then show ?thesis using assms by (simp add: regen_def rd_def wr_def bindS_def nth_mixed [of i])
qed

lemma generate_spec:
  assumes "length (mt s) = NN"
  shows "generate s = Inr ((), s\<lparr>mt := mixed (mt s) NN\<rparr>)"
proof -
  let ?xs = "mt s"
  let ?P = "\<lambda>i (_ :: unit) t. t = s\<lparr>mt := mixed ?xs i\<rparr>"
  have one: "\<exists>c t. for_up 0 (NN - MM) (\<lambda>i _. regen i (i + 1) (i + MM)) () s = Inr (c, t) \<and> ?P (0 + (NN - MM)) c t"
  proof (rule for_up_inv)
    fix i :: nat and c :: unit and t assume i: "i < 0 + (NN - MM)" "?P i c t"
    then have "mixed ?xs i ! (i + 1) = mt_seq ?xs (i + 1)" "mixed ?xs i ! (i + MM) = mt_seq ?xs (i + MM)"
      by (simp_all add: nth_mixed mt_seq_less NN_def MM_def)
    then show "\<exists>c' t'. regen i (i + 1) (i + MM) t = Inr (c', t') \<and> ?P (Suc i) c' t'"
      using i regen_mixed [of i "i + 1" "i + MM" ?xs s] by (simp add: NN_def MM_def)
  qed (simp add: mixed_0 [OF assms])
  have two: "\<exists>c t. for_up (NN - MM) (NN - 1 - (NN - MM)) (\<lambda>i _. regen i (i + 1) (i - (NN - MM))) () (s\<lparr>mt := mixed ?xs (NN - MM)\<rparr>) =
      Inr (c, t) \<and> ?P ((NN - MM) + (NN - 1 - (NN - MM))) c t"
  proof (rule for_up_inv)
    fix i :: nat and c :: unit and t assume i: "NN - MM \<le> i" "i < (NN - MM) + (NN - 1 - (NN - MM))" "?P i c t"
    then have "mixed ?xs i ! (i + 1) = mt_seq ?xs (i + 1)" by (simp add: nth_mixed mt_seq_less NN_def MM_def)
    moreover have "NN + (i - (NN - MM)) = i + MM" using i by (simp add: NN_def MM_def)
    then have "mixed ?xs i ! (i - (NN - MM)) = mt_seq ?xs (i + MM)" using i by (simp add: nth_mixed) (simp add: NN_def MM_def)
    ultimately show "\<exists>c' t'. regen i (i + 1) (i - (NN - MM)) t = Inr (c', t') \<and> ?P (Suc i) c' t'"
      using i regen_mixed [of i "i + 1" "i - (NN - MM)" ?xs s] by (simp add: NN_def MM_def)
  qed simp
  have three: "regen (NN - 1) 0 (MM - 1) (s\<lparr>mt := mixed ?xs (NN - 1)\<rparr>) = Inr ((), s\<lparr>mt := mixed ?xs NN\<rparr>)"
    using regen_mixed [of "NN - 1" 0 "MM - 1" ?xs s] by (simp add: nth_mixed NN_def MM_def)
  show ?thesis using one two three by (simp add: generate_def bindS_def NN_def MM_def del: for_up.simps)
qed

section \<open>Tempering\<close>

lemma xor_shift_right_inj:
  fixes x y m :: "64 word"
  assumes "0 < k" "x XOR (drop_bit k x AND m) = y XOR (drop_bit k y AND m)"
  shows "x = y"
proof (rule bit_word_eqI)
  have "bit x n = bit y n" for n
  proof (induction "64 - n" arbitrary: n rule: less_induct)
    case less
    show ?case
    proof (cases "n < 64")
      case True
      then have "bit x (k + n) = bit y (k + n)" using assms(1) by (intro less) simp
      moreover have "bit (x XOR (drop_bit k x AND m)) n = bit (y XOR (drop_bit k y AND m)) n" using assms(2) by simp
      ultimately show ?thesis by (auto simp: bit_simps)
    qed (auto dest: bit_imp_le_length)
  qed
  then show "bit x n \<longleftrightarrow> bit y n" for n by simp
qed

lemma xor_shift_left_inj:
  fixes x y m :: "64 word"
  assumes "0 < k" "x XOR (push_bit k x AND m) = y XOR (push_bit k y AND m)"
  shows "x = y"
proof (rule bit_word_eqI)
  have "bit x n = bit y n" for n
  proof (induction n rule: less_induct)
    case (less n)
    have "k \<le> n \<Longrightarrow> bit x (n - k) = bit y (n - k)" using assms(1) by (intro less) simp
    moreover have "bit (x XOR (push_bit k x AND m)) n = bit (y XOR (push_bit k y AND m)) n" using assms(2) by simp
    ultimately show ?case by (auto simp: bit_simps dest: bit_imp_le_length)
  qed
  then show "bit x n \<longleftrightarrow> bit y n" for n by simp
qed

lemma temper_inj: "temper x = temper y \<Longrightarrow> x = y"
proof -
  define f1 f2 f3 f4 :: "64 word \<Rightarrow> 64 word" where f: "f1 = (\<lambda>x. x XOR (drop_bit 29 x AND 0x5555555555555555))"
    "f2 = (\<lambda>x. x XOR (push_bit 17 x AND 0x71D67FFFEDA60000))" "f3 = (\<lambda>x. x XOR (push_bit 37 x AND 0xFFF7EEE000000000))"
    "f4 = (\<lambda>x. x XOR (drop_bit 43 x AND - 1))"
  have i: "inj f1" "inj f2" "inj f3" "inj f4"
    unfolding f by (rule injI; erule xor_shift_right_inj [rotated] xor_shift_left_inj [rotated]; simp)+
  assume "temper x = temper y"
  then have "f4 (f3 (f2 (f1 x))) = f4 (f3 (f2 (f1 y)))" by (simp add: temper_def f Let_def)
  from injD [OF i(1) injD [OF i(2) injD [OF i(3) injD [OF i(4) this]]]] show "x = y" .
qed

section \<open>Initialisation\<close>

lemma wr_ok: "i < length (mt s) \<Longrightarrow> wr i x s = Inr ((), s\<lparr>mt := (mt s)[i := x]\<rparr>)"
  by (simp add: wr_def)

lemma init_genrand64_ok:
  assumes "length (mt s) = NN"
  shows "\<exists>xs. init_genrand64 seed s = Inr ((), s\<lparr>mt := xs, mti := NN\<rparr>) \<and> length xs = NN"
proof -
  let ?body = "\<lambda>i (_ :: unit). bindS (rd (i - 1)) (\<lambda>p. wr i (6364136223846793005 * (p XOR drop_bit 62 p) + of_nat i))"
  let ?P = "\<lambda>i (_ :: unit) t. \<exists>xs. t = s\<lparr>mt := xs\<rparr> \<and> length xs = NN"
  have "\<exists>c t. for_up 1 (NN - 1) ?body () (s\<lparr>mt := (mt s)[0 := seed]\<rparr>) = Inr (c, t) \<and> ?P (1 + (NN - 1)) c t"
  proof (rule for_up_inv)
    fix i :: nat and c :: unit and t assume i: "1 \<le> i" "i < 1 + (NN - 1)" "?P i c t"
    then show "\<exists>c' t'. ?body i c t = Inr (c', t') \<and> ?P (Suc i) c' t'"
      by (auto simp: bindS_def rd_def wr_def NN_def)
  qed (use assms in auto)
  then show ?thesis using assms by (auto simp: init_genrand64_def bindS_def wr_ok NN_def simp del: for_up.simps)
qed


lemma next_index_ok:
  assumes "length (mt s) = NN" "1 \<le> i" "i < NN"
  shows "\<exists>i' xs. next_index i s = Inr (i', s\<lparr>mt := xs\<rparr>) \<and> length xs = NN \<and> 1 \<le> i' \<and> i' < NN"
proof (cases "NN \<le> i + 1")
  case True
  then have "next_index i s = Inr (1, s\<lparr>mt := (mt s)[0 := mt s ! (NN - 1)]\<rparr>)"
    using assms(1) by (simp add: next_index_def bindS_def rd_def wr_def NN_def)
  then show ?thesis using assms(1) by (intro exI conjI) (assumption, simp_all add: NN_def)
next
  case False
  then have "next_index i s = Inr (i + 1, s\<lparr>mt := mt s\<rparr>)" by (simp add: next_index_def ret_def)
  then show ?thesis using assms(1) False by (intro exI conjI) (assumption, simp_all)
qed

lemma key_loop_ok:
  assumes "length xs = NN" "0 < n" "n \<le> length key"
  shows "\<exists>i j ys. for_up 0 k (\<lambda>_ (i, j). bindS (rd i) (\<lambda>x. bindS (rd (i - 1)) (\<lambda>p. bindS (key_at key j) (\<lambda>k.
      bindS (wr i ((x XOR ((p XOR drop_bit 62 p) * 3935559000370003845)) + k + of_nat j)) (\<lambda>_.
      bindS (next_index i) (\<lambda>i. ret (i, if n \<le> j + 1 then 0 else j + 1))))))) (1, 0) (s\<lparr>mt := xs\<rparr>) =
    Inr ((i, j), s\<lparr>mt := ys\<rparr>) \<and> length ys = NN \<and> 1 \<le> i \<and> i < NN"
proof -
  let ?P = "\<lambda>_ (i, j) t. \<exists>ys. t = s\<lparr>mt := ys\<rparr> \<and> length ys = NN \<and> 1 \<le> i \<and> i < NN \<and> j < n"
  let ?body = "\<lambda>_ (i, j). bindS (rd i) (\<lambda>x. bindS (rd (i - 1)) (\<lambda>p. bindS (key_at key j) (\<lambda>k.
      bindS (wr i ((x XOR ((p XOR drop_bit 62 p) * 3935559000370003845)) + k + of_nat j)) (\<lambda>_.
      bindS (next_index i) (\<lambda>i. ret (i, if n \<le> j + 1 then 0 else j + 1))))))"
  have "\<exists>c t. for_up 0 k ?body (1, 0) (s\<lparr>mt := xs\<rparr>) = Inr (c, t) \<and> ?P (0 + k) c t"
  proof (rule for_up_inv)
    fix l :: nat and c and t assume P: "?P l c t"
    obtain i j where c: "c = (i, j)" by force
    from P c obtain ys where t: "t = s\<lparr>mt := ys\<rparr>" "length ys = NN" "1 \<le> i" "i < NN" "j < n" by auto
    let ?y = "(ys ! i XOR ((ys ! (i - 1) XOR drop_bit 62 (ys ! (i - 1))) * 3935559000370003845)) + key ! j + of_nat j"
    obtain i' zs where i': "next_index i (s\<lparr>mt := ys[i := ?y]\<rparr>) = Inr (i', s\<lparr>mt := zs\<rparr>)" "length zs = NN" "1 \<le> i'" "i' < NN"
      using next_index_ok [of "s\<lparr>mt := ys[i := ?y]\<rparr>" i] t by auto
    have "?body l c t = Inr ((i', if n \<le> j + 1 then 0 else j + 1), s\<lparr>mt := zs\<rparr>)"
      using t i'(1) assms(3) by (simp add: c bindS_def rd_def wr_def key_at_def)
    then show "\<exists>c' t'. ?body l c t = Inr (c', t') \<and> ?P (Suc l) c' t'" using i' assms(2) by auto
  qed (use assms in \<open>auto simp: NN_def\<close>)
  then show ?thesis by auto
qed

lemma mix_loop_ok:
  assumes "length xs = NN" "1 \<le> i" "i < NN"
  shows "\<exists>i' ys. for_up 0 k (\<lambda>_ i. bindS (rd i) (\<lambda>x. bindS (rd (i - 1)) (\<lambda>p.
      bindS (wr i ((x XOR ((p XOR drop_bit 62 p) * 2862933555777941757)) - of_nat i)) (\<lambda>_. next_index i)))) i (s\<lparr>mt := xs\<rparr>) =
    Inr (i', s\<lparr>mt := ys\<rparr>) \<and> length ys = NN"
proof -
  let ?P = "\<lambda>_ i t. \<exists>ys. t = s\<lparr>mt := ys\<rparr> \<and> length ys = NN \<and> 1 \<le> i \<and> i < NN"
  let ?body = "\<lambda>_ i. bindS (rd i) (\<lambda>x. bindS (rd (i - 1)) (\<lambda>p.
      bindS (wr i ((x XOR ((p XOR drop_bit 62 p) * 2862933555777941757)) - of_nat i)) (\<lambda>_. next_index i)))"
  have "\<exists>c t. for_up 0 k ?body i (s\<lparr>mt := xs\<rparr>) = Inr (c, t) \<and> ?P (0 + k) c t"
  proof (rule for_up_inv)
    fix l i :: nat and t assume "?P l i t"
    then obtain ys where t: "t = s\<lparr>mt := ys\<rparr>" "length ys = NN" "1 \<le> i" "i < NN" by auto
    let ?y = "(ys ! i XOR ((ys ! (i - 1) XOR drop_bit 62 (ys ! (i - 1))) * 2862933555777941757)) - of_nat i"
    obtain i' zs where i': "next_index i (s\<lparr>mt := ys[i := ?y]\<rparr>) = Inr (i', s\<lparr>mt := zs\<rparr>)" "length zs = NN" "1 \<le> i'" "i' < NN"
      using next_index_ok [of "s\<lparr>mt := ys[i := ?y]\<rparr>" i] t by auto
    have "?body l i t = Inr (i', s\<lparr>mt := zs\<rparr>)" using t i'(1) by (simp add: bindS_def rd_def wr_def)
    then show "\<exists>c' t'. ?body l i t = Inr (c', t') \<and> ?P (Suc l) c' t'" using i' by auto
  qed (use assms in auto)
  then show ?thesis by auto
qed

lemma init_by_array64_ok:
  assumes "length (mt s) = NN" "0 < n" "n \<le> length key"
  shows "\<exists>xs. init_by_array64 key n s = Inr ((), s\<lparr>mt := xs, mti := NN\<rparr>) \<and> length xs = NN \<and> xs ! 0 = push_bit 63 1"
proof -
  obtain xs where a: "init_genrand64 19650218 s = Inr ((), s\<lparr>mt := xs, mti := NN\<rparr>)" "length xs = NN"
    using init_genrand64_ok [OF assms(1)] by blast
  let ?s = "s\<lparr>mti := NN\<rparr>"
  have a': "s\<lparr>mt := xs, mti := NN\<rparr> = ?s\<lparr>mt := xs\<rparr>" by simp
  obtain i j ys where b: "for_up 0 (if n < NN then NN else n) (\<lambda>_ (i, j). bindS (rd i) (\<lambda>x. bindS (rd (i - 1)) (\<lambda>p. bindS (key_at key j) (\<lambda>k.
      bindS (wr i ((x XOR ((p XOR drop_bit 62 p) * 3935559000370003845)) + k + of_nat j)) (\<lambda>_.
      bindS (next_index i) (\<lambda>i. ret (i, if n \<le> j + 1 then 0 else j + 1))))))) (1, 0) (?s\<lparr>mt := xs\<rparr>) =
    Inr ((i, j), ?s\<lparr>mt := ys\<rparr>)" "length ys = NN" "1 \<le> i" "i < NN"
    using key_loop_ok [OF a(2) assms(2,3)] by blast
  obtain i' zs where c: "for_up 0 (NN - 1) (\<lambda>_ i. bindS (rd i) (\<lambda>x. bindS (rd (i - 1)) (\<lambda>p.
      bindS (wr i ((x XOR ((p XOR drop_bit 62 p) * 2862933555777941757)) - of_nat i)) (\<lambda>_. next_index i)))) i (?s\<lparr>mt := ys\<rparr>) =
    Inr (i', ?s\<lparr>mt := zs\<rparr>)" "length zs = NN"
    using mix_loop_ok [OF b(2-4)] by blast
  have "0 < NN" by (simp add: NN_def)
  then have "init_by_array64 key n s = Inr ((), ?s\<lparr>mt := zs[0 := push_bit 63 1]\<rparr>)"
    unfolding init_by_array64_def using a(1) b(1) c wr_ok [of 0 "?s\<lparr>mt := zs\<rparr>"] unfolding a' by (simp add: bindS_def del: for_up.simps)
  then show ?thesis using c(2) \<open>0 < NN\<close> by (intro exI [of _ "zs[0 := push_bit 63 1]"]) simp
qed

section \<open>The stream of results\<close>

definition mt_ok :: "mt_state \<Rightarrow> bool" where
  "mt_ok s \<longleftrightarrow> length (mt s) = NN \<and> mti s \<le> NN + 1"

text \<open>The results of \<open>n\<close> successive calls.\<close>

primrec draws :: "nat \<Rightarrow> 64 word list mtp" where
  "draws 0 = ret []"
| "draws (Suc n) = bindS genrand64_int64 (\<lambda>x. bindS (draws n) (\<lambda>xs. ret (x # xs)))"

lemma mt_seq_shift:
  assumes "\<And>i. i < NN \<Longrightarrow> ys ! i = mt_seq xs (c + i)"
  shows "mt_seq ys k = mt_seq xs (c + k)"
proof (induction k rule: less_induct)
  case (less k)
  show ?case
  proof (cases "k < NN")
    case False
    then obtain l where k: "k = NN + l" using le_Suc_ex linorder_not_less by blast
    have "mt_seq ys (l + MM) = mt_seq xs (c + (l + MM))" "mt_seq ys l = mt_seq xs (c + l)"
      "mt_seq ys (l + 1) = mt_seq xs (c + (l + 1))"
      by (rule less; simp add: k NN_def MM_def)+
    moreover have "c + k = NN + (c + l)" by (simp add: k)
    ultimately show ?thesis unfolding k by (simp add: mt_seq_NN add.assoc add.left_commute [of c NN])
  qed (use assms in \<open>simp add: mt_seq_less\<close>)
qed

text \<open>The vector holds a block of the sequence that \<open>xs\<close> starts, and \<open>k\<close> is the element that comes next.\<close>

definition at_pos :: "64 word list \<Rightarrow> nat \<Rightarrow> mt_state \<Rightarrow> bool" where
  "at_pos xs k s \<longleftrightarrow> length (mt s) = NN \<and> mti s \<le> NN \<and> mti s \<le> k \<and> (\<forall>i<NN. mt s ! i = mt_seq xs (k - mti s + i))"

lemma int64_within:
  assumes "length (mt s) = NN" "mti s < NN"
  shows "genrand64_int64 s = Inr (temper (mt s ! mti s), s\<lparr>mti := mti s + 1\<rparr>)"
  using assms by (simp add: genrand64_int64_def bindS_def rd_def)

lemma int64_regenerates:
  assumes "length (mt s) = NN" "mti s = NN"
  shows "genrand64_int64 s = genrand64_int64 (s\<lparr>mt := mixed (mt s) NN, mti := 0\<rparr>)"
proof -
  have "genrand64_int64 s = Inr (temper (mixed (mt s) NN ! 0), s\<lparr>mt := mixed (mt s) NN, mti := 1\<rparr>)"
    using assms generate_spec [OF assms(1)] by (simp add: genrand64_int64_def bindS_def rd_def) (simp add: NN_def)
  then show ?thesis using int64_within [of "s\<lparr>mt := mixed (mt s) NN, mti := 0\<rparr>"] by (simp add: NN_def)
qed

lemma int64_at_pos_within:
  assumes "at_pos xs k s" "mti s < NN"
  shows "\<exists>t. genrand64_int64 s = Inr (temper (mt_seq xs k), t) \<and> at_pos xs (Suc k) t"
proof -
  have "mt s ! mti s = mt_seq xs k" using assms by (simp add: at_pos_def)
  then show ?thesis using assms int64_within [of s] by (auto simp: at_pos_def)
qed

lemma int64_at_pos:
  assumes "at_pos xs k s"
  shows "\<exists>t. genrand64_int64 s = Inr (temper (mt_seq xs k), t) \<and> at_pos xs (Suc k) t"
proof (cases "mti s < NN")
  case True
  then show ?thesis by (rule int64_at_pos_within [OF assms])
next
  case False
  then have n: "mti s = NN" "length (mt s) = NN" "NN \<le> k" using assms by (auto simp: at_pos_def)
  let ?t = "s\<lparr>mt := mixed (mt s) NN, mti := 0\<rparr>"
  have "mt_seq (mt s) (NN + i) = mt_seq xs (k + i)" for i
    using mt_seq_shift [of "mt s" xs "k - NN" "NN + i"] assms n by (simp add: at_pos_def)
  then have "at_pos xs k ?t" by (simp add: at_pos_def nth_mixed)
  then show ?thesis using int64_at_pos_within [of xs k ?t] int64_regenerates [OF n(2,1)] by (simp add: NN_def)
qed

lemma draws_at_pos:
  "at_pos xs k s \<Longrightarrow> \<exists>t. draws n s = Inr (map (\<lambda>i. temper (mt_seq xs i)) [k..<k + n], t) \<and> at_pos xs (k + n) t"
proof (induction n arbitrary: k s)
  case (Suc n)
  obtain t where t: "genrand64_int64 s = Inr (temper (mt_seq xs k), t)" "at_pos xs (Suc k) t"
    using int64_at_pos [OF Suc.prems] by blast
  obtain u where u: "draws n t = Inr (map (\<lambda>i. temper (mt_seq xs i)) [Suc k..<Suc k + n], u)" "at_pos xs (Suc k + n) u"
    using Suc.IH [OF t(2)] by blast
  have "[k..<k + Suc n] = k # [Suc k..<Suc k + n]" by (simp add: upt_conv_Cons)
  then show ?case using t u by (simp add: bindS_def ret_def del: upt_Suc)
qed (simp add: ret_def)

lemma int64_ok:
  assumes "mt_ok s"
  shows "\<exists>x t. genrand64_int64 s = Inr (x, t) \<and> mt_ok t"
proof (cases "mti s \<le> NN")
  case True
  then show ?thesis
    using assms int64_within [of s] int64_regenerates [of s] int64_within [of "s\<lparr>mt := mixed (mt s) NN, mti := 0\<rparr>"]
    by (cases "mti s < NN") (auto simp: mt_ok_def NN_def)
next
  case False
  then have n: "mti s = NN + 1" "length (mt s) = NN" using assms by (auto simp: mt_ok_def)
  obtain xs where a: "init_genrand64 5489 s = Inr ((), s\<lparr>mt := xs, mti := NN\<rparr>)" "length xs = NN"
    using init_genrand64_ok [OF n(2)] by blast
  show ?thesis using a n generate_spec [of "s\<lparr>mt := xs, mti := NN\<rparr>"]
    by (simp add: genrand64_int64_def bindS_def rd_def mt_ok_def) (simp add: NN_def)
qed

lemma int63_bounds: "0 \<le> sint (drop_bit 1 x :: 64 word) \<and> sint (drop_bit 1 x :: 64 word) < 2 ^ 63"
proof -
  have "uint (drop_bit 1 x :: 64 word) = uint x div 2" by (simp add: drop_bit_eq_div uint_div_distrib)
  moreover have "0 \<le> uint x" "uint x < 2 * 2 ^ 63" using uint_bounded [of x] by simp_all
  then have "0 \<le> uint x div 2" "uint x div 2 < 2 ^ 63" by simp_all
  ultimately have d: "0 \<le> uint (drop_bit 1 x :: 64 word)" "uint (drop_bit 1 x :: 64 word) < 2 ^ 63" by simp_all
  have self: "0 \<le> u \<Longrightarrow> u < 2 ^ 63 \<Longrightarrow> signed_take_bit 63 u = u" for u :: int
    by (rule signed_take_bit_int_eq_self) simp_all
  have "sint (drop_bit 1 x :: 64 word) = uint (drop_bit 1 x :: 64 word)"
    using self [OF d] by (simp add: sint_uint)
  with d show ?thesis by simp
qed

section \<open>Results on real intervals\<close>

lemma d_scale_reaches: "p \<noteq> 0 \<Longrightarrow> 2 ^ 52 * q \<le> p * 2 ^ d_scale p q k"
  by (induction p q k rule: d_scale.induct) (subst d_scale.simps, auto)

lemma d_scale_eq:
  assumes "2 ^ 52 * q \<le> p * 2 ^ n" "\<And>j. j < n \<Longrightarrow> p * 2 ^ j < 2 ^ 52 * q" "k \<le> n" "p \<noteq> 0"
  shows "d_scale p q k = n"
  using assms(3)
proof (induction "n - k" arbitrary: k)
  case 0
  then show ?case using assms(1) by (subst d_scale.simps) simp
next
  case (Suc m)
  then have "d_scale p q (Suc k) = n" by (intro Suc.hyps) simp_all
  moreover have "p * 2 ^ k < 2 ^ 52 * q" using Suc assms(2) by simp
  ultimately show ?case using assms(4) by (subst d_scale.simps) simp
qed

lemma round_even_exact: "0 < q \<Longrightarrow> round_even (y * q) q = y"
  by (simp add: round_even_def)

text \<open>A quotient \<open>y / 2^n\<close> with at most 53 bits is not rounded.\<close>

lemma d_round_exact:
  assumes "p * 2 ^ n = y * q" "0 < q" "0 < y" "y < 2 ^ 53"
  shows "\<exists>k. n \<le> k \<and> d_round p q = (y * 2 ^ (k - n), k)"
proof -
  define k where "k = d_scale p q 0"
  have "p \<noteq> 0" using assms by (intro notI) simp
  then have "2 ^ 52 * q * 2 ^ n \<le> p * 2 ^ k * 2 ^ n" unfolding k_def by (intro mult_right_mono d_scale_reaches) simp_all
  also have "p * 2 ^ k * 2 ^ n = y * 2 ^ k * q" using assms(1) by (simp add: ac_simps)
  finally have "2 ^ (52 + n) * q \<le> (y * 2 ^ k) * q" by (simp add: power_add ac_simps)
  then have "2 ^ (52 + n) \<le> y * 2 ^ k" using assms(2) mult_le_cancel2 by blast
  also have "\<dots> < 2 ^ 53 * 2 ^ k" using assms(4) by (intro mult_strict_right_mono) simp_all
  also have "\<dots> = 2 ^ (53 + k)" by (simp add: power_add)
  finally have n: "n \<le> k" using power_less_imp_less_exp [of 2 "52 + n" "53 + k"] by simp
  have "p * 2 ^ k = p * 2 ^ n * 2 ^ (k - n)" using n by (simp add: mult.assoc flip: power_add)
  also have "\<dots> = (y * 2 ^ (k - n)) * q" using assms(1) by (simp add: ac_simps)
  finally have "d_round p q = (y * 2 ^ (k - n), k)" using assms(2) by (simp add: d_round_def round_even_exact flip: k_def)
  with n show ?thesis by blast
qed

lemma d_mul_power:
  assumes "fst x * 2 ^ n = y * 2 ^ snd x" "0 < y" "y < 2 ^ 53" "d_round 1 (2 ^ m) = c" "m \<le> 53"
  shows "\<exists>k. n + m \<le> k \<and> d_mul x c = (y * 2 ^ (k - (n + m)), k)"
proof -
  obtain j where j: "m \<le> j" "c = (2 ^ (j - m), j)"
    using d_round_exact [of 1 m 1 "2 ^ m"] assms(4) by auto
  have "2 ^ (j - m) * 2 ^ m = (2 ^ j :: nat)" using j(1) by (simp flip: power_add)
  then have "fst x * 2 ^ (j - m) * 2 ^ (n + m) = y * 2 ^ (snd x + j)"
    using assms(1) by (simp add: power_add ac_simps) (metis mult.assoc mult.commute)
  from d_round_exact [OF this _ assms(2,3)] show ?thesis by (simp add: d_mul_def j(2))
qed

lemma unat_drop_bit_less:
  assumes "k \<le> 64"
  shows "unat (drop_bit k x :: 64 word) < 2 ^ (64 - k)"
proof -
  have "(2 :: nat) ^ 64 = 2 ^ (64 - k) * 2 ^ k" using assms by (simp flip: power_add)
  then have "unat x < 2 ^ (64 - k) * 2 ^ k" using unsigned_less [of x, where 'a = nat] by simp
  then have "unat x div 2 ^ k < 2 ^ (64 - k)" by (rule less_mult_imp_div_less)
  moreover have "take_bit 64 (unat x) = unat x" using unsigned_less [of x, where 'a = nat] by (simp add: take_bit_nat_eq_self)
  ultimately show ?thesis by (simp add: unsigned_drop_bit_eq drop_bit_eq_div [of k "unat x"])
qed

lemma d_part_less:
  assumes "y < 2 ^ n" "n \<le> k"
  shows "y * 2 ^ (k - n) < (2 ^ k :: nat)"
proof -
  have "y * 2 ^ (k - n) < 2 ^ n * 2 ^ (k - n)" using assms(1) by simp
  also have "\<dots> = 2 ^ k" using assms(2) by (simp flip: power_add)
  finally show ?thesis .
qed

lemma real2_value:
  assumes "x < 2 ^ 53"
  shows "\<exists>m k. d_mul (x, 0) (d_round 1 9007199254740992) = (m, k) \<and> m < 2 ^ k"
proof (cases "x = 0")
  case True
  then show ?thesis by (simp add: d_mul_def d_round_def Let_def round_even_def)
next
  case False
  have "\<exists>k. 0 + 53 \<le> k \<and> d_mul (x, 0) (d_round 1 (2 ^ 53)) = (x * 2 ^ (k - (0 + 53)), k)"
    by (rule d_mul_power) (use False assms in simp_all)
  then show ?thesis using d_part_less [OF assms] by auto
qed

lemma real3_value:
  assumes "x < 2 ^ 52"
  shows "\<exists>m k. d_mul (d_add (x, 0) (d_round 1 2)) (d_round 1 4503599627370496) = (m, k) \<and> 0 < m \<and> m < 2 ^ k"
proof -
  let ?y = "2 * x + 1"
  have y: "0 < ?y" "?y < 2 ^ 53" using assms by simp_all
  obtain i where i: "1 \<le> i" "d_round 1 2 = (2 ^ (i - 1), i)" using d_round_exact [of 1 1 1 2] by auto
  have "2 * 2 ^ (i - 1) = (2 ^ i :: nat)" using i(1) by (cases i) simp_all
  then have "(x * 2 ^ i + 2 ^ (i - 1)) * 2 ^ 1 = ?y * 2 ^ i" by (simp add: algebra_simps)
  moreover have "d_add (x, 0) (d_round 1 2) = d_round (x * 2 ^ i + 2 ^ (i - 1)) (2 ^ i)" unfolding i(2) by (simp add: d_add_def)
  ultimately obtain j where j: "1 \<le> j" "d_add (x, 0) (d_round 1 2) = (?y * 2 ^ (j - 1), j)"
    using d_round_exact [OF _ _ y, of "x * 2 ^ i + 2 ^ (i - 1)" 1 "2 ^ i"] by auto
  have "\<exists>k. 1 + 52 \<le> k \<and> d_mul (?y * 2 ^ (j - 1), j) (d_round 1 (2 ^ 52)) = (?y * 2 ^ (k - (1 + 52)), k)"
    by (rule d_mul_power) (use y j(1) in \<open>simp_all flip: power_Suc2 add: mult.assoc\<close>)
  then show ?thesis using d_part_less [OF y(2)] j(2) by auto
qed

lemma real1_value:
  assumes "x < 2 ^ 53"
  shows "d_le (d_mul (x, 0) (d_round 1 9007199254740991)) 1"
proof -
  have less: "(2 :: nat) ^ j < 2 ^ 52 * 9007199254740991" if "j < 105" for j
    using that power_increasing [of j 104 "2 :: nat"] by simp
  have "d_scale 1 9007199254740991 0 = 105" by (rule d_scale_eq) (use less in simp_all)
  then have c: "d_round 1 9007199254740991 = (2 ^ 52 + 1, 105)" by (simp add: d_round_def round_even_def Let_def)
  show ?thesis
  proof (cases "x = 2 ^ 53 - 1")
    case True
    let ?p = "(2 ^ 53 - 1) * (2 ^ 52 + 1) :: nat"
    have "?p * 2 ^ j < 2 ^ 52 * 2 ^ 105" if "j < 52" for j
      using that power_increasing [of j 51 "2 :: nat"] by simp
    then have "d_scale ?p (2 ^ 105) 0 = 52" by (intro d_scale_eq) simp_all
    then have "d_round ?p (2 ^ 105) = (round_even (?p * 2 ^ 52) (2 ^ 105), 52)" by (simp only: d_round_def Let_def)
    also have "round_even (?p * 2 ^ 52) (2 ^ 105) = 2 ^ 52" by (simp add: round_even_def)
    finally have "d_mul (x, 0) (2 ^ 52 + 1, 105) = (2 ^ 52, 52)" by (simp only: True d_mul_def fst_conv snd_conv add_0)
    then show ?thesis unfolding c by (simp add: d_le_def)
  next
    case False
    then have "x * (2 ^ 52 + 1) \<le> (2 ^ 53 - 2) * (2 ^ 52 + 1)" using assms by (intro mult_right_mono) simp_all
    then show ?thesis unfolding c d_mul_def by (intro d_round_le) simp_all
  qed
qed

lemma for_up_fails: "0 < k \<Longrightarrow> body i c s = Inl e \<Longrightarrow> for_up i k body c s = Inl e"
  by (cases k) (simp_all add: bindS_def)

section \<open>Properties\<close>

text \<open>
  C30. After \<^verbatim>\<open>init_by_array64\<close> with a key that is not empty, successive calls of \<^verbatim>\<open>genrand64_int64\<close> return the tempered
  elements of the twister's linear recurrence, in order and without end, although the code regenerates its vector in place
  and in blocks; the first element of the vector is the constant that keeps the vector from being zero.
\<close>

theorem generator_is_recurrence:
  assumes "length (mt s) = NN" "0 < n" "n \<le> length key"
  shows "\<exists>u. init_by_array64 key n s = Inr ((), u) \<and> mt u ! 0 = 2 ^ 63 \<and>
    (\<forall>k. \<exists>t. draws k u = Inr (map (\<lambda>i. temper (mt_seq (mt u) i)) [NN..<NN + k], t))"
proof -
  obtain xs where xs: "init_by_array64 key n s = Inr ((), s\<lparr>mt := xs, mti := NN\<rparr>)" "length xs = NN" "xs ! 0 = push_bit 63 1"
    using init_by_array64_ok [OF assms] by blast
  let ?u = "s\<lparr>mt := xs, mti := NN\<rparr>"
  have "at_pos (mt ?u) NN ?u" using xs(2) by (simp add: at_pos_def mt_seq_less)
  then have "\<exists>t. draws k ?u = Inr (map (\<lambda>i. temper (mt_seq (mt ?u) i)) [NN..<NN + k], t)" for k
    using draws_at_pos by blast
  moreover have "mt ?u ! 0 = 2 ^ 63" using xs(3) by (simp add: push_bit_eq_mult)
  ultimately show ?thesis using xs(1) by blast
qed

theorem generator_is_recurrence_witness:
  "length (mt mt_static) = NN \<and> (\<exists>u. init_by_array64 [0x12345, 0x23456, 0x34567, 0x45678] 4 mt_static = Inr ((), u) \<and> mt u ! 0 = 2 ^ 63 \<and>
    (\<forall>k. \<exists>t. draws k u = Inr (map (\<lambda>i. temper (mt_seq (mt u) i)) [NN..<NN + k], t)))"
  using generator_is_recurrence [of mt_static 4 "[0x12345, 0x23456, 0x34567, 0x45678]"] by (simp add: mt_static_def)

text \<open>
  C31. From every state with a whole vector and a position at most one past the vector's end, the static initial state
  included, the functions of the generator return, never leave the vector and lead to such a state again; a 63-bit result
  is not negative.
\<close>

theorem generator_invariant:
  assumes "mt_ok s"
  shows "(\<exists>t. init_genrand64 seed s = Inr ((), t) \<and> mt_ok t) \<and>
    (\<exists>x t. genrand64_int64 s = Inr (x, t) \<and> mt_ok t) \<and>
    (\<exists>i t. genrand64_int63 s = Inr (i, t) \<and> 0 \<le> i \<and> i < 2 ^ 63 \<and> mt_ok t)"
proof -
  obtain x t where x: "genrand64_int64 s = Inr (x, t)" "mt_ok t" using int64_ok [OF assms] by blast
  then have "genrand64_int63 s = Inr (sint (drop_bit 1 x), t)" by (simp add: genrand64_int63_def bindS_def ret_def)
  moreover have "\<exists>t. init_genrand64 seed s = Inr ((), t) \<and> mt_ok t"
    using init_genrand64_ok [of s seed] assms by (auto simp: mt_ok_def)
  ultimately show ?thesis using x int63_bounds [of x] by blast
qed

theorem generator_invariant_witness:
  "mt_ok mt_static \<and> (\<exists>i t. genrand64_int63 mt_static = Inr (i, t) \<and> 0 \<le> i \<and> i < 2 ^ 63 \<and> mt_ok t)"
  using generator_invariant [of mt_static 0] by (simp add: mt_ok_def mt_static_def)

text \<open>
  \<^verbatim>\<open>init_by_array64\<close> with an empty key reads the key's first element, which does not exist.
\<close>

theorem empty_key_read:
  assumes "length (mt s) = NN"
  shows "\<exists>t. init_by_array64 [] 0 s = Inl (Out_of_bounds, t)"
proof -
  obtain xs where a: "init_genrand64 19650218 s = Inr ((), s\<lparr>mt := xs, mti := NN\<rparr>)" "length xs = NN"
    using init_genrand64_ok [OF assms] by blast
  have "1 < NN" by (simp add: NN_def)
  then show ?thesis using a unfolding init_by_array64_def by (simp add: bindS_def rd_def key_at_def stop_def for_up_fails)
qed

theorem empty_key_read_witness: "\<exists>t. init_by_array64 [] 0 mt_static = Inl (Out_of_bounds, t)"
  using empty_key_read [of mt_static] by (simp add: mt_static_def)

text \<open>
  The three functions on reals return doubles of their intervals: \<^verbatim>\<open>[0,1]\<close>, \<^verbatim>\<open>[0,1)\<close> and \<^verbatim>\<open>(0,1)\<close>, whatever the
  rounding of the constants and the products.
\<close>

theorem reals_in_intervals:
  assumes "mt_ok s"
  shows "(\<exists>m k t. genrand64_real1 s = Inr ((m, k), t) \<and> m \<le> 2 ^ k \<and> mt_ok t) \<and>
    (\<exists>m k t. genrand64_real2 s = Inr ((m, k), t) \<and> m < 2 ^ k \<and> mt_ok t) \<and>
    (\<exists>m k t. genrand64_real3 s = Inr ((m, k), t) \<and> 0 < m \<and> m < 2 ^ k \<and> mt_ok t)"
proof -
  obtain x t where x: "genrand64_int64 s = Inr (x, t)" "mt_ok t" using int64_ok [OF assms] by blast
  have b: "unat (drop_bit 11 x :: 64 word) < 2 ^ 53" "unat (drop_bit 12 x :: 64 word) < 2 ^ 52"
    using unat_drop_bit_less [of 11 x] unat_drop_bit_less [of 12 x] by simp_all
  obtain m k where "d_mul (unat (drop_bit 11 x), 0) (d_round 1 9007199254740991) = (m, k)" by fastforce
  moreover from this have "m \<le> 2 ^ k" using real1_value [OF b(1)] by (simp add: d_le_def)
  ultimately show ?thesis using x real2_value [OF b(1)] real3_value [OF b(2)]
    unfolding genrand64_real1_def genrand64_real2_def genrand64_real3_def by (simp add: bindS_def)
qed

theorem reals_in_intervals_witness:
  "mt_ok mt_static \<and> (\<exists>m k t. genrand64_real3 mt_static = Inr ((m, k), t) \<and> 0 < m \<and> m < 2 ^ k \<and> mt_ok t)"
  using reals_in_intervals [of mt_static] by (simp add: mt_ok_def mt_static_def)

end
