(* ===== verification/Cpulimit.thy ===== *)
theory Cpulimit
  imports Unix_Sys C_Double
begin

text \<open>
  The program \<^verbatim>\<open>why3cpulimit\<close> on Unix, \<^verbatim>\<open>cpulimit-unix.c\<close>.  A process ends by returning from \<^verbatim>\<open>main\<close> or by
  \<^verbatim>\<open>exit\<close>, by a signal it sends to itself, or by being replaced in \<^verbatim>\<open>execvp\<close>; that is the value its program returns.
  The kernel is a script of answers: \<^verbatim>\<open>fork\<close> gives -1, 0 in the child or a positive id in the parent; \<^verbatim>\<open>waitpid\<close> gives the
  child's id with its status, or fails, after the handler of \<^verbatim>\<open>SIGALRM\<close> has run or for another reason; \<^verbatim>\<open>getrlimit\<close> gives
  both limits; \<^verbatim>\<open>setrlimit\<close> sets them unless the soft limit exceeds the hard one, and its result is not looked at;
  a signal a process sends to itself ends it unless it is blocked or ignored; \<^verbatim>\<open>execvp\<close> returns only when it fails.
\<close>

section \<open>The system\<close>

datatype resource = RLIMIT_CPU | RLIMIT_AS | RLIMIT_CORE

datatype cpu_event =
    Stderr string
  | Perror string
  | Sigaction_alarm
  | Alarm "32 word"
  | Kill int int
  | Setrlimit resource nat nat
  | Execvp string "string list"

datatype cpu_answer =
    A_fork int
  | A_wait int wstatus
  | A_wait_alarm
  | A_wait_failed int
  | A_survives bool
  | A_rlimit nat nat
  | A_times nat nat nat
  | A_exec_ok
  | A_exec_error string

datatype outcome = Returned int | Killed_by int | Replaced

record cpu_state =
  wallclock_timelimit :: int
  showtime :: bool
  hidetime :: bool
  script :: "cpu_answer list"
  events :: "cpu_event list"

type_synonym 'a cpu = "(cpu_state, 'a) prog"

definition SIGKILL :: int where "SIGKILL = 9"
definition SIGTERM :: int where "SIGTERM = 15"

text \<open>The static initial values.\<close>

definition cpu_static :: "cpu_answer list \<Rightarrow> cpu_state" where
  "cpu_static as = \<lparr>wallclock_timelimit = 60, showtime = False, hidetime = False, script = as, events = []\<rparr>"

definition answer :: "cpu_answer cpu" where
  "answer s = (case script s of [] \<Rightarrow> Inl (No_answer, s) | a # as \<Rightarrow> Inr (a, s\<lparr>script := as\<rparr>))"

definition emit :: "cpu_event \<Rightarrow> unit cpu" where
  "emit e = modify (\<lambda>s. s\<lparr>events := events s @ [e]\<rparr>)"

definition cpu_fork :: "int cpu" where
  "cpu_fork = bindS answer (\<lambda>a. case a of A_fork pid \<Rightarrow> if - 1 \<le> pid then ret pid else stop No_answer | _ \<Rightarrow> stop No_answer)"

text \<open>\<^verbatim>\<open>kill(getpid(), sig)\<close>, with what is done if the process survives.\<close>

definition kill_self :: "int \<Rightarrow> outcome cpu \<Rightarrow> outcome cpu" where
  "kill_self sig rest =
     bindS answer (\<lambda>a. case a of A_survives b \<Rightarrow> if b then rest else ret (Killed_by sig) | _ \<Rightarrow> stop No_answer)"

definition getrlimit :: "(nat \<times> nat) cpu" where
  "getrlimit = bindS answer (\<lambda>a. case a of A_rlimit cur mx \<Rightarrow> if cur \<le> mx then ret (cur, mx) else stop No_answer | _ \<Rightarrow> stop No_answer)"

section \<open>The program\<close>

text \<open>\<^verbatim>\<open>%f\<close> of \<^verbatim>\<open>(tms_cutime + tms_cstime + 0.0) / sysconf(_SC_CLK_TCK)\<close>.\<close>

definition child_seconds :: "nat \<Rightarrow> nat \<Rightarrow> nat \<Rightarrow> dbl" where
  "child_seconds cutime cstime ticks =
     (let sum = d_round (cutime + cstime) 1 in d_round (fst sum) (ticks * 2 ^ snd sum))"

definition show_time :: "unit cpu" where
  "show_time =
     bindS (gets showtime) (\<lambda>b.
     whenS b
       (bindS answer (\<lambda>a. case a of
          A_times cutime cstime ticks \<Rightarrow>
            if 0 < ticks then emit (Stderr (''why3cpulimit time : '' @ show_fixed 6 (child_seconds cutime cstime ticks) @ '' s'' @ [CHR 0x0A]))
            else stop No_answer
        | _ \<Rightarrow> stop No_answer)))"

definition wallclock_text :: "int \<Rightarrow> string" where
  "wallclock_text t = ''Why3cpulimit: wallclock timelimit '' @ show_int t @ '' reached, killing command'' @ [CHR 0x0A]"

definition wallclock_timelimit_reached :: "unit cpu" where
  "wallclock_timelimit_reached = bindS (gets wallclock_timelimit) (\<lambda>t. emit (Stderr (wallclock_text t)))"

text \<open>\<^verbatim>\<open>waitpid\<close>: a failed call does not write the status.\<close>

definition waitpid :: "int \<Rightarrow> wstatus option \<Rightarrow> (int \<times> wstatus option) cpu" where
  "waitpid pid status =
     bindS answer (\<lambda>a. case a of
       A_wait p st \<Rightarrow> if p = pid then ret (p, Some st) else stop No_answer
     | A_wait_alarm \<Rightarrow> bindS wallclock_timelimit_reached (\<lambda>_. ret (- 1, status))
     | A_wait_failed p \<Rightarrow> if p \<le> 0 then ret (p, status) else stop No_answer
     | _ \<Rightarrow> stop No_answer)"

definition usage_text :: "string \<Rightarrow> string" where
  "usage_text argv0 =
     ''usage: '' @ argv0 @ '' <time limit in seconds> <virtual memory limit in MiB>'' @ [CHR 0x0A] @
     ''          <show/hide cpu time: -s|-h> <command> <args>...'' @ [CHR 0x0A, CHR 0x0A] @
     ''Zero sets no limit (keeps the actual limit)'' @ [CHR 0x0A]"

definition usage :: "string list \<Rightarrow> outcome cpu" where
  "usage argv =
     (case argv of
        [] \<Rightarrow> stop Null_deref
      | argv0 # _ \<Rightarrow> bindS (emit (Stderr (usage_text argv0))) (\<lambda>_. ret (Returned 1)))"

definition atol :: "string \<Rightarrow> int" where
  "atol s = fst (strtol s)"

definition ck_long :: "int \<Rightarrow> int cpu" where
  "ck_long x = (if - (2 ^ 63) \<le> x \<and> x < 2 ^ 63 then ret x else stop Signed_overflow)"

definition set_alarm :: "int \<Rightarrow> unit cpu" where
  "set_alarm timelimit =
     whenS (timelimit \<noteq> 0)
       (bindS (emit Sigaction_alarm) (\<lambda>_.
        bindS (ck_long (2 * timelimit)) (\<lambda>x.
        bindS (ck_long (x + 60)) (\<lambda>x.
        bindS (modify (\<lambda>s. s\<lparr>wallclock_timelimit := c_int x\<rparr>)) (\<lambda>_.
        bindS (gets wallclock_timelimit) (\<lambda>t.
        emit (Alarm (uint_of t))))))))"

definition wait_child :: "int \<Rightarrow> (wstatus option \<Rightarrow> outcome cpu) \<Rightarrow> outcome cpu" where
  "wait_child pid rest =
     bindS (waitpid pid None) (\<lambda>(p, status).
     if p \<le> 0 then
       bindS (emit (Kill pid SIGKILL)) (\<lambda>_.
       bindS (waitpid pid status) (\<lambda>(p, status).
       if p \<le> 0 then bindS (emit (Perror ''why3cpulimit waitpid'')) (\<lambda>_. kill_self SIGTERM (rest status))
       else rest status))
     else rest status)"

text \<open>The parent; \<open>rest\<close> is what follows the block if the process survives its own signal.\<close>

definition parent :: "int \<Rightarrow> int \<Rightarrow> outcome cpu \<Rightarrow> outcome cpu" where
  "parent timelimit pid rest =
     bindS (set_alarm timelimit) (\<lambda>_.
     wait_child pid (\<lambda>status.
     bindS show_time (\<lambda>_.
     let neither =
       bindS (emit (Stderr (''why3cpulimit: child exited neither normally nor because of a signal'' @ [CHR 0x0A]))) (\<lambda>_.
       kill_self SIGTERM rest)
     in case status of
          None \<Rightarrow> stop Uninit_read
        | Some (Exited n) \<Rightarrow> ret (Returned n)
        | Some (Signaled n) \<Rightarrow> kill_self n neither
        | Some Other_status \<Rightarrow> neither)))"

definition limit :: "resource \<Rightarrow> nat \<Rightarrow> unit cpu" where
  "limit r cur = bindS getrlimit (\<lambda>(_, mx). emit (Setrlimit r cur mx))"

text \<open>The limits and the command, in the child, or in the only process when there was no need to fork.\<close>

definition run_command :: "int \<Rightarrow> int \<Rightarrow> string list \<Rightarrow> outcome cpu" where
  "run_command timelimit memlimit argv =
     bindS (whenS (timelimit > 0) (limit RLIMIT_CPU (nat timelimit))) (\<lambda>_.
     bindS (whenS (memlimit > 0)
       (bindS getrlimit (\<lambda>(_, mx).
        bindS (ck_long (memlimit * 1024)) (\<lambda>x.
        bindS (ck_long (x * 1024)) (\<lambda>x.
        emit (Setrlimit RLIMIT_AS (nat x) mx)))))) (\<lambda>_.
     bindS (whenS (timelimit > 0 \<or> memlimit > 0) (limit RLIMIT_CORE 0)) (\<lambda>_.
     bindS (emit (Execvp (argv ! 4) (drop 4 argv))) (\<lambda>_.
     bindS answer (\<lambda>a. case a of
       A_exec_error msg \<Rightarrow>
         bindS (emit (Stderr (argv ! 0 @ '': exec of '' @ [CHR 0x27] @ argv ! 4 @ [CHR 0x27] @ '' failed ('' @ msg @ '')'' @ [CHR 0x0A]))) (\<lambda>_.
         ret (Returned 1))
     | A_exec_ok \<Rightarrow> ret Replaced
     | _ \<Rightarrow> stop No_answer)))))"

definition cpulimit_main :: "string list \<Rightarrow> outcome cpu" where
  "cpulimit_main argv =
     (if length argv < 5 then usage argv
      else
        bindS (modify (\<lambda>s. s\<lparr>showtime := (strcmp ''-s'' (argv ! 3) = 0)\<rparr>)) (\<lambda>_.
        bindS (modify (\<lambda>s. s\<lparr>hidetime := (strcmp ''-h'' (argv ! 3) = 0)\<rparr>)) (\<lambda>_.
        bindS (gets (\<lambda>s. showtime s \<or> hidetime s)) (\<lambda>ok.
        if \<not> ok then usage argv
        else
          let timelimit = atol (argv ! 1) in
          if timelimit < 0 then usage argv
          else
            let memlimit = atol (argv ! 2) in
            if memlimit < 0 then usage argv
            else
              bindS (gets showtime) (\<lambda>show.
              if show \<or> timelimit \<noteq> 0 then
                bindS cpu_fork (\<lambda>pid.
                if pid = - 1 then bindS (emit (Perror ''fork'')) (\<lambda>_. ret (Returned 1))
                else if pid > 0 then parent timelimit pid (run_command timelimit memlimit argv)
                else run_command timelimit memlimit argv)
              else run_command timelimit memlimit argv)))))"

section \<open>The arguments\<close>

text \<open>Arguments that the program accepts, with the limits they give.\<close>

definition args_ok :: "string list \<Rightarrow> int \<Rightarrow> int \<Rightarrow> bool" where
  "args_ok argv t m \<longleftrightarrow> 5 \<le> length argv \<and> (argv ! 3 = ''-s'' \<or> argv ! 3 = ''-h'') \<and>
     t = atol (argv ! 1) \<and> m = atol (argv ! 2) \<and> 0 \<le> t \<and> 0 \<le> m"

definition wants_time :: "string list \<Rightarrow> bool" where
  "wants_time argv \<longleftrightarrow> argv ! 3 = ''-s''"

lemma strcmp_option [simp]:
  "strcmp ''-s'' ''-s'' = 0" "strcmp ''-h'' ''-h'' = 0" "strcmp ''-s'' ''-h'' \<noteq> 0" "strcmp ''-h'' ''-s'' \<noteq> 0"
  by (simp_all add: strcmp_def)

lemma main_start:
  assumes "args_ok argv t m"
  shows "cpulimit_main argv s =
    (let s = s\<lparr>showtime := wants_time argv, hidetime := \<not> wants_time argv\<rparr> in
     if wants_time argv \<or> t \<noteq> 0 then
       bindS cpu_fork (\<lambda>pid.
         if pid = - 1 then bindS (emit (Perror ''fork'')) (\<lambda>_. ret (Returned 1))
         else if pid > 0 then parent t pid (run_command t m argv)
         else run_command t m argv) s
     else run_command t m argv s)"
  using assms by (auto simp: args_ok_def cpulimit_main_def wants_time_def Let_def)

section \<open>The parent\<close>

lemma set_alarm_run:
  assumes "0 < t" "2 * t + 60 < 2 ^ 63"
  shows "set_alarm t s = Inr ((), s\<lparr>wallclock_timelimit := c_int (2 * t + 60),
    events := events s @ [Sigaction_alarm, Alarm (word_of_int (2 * t + 60))]\<rparr>)"
proof -
  have "uint_of (c_int x) = word_of_int x" for x :: int
  proof -
    have "(c_int x) mod 2 ^ 32 = x mod 2 ^ 32" unfolding c_int_def by (simp add: mod_simps)
    then show ?thesis unfolding uint_of_def by (intro word_of_int_eq_iff [THEN iffD2]) (simp add: take_bit_eq_mod)
  qed
  then show ?thesis using assms by (simp add: set_alarm_def ck_long_def emit_def)
qed

definition end_status :: "wstatus \<Rightarrow> outcome" where
  "end_status st = (case st of Exited n \<Rightarrow> Returned n | Signaled n \<Rightarrow> Killed_by n | Other_status \<Rightarrow> Killed_by SIGTERM)"

text \<open>The answers of the waits: the status at once, or after a failed call.\<close>

definition wait_answers :: "int \<Rightarrow> wstatus \<Rightarrow> cpu_answer list \<Rightarrow> bool" where
  "wait_answers pid st ws \<longleftrightarrow> ws = [A_wait pid st] \<or> ws = [A_wait_alarm, A_wait pid st] \<or> (\<exists>p \<le> 0. ws = [A_wait_failed p, A_wait pid st])"

lemma answer_run: "script s = a # as \<Longrightarrow> bindS answer f s = f a (s\<lparr>script := as\<rparr>)"
  by (simp add: bindS_def answer_def)


lemma updates_commute: "s\<lparr>events := e, script := a\<rparr> = s\<lparr>script := a, events := e\<rparr>"
  by (cases s) simp

lemma wait_child_run:
  assumes "wait_answers pid st ws" "0 < pid" "script s = ws @ as"
  shows "\<exists>es. (\<forall>rest. wait_child pid rest s = rest (Some st) (s\<lparr>script := as, events := events s @ es\<rparr>)) \<and>
    Kill pid SIGKILL \<in> set es = (length ws = 2)"
proof -
  note defs = wait_child_def waitpid_def wallclock_timelimit_reached_def emit_def
  from assms(1) consider "ws = [A_wait pid st]" | "ws = [A_wait_alarm, A_wait pid st]" | p where "p \<le> 0" "ws = [A_wait_failed p, A_wait pid st]"
    unfolding wait_answers_def by blast
  then show ?thesis
  proof cases
    case 1
    then show ?thesis using assms(2,3) by (intro exI [of _ "[]"]) (simp add: defs bindS_def answer_def)
  next
    case 2
    then show ?thesis using assms(2,3) by (intro exI [of _ "[Stderr (wallclock_text (wallclock_timelimit s)), Kill pid SIGKILL]"]) (simp add: defs bindS_def answer_def updates_commute)
  next
    case 3
    then show ?thesis using assms(2,3) by (intro exI [of _ "[Kill pid SIGKILL]"]) (simp add: defs bindS_def answer_def updates_commute)
  qed
qed

lemma parent_run:
  assumes t: "0 \<le> t" "2 * t + 60 < 2 ^ 31" and w: "wait_answers pid st ws" "0 < pid"
    and a: "script s = ws @ (if showtime s then [A_times cu cs ticks] else []) @ A_survives False # as" "0 < ticks"
  shows "\<exists>u. parent t pid rest s = Inr (end_status st, u) \<and>
    (\<exists>es. events u = events s @ (if t = 0 then [] else [Sigaction_alarm, Alarm (word_of_int (2 * t + 60))]) @ es \<and>
      Kill pid SIGKILL \<in> set es = (length ws = 2))"
proof -
  let ?al = "if t = 0 then [] else [Sigaction_alarm, Alarm (word_of_int (2 * t + 60))]"
  obtain s1 where s1: "set_alarm t s = Inr ((), s1)" "script s1 = script s" "showtime s1 = showtime s" "events s1 = events s @ ?al"
    using t set_alarm_run [of t s] by (cases "t = 0") (auto simp: set_alarm_def)
  let ?as = "(if showtime s then [A_times cu cs ticks] else []) @ A_survives False # as"
  obtain es where es: "\<And>rest. wait_child pid rest s1 = rest (Some st) (s1\<lparr>script := ?as, events := events s1 @ es\<rparr>)"
      "Kill pid SIGKILL \<in> set es = (length ws = 2)"
    using wait_child_run [OF w, of s1 ?as] a(1) s1(2) by auto
  obtain ts where ts: "show_time (s1\<lparr>script := ?as, events := events s1 @ es\<rparr>) = Inr ((), s1\<lparr>script := A_survives False # as, events := events s1 @ es @ ts\<rparr>)"
      "Kill pid SIGKILL \<notin> set ts"
  proof (cases "showtime s")
    case True
    then show ?thesis using a(2) s1(3) that [of "[Stderr (''why3cpulimit time : '' @ show_fixed 6 (child_seconds cu cs ticks) @ '' s'' @ [CHR 0x0A])]"]
      by (simp add: show_time_def bindS_def answer_def emit_def)
  next
    case False
    then show ?thesis using s1(3) that [of "[]"] by (simp add: show_time_def)
  qed
  show ?thesis using s1 es ts
    by (cases st) (auto simp: parent_def bindS_def Let_def kill_self_def answer_def emit_def end_status_def)
qed

section \<open>The command\<close>


section \<open>Properties\<close>

text \<open>
  C32. With accepted arguments and a time limit for which the arithmetic does not wrap, the parent ends as its child did:
  it returns the child's exit status, dies of the signal that killed the child, and of SIGTERM when the child ended in neither
  way.  The wall clock is set to 60 seconds more than twice the limit; if the wait is interrupted, by the wall clock or otherwise,
  the child is killed before the second wait, and only then.
\<close>

theorem parent_ends_as_child:
  assumes "args_ok argv t m" "wants_time argv \<or> t \<noteq> 0" "2 * t + 60 < 2 ^ 31" "0 < pid" "wait_answers pid st ws" "0 < ticks"
  shows "\<exists>u es. cpulimit_main argv (cpu_static (A_fork pid # ws @ (if wants_time argv then [A_times cu cs ticks] else []) @
      A_survives False # as)) = Inr (case st of Exited n \<Rightarrow> Returned n | Signaled n \<Rightarrow> Killed_by n | Other_status \<Rightarrow> Killed_by SIGTERM, u) \<and>
    events u = (if t = 0 then [] else [Sigaction_alarm, Alarm (word_of_int (2 * t + 60))]) @ es \<and>
    Kill pid SIGKILL \<in> set es = (length ws = 2)"
proof -
  let ?s = "cpu_static (ws @ (if wants_time argv then [A_times cu cs ticks] else []) @ A_survives False # as)"
  let ?s' = "?s\<lparr>showtime := wants_time argv, hidetime := \<not> wants_time argv\<rparr>"
  have "0 \<le> t" using assms(1) by (simp add: args_ok_def)
  from parent_run [OF this assms(3,5,4), of ?s' cu cs ticks as "run_command t m argv"] assms(6)
  obtain u es where "parent t pid (run_command t m argv) ?s' = Inr (end_status st, u)"
      "events u = (if t = 0 then [] else [Sigaction_alarm, Alarm (word_of_int (2 * t + 60))]) @ es" "Kill pid SIGKILL \<in> set es = (length ws = 2)"
    by (auto simp: cpu_static_def)
  then show ?thesis using assms(2,4)
    by (intro exI [of _ u] exI [of _ es])
      (simp add: main_start [OF assms(1)] cpu_fork_def bindS_def answer_def cpu_static_def Let_def end_status_def)
qed

theorem parent_ends_as_child_witness:
  "\<exists>u es. cpulimit_main [''why3cpulimit'', ''10'', ''0'', ''-h'', ''z3''] (cpu_static [A_fork 42, A_wait_alarm, A_wait 42 (Signaled 9), A_survives False]) =
      Inr (Killed_by 9, u) \<and> events u = [Sigaction_alarm, Alarm 80] @ es \<and> Kill 42 SIGKILL \<in> set es"
  using parent_ends_as_child [of "[''why3cpulimit'', ''10'', ''0'', ''-h'', ''z3'']" 10 0 42 "Signaled 9" "[A_wait_alarm, A_wait 42 (Signaled 9)]" 1 0 0 "[]"]
  by (simp add: args_ok_def wants_time_def atol_def strtol_def is_space_def is_digit_def digits_value_def clamp_long_def wait_answers_def)



text \<open>
  C34. The wall clock is lost by wrap-around: with the time limit 2147483618, twice the limit plus 60 is \<open>2^32\<close>, which becomes zero
  in the variable of type \<open>int\<close>, and the call of \<^verbatim>\<open>alarm\<close> sets no alarm.
\<close>

theorem wallclock_wraps:
  assumes "args_ok argv 2147483618 m" "\<not> wants_time argv" "0 < pid"
  shows "\<exists>u. cpulimit_main argv (cpu_static [A_fork pid, A_wait pid (Exited n)]) = Inr (Returned n, u) \<and>
    events u = [Sigaction_alarm, Alarm 0] \<and> wallclock_timelimit u = 0"
proof -
  let ?s = "(cpu_static [A_wait pid (Exited n)])\<lparr>showtime := False, hidetime := True\<rparr>"
  have a: "set_alarm 2147483618 ?s = Inr ((), ?s\<lparr>wallclock_timelimit := 0, events := [Sigaction_alarm, Alarm 0]\<rparr>)"
    using set_alarm_run [of 2147483618 ?s] by (simp add: c_int_def cpu_static_def)
  show ?thesis using assms a
    by (simp add: main_start [OF assms(1)] cpu_fork_def bindS_def answer_def cpu_static_def Let_def parent_def wait_child_def waitpid_def show_time_def)
qed

theorem wallclock_wraps_witness:
  "\<exists>u. cpulimit_main [''why3cpulimit'', ''2147483618'', ''0'', ''-h'', ''z3''] (cpu_static [A_fork 42, A_wait 42 (Exited 3)]) = Inr (Returned 3, u) \<and>
    events u = [Sigaction_alarm, Alarm 0] \<and> wallclock_timelimit u = 0"
  using wallclock_wraps [of "[''why3cpulimit'', ''2147483618'', ''0'', ''-h'', ''z3'']" 0 42 3]
  by (simp add: args_ok_def wants_time_def atol_def strtol_def is_space_def is_digit_def digits_value_def clamp_long_def)

end
