(* ===== verification/Win_Cmdline.thy ===== *)
theory Win_Cmdline
  imports C_Prelude
begin

text \<open>
  The command line that the Windows server builds for \<^verbatim>\<open>CreateProcess\<close>, in \<^verbatim>\<open>run_request\<close> of \<^verbatim>\<open>server-win.c\<close>: a buffer of
  4096 characters on the stack, into which the command and the arguments are copied, an argument in double quotes if it is empty or
  contains a space or a double quote.  An index beyond the buffer is an error.  Arguments are C strings shorter than \<open>2^31\<close>.
\<close>

section \<open>The code\<close>

definition CMD_SIZE :: nat where "CMD_SIZE = 4096"
definition BSLASH :: char where "BSLASH = CHR 0x5C"
definition DQUOTE :: char where "DQUOTE = CHR 0x22"
definition SPACE :: char where "SPACE = CHR '' ''"

text \<open>\<^verbatim>\<open>strlen\<close>, \<^verbatim>\<open>strcpy\<close> and \<^verbatim>\<open>strcat\<close> on a buffer.\<close>

function strlen_from :: "char carray \<Rightarrow> nat \<Rightarrow> nat result" where
  "strlen_from buf i =
     (if i < length buf then bindE (c_read buf i) (\<lambda>c. if c = NUL then Inr i else strlen_from buf (i + 1)) else Inl Out_of_bounds)"
  by pat_completeness auto
termination
  by (relation "measure (\<lambda>(buf, i). length buf - i)") auto

declare strlen_from.simps [simp del]

definition c_strcpy :: "char carray \<Rightarrow> string \<Rightarrow> char carray result" where
  "c_strcpy buf s = c_store buf 0 (s @ [NUL])"

definition c_strcat :: "char carray \<Rightarrow> string \<Rightarrow> char carray result" where
  "c_strcat buf s = bindE (strlen_from buf 0) (\<lambda>n. c_store buf n (s @ [NUL]))"

text \<open>\<^verbatim>\<open>cmd[cl_index] = c; cl_index++\<close>\<close>

definition put_char :: "char \<Rightarrow> char carray \<times> nat \<Rightarrow> (char carray \<times> nat) result" where
  "put_char c = (\<lambda>(cmd, cl). bindE (c_write cmd cl c) (\<lambda>cmd. Inr (cmd, cl + 1)))"

text \<open>\<^verbatim>\<open>for (int j = ...; j >= 0 && ca[j] == '\\'; j--)\<close>; the argument is the number of indices left.\<close>

fun put_backslashes :: "string \<Rightarrow> nat \<Rightarrow> char carray \<times> nat \<Rightarrow> (char carray \<times> nat) result" where
  "put_backslashes ca 0 b = Inr b"
| "put_backslashes ca (Suc j) b = (if ca ! j = BSLASH then bindE (put_char BSLASH b) (put_backslashes ca j) else Inr b)"

definition needs_quote :: "string \<Rightarrow> bool" where
  "needs_quote ca \<longleftrightarrow> \<not> 0 < length ca \<or> (\<exists>i < length ca. ca ! i = SPACE \<or> ca ! i = DQUOTE)"

definition quote_char :: "string \<Rightarrow> nat \<Rightarrow> char carray \<times> nat \<Rightarrow> (char carray \<times> nat) result" where
  "quote_char ca i b =
     (if ca ! i = DQUOTE then
        bindE (if 0 < i \<and> ca ! (i - 1) = BSLASH then put_backslashes ca i b else Inr b) (\<lambda>b.
        bindE (put_char BSLASH b) (put_char DQUOTE))
      else
        bindE (put_char (ca ! i) b) (\<lambda>b.
        if ca ! i = BSLASH \<and> i + 1 = length ca then put_backslashes ca (i + 1) b else Inr b))"

function quote_from :: "string \<Rightarrow> nat \<Rightarrow> char carray \<times> nat \<Rightarrow> (char carray \<times> nat) result" where
  "quote_from ca i b = (if i < length ca then bindE (quote_char ca i b) (quote_from ca (i + 1)) else Inr b)"
  by pat_completeness auto
termination
  by (relation "measure (\<lambda>(ca, i, b). length ca - i)") auto

declare quote_from.simps [simp del]

definition add_argument :: "string \<Rightarrow> char carray \<Rightarrow> char carray result" where
  "add_argument ca cmd =
     (if needs_quote ca then
        bindE (strlen_from cmd 0) (\<lambda>cl.
        bindE (put_char DQUOTE (cmd, cl)) (\<lambda>b.
        bindE (quote_from ca 0 b) (\<lambda>b.
        bindE (put_char DQUOTE b) (\<lambda>b.
        bindE (put_char SPACE b) (\<lambda>(cmd, cl).
        c_write cmd cl NUL)))))
      else bindE (c_strcat cmd ca) (\<lambda>cmd. c_strcat cmd [SPACE]))"

fun add_arguments :: "string list \<Rightarrow> char carray \<Rightarrow> char carray result" where
  "add_arguments [] cmd = Inr cmd"
| "add_arguments (ca # cas) cmd = bindE (add_argument ca cmd) (add_arguments cas)"

definition command_line :: "string \<Rightarrow> string list \<Rightarrow> char carray result" where
  "command_line cmd args =
     bindE (c_strcpy (replicate CMD_SIZE None) cmd) (\<lambda>buf.
     bindE (c_strcat buf [SPACE]) (\<lambda>buf.
     add_arguments args buf))"

section \<open>The text of the command line\<close>

text \<open>A quoted argument after \<open>k\<close> backslashes.\<close>

fun quoted :: "nat \<Rightarrow> string \<Rightarrow> string" where
  "quoted k [] = replicate k BSLASH"
| "quoted k (c # cs) =
     (if c = DQUOTE then replicate k BSLASH @ BSLASH # DQUOTE # quoted 0 cs
      else c # quoted (if c = BSLASH then Suc k else 0) cs)"

definition arg_text :: "string \<Rightarrow> string" where
  "arg_text ca = (if needs_quote ca then DQUOTE # quoted 0 ca @ [DQUOTE, SPACE] else ca @ [SPACE])"

definition line_text :: "string \<Rightarrow> string list \<Rightarrow> string" where
  "line_text cmd args = cmd @ SPACE # concat (map arg_text args)"

text \<open>A buffer that holds a text and, after it, anything.\<close>

definition holds :: "string \<Rightarrow> char carray \<Rightarrow> bool" where
  "holds t buf \<longleftrightarrow> length buf = CMD_SIZE \<and> take (length t) buf = map Some t \<and> length t \<le> CMD_SIZE"

definition fits :: "string \<Rightarrow> char carray result \<Rightarrow> bool" where
  "fits t r = (if length t < CMD_SIZE then (\<exists>buf. r = Inr buf \<and> holds (t @ [NUL]) buf) else r = Inl Out_of_bounds)"

section \<open>Writing to the buffer\<close>

lemma strlen_text:
  assumes "is_cstring t" "i \<le> length t"
  shows "strlen_from (map Some (t @ [NUL]) @ r) i = Inr (length t)"
  using assms
proof (induction "length t - i" arbitrary: i)
  case 0
  then show ?case by (subst strlen_from.simps) (simp add: c_read_def nth_append)
next
  case (Suc m)
  then have i: "i < length t" by simp
  then have "t ! i \<noteq> NUL" using Suc.prems(1) nth_mem [of i t] unfolding is_cstring_def by metis
  with Suc i show ?case by (subst strlen_from.simps) (simp add: c_read_def nth_append)
qed

lemma strcat_text:
  assumes "is_cstring t"
  shows "c_strcat (map Some (t @ [NUL]) @ r) u =
    (if length u \<le> length r then Inr (map Some (t @ u @ [NUL]) @ drop (length u) r) else Inl Out_of_bounds)"
  unfolding c_strcat_def using strlen_text [OF assms, of 0 r] by (simp add: c_store_def bindE_def)

lemma strlen_holds:
  assumes "holds (t @ [NUL]) buf" "is_cstring t"
  shows "strlen_from buf 0 = Inr (length t)"
proof -
  have n: "i \<le> length t \<Longrightarrow> buf ! i = Some ((t @ [NUL]) ! i)" for i
    using assms(1) arg_cong [of "take (Suc (length t)) buf" _ "\<lambda>xs. xs ! i"] unfolding holds_def
    by (metis length_append_singleton less_Suc_eq_le nth_map nth_take)
  have len: "length t < length buf" using assms(1) by (simp add: holds_def)
  have "i \<le> length t \<Longrightarrow> strlen_from buf i = Inr (length t)" for i
  proof (induction "length t - i" arbitrary: i)
    case 0
    then show ?case using n [of i] len by (subst strlen_from.simps) (simp add: c_read_def nth_append)
  next
    case (Suc m)
    then have "i < length t" by simp
    then have "t ! i \<noteq> NUL" using assms(2) nth_mem [of i t] unfolding is_cstring_def by metis
    then show ?case using Suc n [of i] len by (subst strlen_from.simps) (simp add: c_read_def nth_append)
  qed
  then show ?thesis by simp
qed

lemma store_holds:
  assumes "holds t buf"
  shows "c_store buf (length t) u = (if length (t @ u) \<le> CMD_SIZE then Inr (map Some (t @ u) @ drop (length (t @ u)) buf) else Inl Out_of_bounds)"
    "length (t @ u) \<le> CMD_SIZE \<Longrightarrow> holds (t @ u) (map Some (t @ u) @ drop (length (t @ u)) buf)"
  using assms by (auto simp: c_store_def holds_def)

lemma holds_prefix: "holds (t @ u) buf \<Longrightarrow> holds t buf"
  unfolding holds_def by (auto simp: take_add dest: arg_cong [where f = "take (length t)"])

text \<open>The result of writing up to the end of the text \<open>u\<close>.\<close>

definition appends :: "string \<Rightarrow> (char carray \<times> nat) result \<Rightarrow> bool" where
  "appends u r = (if length u \<le> CMD_SIZE then (\<exists>buf. r = Inr (buf, length u) \<and> holds u buf) else r = Inl Out_of_bounds)"

lemma appends_bind:
  assumes "appends u r" "\<And>buf. holds u buf \<Longrightarrow> appends (u @ v) (f (buf, length u))"
  shows "appends (u @ v) (bindE r f)"
proof (cases "length u \<le> CMD_SIZE")
  case True
  then show ?thesis using assms by (auto simp: appends_def [of u])
next
  case False
  then show ?thesis using assms(1) by (auto simp: appends_def)
qed

lemma appends_ret: "holds u buf \<Longrightarrow> appends u (Inr (buf, length u))"
  by (simp add: appends_def holds_def)

lemma put_char_holds:
  assumes "holds t buf"
  shows "appends (t @ [c]) (put_char c (buf, length t))"
proof (cases "length t < CMD_SIZE")
  case True
  then have "take (Suc (length t)) (buf[length t := Some c]) = map Some (t @ [c])"
    using assms by (simp add: holds_def take_Suc_conv_app_nth)
  then show ?thesis using True assms by (simp add: put_char_def c_write_def holds_def appends_def)
next
  case False
  then show ?thesis using assms by (simp add: put_char_def c_write_def holds_def appends_def)
qed

lemma put_two_holds:
  assumes "holds t buf"
  shows "appends (t @ [c, d]) (bindE (put_char c (buf, length t)) (put_char d))"
proof -
  have "appends ((t @ [c]) @ [d]) (bindE (put_char c (buf, length t)) (put_char d))"
    by (rule appends_bind [OF put_char_holds [OF assms]]) (rule put_char_holds)
  then show ?thesis by simp
qed

text \<open>The number of backslashes right before an index.\<close>

fun trail :: "string \<Rightarrow> nat \<Rightarrow> nat" where
  "trail ca 0 = 0"
| "trail ca (Suc j) = (if ca ! j = BSLASH then Suc (trail ca j) else 0)"

lemma put_backslashes_holds: "holds t buf \<Longrightarrow> appends (t @ replicate (trail ca j) BSLASH) (put_backslashes ca j (buf, length t))"
proof (induction j arbitrary: t buf)
  case (Suc j)
  show ?case
  proof (cases "ca ! j = BSLASH")
    case True
    have "appends ((t @ [BSLASH]) @ replicate (trail ca j) BSLASH) (bindE (put_char BSLASH (buf, length t)) (put_backslashes ca j))"
      by (rule appends_bind [OF put_char_holds [OF Suc.prems]]) (rule Suc.IH)
    then show ?thesis using True by simp
  qed (use Suc.prems in \<open>simp add: appends_ret\<close>)
qed (simp add: appends_ret)

lemma quote_char_holds:
  assumes "holds t buf" "i < length ca"
  shows "appends (t @ (if ca ! i = DQUOTE then replicate (trail ca i) BSLASH @ [BSLASH, DQUOTE]
      else ca ! i # (if ca ! i = BSLASH \<and> i + 1 = length ca then replicate (trail ca (i + 1)) BSLASH else [])))
    (quote_char ca i (buf, length t))"
proof (cases "ca ! i = DQUOTE")
  case True
  have "appends (t @ replicate (trail ca i) BSLASH) (if 0 < i \<and> ca ! (i - 1) = BSLASH then put_backslashes ca i (buf, length t) else Inr (buf, length t))"
    using put_backslashes_holds [OF assms(1), of ca i] appends_ret [OF assms(1)] by (cases i) auto
  then have "appends ((t @ replicate (trail ca i) BSLASH) @ [BSLASH, DQUOTE])
      (bindE (if 0 < i \<and> ca ! (i - 1) = BSLASH then put_backslashes ca i (buf, length t) else Inr (buf, length t)) (\<lambda>b. bindE (put_char BSLASH b) (put_char DQUOTE)))"
    by (rule appends_bind) (rule put_two_holds)
  then show ?thesis using True by (simp add: quote_char_def)
next
  case False
  let ?v = "if ca ! i = BSLASH \<and> i + 1 = length ca then replicate (trail ca (i + 1)) BSLASH else []"
  have "appends ((t @ [ca ! i]) @ ?v) (bindE (put_char (ca ! i) (buf, length t))
      (\<lambda>b. if ca ! i = BSLASH \<and> i + 1 = length ca then put_backslashes ca (i + 1) b else Inr b))"
    by (rule appends_bind [OF put_char_holds [OF assms(1)]])
      (simp only: put_backslashes_holds appends_ret append_Nil2 split: if_split, blast)
  then show ?thesis using False by (simp add: quote_char_def)
qed

lemma quote_from_holds:
  "i < length ca \<Longrightarrow> holds t buf \<Longrightarrow> appends (t @ quoted (trail ca i) (drop i ca)) (quote_from ca i (buf, length t))"
proof (induction "length ca - i" arbitrary: i t buf)
  case (Suc m)
  let ?w = "if ca ! i = DQUOTE then replicate (trail ca i) BSLASH @ [BSLASH, DQUOTE]
      else ca ! i # (if ca ! i = BSLASH \<and> i + 1 = length ca then replicate (trail ca (i + 1)) BSLASH else [])"
  let ?r = "if i + 1 < length ca then quoted (trail ca (i + 1)) (drop (i + 1) ca) else []"
  have d: "drop i ca = ca ! i # drop (i + 1) ca" using Suc.prems(1) by (simp add: Cons_nth_drop_Suc)
  have "BSLASH \<noteq> DQUOTE" by (simp add: BSLASH_def DQUOTE_def)
  then have "quoted (trail ca i) (drop i ca) = ?w @ ?r"
    unfolding d using Suc.prems(1) by (cases "i + 1 < length ca") auto
  moreover have "appends ((t @ ?w) @ ?r) (bindE (quote_char ca i (buf, length t)) (quote_from ca (i + 1)))"
  proof (rule appends_bind [OF quote_char_holds [OF Suc.prems(2,1)]])
    fix b assume b: "holds (t @ ?w) b"
    show "appends ((t @ ?w) @ ?r) (quote_from ca (i + 1) (b, length (t @ ?w)))"
    proof (cases "i + 1 < length ca")
      case True
      then have "appends ((t @ ?w) @ quoted (trail ca (i + 1)) (drop (i + 1) ca)) (quote_from ca (i + 1) (b, length (t @ ?w)))"
        using Suc.hyps(2) b by (intro Suc.hyps(1)) simp_all
      then show ?thesis using True by simp
    next
      case False
      then show ?thesis using appends_ret [OF b] by (subst quote_from.simps) simp
    qed
  qed
  ultimately show ?case using Suc.prems(1) by (subst quote_from.simps) simp
qed simp

lemma quote_all_holds: "holds t buf \<Longrightarrow> appends (t @ quoted 0 ca) (quote_from ca 0 (buf, length t))"
  using quote_from_holds [of 0 ca t buf] by (cases ca) (simp_all add: quote_from.simps appends_ret)

lemma fitsI:
  assumes "length (t @ [NUL]) \<le> CMD_SIZE \<Longrightarrow> \<exists>buf. r = Inr buf \<and> holds (t @ [NUL]) buf" "CMD_SIZE < length (t @ [NUL]) \<Longrightarrow> r = Inl Out_of_bounds"
  shows "fits t r"
  using assms by (auto simp: fits_def)

lemma strcat_fits:
  assumes "holds (t @ [NUL]) buf" "is_cstring t"
  shows "fits (t @ u) (c_strcat buf u)"
proof (rule fitsI)
  have h: "holds t buf" using holds_prefix assms(1) by blast
  have e: "c_strcat buf u = c_store buf (length t) (u @ [NUL])" using strlen_holds [OF assms] by (simp add: c_strcat_def)
  show "\<exists>buf'. c_strcat buf u = Inr buf' \<and> holds ((t @ u) @ [NUL]) buf'" if "length ((t @ u) @ [NUL]) \<le> CMD_SIZE"
    using store_holds [OF h, of "u @ [NUL]"] that unfolding e by simp
  show "c_strcat buf u = Inl Out_of_bounds" if "CMD_SIZE < length ((t @ u) @ [NUL])"
    using store_holds(1) [OF h, of "u @ [NUL]"] that unfolding e by simp
qed

lemma fits_bind:
  assumes "fits t r" "\<And>buf. holds (t @ [NUL]) buf \<Longrightarrow> fits (t @ u) (f buf)"
  shows "fits (t @ u) (bindE r f)"
proof (cases "length t < CMD_SIZE")
  case True
  then show ?thesis using assms by (auto simp: fits_def [of t])
next
  case False
  then show ?thesis using assms(1) by (simp add: fits_def)
qed

lemma add_argument_fits:
  assumes "holds (t @ [NUL]) buf" "is_cstring t" "is_cstring ca"
  shows "fits (t @ arg_text ca) (add_argument ca buf)"
proof (cases "needs_quote ca")
  case True
  have h: "holds t buf" using holds_prefix assms(1) by blast
  let ?u = "((t @ [DQUOTE]) @ quoted 0 ca) @ [DQUOTE, SPACE]"
  let ?r = "bindE (put_char DQUOTE (buf, length t)) (\<lambda>b. bindE (quote_from ca 0 b) (\<lambda>b. bindE (put_char DQUOTE b) (put_char SPACE)))"
  have "appends ((t @ [DQUOTE]) @ (quoted 0 ca @ [DQUOTE, SPACE])) ?r"
  proof (rule appends_bind [OF put_char_holds [OF h]])
    fix b assume "holds (t @ [DQUOTE]) b"
    then have "appends (((t @ [DQUOTE]) @ quoted 0 ca) @ [DQUOTE, SPACE])
        (bindE (quote_from ca 0 (b, length (t @ [DQUOTE]))) (\<lambda>b. bindE (put_char DQUOTE b) (put_char SPACE)))"
      by (intro appends_bind [OF quote_all_holds] put_two_holds)
    then show "appends ((t @ [DQUOTE]) @ quoted 0 ca @ [DQUOTE, SPACE]) (bindE (quote_from ca 0 (b, length (t @ [DQUOTE]))) (\<lambda>b. bindE (put_char DQUOTE b) (put_char SPACE)))"
      by simp
  qed
  then have "appends ?u ?r" by simp
  then have "appends (?u @ [NUL]) (bindE ?r (put_char NUL))" by (rule appends_bind) (rule put_char_holds)
  moreover have "add_argument ca buf = bindE (bindE ?r (put_char NUL)) (\<lambda>(cmd, cl). Inr cmd)"
    using True strlen_holds [OF assms(1,2)] by (simp add: add_argument_def bindE_def put_char_def split: sum.splits prod.splits)
  ultimately show ?thesis using True by (auto simp: fits_def appends_def arg_text_def split: if_splits)
next
  case False
  have "fits ((t @ ca) @ [SPACE]) (bindE (c_strcat buf ca) (\<lambda>cmd. c_strcat cmd [SPACE]))"
    using assms by (intro fits_bind [OF strcat_fits] strcat_fits) simp_all
  then show ?thesis using False by (simp add: add_argument_def arg_text_def)
qed

lemma is_cstring_quoted: "is_cstring cs \<Longrightarrow> is_cstring (quoted k cs)"
  by (induction k cs rule: quoted.induct) (auto simp: BSLASH_def DQUOTE_def is_cstring_def)

lemma is_cstring_arg_text: "is_cstring ca \<Longrightarrow> is_cstring (arg_text ca)"
  using is_cstring_quoted [of ca 0] by (simp add: arg_text_def DQUOTE_def SPACE_def)

lemma add_arguments_fits:
  "holds (t @ [NUL]) buf \<Longrightarrow> is_cstring t \<Longrightarrow> \<forall>ca \<in> set cas. is_cstring ca \<Longrightarrow> fits (t @ concat (map arg_text cas)) (add_arguments cas buf)"
proof (induction cas arbitrary: t buf)
  case Nil
  then show ?case by (simp add: fits_def holds_def)
next
  case (Cons ca cas)
  have "fits ((t @ arg_text ca) @ concat (map arg_text cas)) (bindE (add_argument ca buf) (add_arguments cas))"
    using Cons.prems is_cstring_arg_text by (intro fits_bind [OF add_argument_fits] Cons.IH) auto
  then show ?case by simp
qed

lemma command_line_fits:
  assumes "is_cstring cmd" "\<forall>ca \<in> set args. is_cstring ca"
  shows "fits (line_text cmd args) (command_line cmd args)"
proof -
  have start: "fits cmd (c_strcpy (replicate CMD_SIZE None) cmd)"
    using store_holds [of "[]" "replicate CMD_SIZE None" "cmd @ [NUL]"]
    by (intro fitsI) (auto simp: c_strcpy_def holds_def)
  have sp: "is_cstring (cmd @ [SPACE])" using assms(1) by (simp add: SPACE_def)
  have "fits (cmd @ ([SPACE] @ concat (map arg_text args))) (command_line cmd args)"
    unfolding command_line_def
  proof (rule fits_bind [OF start])
    fix buf assume "holds (cmd @ [NUL]) buf"
    then have "fits ((cmd @ [SPACE]) @ concat (map arg_text args)) (bindE (c_strcat buf [SPACE]) (add_arguments args))"
      using assms sp by (intro fits_bind [OF strcat_fits] add_arguments_fits) simp_all
    then show "fits (cmd @ [SPACE] @ concat (map arg_text args)) (bindE (c_strcat buf [SPACE]) (add_arguments args))" by simp
  qed
  then show ?thesis by (simp add: line_text_def)
qed

section \<open>Reading a command line\<close>

text \<open>
  How programs split their command line, by the rules that the comment in \<^verbatim>\<open>run_request\<close> writes for and that Microsoft documents
  for C programs: blanks and tabs outside quotes separate arguments; \<open>2n\<close> backslashes before a double quote stand for \<open>n\<close>, and the
  quote opens or closes a quoted part; \<open>2n + 1\<close> stand for \<open>n\<close> and a double quote; other backslashes stand for themselves.
  The arguments are: inside quotes, inside an argument, the argument so far, and the number of backslashes just read.
\<close>

fun split_line :: "bool \<Rightarrow> bool \<Rightarrow> string \<Rightarrow> nat \<Rightarrow> string \<Rightarrow> string list" where
  "split_line q a acc n [] = (if a then [acc @ replicate n BSLASH] else [])"
| "split_line q a acc n (c # cs) =
     (if c = BSLASH then split_line q True acc (Suc n) cs
      else if c = DQUOTE then
        (if even n then split_line (\<not> q) True (acc @ replicate (n div 2) BSLASH) 0 cs
         else split_line q True (acc @ replicate (n div 2) BSLASH @ [DQUOTE]) 0 cs)
      else if (c = SPACE \<or> c = CHR 0x09) \<and> \<not> q then
        (if a then [acc @ replicate n BSLASH] else []) @ split_line False False [] 0 cs
      else split_line q True (acc @ replicate n BSLASH @ [c]) 0 cs)"

lemma chars_differ [simp]:
  "BSLASH \<noteq> DQUOTE" "SPACE \<noteq> DQUOTE" "SPACE \<noteq> BSLASH" "DQUOTE \<noteq> BSLASH" "DQUOTE \<noteq> SPACE" "BSLASH \<noteq> SPACE"
  "CHR 0x09 \<noteq> DQUOTE" "CHR 0x09 \<noteq> BSLASH" "CHR 0x09 \<noteq> SPACE"
  by (simp_all add: BSLASH_def DQUOTE_def SPACE_def)

lemma split_backslashes: "split_line q True acc n (replicate k BSLASH @ cs) = split_line q True acc (n + k) cs"
  by (induction k arbitrary: n) simp_all

lemma split_quoted:
  "split_line True True acc k (quoted k cs @ DQUOTE # rest) = split_line False True (acc @ replicate k BSLASH @ cs) 0 rest"
proof (induction k cs arbitrary: acc rule: quoted.induct)
  case (1 k)
  then show ?case using split_backslashes [of True acc k k] by (simp add: mult_2 [symmetric])
next
  case (2 k c cs)
  consider "c = DQUOTE" | "c = BSLASH" | "c \<noteq> DQUOTE" "c \<noteq> BSLASH" by blast
  then show ?case
  proof cases
    case 1
    have "split_line True True acc k (replicate k BSLASH @ BSLASH # DQUOTE # xs) =
        split_line True True (acc @ replicate k BSLASH @ [DQUOTE]) 0 xs" for xs
      using split_backslashes [of True acc k k] by (simp add: mult_2 [symmetric])
    then show ?thesis using 1 "2.IH"(1) by simp
  next
    case 2
    then show ?thesis using "2.IH"(2) [of acc] by (simp add: replicate_app_Cons_same)
  next
    case 3
    then show ?thesis using "2.IH"(2) by simp
  qed
qed

lemma split_plain:
  "SPACE \<notin> set cs \<Longrightarrow> DQUOTE \<notin> set cs \<Longrightarrow> CHR 0x09 \<notin> set cs \<Longrightarrow> a \<or> cs \<noteq> [] \<Longrightarrow>
   split_line False a acc n (cs @ SPACE # rest) = (acc @ replicate n BSLASH @ cs) # split_line False False [] 0 rest"
proof (induction cs arbitrary: a acc n)
  case (Cons c cs)
  then have c: "c \<noteq> SPACE" "c \<noteq> DQUOTE" "c \<noteq> CHR 0x09" by auto
  have IH: "split_line False True acc' n' (cs @ SPACE # rest) = (acc' @ replicate n' BSLASH @ cs) # split_line False False [] 0 rest" for acc' n'
    using Cons.prems by (intro Cons.IH) auto
  show ?case using c IH by (cases "c = BSLASH") (simp_all add: replicate_app_Cons_same)
qed simp

text \<open>An argument that the code copies without quotes must not contain a tab.\<close>

definition splittable :: "string \<Rightarrow> bool" where
  "splittable ca \<longleftrightarrow> needs_quote ca \<or> CHR 0x09 \<notin> set ca"

lemma needs_quote_set: "needs_quote ca \<longleftrightarrow> ca = [] \<or> SPACE \<in> set ca \<or> DQUOTE \<in> set ca"
  by (auto simp: needs_quote_def in_set_conv_nth)

lemma split_arg:
  assumes "splittable ca"
  shows "split_line False False [] 0 (arg_text ca @ rest) = ca # split_line False False [] 0 rest"
proof (cases "needs_quote ca")
  case True
  then show ?thesis using split_quoted [of "[]" 0 ca "SPACE # rest"] by (simp add: arg_text_def)
next
  case False
  then show ?thesis using split_plain [of ca False "[]" 0 rest] assms
    by (auto simp: arg_text_def splittable_def needs_quote_set)
qed

lemma split_args: "\<forall>ca \<in> set args. splittable ca \<Longrightarrow> split_line False False [] 0 (concat (map arg_text args)) = args"
  by (induction args) (simp_all add: split_arg)

section \<open>Properties\<close>

text \<open>
  C35. The arguments of a request reach the process: splitting what the Windows server writes behind the command gives them back,
  with their quotes, blanks and backslashes, also empty ones, provided that the text fits the buffer and that no argument that is
  copied without quotes contains a tab.
\<close>

theorem command_line_roundtrip:
  assumes "is_cstring cmd" "\<forall>ca \<in> set args. is_cstring ca \<and> splittable ca" "length (line_text cmd args) < CMD_SIZE"
  shows "\<exists>buf t. command_line cmd args = Inr buf \<and> take (length cmd + length t + 2) buf = map Some (cmd @ SPACE # t @ [NUL]) \<and>
    split_line False False [] 0 t = args"
proof -
  let ?t = "concat (map arg_text args)"
  obtain buf where "command_line cmd args = Inr buf" "holds (line_text cmd args @ [NUL]) buf"
    using command_line_fits [of cmd args] assms by (auto simp: fits_def)
  then have "take (length cmd + length ?t + 2) buf = map Some (cmd @ SPACE # ?t @ [NUL])" by (simp add: holds_def line_text_def)
  then show ?thesis using \<open>command_line cmd args = Inr buf\<close> split_args [of args] assms(2) by blast
qed

theorem command_line_roundtrip_witness:
  "\<exists>buf t. command_line ''z3'' [''-T:5'', ''a b'', [], [DQUOTE, BSLASH]] = Inr buf \<and>
    take (2 + length t + 2) buf = map Some (''z3'' @ SPACE # t @ [NUL]) \<and>
    split_line False False [] 0 t = [''-T:5'', ''a b'', [], [DQUOTE, BSLASH]]"
  using command_line_roundtrip [of "''z3''" "[''-T:5'', ''a b'', [], [DQUOTE, BSLASH]]"]
  by (simp add: splittable_def needs_quote_set line_text_def arg_text_def CMD_SIZE_def DQUOTE_def BSLASH_def SPACE_def)

text \<open>
  C40. The Windows server writes beyond its buffer exactly when the command line, with its final NUL, is longer than 4096
  characters; nothing limits the length of a request.
\<close>

theorem command_line_overflow:
  assumes "is_cstring cmd" "\<forall>ca \<in> set args. is_cstring ca"
  shows "command_line cmd args = Inl Out_of_bounds \<longleftrightarrow> 4096 \<le> length (line_text cmd args)"
  using command_line_fits [OF assms] by (auto simp: fits_def CMD_SIZE_def split: if_splits)

theorem command_line_overflow_witness:
  "command_line ''z3'' [replicate 5000 CHR ''a''] = Inl Out_of_bounds"
proof -
  have "\<not> needs_quote (replicate 5000 CHR ''a'')" by (simp add: needs_quote_set SPACE_def DQUOTE_def)
  then have "4096 \<le> length (line_text ''z3'' [replicate 5000 CHR ''a''])" by (simp add: line_text_def arg_text_def)
  then show ?thesis using command_line_overflow [of "''z3''" "[replicate 5000 CHR ''a'']"] by (simp add: is_cstring_def)
qed

end
