(* ===== verification/Server_Win.thy ===== *)
theory Server_Win
  imports Win_Cmdline C_Monad C_Readbuf C_Writebuf C_Arraylist C_Request C_Proc C_Double
begin

text \<open>
  The Windows implementation of the proof server, \<^verbatim>\<open>src/server/server-win.c\<close>: the whole state of the process as one record and one
  definition per function of the file.  Handles are integers, 0 is the null handle and -1 \<^verbatim>\<open>INVALID_HANDLE_VALUE\<close>.  Client
  objects are mutable and live in a store, as in the Unix server.

  The system is a script of answers, one for every call whose result the code looks at:
  \<^item> a completion status of a read carries the bytes that the system has put into the buffer, at most as many as were asked for;
  \<^item> \<^verbatim>\<open>GetQueuedCompletionStatus\<close> without a packet leaves its results as they were;
  \<^item> \<^verbatim>\<open>GetTempFileName\<close> gives a name shorter than \<^verbatim>\<open>MAX_PATH\<close>.
  The calls that other processes can see are recorded in a trace.  The options are those that \<^verbatim>\<open>parse_options\<close> has stored, and
  \<^verbatim>\<open>basename\<close>, which belongs to the C library of the compiler, is a parameter.
\<close>

section \<open>The system\<close>

datatype win_event =
    WE_close int
  | WE_read int
  | WE_write int string
  | WE_terminate int int
  | WE_limits "int option \<times> nat option"
  | WE_start string int "int option"
  | WE_resume int
  | WE_wait int

datatype win_answer =
    W_port int
  | W_pipe int
  | W_connect bool int
  | W_dir string
  | W_tempname nat string
  | W_file int
  | W_job int
  | W_ok bool
  | W_process "(int \<times> int) option"
  | W_ended "32 word" "64 word" "64 word"
  | W_fopen bool
  | W_status bool int "32 word" "64 word" nat string
  | W_no_status int

record win_client =
  wc_handle :: int
  wc_readbuf :: t_readbuf
  wc_writebuf :: t_writebuf

record win_proc = t_proc +
  pr_handle :: int
  pr_job :: int

text \<open>A component of \<^verbatim>\<open>server_socket\<close> points to a server object or to one that was freed.\<close>

datatype server_cell = Server int | Freed_server

record win = globals +
  w_answers :: "win_answer list"
  w_trace :: "win_event list"
  server_socket :: "server_cell carray option"
  server_key :: "int carray option"
  w_clients :: "nat t_list option"
  w_dir :: string
  gen_key :: int
  pipe_name :: string
  completion_port :: int
  w_processes :: "win_proc t_list option"
  w_queue :: "request t_queue option"
  w_heap :: "nat \<Rightarrow> win_client option"
  w_next :: nat
  w_status :: "(32 word \<times> 64 word) option"

type_synonym 'a wsrv = "(win, 'a) prog"

definition w_answer :: "win_answer wsrv" where
  "w_answer s = (case w_answers s of [] \<Rightarrow> Inl (No_answer, s) | a # as \<Rightarrow> Inr (a, s\<lparr>w_answers := as\<rparr>))"

definition w_event :: "win_event \<Rightarrow> unit wsrv" where
  "w_event e = modify (\<lambda>s. s\<lparr>w_trace := w_trace s @ [e]\<rparr>)"

definition w_ok :: "bool wsrv" where
  "w_ok = bindS w_answer (\<lambda>a. case a of W_ok b \<Rightarrow> ret b | _ \<Rightarrow> stop No_answer)"

definition w_load :: "nat \<Rightarrow> win_client wsrv" where
  "w_load a s = (case w_heap s a of None \<Rightarrow> Inl (Use_after_free, s) | Some c \<Rightarrow> Inr (c, s))"

definition w_store :: "nat \<Rightarrow> win_client \<Rightarrow> unit wsrv" where
  "w_store a c = bindS (w_load a) (\<lambda>_. modify (\<lambda>s. s\<lparr>w_heap := (w_heap s)(a := Some c)\<rparr>))"

definition READ_ONCE_W :: nat where "READ_ONCE_W = 1024"
definition BUFSIZE :: nat where "BUFSIZE = 4096"
definition READOP :: nat where "READOP = 0"
definition WRITEOP :: nat where "WRITEOP = 1"
definition SOCKET :: nat where "SOCKET = 0"
definition PROCESS :: nat where "PROCESS = 1"
definition MAX_PATH :: nat where "MAX_PATH = 260"
definition ERROR_IO_PENDING :: int where "ERROR_IO_PENDING = 997"
definition ERROR_PIPE_CONNECTED :: int where "ERROR_PIPE_CONNECTED = 535"
definition ERROR_BROKEN_PIPE :: int where "ERROR_BROKEN_PIPE = 109"

section \<open>Keys\<close>

definition keygen :: "int wsrv" where
  "keygen =
     bindS (gets gen_key) (\<lambda>k.
     bindS (lift (ck_int (k + 1))) (\<lambda>k'.
     bindS (modify (\<lambda>s. s\<lparr>gen_key := k'\<rparr>)) (\<lambda>_.
     ret k)))"

definition to_ms_key :: "int \<Rightarrow> nat \<Rightarrow> 64 word result" where
  "to_ms_key key kind =
     bindE (ck_int (key * 2)) (\<lambda>x.
     bindE (ck_int (x + int kind)) (\<lambda>x.
     Inr (word_of_int x)))"

definition kind_of_ms_key :: "64 word \<Rightarrow> nat" where
  "kind_of_ms_key ms = unat (ms mod 2)"

definition key_of_ms_key :: "64 word \<Rightarrow> int" where
  "key_of_ms_key ms = c_int (uint (ms div 2))"

section \<open>Shutting down\<close>

function close_servers_from :: "int \<Rightarrow> int \<Rightarrow> unit wsrv" where
  "close_servers_from par i =
     (if i < par then
        bindS (gets server_socket) (\<lambda>ss.
        bindS (deref ss) (\<lambda>ss.
        bindS (lift (c_read_i ss i)) (\<lambda>cell.
        bindS (case cell of Server h \<Rightarrow> w_event (WE_close h) | Freed_server \<Rightarrow> stop Use_after_free) (\<lambda>_.
        close_servers_from par (i + 1)))))
      else ret ())"
  by pat_completeness auto
termination
  by (relation "measure (\<lambda>(par, i). nat (par - i))") auto

function w_close_clients :: "nat t_list \<Rightarrow> int \<Rightarrow> unit wsrv" where
  "w_close_clients l i =
     (if i < list_length l then
        bindS (lift (c_read_i (l_data l) i)) (\<lambda>a.
        bindS (w_load a) (\<lambda>c.
        bindS (w_event (WE_close (wc_handle c))) (\<lambda>_.
        w_close_clients l (i + 1))))
      else ret ())"
  by pat_completeness auto
termination
  by (relation "measure (\<lambda>(l, i). nat (list_length l - i))") auto

text \<open>\<^verbatim>\<open>free_process\<close> on Windows also closes the two handles.\<close>

definition w_free_process :: "win_proc \<Rightarrow> unit wsrv" where
  "w_free_process p = bindS (w_event (WE_close (pr_handle p))) (\<lambda>_. w_event (WE_close (pr_job p)))"

function free_processes_from :: "win_proc t_list \<Rightarrow> int \<Rightarrow> unit wsrv" where
  "free_processes_from l i =
     (if i < list_length l then
        bindS (lift (c_read_i (l_data l) i)) (\<lambda>p.
        bindS (w_free_process p) (\<lambda>_.
        free_processes_from l (i + 1)))
      else ret ())"
  by pat_completeness auto
termination
  by (relation "measure (\<lambda>(l, i). nat (list_length l - i))") auto

declare close_servers_from.simps [simp del] w_close_clients.simps [simp del] free_processes_from.simps [simp del]

definition w_shutdown_with_msg :: "string \<Rightarrow> 'a wsrv" where
  "w_shutdown_with_msg msg =
     bindS (gets completion_port) (\<lambda>port.
     bindS (whenS (port \<noteq> 0) (w_event (WE_close port))) (\<lambda>_.
     bindS (gets parallel) (\<lambda>par.
     bindS (close_servers_from par 0) (\<lambda>_.
     bindS (gets w_clients) (\<lambda>cl.
     bindS (case cl of None \<Rightarrow> ret () | Some l \<Rightarrow> w_close_clients l 0) (\<lambda>_.
     bindS (gets w_processes) (\<lambda>ps.
     bindS (case ps of None \<Rightarrow> ret () | Some l \<Rightarrow> free_processes_from l 0) (\<lambda>_.
     (\<lambda>s. Inl (logging_shutdown msg s))))))))))"

definition add_to_completion_port :: "int \<Rightarrow> 64 word \<Rightarrow> unit wsrv" where
  "add_to_completion_port h key =
     bindS w_answer (\<lambda>a.
     case a of
       W_port tmp \<Rightarrow>
         bindS (whenS (tmp = 0) (w_shutdown_with_msg ''CreateIoCompletionPort: error adding handle'')) (\<lambda>_.
         bindS (gets completion_port) (\<lambda>port.
         whenS (port = 0) (modify (\<lambda>s. s\<lparr>completion_port := tmp\<rparr>))))
     | _ \<Rightarrow> stop No_answer)"

definition try_write :: "nat \<Rightarrow> unit wsrv" where
  "try_write client =
     bindS (w_load client) (\<lambda>c.
     whenS (has_write_data (wc_writebuf c) \<and> can_write (wc_writebuf c))
       (bindS (lift (prepare_write (wc_writebuf c))) (\<lambda>(buf, num_write, wb).
        bindS (w_store client (c\<lparr>wc_writebuf := wb\<rparr>)) (\<lambda>_.
        w_event (WE_write (wc_handle c) (take (nat num_write) buf))))))"

section \<open>Sockets\<close>

text \<open>The two assignments to the arrays, and the call that waits for a client.\<close>

definition store_server :: "int \<Rightarrow> int \<Rightarrow> int \<Rightarrow> unit wsrv" where
  "store_server socket_num h key =
     bindS (gets server_socket) (\<lambda>ss.
     bindS (deref ss) (\<lambda>ss.
     bindS (lift (c_write_i ss socket_num (Server h))) (\<lambda>ss.
     bindS (modify (\<lambda>s. s\<lparr>server_socket := Some ss\<rparr>)) (\<lambda>_.
     bindS (gets server_key) (\<lambda>sk.
     bindS (deref sk) (\<lambda>sk.
     bindS (lift (c_write_i sk socket_num key)) (\<lambda>sk.
     modify (\<lambda>s. s\<lparr>server_key := Some sk\<rparr>))))))))"

definition connect_server :: "unit wsrv" where
  "connect_server =
     bindS w_answer (\<lambda>a.
     case a of
       W_connect ok err \<Rightarrow>
         whenS (\<not> ok \<and> err \<noteq> ERROR_IO_PENDING \<and> err \<noteq> ERROR_PIPE_CONNECTED)
           (w_shutdown_with_msg ''error connecting to socket'')
     | _ \<Rightarrow> stop No_answer)"

definition create_server_socket :: "int \<Rightarrow> unit wsrv" where
  "create_server_socket socket_num =
     bindS keygen (\<lambda>key.
     bindS w_answer (\<lambda>a.
     case a of
       W_pipe h \<Rightarrow>
         bindS (whenS (h = - 1) (stop (Exit 1))) (\<lambda>_.
         bindS (lift (to_ms_key key SOCKET)) (\<lambda>ms.
         bindS (add_to_completion_port h ms) (\<lambda>_.
         bindS (store_server socket_num h key) (\<lambda>_.
         connect_server))))
     | _ \<Rightarrow> stop No_answer))"

definition w_open_temp_file :: "(int \<times> string) wsrv" where
  "w_open_temp_file =
     bindS (lift (c_malloc 1 MAX_PATH :: char carray result)) (\<lambda>_.
     bindS w_answer (\<lambda>a.
     case a of
       W_tempname res name \<Rightarrow>
         bindS (whenS (res = 0) (w_shutdown_with_msg ''error obtaining a tmp file name'')) (\<lambda>_.
         bindS (whenS (\<not> (length name < MAX_PATH \<and> is_cstring name)) (stop No_answer)) (\<lambda>_.
         bindS w_answer (\<lambda>a.
         case a of
           W_file h \<Rightarrow>
             bindS (whenS (h = - 1) (w_shutdown_with_msg ''error creating a tmp file'')) (\<lambda>_.
             ret (h, name))
         | _ \<Rightarrow> stop No_answer)))
     | _ \<Rightarrow> stop No_answer))"

section \<open>Sending messages\<close>

definition w_push :: "nat \<Rightarrow> string \<Rightarrow> unit wsrv" where
  "w_push client msgbuf =
     bindS (w_load client) (\<lambda>c.
     bindS (lift (push_write_data (wc_writebuf c) msgbuf)) (\<lambda>wb.
     bindS (w_store client (c\<lparr>wc_writebuf := wb\<rparr>)) (\<lambda>_.
     try_write client)))"

definition w_send_started_msg :: "nat \<Rightarrow> string \<Rightarrow> unit wsrv" where
  "w_send_started_msg client ident =
     (let len = length ident + 4;
          text = ''S;'' @ ident @ [CHR 0x0A];
          used = size_t_of (snprintf_result text)
      in bindS (whenS (max_alloc \<le> len) (w_shutdown_with_msg ''error when allocating client msg'')) (\<lambda>_.
         bindS (whenS (used \<noteq> len - 1) (w_shutdown_with_msg ''message for client too long'')) (\<lambda>_.
         w_push client (take (len - 1) text))))"

definition w_finished_text :: "string \<Rightarrow> 32 word \<Rightarrow> dbl \<Rightarrow> bool \<Rightarrow> string \<Rightarrow> string" where
  "w_finished_text ident exitcode cpu_time timeout file =
     ''F;'' @ ident @ '';'' @ dec_digits (unat exitcode) @ '';'' @ show_fixed 2 cpu_time @ '';'' @
     (if timeout then ''1'' else ''0'') @ '';'' @ file @ [CHR 0x0A]"

definition w_send_msg :: "nat \<Rightarrow> string \<Rightarrow> 32 word \<Rightarrow> dbl \<Rightarrow> bool \<Rightarrow> string \<Rightarrow> unit wsrv" where
  "w_send_msg client ident exitcode cpu_time timeout file =
     bindS (lift (ck_int (c_int (int (length ident + 3)) + 23))) (\<lambda>len.
     let len = c_int (len + int (length file) + 1);
         text = w_finished_text ident exitcode cpu_time timeout file;
         used = snprintf_result text
     in bindS (whenS (max_alloc \<le> size_t_of len) (w_shutdown_with_msg ''error when allocating buffer for client msg'')) (\<lambda>_.
        bindS (whenS (used \<ge> len) (w_shutdown_with_msg ''message for client too long'')) (\<lambda>_.
        w_push client (take (size_t_of len - 1) text))))"

section \<open>Processes\<close>

text \<open>The limits of the job: the time in units of 100 nanoseconds and the memory in bytes.\<close>

definition job_limits :: "int \<Rightarrow> 32 word \<Rightarrow> int option \<times> nat option" where
  "job_limits timeout memlimit =
     (if timeout = 0 then None else Some (1000 * 1000 * 10 * timeout),
      if memlimit = 0 then None else Some (unat (1024 * 1024 * ucast memlimit :: 64 word)))"

definition set_limits :: "int \<Rightarrow> 32 word \<Rightarrow> unit wsrv" where
  "set_limits timeout memlimit =
     whenS (timeout \<noteq> 0 \<or> memlimit \<noteq> 0)
       (bindS (w_event (WE_limits (job_limits timeout memlimit))) (\<lambda>_.
        bindS w_ok (\<lambda>ok.
        whenS (\<not> ok) (w_shutdown_with_msg ''error in SetInformationJobObject''))))"

text \<open>The file for the standard input is the argument after the last one that is passed on.\<close>

definition open_stdin :: "run_fields \<Rightarrow> int \<Rightarrow> int option wsrv" where
  "open_stdin f argcount =
     (if r_usestdin f then
        bindS (lift (c_read_i (map Some (r_args f)) argcount)) (\<lambda>_.
        bindS w_answer (\<lambda>a.
        case a of W_file h \<Rightarrow> ret (Some h) | _ \<Rightarrow> stop No_answer))
      else ret None)"

definition w_log :: "string \<Rightarrow> unit wsrv" where
  "w_log msg = lift_state (\<lambda>s. bindE (log_msg (Inr msg) s) (\<lambda>s'. Inr ((), s')))"

definition enter_process :: "win_proc \<Rightarrow> int wsrv" where
  "enter_process p =
     bindS keygen (\<lambda>key.
     bindS (gets w_processes) (\<lambda>ps.
     bindS (deref ps) (\<lambda>pl.
     bindS (lift (list_append pl key p)) (\<lambda>pl.
     bindS (modify (\<lambda>s. s\<lparr>w_processes := Some pl\<rparr>)) (\<lambda>_.
     ret key)))))"

text \<open>What follows a successful \<^verbatim>\<open>CreateProcess\<close>.\<close>

definition register_process :: "request \<Rightarrow> nat \<Rightarrow> int \<Rightarrow> int \<Rightarrow> string \<Rightarrow> int \<Rightarrow> int \<Rightarrow> unit wsrv" where
  "register_process r client ghJob outfilehandle file hProcess hThread =
     bindS w_ok (\<lambda>ok.
     bindS (whenS (\<not> ok) (w_shutdown_with_msg ''failed to assign process to job object'')) (\<lambda>_.
     bindS (enter_process \<lparr>client_key = req_key r, task_id = req_id r, outfile = file,
                           pr_handle = hProcess, pr_job = ghJob\<rparr>) (\<lambda>key.
     bindS (w_send_started_msg client (req_id r)) (\<lambda>_.
     bindS (lift (to_ms_key key PROCESS)) (\<lambda>_.
     bindS w_ok (\<lambda>ok.
     bindS (whenS (\<not> ok) (w_shutdown_with_msg ''Could not associate job with IO completion port'')) (\<lambda>_.
     bindS (w_event (WE_resume hThread)) (\<lambda>_.
     bindS (w_event (WE_close outfilehandle)) (\<lambda>_.
     w_event (WE_close hThread))))))))))"

definition launch :: "request \<Rightarrow> run_fields \<Rightarrow> nat \<Rightarrow> unit wsrv" where
  "launch r f client =
     (let argcount = (if r_usestdin f then r_numargs f - 1 else r_numargs f) in
      bindS w_answer (\<lambda>a.
      case a of
        W_job ghJob \<Rightarrow>
          bindS (whenS (ghJob = 0) (w_shutdown_with_msg ''failed creating job object'')) (\<lambda>_.
          bindS w_open_temp_file (\<lambda>(outfilehandle, file).
          bindS (open_stdin f argcount) (\<lambda>infilehandle.
          bindS (lift (command_line (r_cmd f) (take (nat argcount) (r_args f)))) (\<lambda>cmd.
          bindS (lift (c_text cmd CMD_SIZE)) (\<lambda>cmd.
          bindS (set_limits (r_timeout f) (r_memlimit f)) (\<lambda>_.
          bindS (w_event (WE_start cmd outfilehandle infilehandle)) (\<lambda>_.
          bindS w_answer (\<lambda>a.
          case a of
            W_process None \<Rightarrow>
              bindS (w_log cmd) (\<lambda>_.
              bindS (w_event (WE_close outfilehandle)) (\<lambda>_.
              bindS (w_event (WE_close ghJob)) (\<lambda>_.
              w_send_msg client (req_id r) 0 (0, 0) False file)))
          | W_process (Some (hProcess, hThread)) \<Rightarrow>
              register_process r client ghJob outfilehandle file hProcess hThread
          | _ \<Rightarrow> stop No_answer))))))))
      | _ \<Rightarrow> stop No_answer))"

definition w_run_request :: "request \<Rightarrow> unit wsrv" where
  "w_run_request r =
     bindS (gets w_clients) (\<lambda>cl.
     bindS (deref cl) (\<lambda>cl.
     bindS (lift (list_lookup cl (req_key r))) (\<lambda>client.
     case client of
       None \<Rightarrow> ret ()
     | Some client \<Rightarrow>
         bindS (case req_run r of None \<Rightarrow> stop Uninit_read | Some f \<Rightarrow> ret f) (\<lambda>f.
         launch r f client))))"

section \<open>Requests\<close>

definition ERROR_REQUEST_ABORTED :: int where "ERROR_REQUEST_ABORTED = 1235"

fun terminate_all :: "win_proc list \<Rightarrow> unit wsrv" where
  "terminate_all [] = ret ()"
| "terminate_all (p # ps) = bindS (w_event (WE_terminate (pr_handle p) ERROR_REQUEST_ABORTED)) (\<lambda>_. terminate_all ps)"

definition w_interrupt :: "string \<Rightarrow> unit wsrv" where
  "w_interrupt ident =
     bindS (gets w_queue) (\<lambda>q.
     bindS (deref q) (\<lambda>q.
     bindS (lift (remove_from_queue ident q)) (\<lambda>q.
     bindS (modify (\<lambda>s. s\<lparr>w_queue := Some q\<rparr>)) (\<lambda>_.
     bindS (gets w_processes) (\<lambda>ps.
     bindS (deref ps) (\<lambda>pl.
     bindS (lift (kill_processes ident pl)) (\<lambda>victims.
     terminate_all victims)))))))"

definition w_handle_msg :: "nat \<Rightarrow> int \<Rightarrow> unit wsrv" where
  "w_handle_msg client key =
     bindS (w_load client) (\<lambda>c.
     bindS (lift_state (parse_request (rb_data (wc_readbuf c)) (c_int (int (rb_len (wc_readbuf c)) - 1)) key)) (\<lambda>r.
     case r of
       None \<Rightarrow> ret ()
     | Some r \<Rightarrow>
         (case req_type r of
            REQ_RUN \<Rightarrow>
              bindS (gets w_processes) (\<lambda>ps.
              bindS (deref ps) (\<lambda>pl.
              bindS (gets parallel) (\<lambda>par.
              if list_length pl < par then w_run_request r
              else
                bindS (gets w_queue) (\<lambda>q.
                bindS (deref q) (\<lambda>q.
                bindS (lift (queue_push q r)) (\<lambda>q.
                modify (\<lambda>s. s\<lparr>w_queue := Some q\<rparr>)))))))
          | REQ_INTERRUPT \<Rightarrow> w_interrupt (req_id r))))"

section \<open>Clients\<close>

text \<open>The system puts the bytes into the buffer after the call.\<close>

definition do_read :: "nat \<Rightarrow> unit wsrv" where
  "do_read client =
     bindS (w_load client) (\<lambda>c.
     bindS (lift (prepare_read (wc_readbuf c) READ_ONCE_W)) (\<lambda>(buf, rb).
     bindS (w_store client (c\<lparr>wc_readbuf := rb\<rparr>)) (\<lambda>_.
     w_event (WE_read (wc_handle c)))))"

text \<open>\<^verbatim>\<open>server_socket[socket_num]->handle\<close> and \<^verbatim>\<open>free(server_socket[socket_num])\<close>.\<close>

definition server_handle :: "int \<Rightarrow> int wsrv" where
  "server_handle socket_num =
     bindS (gets server_socket) (\<lambda>ss.
     bindS (deref ss) (\<lambda>ss.
     bindS (lift (c_read_i ss socket_num)) (\<lambda>cell.
     case cell of Freed_server \<Rightarrow> stop Use_after_free | Server h \<Rightarrow> ret h)))"

definition free_server :: "int \<Rightarrow> unit wsrv" where
  "free_server socket_num =
     bindS (gets server_socket) (\<lambda>ss.
     bindS (deref ss) (\<lambda>ss.
     bindS (lift (c_read_i ss socket_num)) (\<lambda>cell.
     case cell of
       Freed_server \<Rightarrow> stop Use_after_free
     | Server h \<Rightarrow>
         bindS (lift (c_write_i ss socket_num Freed_server)) (\<lambda>ss.
         modify (\<lambda>s. s\<lparr>server_socket := Some ss\<rparr>)))))"

definition accept_client :: "int \<Rightarrow> int \<Rightarrow> unit wsrv" where
  "accept_client key socket_num =
     bindS (server_handle socket_num) (\<lambda>h.
     bindS (lift (init_readbuf BUFSIZE)) (\<lambda>rb.
     bindS (lift (init_writebuf 16)) (\<lambda>wb.
     bindS (gets w_next) (\<lambda>client.
     bindS (modify (\<lambda>s. s\<lparr>w_next := Suc client,
              w_heap := (w_heap s)(client := Some \<lparr>wc_handle = h, wc_readbuf = rb, wc_writebuf = wb\<rparr>)\<rparr>)) (\<lambda>_.
     bindS (free_server socket_num) (\<lambda>_.
     bindS (create_server_socket socket_num) (\<lambda>_.
     bindS (gets w_clients) (\<lambda>cl.
     bindS (deref cl) (\<lambda>cl.
     bindS (lift (list_append cl key client)) (\<lambda>cl.
     bindS (modify (\<lambda>s. s\<lparr>w_clients := Some cl\<rparr>)) (\<lambda>_.
     do_read client)))))))))))"

definition w_shutdown_server :: "unit wsrv" where
  "w_shutdown_server = w_shutdown_with_msg ''last client disconnected''"

definition w_close_client :: "nat \<Rightarrow> int \<Rightarrow> unit wsrv" where
  "w_close_client client key =
     bindS (gets w_clients) (\<lambda>cl.
     bindS (deref cl) (\<lambda>cl.
     bindS (lift (list_remove cl key)) (\<lambda>cl.
     bindS (modify (\<lambda>s. s\<lparr>w_clients := Some cl\<rparr>)) (\<lambda>_.
     bindS (w_load client) (\<lambda>c.
     bindS (w_event (WE_close (wc_handle c))) (\<lambda>_.
     bindS (lift (free_writebuf (wc_writebuf c))) (\<lambda>_.
     bindS (modify (\<lambda>s. s\<lparr>w_heap := (w_heap s)(client := None)\<rparr>)) (\<lambda>_.
     bindS (gets single_client) (\<lambda>single.
     whenS (single \<and> list_is_empty cl) w_shutdown_server)))))))))"

text \<open>The loop of \<^verbatim>\<open>schedule_new_jobs\<close>; the condition is read from the state before every turn.\<close>

definition job_ready :: "bool wsrv" where
  "job_ready =
     bindS (gets w_processes) (\<lambda>ps.
     bindS (deref ps) (\<lambda>pl.
     bindS (gets parallel) (\<lambda>par.
     if list_length pl < par then
       bindS (gets w_queue) (\<lambda>q.
       bindS (deref q) (\<lambda>q.
       ret (\<not> queue_is_empty q)))
     else ret False)))"

definition run_next_job :: "unit wsrv" where
  "run_next_job =
     bindS (gets w_queue) (\<lambda>q.
     bindS (deref q) (\<lambda>q.
     bindS (lift (queue_pop q)) (\<lambda>(r, q).
     bindS (modify (\<lambda>s. s\<lparr>w_queue := Some q\<rparr>)) (\<lambda>_.
     w_run_request r))))"

definition w_schedule_new_jobs :: "unit wsrv" where
  "w_schedule_new_jobs =
     bindS job_ready (\<lambda>go.
     bindS (whileS (\<lambda>go. go) (\<lambda>_. bindS run_next_job (\<lambda>_. job_ready)) go) (\<lambda>_.
     ret ()))"

section \<open>Events of processes\<close>

definition ERROR_NOT_ENOUGH_QUOTA :: "32 word" where "ERROR_NOT_ENOUGH_QUOTA = 1816"
definition STATUS_QUOTA_EXCEEDED :: "32 word" where "STATUS_QUOTA_EXCEEDED = 0xC0000044"

definition w_cpu_seconds :: "64 word \<Rightarrow> 64 word \<Rightarrow> dbl" where
  "w_cpu_seconds sys user = d_round (fst (d_of_uint64 (sys + user))) 10000000"

definition quota_hit :: "32 word \<Rightarrow> bool" where
  "quota_hit exitcode \<longleftrightarrow> exitcode = ERROR_NOT_ENOUGH_QUOTA \<or> exitcode = STATUS_QUOTA_EXCEEDED"

text \<open>
  The messages of a job: new process 6 and no active process 4 are ignored; end of the time of the job 1 or of the process 2,
  limits of memory 9 and 10, exit 7 and abnormal exit 8 end the process.
\<close>

definition handle_child_event :: "win_proc \<Rightarrow> nat \<Rightarrow> int \<Rightarrow> 32 word \<Rightarrow> unit wsrv" where
  "handle_child_event child client proc_key event =
     (if event = 6 \<or> event = 4 then ret ()
      else if event \<in> {1, 2, 10, 9, 8, 7} then
        bindS (w_event (WE_wait (pr_handle child))) (\<lambda>_.
        bindS (gets w_processes) (\<lambda>ps.
        bindS (deref ps) (\<lambda>pl.
        bindS (lift (list_remove pl proc_key)) (\<lambda>pl.
        bindS (modify (\<lambda>s. s\<lparr>w_processes := Some pl\<rparr>)) (\<lambda>_.
        bindS w_answer (\<lambda>a.
        case a of
          W_ended exitcode sys user \<Rightarrow>
            bindS (w_send_msg client (task_id child) exitcode (w_cpu_seconds sys user) (quota_hit exitcode)
                     (outfile child)) (\<lambda>_.
            w_free_process child)
        | _ \<Rightarrow> stop No_answer))))))
      else stop (Exit 1))"

section \<open>Initialisation\<close>

definition PIPE_PREFIX :: string where
  "PIPE_PREFIX = [BSLASH, BSLASH, CHR ''.'', BSLASH] @ ''pipe'' @ [BSLASH]"

definition pipe_path :: "string \<Rightarrow> char carray result" where
  "pipe_path my_pipe_name =
     bindE (c_malloc 1 (length my_pipe_name + 10)) (\<lambda>buf.
     bindE (c_strcpy buf PIPE_PREFIX) (\<lambda>buf.
     c_strcat buf my_pipe_name))"

function create_sockets_from :: "int \<Rightarrow> int \<Rightarrow> unit wsrv" where
  "create_sockets_from par i =
     (if i < par then bindS (create_server_socket i) (\<lambda>_. create_sockets_from par (i + 1)) else ret ())"
  by pat_completeness auto
termination
  by (relation "measure (\<lambda>(par, i). nat (par - i))") auto

declare create_sockets_from.simps [simp del]

definition w_open_log :: "unit wsrv" where
  "w_open_log =
     bindS (gets logging) (\<lambda>lg.
     if lg then
       bindS w_answer (\<lambda>a.
       case a of W_fopen ok \<Rightarrow> modify (init_logging ok) | _ \<Rightarrow> stop No_answer)
     else ret ())"

text \<open>The three parts of \<^verbatim>\<open>init\<close>: the name of the pipe, the tables, and the log file with the sockets.\<close>

definition init_pipe :: "(string \<Rightarrow> string) \<Rightarrow> unit wsrv" where
  "init_pipe basename =
     bindS w_answer (\<lambda>a.
     case a of
       W_dir dir \<Rightarrow>
         bindS (whenS (\<not> (length dir < MAX_PATH \<and> is_cstring dir)) (stop No_answer)) (\<lambda>_.
         bindS (modify (\<lambda>s. s\<lparr>w_dir := dir\<rparr>)) (\<lambda>_.
         bindS (gets socketname) (\<lambda>name.
         bindS (deref name) (\<lambda>name.
         bindS (lift (pipe_path (basename name))) (\<lambda>buf.
         bindS (lift (c_text buf (length buf))) (\<lambda>path.
         modify (\<lambda>s. s\<lparr>pipe_name := path\<rparr>)))))))
     | _ \<Rightarrow> stop No_answer)"

definition init_tables_win :: "unit wsrv" where
  "init_tables_win =
     bindS (lift init_request_queue) (\<lambda>q.
     bindS (modify (\<lambda>s. s\<lparr>w_queue := Some q\<rparr>)) (\<lambda>_.
     bindS (gets parallel) (\<lambda>par.
     bindS (lift (init_list par)) (\<lambda>cl.
     bindS (modify (\<lambda>s. s\<lparr>w_clients := Some cl\<rparr>)) (\<lambda>_.
     bindS (lift_state (\<lambda>s. bindE (init_process_list s) (\<lambda>pl. Inr ((), s\<lparr>w_processes := Some pl\<rparr>)))) (\<lambda>_.
     bindS (lift (c_malloc 8 (size_t_of par))) (\<lambda>ss.
     bindS (modify (\<lambda>s. s\<lparr>server_socket := Some ss\<rparr>)) (\<lambda>_.
     bindS (lift (c_malloc 4 (size_t_of par))) (\<lambda>sk.
     modify (\<lambda>s. s\<lparr>server_key := Some sk\<rparr>))))))))))"

definition win_init :: "(string \<Rightarrow> string) \<Rightarrow> unit wsrv" where
  "win_init basename =
     bindS (init_pipe basename) (\<lambda>_.
     bindS init_tables_win (\<lambda>_.
     bindS w_open_log (\<lambda>_.
     bindS (gets parallel) (\<lambda>par.
     create_sockets_from par 0))))"

section \<open>The main loop\<close>

function server_num_from :: "int carray \<Rightarrow> int \<Rightarrow> int \<Rightarrow> int \<Rightarrow> int result" where
  "server_num_from sk key par i =
     (if i < par then bindE (c_read_i sk i) (\<lambda>k. if k = key then Inr i else server_num_from sk key par (i + 1))
      else Inr (- 1))"
  by pat_completeness auto
termination
  by (relation "measure (\<lambda>(sk, key, par, i). nat (par - i))") auto

declare server_num_from.simps [simp del]

definition get_server_num :: "int \<Rightarrow> int wsrv" where
  "get_server_num key =
     bindS (gets server_key) (\<lambda>sk.
     bindS (deref sk) (\<lambda>sk.
     bindS (gets parallel) (\<lambda>par.
     lift (server_num_from sk key par 0))))"

text \<open>
  The results of \<^verbatim>\<open>GetQueuedCompletionStatus\<close>: the returned value, the error, the number of bytes, the key, and the operation
  and the bytes of the overlapped structure.
\<close>

definition next_status :: "(bool \<times> int \<times> 32 word \<times> 64 word \<times> (nat \<times> string) option) wsrv" where
  "next_status =
     bindS w_answer (\<lambda>a.
     case a of
       W_status res err numbytes mskey kind bytes \<Rightarrow>
         bindS (modify (\<lambda>s. s\<lparr>w_status := Some (numbytes, mskey)\<rparr>)) (\<lambda>_.
         ret (res, err, numbytes, mskey, Some (kind, bytes)))
     | W_no_status err \<Rightarrow>
         bindS (gets w_status) (\<lambda>st.
         case st of None \<Rightarrow> stop Uninit_read | Some (numbytes, mskey) \<Rightarrow> ret (False, err, numbytes, mskey, None))
     | _ \<Rightarrow> stop No_answer)"

definition read_done :: "nat \<Rightarrow> int \<Rightarrow> bool \<Rightarrow> int \<Rightarrow> 32 word \<Rightarrow> string \<Rightarrow> unit wsrv" where
  "read_done client key res err numbytes bytes =
     bindS (whenS (\<not> (length bytes = unat numbytes \<and> length bytes \<le> READ_ONCE_W)) (stop No_answer)) (\<lambda>_.
     bindS (w_load client) (\<lambda>c.
     bindS (lift (c_store (rb_data (wc_readbuf c)) (rb_len (wc_readbuf c)) bytes)) (\<lambda>d.
     bindS (lift (have_read ((wc_readbuf c)\<lparr>rb_data := d\<rparr>) (unat numbytes))) (\<lambda>rb.
     bindS (w_store client (c\<lparr>wc_readbuf := rb\<rparr>)) (\<lambda>_.
     if res then
       bindS (w_handle_msg client key) (\<lambda>_.
       bindS (w_load client) (\<lambda>c.
       bindS (w_store client (c\<lparr>wc_readbuf := clear_readbuf (wc_readbuf c)\<rparr>)) (\<lambda>_.
       do_read client)))
     else if numbytes = 0 \<and> err = ERROR_BROKEN_PIPE then w_close_client client key
     else do_read client)))))"

definition write_done :: "nat \<Rightarrow> 32 word \<Rightarrow> unit wsrv" where
  "write_done client numbytes =
     bindS (w_load client) (\<lambda>c.
     bindS (lift (have_written (wc_writebuf c) (c_int (uint numbytes)))) (\<lambda>wb.
     bindS (w_store client (c\<lparr>wc_writebuf := wb\<rparr>)) (\<lambda>_.
     try_write client)))"

definition socket_event :: "int \<Rightarrow> int \<Rightarrow> bool \<Rightarrow> int \<Rightarrow> 32 word \<Rightarrow> (nat \<times> string) option \<Rightarrow> unit wsrv" where
  "socket_event key server_num res err numbytes ov =
     (if server_num \<noteq> - 1 then
        if \<not> res \<and> err \<noteq> ERROR_PIPE_CONNECTED then w_shutdown_with_msg ''error connecting client''
        else accept_client key server_num
      else
        bindS (gets w_clients) (\<lambda>cl.
        bindS (deref cl) (\<lambda>cl.
        bindS (lift (list_lookup cl key)) (\<lambda>client.
        case client of
          None \<Rightarrow> ret ()
        | Some client \<Rightarrow>
            bindS (deref ov) (\<lambda>(kind, bytes).
            if kind = READOP then read_done client key res err numbytes bytes
            else if kind = WRITEOP then write_done client numbytes
            else stop (Exit 1))))))"

definition process_event :: "int \<Rightarrow> 32 word \<Rightarrow> unit wsrv" where
  "process_event key numbytes =
     bindS (gets w_processes) (\<lambda>ps.
     bindS (deref ps) (\<lambda>pl.
     bindS (lift (list_lookup pl key)) (\<lambda>proc.
     case proc of
       None \<Rightarrow> ret ()
     | Some proc \<Rightarrow>
         bindS (gets w_clients) (\<lambda>cl.
         bindS (deref cl) (\<lambda>cl.
         bindS (lift (list_lookup cl (client_key proc))) (\<lambda>client.
         case client of
           None \<Rightarrow> ret ()
         | Some client \<Rightarrow> handle_child_event proc client key numbytes))))))"

definition win_turn :: "unit wsrv" where
  "win_turn =
     bindS w_schedule_new_jobs (\<lambda>_.
     bindS next_status (\<lambda>(res, err, numbytes, mskey, ov).
     bindS (whenS (mskey = 0) (w_shutdown_with_msg ''GetQueuedCompletionStatus failed'')) (\<lambda>_.
     let key = key_of_ms_key mskey; kind = kind_of_ms_key mskey in
     bindS (get_server_num key) (\<lambda>server_num.
     if kind = SOCKET then socket_event key server_num res err numbytes ov
     else if kind = PROCESS then process_event key numbytes
     else stop (Exit 1)))))"

text \<open>The states at the head of the loop of \<^verbatim>\<open>main\<close>.\<close>

definition win_static :: "globals \<Rightarrow> win_answer list \<Rightarrow> win" where
  "win_static g as = globals.extend g \<lparr>w_answers = as, w_trace = [], server_socket = None, server_key = None,
     w_clients = None, w_dir = [], gen_key = 1, pipe_name = [], completion_port = 0, w_processes = None, w_queue = None,
     w_heap = (\<lambda>_. None), w_next = 0, w_status = None\<rparr>"

inductive win_turns :: "win \<Rightarrow> win \<Rightarrow> bool" where
  turns_refl: "win_turns s s"
| turns_step: "win_turns s t \<Longrightarrow> win_turn t = Inr ((), u) \<Longrightarrow> win_turns s u"

fun win_run :: "nat \<Rightarrow> unit wsrv" where
  "win_run 0 = ret ()"
| "win_run (Suc n) = bindS win_turn (\<lambda>_. win_run n)"

definition win_reach :: "(string \<Rightarrow> string) \<Rightarrow> globals \<Rightarrow> win_answer list \<Rightarrow> win \<Rightarrow> bool" where
  "win_reach basename g as s \<longleftrightarrow> (\<exists>t. win_init basename (win_static g as) = Inr ((), t) \<and> win_turns t s)"

end
