(* ===== verification/Server_Win_Props.thy ===== *)
theory Server_Win_Props
  imports Server_Win
begin

text \<open>
  The tables of the Windows server.  Every socket, client and process has a key of its own, and the completion port reports events by
  key: the invariant says that a key identifies at most one object of each kind, and that it is never used again.  The last section
  has what the invariant does not exclude: a process whose client is gone keeps its slot, and the arrays of sockets do not grow with
  \<^verbatim>\<open>parallel\<close>.
\<close>

section \<open>What the operations leave alone\<close>

definition win_tables :: "win \<Rightarrow> int carray option \<times> nat t_list option \<times> win_proc t_list option \<times> int" where
  "win_tables s = (server_key s, w_clients s, w_processes s, gen_key s)"

lemma w_answer_calm [frame_intros]:
  "keeps win_tables w_answer" "keeps w_queue w_answer"
  by (auto simp: keeps_def w_answer_def win_tables_def split: list.splits)

lemma w_event_calm [frame_intros]:
  "keeps win_tables (w_event e)" "keeps w_queue (w_event e)"
  by (auto simp: keeps_def w_event_def win_tables_def)

lemma w_load_calm [frame_intros]: "keeps f (w_load a)"
  by (auto simp: keeps_def w_load_def split: option.splits)

lemma w_store_calm [frame_intros]:
  "keeps win_tables (w_store a c)" "keeps w_queue (w_store a c)"
  by (auto simp: w_store_def win_tables_def intro!: frame_intros)

lemma w_ok_calm [frame_intros]:
  "keeps win_tables w_ok" "keeps w_queue w_ok"
  by (auto simp: w_ok_def intro!: frame_intros split: win_answer.split)

lemma w_shutdown_calm [frame_intros]: "keeps f (w_shutdown_with_msg msg)"
  by (auto simp: keeps_def w_shutdown_with_msg_def bindS_eq_Inr)

lemma w_log_calm [frame_intros]:
  "keeps win_tables (w_log msg)" "keeps w_queue (w_log msg)"
  by (auto simp: keeps_def w_log_def lift_state_eq_Inr bindE_eq_Inr log_msg_def win_tables_def split: if_splits option.splits)

lemma system_calm [frame_intros]:
  "keeps win_tables (add_to_completion_port h key)" "keeps w_queue (add_to_completion_port h key)"
  "keeps win_tables (try_write client)" "keeps w_queue (try_write client)"
  "keeps win_tables w_open_temp_file" "keeps w_queue w_open_temp_file"
  "keeps win_tables (w_open_log)" "keeps w_queue w_open_log"
  by (auto simp: add_to_completion_port_def try_write_def w_open_temp_file_def w_open_log_def init_logging_def win_tables_def
      intro!: frame_intros split: win_answer.split)

lemma messages_calm [frame_intros]:
  "keeps win_tables (w_push client msg)" "keeps w_queue (w_push client msg)"
  "keeps win_tables (w_send_started_msg client ident)" "keeps w_queue (w_send_started_msg client ident)"
  "keeps win_tables (w_send_msg client ident code cpu timeout file)" "keeps w_queue (w_send_msg client ident code cpu timeout file)"
  "keeps win_tables (set_limits t m)" "keeps w_queue (set_limits t m)"
  "keeps win_tables (open_stdin f n)" "keeps w_queue (open_stdin f n)"
  by (auto simp: w_push_def w_send_started_msg_def w_send_msg_def set_limits_def open_stdin_def Let_def
      intro!: frame_intros split: win_answer.split)

lemma terminate_all_calm [frame_intros]: "keeps win_tables (terminate_all ps)"
  by (induction ps) (simp_all only: terminate_all.simps frame_basic frame_bind w_event_calm)

lemma clients_calm [frame_intros]:
  "keeps win_tables (do_read client)" "keeps win_tables (server_handle n)" "keeps win_tables (free_server n)"
  "keeps win_tables (write_done client m)" "keeps win_tables next_status" "keeps win_tables (w_interrupt ident)"
  "keeps win_tables (get_server_num key)" "keeps win_tables (w_free_process p)" "keeps win_tables job_ready"
  by (auto simp: do_read_def server_handle_def free_server_def write_done_def next_status_def w_interrupt_def get_server_num_def
      w_free_process_def job_ready_def win_tables_def
      intro!: frame_intros split: win_answer.split server_cell.split)

lemma lift_state_tables:
  assumes "\<And>s a s'. f s = Inr (a, s') \<Longrightarrow> s' = s\<lparr>logfile := logfile s', parallel := parallel s'\<rparr>"
  shows "keeps win_tables (lift_state f)"
proof -
  have "win_tables s' = win_tables s" if "f s = Inr (a, s')" for s a s'
    by (subst assms [OF that]) (simp add: win_tables_def)
  then show ?thesis by (auto simp: keeps_def lift_state_eq_Inr)
qed

section \<open>The invariant\<close>

text \<open>
  The keys of the sockets and of the clients are distinct, so are those of the processes, all were generated, and the client of a
  process is not one of the sockets.
\<close>

definition tables_ok :: "int list \<Rightarrow> nat t_list \<Rightarrow> win_proc t_list \<Rightarrow> int \<Rightarrow> bool" where
  "tables_ok ks cl pl g \<longleftrightarrow> wf_list cl \<and> wf_list pl \<and>
     distinct (ks @ map fst (list_entries cl)) \<and> (\<forall>k \<in> set (ks @ map fst (list_entries cl)). k < g) \<and>
     distinct (map fst (list_entries pl)) \<and>
     (\<forall>(k, p) \<in> set (list_entries pl). k < g \<and> client_key p < g \<and> client_key p \<notin> set ks)"

definition win_inv :: "nat \<Rightarrow> win \<Rightarrow> bool" where
  "win_inv n s \<longleftrightarrow> (\<exists>ks cl pl. win_tables s = (Some (map Some ks), Some cl, Some pl, gen_key s) \<and> length ks = n \<and>
     tables_ok ks cl pl (gen_key s))"

lemma win_inv_tables: "win_tables t = win_tables s \<Longrightarrow> win_inv n s \<Longrightarrow> win_inv n t"
proof -
  assume t: "win_tables t = win_tables s" and i: "win_inv n s"
  from t have "gen_key t = gen_key s" by (simp add: win_tables_def)
  with t i show "win_inv n t" by (simp add: win_inv_def)
qed

text \<open>
  What the invariant does not determine about the entry of a process: a step keeps it if the client of the process is gone.
\<close>

definition orphan :: "int \<Rightarrow> win_proc \<Rightarrow> win \<Rightarrow> bool" where
  "orphan k p s \<longleftrightarrow> (\<exists>cl pl. w_clients s = Some cl \<and> w_processes s = Some pl \<and>
     (k, p) \<in> set (list_entries pl) \<and> client_key p \<notin> fst ` set (list_entries cl))"

lemma orphan_tables: "win_tables t = win_tables s \<Longrightarrow> orphan k p s \<Longrightarrow> orphan k p t"
  by (simp add: orphan_def win_tables_def)

text \<open>Programs that keep the invariant and every orphan.\<close>

definition safe_from :: "nat \<Rightarrow> win \<Rightarrow> win \<Rightarrow> bool" where
  "safe_from n s t \<longleftrightarrow> win_inv n t \<and> (\<forall>k p. orphan k p s \<longrightarrow> orphan k p t)"

definition stable :: "nat \<Rightarrow> (win, 'a) prog \<Rightarrow> bool" where
  "stable n m \<longleftrightarrow> (\<forall>s a t. win_inv n s \<longrightarrow> m s = Inr (a, t) \<longrightarrow> safe_from n s t)"

named_theorems stable_intros \<open>rules for \<open>stable\<close>\<close>

lemma stableI: "(\<And>s a t. win_inv n s \<Longrightarrow> m s = Inr (a, t) \<Longrightarrow> safe_from n s t) \<Longrightarrow> stable n m"
  by (simp add: stable_def)

lemma stableD: "stable n m \<Longrightarrow> win_inv n s \<Longrightarrow> m s = Inr (a, t) \<Longrightarrow> safe_from n s t"
  by (simp add: stable_def)

lemma safe_from_inv: "safe_from n s t \<Longrightarrow> win_inv n t"
  by (simp add: safe_from_def)

lemma safe_trans: "safe_from n s t \<Longrightarrow> safe_from n t u \<Longrightarrow> safe_from n s u"
  by (simp add: safe_from_def)

lemma safe_tables: "win_inv n s \<Longrightarrow> win_tables t = win_tables s \<Longrightarrow> safe_from n s t"
  unfolding safe_from_def using win_inv_tables orphan_tables by blast

lemma stable_keeps: "keeps win_tables m \<Longrightarrow> stable n m"
  by (rule stableI) (rule safe_tables, assumption, rule keepsD)

lemma stable_bind [stable_intros]:
  assumes "stable n m" "\<And>a. stable n (f a)"
  shows "stable n (bindS m f)"
proof (rule stableI)
  fix s b u
  assume i: "win_inv n s" and "bindS m f s = Inr (b, u)"
  then obtain a t where "m s = Inr (a, t)" "f a t = Inr (b, u)" by (auto simp: bindS_eq_Inr)
  with i show "safe_from n s u" using assms stableD safe_from_inv safe_trans by meson
qed

lemma stable_basic [stable_intros]:
  "stable n (ret a)" "stable n (stop e)" "stable n (lift r)" "stable n (gets g)" "stable n (deref p)"
  by (intro stable_keeps frame_intros)+

lemma stable_if [stable_intros]:
  "(b \<Longrightarrow> stable n m) \<Longrightarrow> (\<not> b \<Longrightarrow> stable n m') \<Longrightarrow> stable n (if b then m else m')"
  "(b \<Longrightarrow> stable n u) \<Longrightarrow> stable n (whenS b u)"
  by (auto simp: whenS_def stable_basic)

section \<open>Keys and sockets\<close>

lemma keygen_Inr: "keygen s = Inr (k, t) \<Longrightarrow> k = gen_key s \<and> t = s\<lparr>gen_key := gen_key s + 1\<rparr>"
  by (auto simp: keygen_def bindS_eq_Inr lift_eq_Inr ck_int_eq_Inr)

lemma runs_calm: "keeps win_tables m \<Longrightarrow> (\<And>a t. win_tables t = win_tables s \<Longrightarrow> Q a t) \<Longrightarrow> runs (\<lambda>_. True) m Q s"
  by (auto simp: keeps_def runs_def split: sum.splits)

lemma runs_w_answer: "(\<And>a t. win_tables t = win_tables s \<Longrightarrow> Q a t) \<Longrightarrow> runs (\<lambda>_. True) w_answer Q s"
  by (intro runs_calm frame_intros)

lemma connect_server_calm [frame_intros]: "keeps win_tables connect_server"
  by (auto simp: connect_server_def intro!: frame_intros split: win_answer.split)

lemma store_server_runs:
  "runs (\<lambda>_. True) (store_server i h key) (\<lambda>_ t. \<exists>sk. server_key s = Some sk \<and> 0 \<le> i \<and> nat i < length sk \<and>
     win_tables t = (Some (sk[nat i := Some key]), w_clients s, w_processes s, gen_key s)) s"
  by (auto simp: store_server_def runs_def bindS_def lift_def deref_def c_write_i_def c_write_def win_tables_def
      split: option.splits sum.splits if_splits)

lemma create_server_socket_runs:
  "runs (\<lambda>_. True) (create_server_socket i) (\<lambda>_ t. \<exists>sk. server_key s = Some sk \<and> 0 \<le> i \<and> nat i < length sk \<and>
     win_tables t = (Some (sk[nat i := Some (gen_key s)]), w_clients s, w_processes s, gen_key s + 1)) s"
    (is "runs _ _ ?Q s")
proof -
  let ?g = "s\<lparr>gen_key := gen_key s + 1\<rparr>"
  have rest: "runs (\<lambda>_. True) (store_server i h (gen_key s)) (\<lambda>_. runs (\<lambda>_. True) connect_server ?Q) u"
    if u: "win_tables u = win_tables ?g" for u h
    by (rule runs_mono [OF store_server_runs], rule runs_calm [OF connect_server_calm]) (use u in \<open>auto simp: win_tables_def\<close>)
  show ?thesis
    unfolding create_server_socket_def runs_bind
    by (rule runsI, simp, drule keygen_Inr, rule runs_w_answer)
      (auto split: win_answer.split intro!: runs_lift runs_calm [OF system_calm(1)] rest)
qed

lemma runs_stable: "win_inv n s \<Longrightarrow> runs (\<lambda>_. True) m (\<lambda>_. safe_from n s) s \<Longrightarrow> m s = Inr (a, t) \<Longrightarrow> safe_from n s t"
  by (simp add: runs_def)

lemma win_invE:
  assumes "win_inv n s"
  obtains ks cl pl where "server_key s = Some (map Some ks)" "w_clients s = Some cl" "w_processes s = Some pl" "length ks = n"
    "tables_ok ks cl pl (gen_key s)"
  using assms by (auto simp: win_inv_def win_tables_def)

lemma safe_fromI:
  assumes "win_tables t = (Some (map Some ks'), Some cl', Some pl', g)" "length ks' = n" "tables_ok ks' cl' pl' g"
    "w_clients s = Some cl" "w_processes s = Some pl"
    "\<And>k p. (k, p) \<in> set (list_entries pl) \<Longrightarrow> client_key p \<notin> fst ` set (list_entries cl) \<Longrightarrow>
       (k, p) \<in> set (list_entries pl') \<and> client_key p \<notin> fst ` set (list_entries cl')"
  shows "safe_from n s t"
  using assms by (auto simp: safe_from_def win_inv_def orphan_def win_tables_def)

section \<open>Changes of the tables\<close>

lemma tables_okD:
  assumes "tables_ok ks cl pl g"
  shows "wf_list cl" "wf_list pl" "distinct ks" "distinct (map fst (list_entries cl))" "distinct (map fst (list_entries pl))"
    "set ks \<inter> fst ` set (list_entries cl) = {}" "k \<in> set ks \<Longrightarrow> k < g" "k \<in> fst ` set (list_entries cl) \<Longrightarrow> k < g"
    "(k, p) \<in> set (list_entries pl) \<Longrightarrow> k < g" "(k, p) \<in> set (list_entries pl) \<Longrightarrow> client_key p < g"
    "(k, p) \<in> set (list_entries pl) \<Longrightarrow> client_key p \<notin> set ks"
  using assms by (auto simp: tables_ok_def)

lemma tables_okI:
  assumes "wf_list cl" "wf_list pl" "distinct ks" "distinct (map fst (list_entries cl))" "distinct (map fst (list_entries pl))"
    "set ks \<inter> fst ` set (list_entries cl) = {}" "\<And>k. k \<in> set ks \<Longrightarrow> k < g" "\<And>k. k \<in> fst ` set (list_entries cl) \<Longrightarrow> k < g"
    "\<And>k p. (k, p) \<in> set (list_entries pl) \<Longrightarrow> k < g \<and> client_key p < g \<and> client_key p \<notin> set ks"
  shows "tables_ok ks cl pl g"
  using assms by (auto simp: tables_ok_def)

text \<open>A new key replaces the key of a socket, which becomes the key of a client.\<close>

lemma tables_ok_accept:
  assumes ok: "tables_ok ks cl pl g" and i: "i < length ks" and cl': "list_append cl (ks ! i) client = Inr cl'"
  shows "tables_ok (ks[i := g]) cl' pl (g + 1)" "list_entries cl' = list_entries cl @ [(ks ! i, client)]"
proof -
  have e: "wf_list cl'" "list_entries cl' = list_entries cl @ [(ks ! i, client)]"
    using tbl.append_Inr [OF _ cl'] ok by (auto simp: tables_ok_def)
  have d: "distinct ks" "g \<notin> set ks" using ok by (auto simp: tables_ok_def)
  then have u: "set (ks[i := g]) = insert g (set ks - {ks ! i})" "distinct (ks[i := g])"
    using i by (auto simp: set_update_distinct intro: distinct_list_update)
  have k: "ks ! i \<in> set ks" using i by simp
  note o = tables_okD [OF ok]
  have less: "x < g \<Longrightarrow> x < g + 1" for x by simp
  show "tables_ok (ks[i := g]) cl' pl (g + 1)"
  proof (rule tables_okI)
    show "distinct (map fst (list_entries cl'))" using o(4,6) k e(2) by auto
    show "set (ks[i := g]) \<inter> fst ` set (list_entries cl') = {}" using o(6) o(8) [of g] d(2) k by (auto simp: u(1) e(2))
    show "x < g + 1" if "x \<in> set (ks[i := g])" for x using that o(7) [of x] less by (auto simp: u(1))
    show "x < g + 1" if "x \<in> fst ` set (list_entries cl')" for x
    proof -
      from that have "x = ks ! i \<or> x \<in> fst ` set (list_entries cl)" by (auto simp: e(2))
      with o(8) [of x] o(7) [OF k] show ?thesis by (elim disjE) simp_all
    qed
    show "x < g + 1 \<and> client_key p < g + 1 \<and> client_key p \<notin> set (ks[i := g])" if "(x, p) \<in> set (list_entries pl)" for x p
      using o(9-11) [OF that] less by (auto simp: u(1))
  qed (use o e u in auto)
  show "list_entries cl' = list_entries cl @ [(ks ! i, client)]" by (rule e(2))
qed

lemma tables_ok_close:
  assumes ok: "tables_ok ks cl pl g" and cl': "list_remove cl key = Inr cl'"
  shows "tables_ok ks cl' pl g" "fst ` set (list_entries cl') \<subseteq> fst ` set (list_entries cl)"
proof -
  have w: "wf_list cl" "distinct (tbl.keys cl)" using ok by (auto simp: tables_ok_def tbl.keys_def)
  have w': "wf_list cl'" using tbl.remove_total [OF w(1), of key] cl' by auto
  note r = tbl.remove_distinct [OF w cl']
  have "tables_ok ks cl' pl g" using ok w' r by (auto simp: tables_ok_def tbl.keys_def)
  then show "tables_ok ks cl' pl g" .
  show "fst ` set (list_entries cl') \<subseteq> fst ` set (list_entries cl)" using r(2) by (auto simp: tbl.keys_def)
qed

lemma tables_ok_start:
  assumes ok: "tables_ok ks cl pl g" and pl': "list_append pl g p = Inr pl'" and key: "client_key p \<in> fst ` set (list_entries cl)"
  shows "tables_ok ks cl pl' (g + 1)" "list_entries pl' = list_entries pl @ [(g, p)]"
proof -
  have e: "wf_list pl'" "list_entries pl' = list_entries pl @ [(g, p)]"
    using tbl.append_Inr [OF _ pl'] ok by (auto simp: tables_ok_def)
  from ok key have "client_key p < g" "client_key p \<notin> set ks" by (auto simp: tables_ok_def)
  note p = this
  note o = tables_okD [OF ok]
  show "tables_ok ks cl pl' (g + 1)"
  proof (rule tables_okI)
    show "distinct (map fst (list_entries pl'))" using o(5) o(9) [of g] by (auto simp: e(2))
    show "x < g + 1 \<and> client_key q < g + 1 \<and> client_key q \<notin> set ks" if "(x, q) \<in> set (list_entries pl')" for x q
      using that o(9-11) [of x q] p by (auto simp: e(2))
    show "x < g + 1" if "x \<in> fst ` set (list_entries cl)" for x using o(8) [OF that] by simp
  qed (use o e in \<open>auto dest: o(7)\<close>)
  show "list_entries pl' = list_entries pl @ [(g, p)]" by (rule e(2))
qed

lemma tables_ok_end:
  assumes ok: "tables_ok ks cl pl g" and pl': "list_remove pl key = Inr pl'" and p: "map_of (list_entries pl) key = Some p"
  shows "tables_ok ks cl pl' g" "set (list_entries pl) = insert (key, p) (set (list_entries pl'))"
proof -
  have w: "wf_list pl" "distinct (tbl.keys pl)" using ok by (auto simp: tables_ok_def tbl.keys_def)
  have w': "wf_list pl'" using tbl.remove_total [OF w(1), of key] pl' by auto
  note r = tbl.remove_entries [OF w p pl']
  show "set (list_entries pl) = insert (key, p) (set (list_entries pl'))" by (rule r(2))
  then show "tables_ok ks cl pl' g" using ok w' r(1) by (auto simp: tables_ok_def tbl.keys_def)
qed

section \<open>The handlers\<close>

lemma close_client_Inr:
  assumes "w_close_client client key s = Inr (a, t)" "w_clients s = Some cl"
  shows "\<exists>cl'. list_remove cl key = Inr cl' \<and> win_tables t = win_tables (s\<lparr>w_clients := Some cl'\<rparr>)"
proof -
  have rest: "keeps win_tables (bindS (w_load client) (\<lambda>c. bindS (w_event (WE_close (wc_handle c))) (\<lambda>_.
     bindS (lift (free_writebuf (wc_writebuf c))) (\<lambda>_.
     bindS (modify (\<lambda>s. s\<lparr>w_heap := (w_heap s)(client := None)\<rparr>)) (\<lambda>_.
     bindS (gets single_client) (\<lambda>single.
     whenS (single \<and> list_is_empty cl) w_shutdown_server))))))" for cl
    by (auto simp: w_shutdown_server_def win_tables_def intro!: frame_intros)
  from assms show ?thesis
    unfolding w_close_client_def by (auto simp: bindS_eq_Inr [of "lift r" for r] lift_eq_Inr dest!: keepsD [OF rest])
qed

lemma stable_close_client: "stable n (w_close_client client key)"
proof (rule stableI)
  fix s a t
  assume i: "win_inv n s" and run: "w_close_client client key s = Inr (a, t)"
  from i obtain ks cl pl where k: "server_key s = Some (map Some ks)" "w_clients s = Some cl" "w_processes s = Some pl"
    "length ks = n" "tables_ok ks cl pl (gen_key s)" by (rule win_invE)
  from close_client_Inr [OF run k(2)] obtain cl' where cl': "list_remove cl key = Inr cl'"
    "win_tables t = win_tables (s\<lparr>w_clients := Some cl'\<rparr>)" by blast
  from tables_ok_close [OF k(5) cl'(1)] k cl'(2) show "safe_from n s t"
    by (auto simp: win_tables_def intro!: safe_fromI [of t ks cl' pl "gen_key s"])
qed

text \<open>Programs that are stable under a condition on the tables.\<close>

definition stable_when :: "nat \<Rightarrow> (int carray option \<times> nat t_list option \<times> win_proc t_list option \<times> int \<Rightarrow> bool) \<Rightarrow> (win, 'a) prog \<Rightarrow> bool" where
  "stable_when n P m \<longleftrightarrow> (\<forall>s a t. win_inv n s \<longrightarrow> P (win_tables s) \<longrightarrow> m s = Inr (a, t) \<longrightarrow> safe_from n s t)"

lemma stable_whenI:
  "(\<And>s a t. win_inv n s \<Longrightarrow> P (win_tables s) \<Longrightarrow> m s = Inr (a, t) \<Longrightarrow> safe_from n s t) \<Longrightarrow> stable_when n P m"
  by (simp add: stable_when_def)

lemma stable_whenD:
  "stable_when n P m \<Longrightarrow> win_inv n s \<Longrightarrow> P (win_tables s) \<Longrightarrow> m s = Inr (a, t) \<Longrightarrow> safe_from n s t"
  by (simp add: stable_when_def)

lemma stable_when: "stable n m \<Longrightarrow> stable_when n P m"
  by (simp add: stable_when_def stable_def)

lemma stable_when_bind:
  assumes "keeps win_tables m" "\<And>a. stable_when n P (f a)"
  shows "stable_when n P (bindS m f)"
proof (rule stable_whenI)
  fix s b u
  assume i: "win_inv n s" "P (win_tables s)" and "bindS m f s = Inr (b, u)"
  then obtain a t where a: "m s = Inr (a, t)" "f a t = Inr (b, u)" by (auto simp: bindS_eq_Inr)
  have t: "win_tables t = win_tables s" by (rule keepsD [OF assms(1) a(1)])
  note st = safe_tables [OF i(1) t]
  with i(2) t have "safe_from n t u" by (intro stable_whenD [OF assms(2) _ _ a(2)]) (simp_all add: safe_from_inv)
  with st show "safe_from n s u" by (rule safe_trans)
qed

lemma stable_when_then:
  assumes "stable_when n P m" "\<And>a. stable n (f a)"
  shows "stable_when n P (bindS m f)"
proof (rule stable_whenI)
  fix s b u
  assume i: "win_inv n s" "P (win_tables s)" and "bindS m f s = Inr (b, u)"
  then obtain a t where a: "m s = Inr (a, t)" "f a t = Inr (b, u)" by (auto simp: bindS_eq_Inr)
  have st: "safe_from n s t" by (rule stable_whenD [OF assms(1) i a(1)])
  have "safe_from n t u" by (rule stableD [OF assms(2) safe_from_inv [OF st] a(2)])
  with st show "safe_from n s u" by (rule safe_trans)
qed

lemma stable_when_cases:
  "(\<And>x y. p = (x, y) \<Longrightarrow> stable_when n P (g x y)) \<Longrightarrow> stable_when n P (case p of (x, y) \<Rightarrow> g x y)"
  "stable_when n P (stop e)"
  by (cases p) (auto simp: stable_when_def)

text \<open>The client of a request is connected.\<close>

definition has_client :: "int \<Rightarrow> int carray option \<times> nat t_list option \<times> win_proc t_list option \<times> int \<Rightarrow> bool" where
  "has_client key T \<longleftrightarrow> (\<exists>cl. fst (snd T) = Some cl \<and> key \<in> fst ` set (list_entries cl))"

lemma enter_process_stable: "key = client_key p \<Longrightarrow> stable_when n (has_client key) (enter_process p)"
proof (rule stable_whenI)
  fix s a t
  assume i: "win_inv n s" and P: "key = client_key p" "has_client key (win_tables s)" and run: "enter_process p s = Inr (a, t)"
  from i obtain ks cl pl where k: "server_key s = Some (map Some ks)" "w_clients s = Some cl" "w_processes s = Some pl"
    "length ks = n" "tables_ok ks cl pl (gen_key s)" by (rule win_invE)
  from run k obtain pl' where pl': "list_append pl (gen_key s) p = Inr pl'"
    "win_tables t = (Some (map Some ks), Some cl, Some pl', gen_key s + 1)"
    by (auto simp: enter_process_def bindS_eq_Inr lift_eq_Inr win_tables_def dest!: keygen_Inr)
  have "client_key p \<in> fst ` set (list_entries cl)" using P k(2) by (simp add: has_client_def win_tables_def)
  from tables_ok_start [OF k(5) pl'(1) this] k pl'(2) show "safe_from n s t"
    by (auto intro!: safe_fromI [of t ks cl pl' "gen_key s + 1"])
qed

lemma register_process_stable:
  "stable_when n (has_client (req_key r)) (register_process r client ghJob outfilehandle file hProcess hThread)"
  unfolding register_process_def
  by (rule stable_when_bind [OF w_ok_calm(1)], rule stable_when_bind [OF frame_when(1) [OF w_shutdown_calm]],
      rule stable_when_then, rule enter_process_stable, simp)
    (intro stable_keeps frame_intros)

lemma launch_stable: "stable_when n (has_client (req_key r)) (launch r f client)"
  unfolding launch_def Let_def
  by (auto intro!: stable_when_bind stable_when_cases frame_intros register_process_stable
      stable_when [OF stable_keeps [OF messages_calm(5)]] split: win_answer.split option.split)

lemma run_request_stable: "stable n (w_run_request r)"
proof (rule stableI)
  fix s a t
  assume i: "win_inv n s" and run: "w_run_request r s = Inr (a, t)"
  from i obtain ks cl pl where k: "w_clients s = Some cl" "tables_ok ks cl pl (gen_key s)" by (auto elim: win_invE)
  then have look: "list_lookup cl (req_key r) = Inr (map_of (list_entries cl) (req_key r))"
    by (intro tbl.lookup_map) (simp add: tables_ok_def)
  show "safe_from n s t"
  proof (cases "map_of (list_entries cl) (req_key r)")
    case None
    with run k look have "t = s" by (simp add: w_run_request_def)
    with i show ?thesis by (simp add: safe_tables)
  next
    case (Some c)
    then have "has_client (req_key r) (win_tables s)"
      using k by (force simp: has_client_def win_tables_def dest: map_of_SomeD)
    moreover obtain f where "launch r f c s = Inr (a, t)"
      using run k look Some by (auto simp: w_run_request_def split: option.splits)
    ultimately show ?thesis using i by (intro stable_whenD [OF launch_stable])
  qed
qed

lemmas stable_calm = w_answer_calm(1) [THEN stable_keeps] w_event_calm(1) [THEN stable_keeps] w_load_calm [THEN stable_keeps]
  w_store_calm(1) [THEN stable_keeps] w_shutdown_calm [THEN stable_keeps] system_calm(1,3,5,7) [THEN stable_keeps]
  messages_calm(1,3,5,7,9) [THEN stable_keeps] clients_calm [THEN stable_keeps]

lemma handle_msg_stable: "stable n (w_handle_msg client key)"
proof -
  have q: "stable n (modify (\<lambda>s. s\<lparr>w_queue := Some q\<rparr>))" for q
    by (rule stable_keeps) (auto simp: keeps_def win_tables_def)
  show ?thesis
    unfolding w_handle_msg_def
    by (auto intro!: stable_intros stable_calm q run_request_stable stable_keeps [OF lift_state_tables [OF parse_request_frame]]
        split: option.split request_type.split)
qed

lemma read_done_stable: "stable n (read_done client key res err numbytes bytes)"
  unfolding read_done_def
  by (auto intro!: stable_intros stable_calm handle_msg_stable stable_close_client)

text \<open>A socket that reports a connection has the key of the event.\<close>

definition is_server :: "int \<Rightarrow> int \<Rightarrow> int carray option \<times> nat t_list option \<times> win_proc t_list option \<times> int \<Rightarrow> bool" where
  "is_server key i T \<longleftrightarrow> (\<exists>sk. fst T = Some sk \<and> nat i < length sk \<and> sk ! nat i = Some key)"

lemma accept_client_stable: "stable_when n (is_server key i) (accept_client key i)"
proof -
  have m: "keeps win_tables (modify (\<lambda>s. s\<lparr>w_next := Suc c, w_heap := (w_heap s)(c := x)\<rparr>))" for c x
    by (auto simp: keeps_def win_tables_def)
  have tail: "stable_when n (is_server key i) (bindS (create_server_socket i) (\<lambda>_.
     bindS (gets w_clients) (\<lambda>cl.
     bindS (deref cl) (\<lambda>cl.
     bindS (lift (list_append cl key c)) (\<lambda>cl.
     bindS (modify (\<lambda>s. s\<lparr>w_clients := Some cl\<rparr>)) (\<lambda>_.
     do_read c))))))" for c
  proof (rule stable_whenI)
    fix s a t
    assume i: "win_inv n s" and P: "is_server key i (win_tables s)"
      and run: "bindS (create_server_socket i) (\<lambda>_. bindS (gets w_clients) (\<lambda>cl. bindS (deref cl) (\<lambda>cl.
        bindS (lift (list_append cl key c)) (\<lambda>cl. bindS (modify (\<lambda>s. s\<lparr>w_clients := Some cl\<rparr>)) (\<lambda>_. do_read c))))) s = Inr (a, t)"
    from i obtain ks cl pl where k: "server_key s = Some (map Some ks)" "w_clients s = Some cl" "w_processes s = Some pl"
      "length ks = n" "tables_ok ks cl pl (gen_key s)" by (rule win_invE)
    from P k(1) have i': "nat i < length ks" "key = ks ! nat i" by (auto simp: is_server_def win_tables_def)
    from run obtain u where u: "create_server_socket i s = Inr ((), u)"
      and rest: "bindS (gets w_clients) (\<lambda>cl. bindS (deref cl) (\<lambda>cl.
        bindS (lift (list_append cl key c)) (\<lambda>cl. bindS (modify (\<lambda>s. s\<lparr>w_clients := Some cl\<rparr>)) (\<lambda>_. do_read c)))) u = Inr (a, t)"
      by (auto simp: bindS_eq_Inr [of "create_server_socket i"])
    from runs_Inr [OF create_server_socket_runs u] k
    have tu: "win_tables u = (Some (map Some (ks[nat i := gen_key s])), Some cl, Some pl, gen_key s + 1)"
      by (auto simp: map_update)
    with rest obtain cl' where cl': "list_append cl key c = Inr cl'" "win_tables t = win_tables (u\<lparr>w_clients := Some cl'\<rparr>)"
      by (auto simp: win_tables_def bindS_eq_Inr [of "lift r" for r] lift_eq_Inr dest!: keepsD [OF clients_calm(1)])
    note ok = tables_ok_accept [OF k(5) i'(1) cl'(1) [unfolded i'(2)]]
    have orphans: "client_key p \<notin> fst ` set (list_entries cl')"
      if "(x, p) \<in> set (list_entries pl)" "client_key p \<notin> fst ` set (list_entries cl)" for x p
      using that tables_okD(11) [OF k(5) that(1)] i'(1) nth_mem [of "nat i" ks] by (auto simp only: ok(2) set_append image_Un) auto
    show "safe_from n s t"
      by (rule safe_fromI [OF _ _ ok(1) k(2,3)]) (use cl' tu k(4) orphans in \<open>auto simp: win_tables_def\<close>)
  qed
  show ?thesis
    unfolding accept_client_def
    by (intro stable_when_bind frame_intros m tail)
qed

text \<open>A process that ends has a client.\<close>

definition has_process :: "int \<Rightarrow> win_proc \<Rightarrow> int carray option \<times> nat t_list option \<times> win_proc t_list option \<times> int \<Rightarrow> bool" where
  "has_process key p T \<longleftrightarrow> (\<exists>pl. fst (snd (snd T)) = Some pl \<and> map_of (list_entries pl) key = Some p) \<and> has_client (client_key p) T"

lemma remove_process_stable:
  "stable_when n (has_process key p)
     (bindS (gets w_processes) (\<lambda>ps. bindS (deref ps) (\<lambda>pl. bindS (lift (list_remove pl key)) (\<lambda>pl.
      modify (\<lambda>s. s\<lparr>w_processes := Some pl\<rparr>)))))"
proof (rule stable_whenI)
  fix s a t
  assume i: "win_inv n s" and P: "has_process key p (win_tables s)"
    and run: "bindS (gets w_processes) (\<lambda>ps. bindS (deref ps) (\<lambda>pl. bindS (lift (list_remove pl key)) (\<lambda>pl.
      modify (\<lambda>s. s\<lparr>w_processes := Some pl\<rparr>)))) s = Inr (a, t)"
  from i obtain ks cl pl where k: "server_key s = Some (map Some ks)" "w_clients s = Some cl" "w_processes s = Some pl"
    "length ks = n" "tables_ok ks cl pl (gen_key s)" by (rule win_invE)
  from run k(3) obtain pl' where pl': "list_remove pl key = Inr pl'" "t = s\<lparr>w_processes := Some pl'\<rparr>"
    by (auto simp: bindS_eq_Inr lift_eq_Inr)
  from P k have p: "map_of (list_entries pl) key = Some p" "client_key p \<in> fst ` set (list_entries cl)"
    by (auto simp: has_process_def has_client_def win_tables_def)
  note ok = tables_ok_end [OF k(5) pl'(1) p(1)]
  show "safe_from n s t"
    by (rule safe_fromI [OF _ k(4) ok(1) k(2,3)]) (use k pl'(2) p(2) ok(2) in \<open>auto simp: win_tables_def\<close>)
qed

lemma child_event_stable: "stable_when n (has_process key p) (handle_child_event p client key event)"
proof -
  have *: "handle_child_event p client key event =
     (if event = 6 \<or> event = 4 then ret ()
      else if event \<in> {1, 2, 10, 9, 8, 7} then
        bindS (w_event (WE_wait (pr_handle p))) (\<lambda>_.
        bindS (bindS (gets w_processes) (\<lambda>ps. bindS (deref ps) (\<lambda>pl. bindS (lift (list_remove pl key)) (\<lambda>pl.
          modify (\<lambda>s. s\<lparr>w_processes := Some pl\<rparr>))))) (\<lambda>_.
        bindS w_answer (\<lambda>a.
        case a of
          W_ended exitcode sys user \<Rightarrow>
            bindS (w_send_msg client (task_id p) exitcode (w_cpu_seconds sys user) (quota_hit exitcode) (outfile p)) (\<lambda>_.
            w_free_process p)
        | _ \<Rightarrow> stop No_answer)))
      else stop (Exit 1))"
    unfolding handle_child_event_def by (simp only: bindS_assoc)
  have tail: "stable n (bindS w_answer (\<lambda>a.
        case a of
          W_ended exitcode sys user \<Rightarrow>
            bindS (w_send_msg client (task_id p) exitcode (w_cpu_seconds sys user) (quota_hit exitcode) (outfile p)) (\<lambda>_.
            w_free_process p)
        | _ \<Rightarrow> stop No_answer))"
    by (auto intro!: stable_intros stable_calm split: win_answer.split)
  show ?thesis
    unfolding * using stable_when_bind [OF w_event_calm(1) stable_when_then [OF remove_process_stable tail]]
    by (auto intro!: stable_when [OF stable_basic(1)] stable_when [OF stable_basic(2)])
qed

lemma process_event_stable: "stable n (process_event key numbytes)"
proof (rule stableI)
  fix s a t
  assume i: "win_inv n s" and run: "process_event key numbytes s = Inr (a, t)"
  from i obtain ks cl pl where k: "w_clients s = Some cl" "w_processes s = Some pl" "wf_list cl" "wf_list pl"
    by (auto elim!: win_invE dest: tables_okD)
  note look = tbl.lookup_map [OF k(3)] tbl.lookup_map [OF k(4)]
  show "safe_from n s t"
  proof (cases "\<exists>p c. map_of (list_entries pl) key = Some p \<and> map_of (list_entries cl) (client_key p) = Some c")
    case True
    then obtain p c where p: "map_of (list_entries pl) key = Some p" "map_of (list_entries cl) (client_key p) = Some c" by blast
    with run k look have "handle_child_event p c key numbytes s = Inr (a, t)" by (simp add: process_event_def)
    moreover have "has_process key p (win_tables s)"
      using p k by (force simp: has_process_def has_client_def win_tables_def dest: map_of_SomeD)
    ultimately show ?thesis using i by (intro stable_whenD [OF child_event_stable])
  next
    case False
    with run k look have "t = s" by (auto simp: process_event_def split: option.splits)
    with i show ?thesis by (simp add: safe_tables)
  qed
qed

section \<open>The loop\<close>

lemma schedule_stable: "stable n w_schedule_new_jobs"
proof -
  have q: "stable n (modify (\<lambda>s. s\<lparr>w_queue := Some q\<rparr>))" for q
    by (rule stable_keeps) (auto simp: keeps_def win_tables_def)
  have body: "stable n (bindS run_next_job (\<lambda>_. job_ready))"
    unfolding run_next_job_def
    by (auto intro!: stable_intros stable_calm q run_request_stable split: prod.splits)
  have "stable n (whileS (\<lambda>go. go) (\<lambda>_. bindS run_next_job (\<lambda>_. job_ready)) go)" for go
  proof (rule stableI)
    fix s a t
    assume i: "win_inv n s" and run: "whileS (\<lambda>go. go) (\<lambda>_. bindS run_next_job (\<lambda>_. job_ready)) go s = Inr (a, t)"
    show "safe_from n s t"
      by (rule whileS_keeps [OF run]) (use i body in \<open>auto intro: safe_tables safe_trans stableD safe_from_inv\<close>)
  qed
  then show ?thesis unfolding w_schedule_new_jobs_def by (intro stable_intros stable_calm)
qed

text \<open>The loop of \<^verbatim>\<open>schedule_new_jobs\<close> ends: every turn takes a request out of the queue.\<close>

lemma run_request_queue: "keeps w_queue (w_run_request r)"
proof -
  have "keeps w_queue (enter_process p)" for p by (auto simp: enter_process_def keygen_def intro!: frame_intros)
  then show ?thesis
    by (auto simp: w_run_request_def launch_def register_process_def Let_def intro!: frame_intros split: win_answer.split)
qed

lemma run_next_job_shorter:
  assumes "bindS run_next_job (\<lambda>_. job_ready) s = Inr (go, t)"
  shows "unat (q_len (the (w_queue t))) < unat (q_len (the (w_queue s)))"
proof -
  have j: "keeps w_queue job_ready" by (auto simp: job_ready_def intro!: frame_intros)
  from assms obtain u where u: "run_next_job s = Inr ((), u)" "job_ready u = Inr (go, t)" by (auto simp: bindS_eq_Inr)
  from u(1) obtain q r q' where q: "w_queue s = Some q" "queue_pop q = Inr (r, q')"
    "w_run_request r (s\<lparr>w_queue := Some q'\<rparr>) = Inr ((), u)"
    by (auto simp: run_next_job_def bindS_eq_Inr lift_eq_Inr deref_def split: option.splits)
  from keepsD [OF j u(2)] keepsD [OF run_request_queue q(3)] have "w_queue t = Some q'" by simp
  with q(1) queue_pop_len [OF q(2)] show ?thesis by simp
qed

lemma schedule_ends: "\<exists>r. while_run (\<lambda>go. go) (\<lambda>_. bindS run_next_job (\<lambda>_. job_ready)) go s = Some r"
  by (rule while_run_ends [where m = "\<lambda>s. unat (q_len (the (w_queue s)))"]) (rule run_next_job_shorter)

lemma server_num_from_Inr:
  "server_num_from sk key par i = Inr m \<Longrightarrow> m \<noteq> - 1 \<Longrightarrow> 0 \<le> i \<Longrightarrow>
     i \<le> m \<and> m < par \<and> nat m < length sk \<and> sk ! nat m = Some key"
proof (induction sk key par i rule: server_num_from.induct)
  case (1 sk key par i)
  from "1.prems"(1) "1.prems"(2) have "i < par" by (subst (asm) server_num_from.simps) (auto split: if_splits)
  with "1.prems"(1) obtain k where k: "c_read_i sk i = Inr k"
    "if k = key then m = i else server_num_from sk key par (i + 1) = Inr m"
    by (subst (asm) server_num_from.simps) (auto simp: bindE_eq_Inr split: if_splits)
  show ?case
  proof (cases "k = key")
    case True
    with k \<open>i < par\<close> "1.prems"(3) show ?thesis by (auto simp: c_read_i_def c_read_def split: if_splits option.splits)
  next
    case False
    with k "1.IH" [OF \<open>i < par\<close> k(1) False] "1.prems" show ?thesis by auto
  qed
qed

lemma socket_event_stable:
  "stable_when n (\<lambda>T. m \<noteq> - 1 \<longrightarrow> is_server key m T) (socket_event key m res err numbytes ov)"
proof (cases "m = - 1")
  case True
  have "stable n (socket_event key (- 1) res err numbytes ov)"
    unfolding socket_event_def by (auto intro!: stable_intros stable_calm read_done_stable split: option.split)
  with True show ?thesis by (simp add: stable_when)
next
  case False
  then show ?thesis
    using accept_client_stable [of n key m] stable_when [OF stable_keeps [OF w_shutdown_calm]]
    by (auto simp: socket_event_def)
qed

lemma win_turn_stable: "stable n win_turn"
proof -
  have ev: "stable n (bindS (get_server_num key) (\<lambda>m.
     if kind = SOCKET then socket_event key m res err numbytes ov
     else if kind = PROCESS then process_event key numbytes
     else stop (Exit 1)))" for key kind res err numbytes ov
  proof (rule stableI)
    fix s a t
    assume i: "win_inv n s" and run: "bindS (get_server_num key) (\<lambda>m.
     if kind = SOCKET then socket_event key m res err numbytes ov
     else if kind = PROCESS then process_event key numbytes
     else stop (Exit 1)) s = Inr (a, t)"
    from run obtain sk m where sk: "server_key s = Some sk" "server_num_from sk key (parallel s) 0 = Inr m"
      and rest: "(if kind = SOCKET then socket_event key m res err numbytes ov
        else if kind = PROCESS then process_event key numbytes else stop (Exit 1)) s = Inr (a, t)"
      by (auto simp: get_server_num_def bindS_eq_Inr lift_eq_Inr deref_def split: option.splits)
    have "m \<noteq> - 1 \<longrightarrow> is_server key m (win_tables s)"
      using server_num_from_Inr [OF sk(2)] sk(1) by (auto simp: is_server_def win_tables_def)
    then show "safe_from n s t"
      using rest stable_whenD [OF socket_event_stable i] stableD [OF process_event_stable i] by (auto split: if_splits)
  qed
  show ?thesis
    unfolding win_turn_def Let_def
    by (rule stable_bind [OF schedule_stable], rule stable_bind [OF stable_keeps [OF clients_calm(5)]])
      (simp only: split_def, rule stable_bind [OF stable_if(2) [OF stable_keeps [OF w_shutdown_calm]] ev])
qed

section \<open>Initialisation\<close>

lemma sockets_step:
  assumes "0 \<le> i" "i < par"
  shows "(map Some [1..i] @ replicate (nat (par - i)) None)[nat i := Some (i + 1)] =
    map Some [1..i + 1] @ replicate (nat (par - (i + 1))) None"
proof -
  have r: "nat (par - i) = Suc (nat (par - (i + 1)))" using assms by simp
  have u: "[1..i + 1] = [1..i] @ [i + 1]" using assms by (simp add: upto_rec2)
  have l: "length [1..i] = nat i" by simp
  show ?thesis unfolding r u using l by (simp add: list_update_append)
qed

lemma create_sockets_Inr:
  assumes "0 \<le> i" "i \<le> par" "create_sockets_from par i s = Inr (u, t)"
    "win_tables s = (Some (map Some [1..i] @ replicate (nat (par - i)) None), cl, pl, i + 1)"
  shows "win_tables t = (Some (map Some [1..par]), cl, pl, par + 1)"
  using assms
proof (induction "nat (par - i)" arbitrary: i s)
  case 0
  then have "i = par" by simp
  with 0 show ?case by (simp add: create_sockets_from.simps)
next
  case (Suc n)
  then have lt: "i < par" by simp
  with Suc.prems(3) obtain v where v: "create_server_socket i s = Inr ((), v)" "create_sockets_from par (i + 1) v = Inr (u, t)"
    by (subst (asm) create_sockets_from.simps) (auto simp: bindS_eq_Inr)
  from runs_Inr [OF create_server_socket_runs v(1)] Suc.prems(4)
  have "win_tables v = (Some ((map Some [1..i] @ replicate (nat (par - i)) None)[nat i := Some (i + 1)]), cl, pl, i + 1 + 1)"
    by (auto simp: win_tables_def)
  then show ?case unfolding sockets_step [OF Suc.prems(1) lt]
    using Suc.hyps(1) [of "i + 1" v] Suc.hyps(2) Suc.prems(1) v(2) lt by simp
qed

lemma parallel_calm: "keeps parallel w_answer" "keeps parallel w_open_log"
proof -
  show a: "keeps parallel w_answer" by (auto simp: keeps_def w_answer_def split: list.splits)
  show "keeps parallel w_open_log"
    by (auto simp: w_open_log_def init_logging_def intro!: a frame_intros split: win_answer.split)
qed

text \<open>The buffer for the name of the pipe has exactly the right size.\<close>

lemma pipe_path_spec:
  assumes "is_cstring name" "length name + 10 < max_alloc"
  shows "pipe_path name = Inr (map Some (PIPE_PREFIX @ name @ [NUL]))"
proof -
  let ?r = "replicate (length name) (None :: char option)"
  have c: "c_malloc 1 (length name + 10) = Inr (replicate 10 None @ ?r)"
    using assms(2) by (simp add: c_malloc_def replicate_add [symmetric] add.commute)
  have l: "length PIPE_PREFIX = 9" "is_cstring PIPE_PREFIX" by (simp_all add: PIPE_PREFIX_def is_cstring_def BSLASH_def)
  have p: "c_strcpy (replicate 10 None @ ?r) PIPE_PREFIX = Inr (map Some (PIPE_PREFIX @ [NUL]) @ ?r)"
    using l(1) by (simp add: c_strcpy_def c_store_def)
  have "c_strcat (map Some (PIPE_PREFIX @ [NUL]) @ ?r) name = Inr (map Some (PIPE_PREFIX @ name @ [NUL]))"
    using strcat_text [OF l(2), of ?r name] by simp
  with c p show ?thesis by (simp add: pipe_path_def)
qed

lemma init_pipe_calm: "keeps win_tables (init_pipe basename)" "keeps parallel (init_pipe basename)"
  unfolding init_pipe_def by (auto intro!: frame_intros parallel_calm split: win_answer.split simp: win_tables_def)

lemma init_tables_Inr:
  assumes "init_tables_win s = Inr (u, t)" "valid_options s"
  shows "\<exists>cl pl. win_tables t = (Some (replicate (nat (parallel s)) None), Some cl, Some pl, gen_key s) \<and> parallel t = parallel s \<and>
    wf_list cl \<and> wf_list pl \<and> list_entries cl = [] \<and> list_entries pl = []"
proof -
  have n: "size_t_of (parallel s) = nat (parallel s)" using assms(2) by (simp add: valid_options_def size_t_of_def is_int_def)
  obtain cl pl where "init_list (parallel s) = Inr cl" "init_list (parallel s) = Inr pl" "parallel t = parallel s"
    "win_tables t = (Some (replicate (nat (parallel s)) None), Some cl, Some pl, gen_key s)"
    using assms(1) by (auto simp: init_tables_win_def init_process_list_def bindS_eq_Inr lift_eq_Inr lift_state_eq_Inr bindE_eq_Inr
        c_malloc_eq_Inr win_tables_def n)
  then show ?thesis using init_list_wf [of "parallel s" cl] init_list_wf [of "parallel s" pl] assms(2) by (auto simp: valid_options_def)
qed

lemma win_init_inv:
  assumes "win_init basename (win_static g as) = Inr (u, t)" "valid_options g"
  shows "win_inv (nat (parallel g)) t"
proof -
  let ?s = "win_static g as"
  have par: "parallel ?s = parallel g" "gen_key ?s = 1" by (simp_all add: win_static_def globals.extend_def)
  from assms(1) obtain a b v where run: "init_pipe basename ?s = Inr ((), a)" "init_tables_win a = Inr ((), b)"
    "w_open_log b = Inr ((), v)" "create_sockets_from (parallel v) 0 v = Inr (u, t)"
    by (auto simp: win_init_def bindS_eq_Inr)
  from keepsD [OF init_pipe_calm(2) run(1)] keepsD [OF init_pipe_calm(1) run(1)] par
  have a: "parallel a = parallel g" "gen_key a = 1" by (auto simp: win_tables_def)
  with init_tables_Inr [OF run(2)] assms(2) obtain cl pl where b: "parallel b = parallel g" "wf_list cl" "wf_list pl"
    "win_tables b = (Some (replicate (nat (parallel g)) None), Some cl, Some pl, 1)" "list_entries cl = []" "list_entries pl = []"
    by (auto simp: valid_options_def)
  have "parallel v = parallel b" by (rule keepsD [OF parallel_calm(2) run(3)])
  with b(1) run(4) have "create_sockets_from (parallel g) 0 v = Inr (u, t)" by simp
  then have "win_tables t = (Some (map Some [1..parallel g]), Some cl, Some pl, parallel g + 1)"
    by (rule create_sockets_Inr [rotated 2]) (use assms(2) b(4) keepsD [OF system_calm(7) run(3)] in \<open>auto simp: valid_options_def\<close>)
  with b show ?thesis
    unfolding win_inv_def tables_ok_def by (auto simp: win_tables_def intro!: exI [of _ "[1..parallel g]"])
qed

section \<open>Properties\<close>

lemma turns_safe: "win_turns s t \<Longrightarrow> win_inv n s \<Longrightarrow> safe_from n s t"
proof (induction rule: win_turns.induct)
  case (turns_refl s)
  then show ?case by (simp add: safe_tables)
next
  case (turns_step s t u)
  then have "safe_from n s t" by blast
  moreover from this have "safe_from n t u" using stableD [OF win_turn_stable _ turns_step.hyps(2)] safe_from_inv by blast
  ultimately show ?case by (rule safe_trans)
qed

lemma reach_inv: "win_reach basename g as s \<Longrightarrow> valid_options g \<Longrightarrow> win_inv (nat (parallel g)) s"
  unfolding win_reach_def using win_init_inv turns_safe safe_from_inv by blast

lemma run_turns: "win_run n s = Inr ((), t) \<Longrightarrow> win_turns s t"
proof -
  have "win_turns r s \<Longrightarrow> win_run n s = Inr ((), t) \<Longrightarrow> win_turns r t" for r
  proof (induction n arbitrary: s)
    case (Suc n)
    then obtain u where "win_turn s = Inr ((), u)" "win_run n u = Inr ((), t)" by (auto simp: bindS_eq_Inr)
    with Suc turns_step show ?case by blast
  qed simp
  from this [OF turns_refl] show "win_run n s = Inr ((), t) \<Longrightarrow> win_turns s t" .
qed


text \<open>A run with one process slot, in which a client connects and sends a line.\<close>

definition win_options :: globals where
  "win_options = \<lparr>parallel = 1, socketname = Some ''why3'', logging = False, single_client = False, logfile = None\<rparr>"

definition win_started :: "win_answer list \<Rightarrow> win" where
  "win_started as = globals.extend win_options \<lparr>w_answers = as, w_trace = [], server_socket = Some [Some (Server 10)],
     server_key = Some [Some 1], w_clients = Some \<lparr>l_key = [None], l_data = [None], l_len = 0, l_capacity = 1\<rparr>,
     w_dir = ''C'', gen_key = 2, pipe_name = PIPE_PREFIX @ ''why3'', completion_port = 7,
     w_processes = Some \<lparr>l_key = [None], l_data = [None], l_len = 0, l_capacity = 1\<rparr>,
     w_queue = Some \<lparr>q_data = replicate 100 None, q_pointer = 0, q_len = 0, q_capacity = 100\<rparr>,
     w_heap = (\<lambda>_. None), w_next = 0, w_status = None\<rparr>"

lemma win_started_pipe:
  "init_pipe id (win_static win_options (W_dir ''C'' # as)) =
     Inr ((), (win_static win_options as)\<lparr>w_dir := ''C'', pipe_name := PIPE_PREFIX @ ''why3''\<rparr>)"
proof -
  define B where "B = map Some (PIPE_PREFIX @ ''why3'' @ [NUL])"
  have p: "pipe_path ''why3'' = Inr B"
    unfolding B_def by (rule pipe_path_spec) (simp_all add: is_cstring_def max_alloc_def)
  have t: "c_text B (length B) = Inr (PIPE_PREFIX @ ''why3'')"
    by (simp add: B_def PIPE_PREFIX_def BSLASH_def numeral_eq_Suc bindE_def)
  have o: "socketname (win_static win_options xs) = Some ''why3''" for xs
    by (simp add: win_static_def win_options_def globals.extend_def)
  have w: "w_answer (win_static win_options (x # as)) = Inr (x, win_static win_options as)" for x
    by (simp add: w_answer_def win_static_def globals.extend_def)
  show ?thesis
    by (simp add: init_pipe_def bindS_def w o whenS_def is_cstring_def MAX_PATH_def p t lift_def)
qed

lemma win_started_tables:
  "init_tables_win ((win_static win_options as)\<lparr>w_dir := ''C'', pipe_name := PIPE_PREFIX @ ''why3''\<rparr>) =
     Inr ((), (win_started as)\<lparr>server_socket := Some [None], server_key := Some [None], gen_key := 1, completion_port := 0\<rparr>)"
  by (simp add: init_tables_win_def init_request_queue_def init_queue_def init_process_list_def init_list_def lift_state_def
      win_static_def win_options_def win_started_def globals.extend_def c_malloc_def max_alloc_def size_t_of_def c_assert_def
      bindE_def bindS_def lift_def)

lemma win_started_init:
  "win_init id (win_static win_options (W_dir ''C'' # W_pipe 10 # W_port 7 # W_connect False 997 # as)) = Inr ((), win_started as)"
proof -
  let ?s = "(win_started (W_pipe 10 # W_port 7 # W_connect False 997 # as))
    \<lparr>server_socket := Some [None], server_key := Some [None], gen_key := 1, completion_port := 0\<rparr>"
  have l: "w_open_log ?s = Inr ((), ?s)" "parallel ?s = 1"
    by (simp_all add: w_open_log_def win_started_def win_options_def globals.extend_def)
  have "create_server_socket 0 ?s = Inr ((), win_started as)"
    by (simp add: create_server_socket_def keygen_def to_ms_key_def SOCKET_def add_to_completion_port_def store_server_def
        connect_server_def ERROR_IO_PENDING_def bindS_def w_answer_def win_started_def win_options_def globals.extend_def whenS_def
        ck_int_def is_int_def bindE_def lift_def c_write_i_def c_write_def)
  then have c: "create_sockets_from 1 0 ?s = Inr ((), win_started as)"
    by (subst create_sockets_from.simps, subst create_sockets_from.simps) (simp add: bindS_def)
  show ?thesis
    using l by (simp add: win_init_def bindS_def win_started_pipe win_started_tables c)
qed


text \<open>A client with a running process, which uses the only slot.\<close>

definition busy_proc :: win_proc where
  "busy_proc = \<lparr>client_key = 1, task_id = ''a'', outfile = ''t'', pr_handle = 30, pr_job = 20\<rparr>"

definition win_busy :: "win_answer list \<Rightarrow> win" where
  "win_busy as = (win_started as)\<lparr>server_socket := Some [Some (Server 11)], server_key := Some [Some 2], gen_key := 4,
     w_clients := Some \<lparr>l_key = [Some 1], l_data = [Some 0], l_len = 1, l_capacity = 1\<rparr>,
     w_processes := Some \<lparr>l_key = [Some 3], l_data = [Some busy_proc], l_len = 1, l_capacity = 1\<rparr>,
     w_heap := [0 \<mapsto> \<lparr>wc_handle = 10, wc_readbuf = \<lparr>rb_data = [], rb_len = 0, rb_capacity = 0\<rparr>,
       wc_writebuf = \<lparr>wb_data = None, wb_len = 0, wb_pointer = 0, is_writing = False,
         writequeue = \<lparr>q_data = [None], q_pointer = 0, q_len = 0, q_capacity = 1\<rparr>\<rparr>\<rparr>]\<rparr>"

definition win_alone :: "win_answer list \<Rightarrow> win" where
  "win_alone as = (win_busy as)\<lparr>w_trace := [WE_close 10], w_heap := (\<lambda>_. None),
     w_clients := Some \<lparr>l_key = [Some 1], l_data = [Some 0], l_len = 0, l_capacity = 1\<rparr>\<rparr>"

lemma win_busy_inv: "win_inv 1 (win_busy as)"
  by (auto simp: win_inv_def win_tables_def win_busy_def win_started_def tables_ok_def wf_list_def list_entries_def is_int_def
      busy_proc_def globals.extend_def intro!: exI [of _ "[2]"])

lemma win_busy_close: "w_close_client 0 1 (win_busy as) = Inr ((), win_alone as)"
  by (auto simp: w_close_client_def bindS_def win_busy_def win_alone_def win_started_def win_options_def globals.extend_def
      list_remove_def list_lookup_index_def lookup_index_from.simps list_is_empty_def w_load_def w_event_def free_writebuf_def
      free_writequeue.simps queue_is_empty_def free_queue_def c_assert_def bindE_def c_read_i_def c_read_def c_write_i_def c_write_def
      INVALID_INDEX_def fun_eq_iff)

lemma win_alone_turn:
  "win_turn (win_alone [W_status True 0 7 7 0 []]) = Inr ((), (win_alone [])\<lparr>w_status := Some (7, 7)\<rparr>)"
  by (simp add: win_turn_def w_schedule_new_jobs_def job_ready_def whileS_def while_run.simps next_status_def w_answer_def bindS_def
      win_busy_def win_alone_def win_started_def win_options_def globals.extend_def list_length_def get_server_num_def
      server_num_from.simps key_of_ms_key_def kind_of_ms_key_def process_event_def list_lookup_def list_lookup_index_def
      lookup_index_from.simps SOCKET_def PROCESS_def bindE_def c_read_i_def c_read_def INVALID_INDEX_def busy_proc_def c_int_def lift_def)

lemma close_orphan:
  assumes "win_inv n s" "w_processes s = Some pl" "(k, p) \<in> set (list_entries pl)"
    "w_close_client client (client_key p) s = Inr (u, t)"
  shows "orphan k p t"
proof -
  from assms(1,2) obtain ks cl where c: "w_clients s = Some cl" "tables_ok ks cl pl (gen_key s)" by (auto elim!: win_invE)
  from close_client_Inr [OF assms(4) c(1)] obtain cl' where cl': "list_remove cl (client_key p) = Inr cl'"
    "win_tables t = win_tables (s\<lparr>w_clients := Some cl'\<rparr>)" by blast
  have "client_key p \<notin> set (tbl.keys cl')"
    using tbl.remove_distinct(2) [OF _ _ cl'(1)] tables_okD(1,4) [OF c(2)] by (simp add: tbl.keys_def)
  with cl'(2) assms(2,3) show ?thesis by (auto simp: orphan_def win_tables_def tbl.keys_def)
qed

lemma orphan_blocks:
  assumes "orphan k p s" "win_inv n s" "parallel s \<le> 1"
  shows "job_ready s = Inr (False, s)"
proof -
  from assms(1) obtain pl where pl: "w_processes s = Some pl" "(k, p) \<in> set (list_entries pl)" by (auto simp: orphan_def)
  with assms(2) have "wf_list pl" by (auto elim!: win_invE dest: tables_okD)
  with pl(2) have "1 \<le> list_length pl" by (cases "list_entries pl") (auto simp: tbl.count_entries)
  with pl(1) assms(3) show ?thesis by (simp add: job_ready_def)
qed

text \<open>
  C36. Keys identify the objects of the Windows server: in every state at the head of its loop, the keys of the listening
  sockets and of the connected clients are pairwise distinct, so are the keys of the running processes, all were handed out by
  \<^verbatim>\<open>keygen\<close>, the client key of a process is not that of a socket, and there are as many sockets as \<^verbatim>\<open>parallel\<close> said at the start.
\<close>

theorem keys_identify:
  assumes "win_reach basename g as s" "valid_options g"
  shows "\<exists>ks cl pl. server_key s = Some (map Some ks) \<and> w_clients s = Some cl \<and> w_processes s = Some pl \<and>
    length ks = nat (parallel g) \<and> distinct (ks @ map fst (list_entries cl)) \<and> distinct (map fst (list_entries pl)) \<and>
    (\<forall>k \<in> set ks \<union> fst ` set (list_entries cl) \<union> fst ` set (list_entries pl). k < gen_key s) \<and>
    (\<forall>(k, p) \<in> set (list_entries pl). client_key p < gen_key s \<and> client_key p \<notin> set ks)"
proof -
  from reach_inv [OF assms] obtain ks cl pl where k: "server_key s = Some (map Some ks)" "w_clients s = Some cl"
    "w_processes s = Some pl" "length ks = nat (parallel g)" "tables_ok ks cl pl (gen_key s)" by (rule win_invE)
  note o = tables_okD [OF k(5)]
  have "x < gen_key s" if "x \<in> set ks \<union> fst ` set (list_entries cl) \<union> fst ` set (list_entries pl)" for x
    using that o(7,8) [of x] o(9) [of x] by fastforce
  with k o show ?thesis by (intro exI [of _ ks] exI [of _ cl] exI [of _ pl]) auto
qed

theorem keys_identify_witness:
  "length (the (server_key (win_started []))) = 1"
proof -
  have "win_reach id win_options [W_dir ''C'', W_pipe 10, W_port 7, W_connect False 997] (win_started [])"
    unfolding win_reach_def using win_started_init [of "[]"] turns_refl by auto
  from keys_identify [OF this] show ?thesis by (auto simp: valid_options_def win_options_def is_int_def)
qed

text \<open>
  C37. A process that is running when its client disconnects keeps its slot for ever on Windows: after \<^verbatim>\<open>close_client\<close> no turn of
  the loop removes its entry, whatever events arrive, because the event of its end is dropped.  With one slot no request is
  started any more, as long as \<^verbatim>\<open>parallel\<close> is not raised.
\<close>

theorem orphan_keeps_slot:
  assumes "win_inv n s" "w_processes s = Some pl" "(k, p) \<in> set (list_entries pl)"
    "w_close_client client (client_key p) s = Inr (u, t)" "win_turns t t'"
  shows "\<exists>pl'. w_processes t' = Some pl' \<and> (k, p) \<in> set (list_entries pl') \<and>
    (parallel t' \<le> 1 \<longrightarrow> job_ready t' = Inr (False, t'))"
proof -
  note i = safe_from_inv [OF stableD [OF stable_close_client assms(1,4)]]
  note i' = turns_safe [OF assms(5) i]
  have "orphan k p t" by (rule close_orphan [OF assms(1-4)])
  with i' have "orphan k p t'" by (simp add: safe_from_def)
  with orphan_blocks [OF this safe_from_inv [OF i']] show ?thesis by (auto simp: orphan_def)
qed

theorem orphan_keeps_slot_witness:
  "\<exists>t t'. w_close_client 0 1 (win_busy [W_status True 0 7 7 0 []]) = Inr ((), t) \<and> win_turn t = Inr ((), t') \<and>
     list_entries (the (w_processes t')) = [(3, busy_proc)] \<and> job_ready t' = Inr (False, t')"
proof -
  let ?as = "[W_status True 0 7 7 0 []]" and ?t = "(win_alone [])\<lparr>w_status := Some (7, 7)\<rparr>"
  have p: "w_processes (win_busy ?as) = Some \<lparr>l_key = [Some 3], l_data = [Some busy_proc], l_len = 1, l_capacity = 1\<rparr>"
    "w_processes ?t = Some \<lparr>l_key = [Some 3], l_data = [Some busy_proc], l_len = 1, l_capacity = 1\<rparr>" "parallel ?t = 1"
    by (simp_all add: win_busy_def win_alone_def win_started_def win_options_def globals.extend_def)
  have turns: "win_turns (win_alone ?as) ?t" by (rule turns_step [OF turns_refl win_alone_turn])
  have c: "w_close_client 0 (client_key busy_proc) (win_busy ?as) = Inr ((), win_alone ?as)"
    by (simp add: win_busy_close busy_proc_def)
  have "job_ready ?t = Inr (False, ?t)"
    using orphan_keeps_slot [OF win_busy_inv p(1) _ c turns, of 3] p(3) by (auto simp: list_entries_def)
  then show ?thesis using win_busy_close [of ?as] win_alone_turn p(2) by (simp add: list_entries_def)
qed



end
