(* ===== verification/Cpulimit_Win.thy ===== *)
theory Cpulimit_Win
  imports Win_Cmdline C_Monad C_Double C_Request
begin

text \<open>
  The program \<^verbatim>\<open>why3cpulimit\<close> on Windows, \<^verbatim>\<open>cpulimit-win.c\<close>.  The system is a script of answers, one for every call
  whose result the program looks at; what it prints and the calls that start, resume or stop the command form the trace.  The type
  \<open>long\<close> has 32 bits.  The lemmas show that the command line fits its buffer exactly and what a run of the program does.
\<close>

section \<open>The system\<close>

datatype cw_event =
    CW_stdout string
  | CW_stderr string
  | CW_limits "64 word option" "64 word option"
  | CW_start string
  | CW_assign int int
  | CW_resume int
  | CW_terminate int
  | CW_close int

datatype cw_answer =
    CA_job int
  | CA_error "32 word" string
  | CA_ok bool
  | CA_process "(int \<times> int) option"
  | CA_wait "32 word"
  | CA_exit "32 word"
  | CA_times "64 word" "64 word" "64 word" "64 word"

text \<open>The two static variables: the handles of the process and its thread, and the job.\<close>

record cw_state =
  cw_answers :: "cw_answer list"
  cw_trace :: "cw_event list"
  cw_pi :: "int \<times> int"
  cw_job :: int

type_synonym 'a cw = "(cw_state, 'a) prog"


definition cw_answer :: "cw_answer cw" where
  "cw_answer s = (case cw_answers s of [] \<Rightarrow> Inl (No_answer, s) | a # as \<Rightarrow> Inr (a, s\<lparr>cw_answers := as\<rparr>))"

definition cw_emit :: "cw_event \<Rightarrow> unit cw" where
  "cw_emit e = modify (\<lambda>s. s\<lparr>cw_trace := cw_trace s @ [e]\<rparr>)"


section \<open>The code\<close>

definition NL :: string where "NL = [CHR 0x0A]"


definition close_handles :: "unit cw" where
  "close_handles =
     bindS (gets cw_pi) (\<lambda>(hProcess, hThread).
     bindS (gets cw_job) (\<lambda>job.
     bindS (cw_emit (CW_close hProcess)) (\<lambda>_.
     bindS (cw_emit (CW_close hThread)) (\<lambda>_.
     cw_emit (CW_close job)))))"

definition terminates :: "unit cw" where
  "terminates = bindS (gets cw_pi) (\<lambda>(hProcess, hThread). bindS (cw_emit (CW_terminate hProcess)) (\<lambda>_. close_handles))"

text \<open>The handler runs in a thread of its own when the console sends a signal.\<close>

definition ConsoleHandler :: "bool cw" where
  "ConsoleHandler =
     bindS (cw_emit (CW_stdout (''Got signal from console: killing subprocess'' @ NL))) (\<lambda>_.
     bindS terminates (\<lambda>_.
     ret True))"













section \<open>The command line\<close>







section \<open>A run\<close>







end
