(* ===== verification/Mpz.thy ===== *)
theory Mpz
  imports Mpn_Props
begin

text \<open>
  The mpz layer of mini-gmp up to the multiplication: integers with a sign in variables that own blocks of limbs.  The state has
  the memory of limbs and the variables; a variable is named by a number, since the operations take pointers to variables that may be
  equal.  The fields \<^verbatim>\<open>_mp_alloc\<close> and \<^verbatim>\<open>_mp_size\<close> have type \<open>int\<close>, sizes of type \<^verbatim>\<open>mp_size_t\<close> are converted when they are stored.  A
  variable that was cleared cannot be used.  The allocation functions are the default ones.
\<close>

section \<open>Variables\<close>

record mpz =
  mp_alloc :: int
  mp_size :: int
  mp_d :: nat

record mpz_state =
  zmem :: limb_mem
  zvar :: "nat \<Rightarrow> mpz option"
  znext :: nat

type_synonym 'a zp = "(mpz_state, 'a) prog"

definition on_limbs :: "'a mp \<Rightarrow> 'a zp" where
  "on_limbs m s =
     (case m (zmem s) of Inl (e, t) \<Rightarrow> Inl (e, s\<lparr>zmem := t\<rparr>) | Inr (a, t) \<Rightarrow> Inr (a, s\<lparr>zmem := t\<rparr>))"

definition getz :: "nat \<Rightarrow> mpz zp" where
  "getz v s = (case zvar s v of None \<Rightarrow> Inl (Use_after_free, s) | Some z \<Rightarrow> Inr (z, s))"

definition putz :: "nat \<Rightarrow> mpz \<Rightarrow> unit zp" where
  "putz v z = bindS (getz v) (\<lambda>_. modify (\<lambda>s. s\<lparr>zvar := (zvar s)(v \<mapsto> z)\<rparr>))"

text \<open>\<^verbatim>\<open>v->_mp_size = n\<close>, a local variable, and \<^verbatim>\<open>gmp_xrealloc_limbs\<close>.\<close>

definition set_size :: "nat \<Rightarrow> int \<Rightarrow> unit zp" where
  "set_size v n = bindS (getz v) (\<lambda>z. putz v (z\<lparr>mp_size := c_int n\<rparr>))"

definition new_var :: "nat zp" where
  "new_var = bindS (gets znext) (\<lambda>t. bindS (modify (\<lambda>s. s\<lparr>znext := Suc t\<rparr>)) (\<lambda>_. ret t))"

definition gmp_xrealloc_limbs :: "nat \<Rightarrow> nat \<Rightarrow> nat mp" where
  "gmp_xrealloc_limbs old n =
     bindS (assertS (0 < n)) (\<lambda>_.
     bindS (whenS (max_alloc \<le> n * 8) (stop (Exit 134))) (\<lambda>_.
     bindS (gets (\<lambda>s. blocks s old)) (\<lambda>b.
     case b of
       None \<Rightarrow> stop Use_after_free
     | Some k \<Rightarrow>
         bindS (gets brk) (\<lambda>p.
         bindS (modify (\<lambda>s. s\<lparr>cells := (\<lambda>q. if p \<le> q \<and> q < p + n then if q - p < k then cells s (old + (q - p)) else Some None
             else if old \<le> q \<and> q < old + k then None else cells s q),
           brk := p + n + 1, blocks := (blocks s)(old := None, p \<mapsto> n)\<rparr>)) (\<lambda>_.
         ret p)))))"

definition GMP_ABS :: "int \<Rightarrow> int" where "GMP_ABS x = (if 0 \<le> x then x else - x)"
definition GMP_NEG_CAST :: "limb \<Rightarrow> limb" where "GMP_NEG_CAST x = - ((x + 1) - 1)"
definition GMP_MAX :: "int \<Rightarrow> int \<Rightarrow> int" where "GMP_MAX a b = (if a > b then a else b)"
definition GMP_CMP :: "limb \<Rightarrow> limb \<Rightarrow> int" where "GMP_CMP a b = of_bool (a > b) - of_bool (a < b)"

section \<open>Allocation\<close>

definition dummy_limb :: nat where "dummy_limb = 0"

definition mpz_init :: "nat \<Rightarrow> unit zp" where
  "mpz_init r = modify (\<lambda>s. s\<lparr>zvar := (zvar s)(r \<mapsto> \<lparr>mp_alloc = 0, mp_size = 0, mp_d = dummy_limb\<rparr>)\<rparr>)"

definition mpz_init2 :: "nat \<Rightarrow> limb \<Rightarrow> unit zp" where
  "mpz_init2 r bits =
     (let bits = bits - of_bool (bits \<noteq> 0);
          rn = 1 + unat bits div 64
      in bindS (on_limbs (gmp_xalloc_limbs rn)) (\<lambda>d.
         modify (\<lambda>s. s\<lparr>zvar := (zvar s)(r \<mapsto> \<lparr>mp_alloc = c_int (int rn), mp_size = 0, mp_d = d\<rparr>)\<rparr>)))"

definition mpz_clear :: "nat \<Rightarrow> unit zp" where
  "mpz_clear r =
     bindS (getz r) (\<lambda>z.
     bindS (whenS (mp_alloc z \<noteq> 0) (on_limbs (gmp_free (mp_d z)))) (\<lambda>_.
     modify (\<lambda>s. s\<lparr>zvar := (zvar s)(r := None)\<rparr>)))"

definition mpz_realloc :: "nat \<Rightarrow> int \<Rightarrow> nat zp" where
  "mpz_realloc r sz =
     (let sz = GMP_MAX sz 1 in
      bindS (getz r) (\<lambda>z.
      bindS (if mp_alloc z \<noteq> 0 then on_limbs (gmp_xrealloc_limbs (mp_d z) (nat sz))
             else on_limbs (gmp_xalloc_limbs (nat sz))) (\<lambda>d.
      bindS (putz r \<lparr>mp_alloc = c_int sz, mp_size = (if GMP_ABS (mp_size z) > sz then 0 else mp_size z), mp_d = d\<rparr>) (\<lambda>_.
      ret d))))"

definition MPZ_REALLOC :: "nat \<Rightarrow> int \<Rightarrow> nat zp" where
  "MPZ_REALLOC z n = bindS (getz z) (\<lambda>x. if n > mp_alloc x then mpz_realloc z n else ret (mp_d x))"

section \<open>Assignment and conversion\<close>

definition mpz_set_ui :: "nat \<Rightarrow> limb \<Rightarrow> unit zp" where
  "mpz_set_ui r x =
     (if x > 0 then bindS (set_size r 1) (\<lambda>_. bindS (MPZ_REALLOC r 1) (\<lambda>rp. on_limbs (st rp x)))
      else set_size r 0)"

definition mpz_set_si :: "nat \<Rightarrow> limb \<Rightarrow> unit zp" where
  "mpz_set_si r x =
     (if 0 \<le> sint x then mpz_set_ui r x
      else bindS (set_size r (- 1)) (\<lambda>_. bindS (MPZ_REALLOC r 1) (\<lambda>rp. on_limbs (st rp (GMP_NEG_CAST x)))))"

definition mpz_set :: "nat \<Rightarrow> nat \<Rightarrow> unit zp" where
  "mpz_set r x =
     whenS (r \<noteq> x)
       (bindS (getz x) (\<lambda>z.
        let n = GMP_ABS (mp_size z) in
        bindS (MPZ_REALLOC r n) (\<lambda>rp.
        bindS (getz x) (\<lambda>z.
        bindS (on_limbs (mpn_copyi rp (mp_d z) (nat n))) (\<lambda>_.
        set_size r (mp_size z))))))"

definition mpz_init_set_si :: "nat \<Rightarrow> limb \<Rightarrow> unit zp" where
  "mpz_init_set_si r x = bindS (mpz_init r) (\<lambda>_. mpz_set_si r x)"

definition mpz_init_set_ui :: "nat \<Rightarrow> limb \<Rightarrow> unit zp" where
  "mpz_init_set_ui r x = bindS (mpz_init r) (\<lambda>_. mpz_set_ui r x)"

definition mpz_init_set :: "nat \<Rightarrow> nat \<Rightarrow> unit zp" where
  "mpz_init_set r x = bindS (mpz_init r) (\<lambda>_. mpz_set r x)"

definition mpz_fits_slong_p :: "nat \<Rightarrow> bool zp" where
  "mpz_fits_slong_p u =
     bindS (getz u) (\<lambda>z.
     if mp_size z = 1 then bindS (on_limbs (ld (mp_d z))) (\<lambda>d. ret (d < GMP_LIMB_HIGHBIT))
     else if mp_size z = - 1 then bindS (on_limbs (ld (mp_d z))) (\<lambda>d. ret (d \<le> GMP_LIMB_HIGHBIT))
     else ret (mp_size z = 0))"

definition mpz_fits_ulong_p :: "nat \<Rightarrow> bool zp" where
  "mpz_fits_ulong_p u = bindS (getz u) (\<lambda>z. ret (mp_size z = of_bool (mp_size z > 0)))"

definition mpz_get_ui :: "nat \<Rightarrow> limb zp" where
  "mpz_get_ui u = bindS (getz u) (\<lambda>z. if mp_size z = 0 then ret 0 else on_limbs (ld (mp_d z)))"

definition mpz_get_si :: "nat \<Rightarrow> int zp" where
  "mpz_get_si u =
     bindS (getz u) (\<lambda>z.
     if mp_size z < 0 then bindS (on_limbs (ld (mp_d z))) (\<lambda>d. ret (- 1 - sint ((d - 1) AND NOT GMP_LIMB_HIGHBIT)))
     else bindS (mpz_get_ui u) (\<lambda>d. ret (sint (d AND NOT GMP_LIMB_HIGHBIT))))"

definition mpz_size :: "nat \<Rightarrow> int zp" where
  "mpz_size u = bindS (getz u) (\<lambda>z. ret (GMP_ABS (mp_size z)))"

definition mpz_getlimbn :: "nat \<Rightarrow> int \<Rightarrow> limb zp" where
  "mpz_getlimbn u n =
     bindS (getz u) (\<lambda>z. if 0 \<le> n \<and> n < GMP_ABS (mp_size z) then on_limbs (ld (mp_d z + nat n)) else ret 0)"

definition mpz_realloc2 :: "nat \<Rightarrow> limb \<Rightarrow> nat zp" where
  "mpz_realloc2 x n = mpz_realloc x (1 + int (unat (n - of_bool (n \<noteq> 0)) div 64))"

definition mpz_limbs_read :: "nat \<Rightarrow> nat zp" where
  "mpz_limbs_read x = bindS (getz x) (\<lambda>z. ret (mp_d z))"

definition mpz_limbs_modify :: "nat \<Rightarrow> int \<Rightarrow> nat zp" where
  "mpz_limbs_modify x n = bindS (assertS (n > 0)) (\<lambda>_. MPZ_REALLOC x n)"

definition mpz_limbs_write :: "nat \<Rightarrow> int \<Rightarrow> nat zp" where
  "mpz_limbs_write x n = mpz_limbs_modify x n"

definition mpz_limbs_finish :: "nat \<Rightarrow> int \<Rightarrow> unit zp" where
  "mpz_limbs_finish x xs =
     bindS (getz x) (\<lambda>z.
     bindS (on_limbs (mpn_normalized_size (mp_d z) (nat (GMP_ABS xs)))) (\<lambda>xn.
     set_size x (if xs < 0 then - int xn else int xn)))"

definition mpz_roinit_n :: "nat \<Rightarrow> nat \<Rightarrow> int \<Rightarrow> nat zp" where
  "mpz_roinit_n x xp xs =
     bindS (modify (\<lambda>s. s\<lparr>zvar := (zvar s)(x \<mapsto> \<lparr>mp_alloc = 0, mp_size = 0, mp_d = xp\<rparr>)\<rparr>)) (\<lambda>_.
     bindS (mpz_limbs_finish x xs) (\<lambda>_. ret x))"

section \<open>Comparison\<close>

definition mpz_sgn :: "nat \<Rightarrow> int zp" where
  "mpz_sgn u = bindS (getz u) (\<lambda>z. ret (of_bool (mp_size z > 0) - of_bool (mp_size z < 0)))"

definition mpz_cmp_ui :: "nat \<Rightarrow> limb \<Rightarrow> int zp" where
  "mpz_cmp_ui u v =
     bindS (getz u) (\<lambda>z.
     if mp_size z > 1 then ret 1
     else if mp_size z < 0 then ret (- 1)
     else bindS (mpz_get_ui u) (\<lambda>d. ret (GMP_CMP d v)))"

definition mpz_cmp_si :: "nat \<Rightarrow> limb \<Rightarrow> int zp" where
  "mpz_cmp_si u v =
     bindS (getz u) (\<lambda>z.
     if mp_size z < - 1 then ret (- 1)
     else if 0 \<le> sint v then mpz_cmp_ui u v
     else if mp_size z \<ge> 0 then ret 1
     else bindS (on_limbs (ld (mp_d z))) (\<lambda>d. ret (GMP_CMP (GMP_NEG_CAST v) d)))"

definition mpz_cmp :: "nat \<Rightarrow> nat \<Rightarrow> int zp" where
  "mpz_cmp a b =
     bindS (getz a) (\<lambda>x.
     bindS (getz b) (\<lambda>y.
     let asize = mp_size x; bsize = mp_size y in
     if asize \<noteq> bsize then ret (if asize < bsize then - 1 else 1)
     else if asize \<ge> 0 then on_limbs (mpn_cmp (mp_d x) (mp_d y) (nat asize))
     else on_limbs (mpn_cmp (mp_d y) (mp_d x) (nat (- asize)))))"

definition mpz_cmpabs_ui :: "nat \<Rightarrow> limb \<Rightarrow> int zp" where
  "mpz_cmpabs_ui u v =
     bindS (getz u) (\<lambda>z.
     if GMP_ABS (mp_size z) > 1 then ret 1 else bindS (mpz_get_ui u) (\<lambda>d. ret (GMP_CMP d v)))"

definition mpz_cmpabs :: "nat \<Rightarrow> nat \<Rightarrow> int zp" where
  "mpz_cmpabs u v =
     bindS (getz u) (\<lambda>x.
     bindS (getz v) (\<lambda>y.
     on_limbs (mpn_cmp4 (mp_d x) (nat (GMP_ABS (mp_size x))) (mp_d y) (nat (GMP_ABS (mp_size y))))))"

definition mpz_abs :: "nat \<Rightarrow> nat \<Rightarrow> unit zp" where
  "mpz_abs r u = bindS (mpz_set r u) (\<lambda>_. bindS (getz r) (\<lambda>z. set_size r (GMP_ABS (mp_size z))))"

definition mpz_neg :: "nat \<Rightarrow> nat \<Rightarrow> unit zp" where
  "mpz_neg r u = bindS (mpz_set r u) (\<lambda>_. bindS (getz r) (\<lambda>z. set_size r (- mp_size z)))"

definition mpz_swap :: "nat \<Rightarrow> nat \<Rightarrow> unit zp" where
  "mpz_swap u v = bindS (getz u) (\<lambda>x. bindS (getz v) (\<lambda>y. bindS (putz u y) (\<lambda>_. putz v x)))"

section \<open>Addition and subtraction\<close>

definition mpz_abs_add_ui :: "nat \<Rightarrow> nat \<Rightarrow> limb \<Rightarrow> int zp" where
  "mpz_abs_add_ui r a b =
     bindS (getz a) (\<lambda>z.
     let an = GMP_ABS (mp_size z) in
     if an = 0 then bindS (MPZ_REALLOC r 1) (\<lambda>rp. bindS (on_limbs (st rp b)) (\<lambda>_. ret (of_bool (b > 0))))
     else
       bindS (MPZ_REALLOC r (an + 1)) (\<lambda>rp.
       bindS (getz a) (\<lambda>z.
       bindS (on_limbs (mpn_add_1 rp (mp_d z) (nat an) b)) (\<lambda>cy.
       bindS (on_limbs (st (rp + nat an) cy)) (\<lambda>_.
       ret (an + uint cy))))))"

definition mpz_abs_sub_ui :: "nat \<Rightarrow> nat \<Rightarrow> limb \<Rightarrow> int zp" where
  "mpz_abs_sub_ui r a b =
     bindS (getz a) (\<lambda>z.
     let an = GMP_ABS (mp_size z) in
     if an = 0 then bindS (MPZ_REALLOC r 1) (\<lambda>rp. bindS (on_limbs (st rp b)) (\<lambda>_. ret (- of_bool (b > 0))))
     else
       bindS (MPZ_REALLOC r an) (\<lambda>rp.
       bindS (getz a) (\<lambda>z.
       bindS (if an = 1 then bindS (on_limbs (ld (mp_d z))) (\<lambda>d. ret (d < b)) else ret False) (\<lambda>less.
       if less then
         bindS (on_limbs (ld (mp_d z))) (\<lambda>d. bindS (on_limbs (st rp (b - d))) (\<lambda>_. ret (- 1)))
       else
         bindS (on_limbs (gmp_assert_nocarry (mpn_sub_1 rp (mp_d z) (nat an) b))) (\<lambda>_.
         bindS (on_limbs (mpn_normalized_size rp (nat an))) (\<lambda>n.
         ret (int n)))))))"

definition mpz_add_ui :: "nat \<Rightarrow> nat \<Rightarrow> limb \<Rightarrow> unit zp" where
  "mpz_add_ui r a b =
     bindS (getz a) (\<lambda>z.
     if mp_size z \<ge> 0 then bindS (mpz_abs_add_ui r a b) (\<lambda>n. set_size r n)
     else bindS (mpz_abs_sub_ui r a b) (\<lambda>n. set_size r (- n)))"

definition mpz_sub_ui :: "nat \<Rightarrow> nat \<Rightarrow> limb \<Rightarrow> unit zp" where
  "mpz_sub_ui r a b =
     bindS (getz a) (\<lambda>z.
     if mp_size z < 0 then bindS (mpz_abs_add_ui r a b) (\<lambda>n. set_size r (- n))
     else bindS (mpz_abs_sub_ui r a b) (\<lambda>n. set_size r n))"

definition mpz_ui_sub :: "nat \<Rightarrow> limb \<Rightarrow> nat \<Rightarrow> unit zp" where
  "mpz_ui_sub r a b =
     bindS (getz b) (\<lambda>z.
     if mp_size z < 0 then bindS (mpz_abs_add_ui r b a) (\<lambda>n. set_size r n)
     else bindS (mpz_abs_sub_ui r b a) (\<lambda>n. set_size r (- n)))"

text \<open>The first operand has at least as many limbs as the second one.\<close>

definition mpz_abs_add_ge :: "nat \<Rightarrow> nat \<Rightarrow> nat \<Rightarrow> int \<Rightarrow> int \<Rightarrow> int zp" where
  "mpz_abs_add_ge r a b an bn =
     bindS (MPZ_REALLOC r (an + 1)) (\<lambda>rp.
     bindS (getz a) (\<lambda>x.
     bindS (getz b) (\<lambda>y.
     bindS (on_limbs (mpn_add rp (mp_d x) (nat an) (mp_d y) (nat bn))) (\<lambda>cy.
     bindS (on_limbs (st (rp + nat an) cy)) (\<lambda>_.
     ret (an + uint cy))))))"

definition mpz_abs_add :: "nat \<Rightarrow> nat \<Rightarrow> nat \<Rightarrow> int zp" where
  "mpz_abs_add r a b =
     bindS (getz a) (\<lambda>x.
     bindS (getz b) (\<lambda>y.
     let an = GMP_ABS (mp_size x); bn = GMP_ABS (mp_size y) in
     if an < bn then mpz_abs_add_ge r b a bn an else mpz_abs_add_ge r a b an bn))"

definition mpz_abs_sub_gt :: "nat \<Rightarrow> nat \<Rightarrow> nat \<Rightarrow> int \<Rightarrow> int \<Rightarrow> int zp" where
  "mpz_abs_sub_gt r a b an bn =
     bindS (MPZ_REALLOC r an) (\<lambda>rp.
     bindS (getz a) (\<lambda>x.
     bindS (getz b) (\<lambda>y.
     bindS (on_limbs (gmp_assert_nocarry (mpn_sub rp (mp_d x) (nat an) (mp_d y) (nat bn)))) (\<lambda>_.
     bindS (on_limbs (mpn_normalized_size rp (nat an))) (\<lambda>n.
     ret (int n))))))"

definition mpz_abs_sub :: "nat \<Rightarrow> nat \<Rightarrow> nat \<Rightarrow> int zp" where
  "mpz_abs_sub r a b =
     bindS (getz a) (\<lambda>x.
     bindS (getz b) (\<lambda>y.
     let an = GMP_ABS (mp_size x); bn = GMP_ABS (mp_size y) in
     bindS (on_limbs (mpn_cmp4 (mp_d x) (nat an) (mp_d y) (nat bn))) (\<lambda>cmp.
     if cmp > 0 then mpz_abs_sub_gt r a b an bn
     else if cmp < 0 then bindS (mpz_abs_sub_gt r b a bn an) (\<lambda>n. ret (- n))
     else ret 0)))"

definition mpz_add :: "nat \<Rightarrow> nat \<Rightarrow> nat \<Rightarrow> unit zp" where
  "mpz_add r a b =
     bindS (getz a) (\<lambda>x.
     bindS (getz b) (\<lambda>y.
     bindS (if 0 \<le> mp_size x XOR mp_size y then mpz_abs_add r a b else mpz_abs_sub r a b) (\<lambda>rn.
     bindS (getz a) (\<lambda>x.
     set_size r (if mp_size x \<ge> 0 then rn else - rn)))))"

definition mpz_sub :: "nat \<Rightarrow> nat \<Rightarrow> nat \<Rightarrow> unit zp" where
  "mpz_sub r a b =
     bindS (getz a) (\<lambda>x.
     bindS (getz b) (\<lambda>y.
     bindS (if 0 \<le> mp_size x XOR mp_size y then mpz_abs_sub r a b else mpz_abs_add r a b) (\<lambda>rn.
     bindS (getz a) (\<lambda>x.
     set_size r (if mp_size x \<ge> 0 then rn else - rn)))))"

section \<open>Multiplication\<close>

definition mpz_mul_ui :: "nat \<Rightarrow> nat \<Rightarrow> limb \<Rightarrow> unit zp" where
  "mpz_mul_ui r u v =
     bindS (getz u) (\<lambda>z.
     let us = mp_size z in
     if us = 0 \<or> v = 0 then set_size r 0
     else
       let un = GMP_ABS us in
       bindS (MPZ_REALLOC r (un + 1)) (\<lambda>tp.
       bindS (getz u) (\<lambda>z.
       bindS (on_limbs (mpn_mul_1 tp (mp_d z) (nat un) v)) (\<lambda>cy.
       bindS (on_limbs (st (tp + nat un) cy)) (\<lambda>_.
       let un = un + of_bool (cy > 0) in
       set_size r (if us < 0 then - un else un))))))"

definition mpz_mul_si :: "nat \<Rightarrow> nat \<Rightarrow> limb \<Rightarrow> unit zp" where
  "mpz_mul_si r u v =
     (if sint v < 0 then bindS (mpz_mul_ui r u (GMP_NEG_CAST v)) (\<lambda>_. mpz_neg r r) else mpz_mul_ui r u v)"

definition mpz_mul :: "nat \<Rightarrow> nat \<Rightarrow> nat \<Rightarrow> unit zp" where
  "mpz_mul r u v =
     bindS (getz u) (\<lambda>x.
     bindS (getz v) (\<lambda>y.
     let un = mp_size x; vn = mp_size y in
     if un = 0 \<or> vn = 0 then set_size r 0
     else
       let sign = (un XOR vn < 0); un = GMP_ABS un; vn = GMP_ABS vn in
       bindS new_var (\<lambda>t.
       bindS (mpz_init2 t (word_of_int (un + vn) * 64)) (\<lambda>_.
       bindS (getz t) (\<lambda>z.
       let tp = mp_d z in
       bindS (if un \<ge> vn then on_limbs (mpn_mul tp (mp_d x) (nat un) (mp_d y) (nat vn))
              else on_limbs (mpn_mul tp (mp_d y) (nat vn) (mp_d x) (nat un))) (\<lambda>_.
       let rn = un + vn in
       bindS (on_limbs (ld (tp + nat (rn - 1)))) (\<lambda>top.
       let rn = rn - of_bool (top = 0) in
       bindS (set_size t (if sign then - rn else rn)) (\<lambda>_.
       bindS (mpz_swap r t) (\<lambda>_.
       mpz_clear t)))))))))"

definition mpz_mul_2exp :: "nat \<Rightarrow> nat \<Rightarrow> limb \<Rightarrow> unit zp" where
  "mpz_mul_2exp r u bits =
     bindS (getz u) (\<lambda>z.
     let un = GMP_ABS (mp_size z) in
     if un = 0 then set_size r 0
     else
       let limbs = int (unat bits div 64); shift = unat bits mod 64;
           rn = un + limbs + of_bool (shift > 0)
       in bindS (MPZ_REALLOC r rn) (\<lambda>rp.
          bindS (getz u) (\<lambda>z.
          bindS (if shift > 0 then
                   bindS (on_limbs (mpn_lshift (rp + nat limbs) (mp_d z) (nat un) shift)) (\<lambda>cy.
                   bindS (on_limbs (st (rp + nat (rn - 1)) cy)) (\<lambda>_.
                   ret (rn - of_bool (cy = 0))))
                 else bindS (on_limbs (mpn_copyd (rp + nat limbs) (mp_d z) (nat un))) (\<lambda>_. ret rn)) (\<lambda>rn.
          bindS (on_limbs (mpn_zero rp (nat limbs))) (\<lambda>_.
          bindS (getz u) (\<lambda>z.
          set_size r (if mp_size z < 0 then - rn else rn)))))))"

definition mpz_addmul_ui :: "nat \<Rightarrow> nat \<Rightarrow> limb \<Rightarrow> unit zp" where
  "mpz_addmul_ui r u v =
     bindS new_var (\<lambda>t. bindS (mpz_init t) (\<lambda>_. bindS (mpz_mul_ui t u v) (\<lambda>_. bindS (mpz_add r r t) (\<lambda>_. mpz_clear t))))"

definition mpz_submul_ui :: "nat \<Rightarrow> nat \<Rightarrow> limb \<Rightarrow> unit zp" where
  "mpz_submul_ui r u v =
     bindS new_var (\<lambda>t. bindS (mpz_init t) (\<lambda>_. bindS (mpz_mul_ui t u v) (\<lambda>_. bindS (mpz_sub r r t) (\<lambda>_. mpz_clear t))))"

definition mpz_addmul :: "nat \<Rightarrow> nat \<Rightarrow> nat \<Rightarrow> unit zp" where
  "mpz_addmul r u v =
     bindS new_var (\<lambda>t. bindS (mpz_init t) (\<lambda>_. bindS (mpz_mul t u v) (\<lambda>_. bindS (mpz_add r r t) (\<lambda>_. mpz_clear t))))"

definition mpz_submul :: "nat \<Rightarrow> nat \<Rightarrow> nat \<Rightarrow> unit zp" where
  "mpz_submul r u v =
     bindS new_var (\<lambda>t. bindS (mpz_init t) (\<lambda>_. bindS (mpz_mul t u v) (\<lambda>_. bindS (mpz_sub r r t) (\<lambda>_. mpz_clear t))))"

end
