(* ===== verification/Mpz_Inv.thy ===== *)
theory Mpz_Inv
  imports Mpz
begin

text \<open>
  The invariant of the variables of the mpz layer: every variable owns a block of its own, its limbs are initialised and the top one is
  not zero.  The lemmas on allocation and on storing a result are what the proofs of the operations share.
\<close>

section \<open>The invariant\<close>

definition limbs :: "limb_mem \<Rightarrow> nat \<Rightarrow> nat \<Rightarrow> limb list" where
  "limbs m p n = map (\<lambda>i. the (the (cells m (p + i)))) [0..<n]"

definition zsize :: "mpz \<Rightarrow> nat" where
  "zsize z = nat \<bar>mp_size z\<bar>"

definition zlimbs :: "limb_mem \<Rightarrow> mpz \<Rightarrow> limb list" where
  "zlimbs m z = limbs m (mp_d z) (zsize z)"

definition zstore :: "limb_mem \<Rightarrow> mpz \<Rightarrow> bool" where
  "zstore m z \<longleftrightarrow> 0 \<le> mp_alloc z \<and> mp_alloc z < 2 ^ 31 \<and> room m (mp_d z) (nat (mp_alloc z)) \<and>
     (0 < mp_alloc z \<longrightarrow> blocks m (mp_d z) = Some (nat (mp_alloc z)))"

definition zfull :: "limb_mem \<Rightarrow> mpz \<Rightarrow> bool" where
  "zfull m z \<longleftrightarrow> zsize z \<le> nat (mp_alloc z) \<and> limbs_at m (mp_d z) (zlimbs m z) \<and> (zlimbs m z \<noteq> [] \<longrightarrow> last (zlimbs m z) \<noteq> 0)"

definition apart :: "mpz \<Rightarrow> mpz \<Rightarrow> bool" where
  "apart x y \<longleftrightarrow> mp_alloc x = 0 \<or> mp_alloc y = 0 \<or>
     mp_d x + nat (mp_alloc x) \<le> mp_d y \<or> mp_d y + nat (mp_alloc y) \<le> mp_d x"

text \<open>The variables in \<open>R\<close> may have a size that does not fit their limbs yet.\<close>

definition zgood :: "nat set \<Rightarrow> mpz_state \<Rightarrow> bool" where
  "zgood R s \<longleftrightarrow> mem_ok (zmem s) \<and>
     (\<forall>v z. zvar s v = Some z \<longrightarrow> v < znext s \<and> zstore (zmem s) z \<and> (v \<notin> R \<longrightarrow> zfull (zmem s) z)) \<and>
     (\<forall>v w x y. zvar s v = Some x \<longrightarrow> zvar s w = Some y \<longrightarrow> v \<noteq> w \<longrightarrow> apart x y)"

definition zl :: "mpz_state \<Rightarrow> nat \<Rightarrow> limb list" where
  "zl s v = zlimbs (zmem s) (the (zvar s v))"

definition zv :: "mpz_state \<Rightarrow> nat \<Rightarrow> int" where
  "zv s v = sgn (mp_size (the (zvar s v))) * lval (zl s v)"

text \<open>What an operation with result \<open>r\<close> does to the other variables.\<close>

definition others :: "nat \<Rightarrow> mpz_state \<Rightarrow> mpz_state \<Rightarrow> bool" where
  "others r s t \<longleftrightarrow> (\<forall>v. v \<noteq> r \<longrightarrow> zvar t v = zvar s v \<and> (zvar s v \<noteq> None \<longrightarrow> zl t v = zl s v))"

lemma GMP_ABS_abs: "GMP_ABS x = \<bar>x\<bar>"
  by (simp add: GMP_ABS_def)

lemma length_zlimbs [simp]: "length (zlimbs m z) = zsize z"
  by (simp add: zlimbs_def limbs_def)

lemma limbs_at_limbs: "limbs_at m p xs \<Longrightarrow> limbs m p (length xs) = xs"
  by (auto simp: limbs_at_def limbs_def intro!: nth_equalityI)

lemma others_refl [simp]: "others r s s"
  by (simp add: others_def)

lemma others_trans: "others r s t \<Longrightarrow> others r t u \<Longrightarrow> others r s u"
  unfolding others_def by metis

lemma others_zv: "others r s t \<Longrightarrow> v \<noteq> r \<Longrightarrow> zvar s v = Some z \<Longrightarrow> zvar t v = Some z \<and> zl t v = zl s v \<and> zv t v = zv s v"
  by (auto simp: others_def zv_def)

lemma zgoodD:
  assumes "zgood R s" "zvar s v = Some z"
  shows "mem_ok (zmem s)" "v < znext s" "zstore (zmem s) z" "v \<notin> R \<Longrightarrow> zfull (zmem s) z"
    "zvar s w = Some y \<Longrightarrow> v \<noteq> w \<Longrightarrow> apart z y"
  using assms unfolding zgood_def by blast+

lemma zgood_mono: "zgood R s \<Longrightarrow> R \<subseteq> R' \<Longrightarrow> zgood R' s"
  unfolding zgood_def by blast

text \<open>The limbs of a variable outside \<open>R\<close>.\<close>

lemma zgood_limbs:
  assumes "zgood R s" "zvar s v = Some z" "v \<notin> R"
  shows "limbs_at (zmem s) (mp_d z) (zl s v)" "length (zl s v) = zsize z" "zl s v \<noteq> [] \<Longrightarrow> last (zl s v) \<noteq> 0"
    "zsize z \<le> nat (mp_alloc z)"
  using zgoodD(4) [OF assms] assms(2) by (auto simp: zfull_def zl_def)

lemma apart_sym: "apart x y \<longleftrightarrow> apart y x"
  by (auto simp: apart_def)

text \<open>The operand \<open>x\<close> of a result that is written to the block of \<open>z\<close>.\<close>

lemma apart_up_ok:
  assumes "apart z x" "k \<le> nat (mp_alloc x)" "0 \<le> mp_alloc z"
  shows "up_ok (mp_d z) (mp_d x) k \<or> mp_alloc z = 0"
  using assms by (cases "k = 0") (auto simp: apart_def up_ok_def)

section \<open>Changing a variable\<close>

definition agree :: "limb_mem \<Rightarrow> limb_mem \<Rightarrow> mpz \<Rightarrow> bool" where
  "agree m m' x \<longleftrightarrow> (\<forall>q. mp_d x \<le> q \<and> q < mp_d x + nat (mp_alloc x) \<longrightarrow> cells m' q = cells m q) \<and>
     (0 < mp_alloc x \<longrightarrow> blocks m' (mp_d x) = blocks m (mp_d x))"

lemma agree_store: "agree m m' x \<Longrightarrow> zstore m x \<Longrightarrow> zstore m' x"
  unfolding zstore_def agree_def room_def by auto

lemma agree_limbs: "agree m m' x \<Longrightarrow> zsize x \<le> nat (mp_alloc x) \<Longrightarrow> zlimbs m' x = zlimbs m x"
  unfolding zlimbs_def limbs_def agree_def by auto

lemma agree_full: "agree m m' x \<Longrightarrow> zfull m x \<Longrightarrow> zfull m' x"
  using agree_limbs [of m m' x] unfolding zfull_def agree_def limbs_at_def by auto

lemma zgood_update:
  assumes good: "zgood R s" and r: "r < znext s" "R \<subseteq> insert r R'"
    and m: "mem_ok m'" "zstore m' z'" "r \<notin> R' \<Longrightarrow> zfull m' z'"
    and o: "\<And>v x. zvar s v = Some x \<Longrightarrow> v \<noteq> r \<Longrightarrow> agree (zmem s) m' x \<and> apart x z'"
    and t: "t = s\<lparr>zmem := m', zvar := (zvar s)(r \<mapsto> z')\<rparr>"
  shows "zgood R' t" "R = {} \<or> R = {r} \<Longrightarrow> others r s t"
proof -
  have *: "v < znext s \<and> zstore m' x \<and> (v \<notin> R' \<longrightarrow> zfull m' x)" if "zvar t v = Some x" for v x
  proof (cases "v = r")
    case True
    with that t r m show ?thesis by simp
  next
    case False
    with that t have x: "zvar s v = Some x" by simp
    show ?thesis
      using zgoodD(2-4) [OF good x] agree_store [of "zmem s" m' x] agree_full [of "zmem s" m' x] o [OF x False] False r(2) by blast
  qed
  have ap: "apart x y" if vw: "zvar t v = Some x" "zvar t w = Some y" "v \<noteq> w" for v w x y
  proof -
    consider "v = r" "w \<noteq> r" | "w = r" "v \<noteq> r" | "v \<noteq> r" "w \<noteq> r" using vw(3) by blast
    then show ?thesis
    proof cases
      case 1
      with vw t o [of w y] have "apart y x" by auto
      then show ?thesis by (simp add: apart_sym)
    next
      case 2
      with vw t o [of v x] show ?thesis by auto
    next
      case 3
      with vw t good show ?thesis by (auto dest: zgoodD(5))
    qed
  qed
  show "zgood R' t" unfolding zgood_def using * ap m(1) t by auto
  show "others r s t" if "R = {} \<or> R = {r}"
  proof -
    have "zlimbs m' x = zlimbs (zmem s) x" if "zvar s v = Some x" "v \<noteq> r" for v x
      using o [OF that] agree_limbs zgoodD(4) [OF good that(1)] \<open>R = {} \<or> R = {r}\<close> that(2) by (auto simp: zfull_def)
    then show ?thesis by (auto simp: others_def t zl_def)
  qed
qed

section \<open>Memory\<close>

text \<open>The memory after \<^verbatim>\<open>gmp_xrealloc_limbs\<close> has moved a block of \<open>k\<close> limbs.\<close>

definition moved :: "limb_mem \<Rightarrow> nat \<Rightarrow> nat \<Rightarrow> nat \<Rightarrow> limb_mem" where
  "moved m old k n = m\<lparr>cells := (\<lambda>q. if brk m \<le> q \<and> q < brk m + n then if q - brk m < k then cells m (old + (q - brk m)) else Some None
      else if old \<le> q \<and> q < old + k then None else cells m q),
    brk := brk m + n + 1, blocks := (blocks m)(old := None, brk m \<mapsto> n)\<rparr>"

lemma xrealloc_moved:
  "0 < n \<Longrightarrow> n * 8 < max_alloc \<Longrightarrow> blocks m old = Some k \<Longrightarrow> gmp_xrealloc_limbs old n m = Inr (brk m, moved m old k n)"
  by (simp add: gmp_xrealloc_limbs_def bindS_def moved_def)

lemma mem_ok_fresh: "mem_ok m \<Longrightarrow> mem_ok (fresh m n)"
  by (simp add: mem_ok_def fresh_def)

lemma mem_ok_moved: "mem_ok m \<Longrightarrow> mem_ok (moved m old k n)"
  by (simp add: mem_ok_def moved_def)

lemma mem_ok_put: "mem_ok m \<Longrightarrow> room m p (length xs) \<Longrightarrow> mem_ok (put m p xs)"
  using room_less_brk [of m p "length xs"] by (cases xs) (auto simp: mem_ok_def put_def)

lemma store_below: "zstore m x \<Longrightarrow> mem_ok m \<Longrightarrow> 0 < mp_alloc x \<Longrightarrow> mp_d x + nat (mp_alloc x) \<le> brk m"
  by (rule room_less_brk) (auto simp: zstore_def)

lemma agree_fresh: "zstore m x \<Longrightarrow> mem_ok m \<Longrightarrow> agree m (fresh m n) x"
proof (cases "mp_alloc x = 0")
  case True
  then show ?thesis by (auto simp: agree_def)
next
  case False
  assume x: "zstore m x" "mem_ok m"
  with False have "0 < mp_alloc x" by (simp add: zstore_def)
  with store_below [OF x] show ?thesis by (auto simp: agree_def fresh_def)
qed

lemma agree_moved:
  assumes "zstore m x" "mem_ok m" "blocks m old = Some k" "0 < k" "mp_alloc x = 0 \<or> mp_d x + nat (mp_alloc x) \<le> old \<or> old + k \<le> mp_d x"
  shows "agree m (moved m old k n) x"
proof (cases "mp_alloc x = 0")
  case False
  then have "0 < mp_alloc x" using assms(1) by (simp add: zstore_def)
  with store_below [OF assms(1,2)] assms(4,5) show ?thesis by (auto simp: agree_def moved_def)
qed (auto simp: agree_def)

lemma agree_put: "mp_alloc x = 0 \<or> mp_d x + nat (mp_alloc x) \<le> p \<or> p + length xs \<le> mp_d x \<Longrightarrow> agree m (put m p xs) x"
  by (auto simp: agree_def put_def)

lemma agree_refl [simp]: "agree m m x"
  by (simp add: agree_def)

text \<open>The block that \<^verbatim>\<open>mpz_realloc\<close> gives to a variable, and the limbs that stay in it.\<close>

definition regrown :: "limb_mem \<Rightarrow> mpz \<Rightarrow> nat \<Rightarrow> limb_mem" where
  "regrown m z n = (if mp_alloc z = 0 then fresh m n else moved m (mp_d z) (nat (mp_alloc z)) n)"

lemma regrown_cells:
  assumes "zstore m z" "nat (mp_alloc z) \<le> n"
  shows "room (regrown m z n) (brk m) n" "blocks (regrown m z n) (brk m) = Some n"
    "i < nat (mp_alloc z) \<Longrightarrow> cells (regrown m z n) (brk m + i) = cells m (mp_d z + i)"
  using assms by (auto simp: regrown_def fresh_def moved_def room_def zstore_def)

lemma regrown_limbs:
  assumes "zstore m z" "zfull m z" "nat (mp_alloc z) \<le> n" "mp_d z' = brk m" "mp_size z' = mp_size z" "mp_alloc z' = int n"
  shows "zfull (regrown m z n) z'" "zlimbs (regrown m z n) z' = zlimbs m z"
proof -
  have k: "zsize z' = zsize z" "zsize z \<le> nat (mp_alloc z)" using assms(2,5) by (simp_all add: zsize_def zfull_def)
  note c = regrown_cells(3) [OF assms(1,3)]
  show l: "zlimbs (regrown m z n) z' = zlimbs m z"
    unfolding zlimbs_def limbs_def k(1) assms(4) using k(2) by (intro map_cong) (auto simp: c)
  show "zfull (regrown m z n) z'"
    unfolding zfull_def l using assms(2,3,6) k c by (auto simp: zfull_def limbs_at_def assms(4))
qed

lemma regrown_agree:
  assumes "zgood R s" "zvar s r = Some z" "zvar s v = Some x" "v \<noteq> r"
  shows "agree (zmem s) (regrown (zmem s) z n) x"
proof (cases "mp_alloc z = 0")
  case True
  with agree_fresh [OF zgoodD(3,1) [OF assms(1,3)]] show ?thesis by (simp add: regrown_def)
next
  case False
  then have "0 < mp_alloc z" using zgoodD(3) [OF assms(1,2)] by (simp add: zstore_def)
  with zgoodD(3) [OF assms(1,2)] zgoodD(5) [OF assms(1,3,2,4)] False show ?thesis
    unfolding regrown_def by (auto simp: apart_def zstore_def intro!: agree_moved zgoodD(3,1) [OF assms(1,3)])
qed

lemma on_limbs_Inr [simp]: "m (zmem s) = Inr (a, t) \<Longrightarrow> on_limbs m s = Inr (a, s\<lparr>zmem := t\<rparr>)"
  by (simp add: on_limbs_def)

lemma getz_Some [simp]: "zvar s v = Some z \<Longrightarrow> getz v s = Inr (z, s)"
  by (simp add: getz_def)

lemma putz_Some [simp]: "zvar s v = Some x \<Longrightarrow> putz v z s = Inr ((), s\<lparr>zvar := (zvar s)(v \<mapsto> z)\<rparr>)"
  by (simp add: putz_def bindS_def)

lemma mpz_realloc_run:
  assumes "zgood R s" "zvar s r = Some z" "0 < n" "n < 2 ^ 31" "\<bar>mp_size z\<bar> \<le> n"
  shows "mpz_realloc r n s = Inr (brk (zmem s), s\<lparr>zmem := regrown (zmem s) z (nat n),
    zvar := (zvar s)(r \<mapsto> \<lparr>mp_alloc = n, mp_size = mp_size z, mp_d = brk (zmem s)\<rparr>)\<rparr>)"
proof -
  note st = zgoodD(3) [OF assms(1,2)]
  have n: "GMP_MAX n 1 = n" "c_int n = n" "0 < nat n" "nat n * 8 < max_alloc" "\<not> GMP_ABS (mp_size z) > n"
    using assms(3-5) by (simp_all add: GMP_MAX_def c_int_id is_int_def max_alloc_def GMP_ABS_abs)
  show ?thesis
    using assms(2) n st xrealloc_moved [of "nat n" "zmem s" "mp_d z" "nat (mp_alloc z)"] xalloc_fresh [of "nat n" "zmem s"]
    by (cases "mp_alloc z = 0") (auto simp: mpz_realloc_def Let_def bindS_def regrown_def zstore_def)
qed

section \<open>Steps of the operations\<close>

lemma realloc_spec:
  assumes good: "zgood R s" "R = {} \<or> R = {r}" and r: "zvar s r = Some z" and n: "n < 2 ^ 31" "n \<le> mp_alloc z \<or> \<bar>mp_size z\<bar> \<le> n"
  shows "\<exists>t z'. MPZ_REALLOC r n s = Inr (mp_d z', t) \<and> zgood R t \<and> zvar t r = Some z' \<and> n \<le> mp_alloc z' \<and>
    mp_size z' = mp_size z \<and> others r s t \<and> znext t = znext s \<and> (R = {} \<longrightarrow> zl t r = zl s r)"
proof (cases "n \<le> mp_alloc z")
  case True
  with good r show ?thesis by (auto simp: MPZ_REALLOC_def bindS_def intro!: exI [of _ s] exI [of _ z])
next
  case False
  note st = zgoodD(3) [OF good(1) r]
  have pos: "0 < n" "\<bar>mp_size z\<bar> \<le> n" "nat (mp_alloc z) \<le> nat n" using False n(2) st by (auto simp: zstore_def)
  let ?m = "regrown (zmem s) z (nat n)" and ?z = "\<lparr>mp_alloc = n, mp_size = mp_size z, mp_d = brk (zmem s)\<rparr>"
  let ?t = "s\<lparr>zmem := ?m, zvar := (zvar s)(r \<mapsto> ?z)\<rparr>"
  note c = regrown_cells [OF st pos(3)]
  have ok: "mem_ok ?m" using zgoodD(1) [OF good(1) r] by (simp add: regrown_def mem_ok_fresh mem_ok_moved)
  have st': "zstore ?m ?z" using c(1,2) pos(1) n(1) by (simp add: zstore_def)
  have full: "zfull ?m ?z \<and> zlimbs ?m ?z = zlimbs (zmem s) z" if "R = {}"
    using regrown_limbs [OF st _ pos(3), of ?z] zgoodD(4) [OF good(1) r] that pos(1) by simp
  have o: "agree (zmem s) ?m x \<and> apart x ?z" if "zvar s v = Some x" "v \<noteq> r" for v x
    using regrown_agree [OF good(1) r that] store_below [OF zgoodD(3,1) [OF good(1) that(1)]] zgoodD(3) [OF good(1) that(1)]
    by (auto simp: apart_def zstore_def)
  have "zgood R ?t" "others r s ?t"
    using zgood_update [OF good(1) zgoodD(2) [OF good(1) r] _ ok st' _ o refl, of R] full good(2) by auto
  moreover have "MPZ_REALLOC r n s = Inr (mp_d ?z, ?t)"
    using mpz_realloc_run [OF good(1) r pos(1) n(1) pos(2)] False r by (simp add: MPZ_REALLOC_def bindS_def)
  ultimately show ?thesis using full r by (intro exI [of _ ?t] exI [of _ ?z]) (auto simp: zl_def)
qed

lemma set_size_run: "zvar s r = Some z \<Longrightarrow> set_size r n s = Inr ((), s\<lparr>zvar := (zvar s)(r \<mapsto> z\<lparr>mp_size := c_int n\<rparr>)\<rparr>)"
  by (simp add: set_size_def bindS_def)

text \<open>The state after limbs \<open>rs\<close> and a size were stored in \<open>r\<close>.\<close>

definition stored :: "mpz_state \<Rightarrow> nat \<Rightarrow> limb list \<Rightarrow> int \<Rightarrow> mpz_state" where
  "stored s r rs n = s\<lparr>zmem := put (zmem s) (mp_d (the (zvar s r))) rs, zvar := (zvar s)(r \<mapsto> (the (zvar s r))\<lparr>mp_size := n\<rparr>)\<rparr>"

definition zres :: "nat \<Rightarrow> int \<Rightarrow> mpz_state \<Rightarrow> mpz_state \<Rightarrow> bool" where
  "zres r x s t \<longleftrightarrow> zgood {} t \<and> others r s t \<and> zvar t r \<noteq> None \<and> zv t r = x"

lemma stored_spec:
  assumes good: "zgood {r} s" and r: "zvar s r = Some z" and l: "length rs \<le> nat (mp_alloc z)" "\<bar>n\<bar> \<le> int (length rs)"
    and top: "n \<noteq> 0 \<Longrightarrow> rs ! (nat \<bar>n\<bar> - 1) \<noteq> 0"
  shows "zres r (sgn n * lval (take (nat \<bar>n\<bar>) rs)) s (stored s r rs n)"
proof -
  let ?m = "put (zmem s) (mp_d z) rs" and ?z = "z\<lparr>mp_size := n\<rparr>"
  note st = zgoodD(3) [OF good r]
  have room: "room (zmem s) (mp_d z) (length rs)" by (rule room_less [OF _ l(1)]) (use st in \<open>simp add: zstore_def\<close>)
  have st': "zstore ?m ?z" using st by (simp add: zstore_def put_def) (simp add: room_def)
  have lim: "zlimbs ?m ?z = take (nat \<bar>n\<bar>) rs"
    using l(2) by (auto simp: zlimbs_def limbs_def zsize_def cells_put intro!: nth_equalityI)
  have full: "zfull ?m ?z"
    unfolding zfull_def lim using l top limbs_at_take [OF limbs_at_put [of "zmem s" "mp_d z" rs], of "nat \<bar>n\<bar>"]
    by (auto simp: zsize_def last_conv_nth)
  have o: "agree (zmem s) ?m x \<and> apart x ?z" if "zvar s v = Some x" "v \<noteq> r" for v x
    using zgoodD(5) [OF good that(1) r that(2)] l(1) st by (cases "rs = []") (auto simp: apart_def zstore_def intro!: agree_put)
  have s: "stored s r rs n = s\<lparr>zmem := ?m, zvar := (zvar s)(r \<mapsto> ?z)\<rparr>" using r by (simp add: stored_def)
  show ?thesis
    using zgood_update [OF good zgoodD(2) [OF good r] _ mem_ok_put [OF zgoodD(1) [OF good r] room] st' full o s, of "{}"] lim s
    by (simp add: zres_def zv_def zl_def)
qed

text \<open>The operands of an operation, after its result was reallocated.\<close>

lemma operand:
  assumes "zgood {} s" "zvar s r = Some z" "zvar s a = Some x" "0 < mp_alloc z"
  shows "limbs_at (zmem s) (mp_d x) (zl s a)" "length (zl s a) = zsize x" "up_ok (mp_d z) (mp_d x) (zsize x)"
    "zl s a \<noteq> [] \<Longrightarrow> last (zl s a) \<noteq> 0" "zsize x \<le> nat (mp_alloc z) \<Longrightarrow> down_ok (mp_d z) (mp_d x) (zsize x)"
proof -
  note l = zgood_limbs [OF assms(1,3)]
  show "limbs_at (zmem s) (mp_d x) (zl s a)" "length (zl s a) = zsize x" "zl s a \<noteq> [] \<Longrightarrow> last (zl s a) \<noteq> 0" using l by simp_all
  show "up_ok (mp_d z) (mp_d x) (zsize x)"
  proof (cases "a = r")
    case False
    with apart_up_ok [OF zgoodD(5) [OF assms(1,2,3)] l(4)] assms(4) show ?thesis by auto
  qed (use assms(2,3) in simp)
  show "down_ok (mp_d z) (mp_d x) (zsize x)" if "zsize x \<le> nat (mp_alloc z)"
  proof (cases "a = r")
    case False
    with zgoodD(5) [OF assms(1,2,3)] l(4) assms(4) that show ?thesis by (auto simp: apart_def down_ok_def)
  qed (use assms(2,3) in simp)
qed

end
