(* ===== verification/Mpz_Props.thy ===== *)
theory Mpz_Props
  imports Mpz_Inv
begin

text \<open>
  The operations of the mpz layer compute what their names say, on every choice of variables: the result variable may be one of the
  operands.  The memory of the other variables is left alone and the invariant is kept.
\<close>

section \<open>Values and sizes\<close>

lemma zv_size:
  assumes "zvar s a = Some x"
  shows "0 \<le> mp_size x \<Longrightarrow> zv s a = lval (zl s a)" "mp_size x < 0 \<Longrightarrow> zv s a = - lval (zl s a)" "\<bar>zv s a\<bar> = lval (zl s a)"
proof -
  show p: "zv s a = lval (zl s a)" if "0 \<le> mp_size x"
  proof (cases "mp_size x = 0")
    case True
    with assms have "zl s a = []" by (simp add: zl_def zlimbs_def limbs_def zsize_def)
    then show ?thesis by (simp add: zv_def)
  qed (use assms that in \<open>simp add: zv_def\<close>)
  show n: "zv s a = - lval (zl s a)" if "mp_size x < 0" using assms that by (simp add: zv_def)
  show "\<bar>zv s a\<bar> = lval (zl s a)" using p n lval_nonneg [of "zl s a"] by (cases "0 \<le> mp_size x") auto
qed

lemma prepared:
  assumes "zgood {} s" "zvar s r = Some z" "n < 2 ^ 31"
  obtains t z' where "MPZ_REALLOC r n s = Inr (mp_d z', t)" "zgood {} t" "zvar t r = Some z'" "n \<le> mp_alloc z'" "others r s t"
    "znext t = znext s" "\<And>a x. zvar s a = Some x \<Longrightarrow> \<exists>y. zvar t a = Some y \<and> mp_size y = mp_size x \<and> zl t a = zl s a"
    "mp_size z' = mp_size z"
proof -
  have "n \<le> mp_alloc z \<or> \<bar>mp_size z\<bar> \<le> n" using zgood_limbs(4) [OF assms(1,2)] zgoodD(3) [OF assms(1,2)]
    by (auto simp: zsize_def zstore_def)
  then obtain t z' where t: "MPZ_REALLOC r n s = Inr (mp_d z', t)" "zgood {} t" "zvar t r = Some z'" "n \<le> mp_alloc z'" "others r s t"
    "znext t = znext s" "mp_size z' = mp_size z" "zl t r = zl s r"
    using realloc_spec [OF assms(1) _ assms(2,3)] by auto
  have "\<exists>y. zvar t a = Some y \<and> mp_size y = mp_size x \<and> zl t a = zl s a" if "zvar s a = Some x" for a x
  proof (cases "a = r")
    case True
    with that t assms(2) show ?thesis by auto
  next
    case False
    with others_zv [OF t(5) False that] show ?thesis by auto
  qed
  with t that show ?thesis by blast
qed

section \<open>Programs that compute a number\<close>

text \<open>The result of the program is a signed size for limbs that it has stored in \<open>r\<close>.\<close>

definition computes :: "int zp \<Rightarrow> nat \<Rightarrow> int \<Rightarrow> mpz_state \<Rightarrow> bool" where
  "computes m r x s \<longleftrightarrow> (\<exists>n u z rs. m s = Inr (n, u\<lparr>zmem := put (zmem u) (mp_d z) rs\<rparr>) \<and> zgood {} u \<and> zvar u r = Some z \<and>
     others r s u \<and> mp_size z = mp_size (the (zvar s r)) \<and> length rs \<le> nat (mp_alloc z) \<and> \<bar>n\<bar> \<le> int (length rs) \<and> \<bar>n\<bar> < 2 ^ 31 \<and>
     (n \<noteq> 0 \<longrightarrow> rs ! (nat \<bar>n\<bar> - 1) \<noteq> 0) \<and> sgn n * lval (take (nat \<bar>n\<bar>) rs) = x)"

lemma computesI:
  assumes "m s = Inr (n, u\<lparr>zmem := put (zmem u) (mp_d z) rs\<rparr>)" "zgood {} u" "zvar u r = Some z"
    "others r s u" "mp_size z = mp_size (the (zvar s r))" "length rs \<le> nat (mp_alloc z)" "\<bar>n\<bar> \<le> int (length rs)" "\<bar>n\<bar> < 2 ^ 31"
    "n \<noteq> 0 \<Longrightarrow> rs ! (nat \<bar>n\<bar> - 1) \<noteq> 0" "sgn n * lval (take (nat \<bar>n\<bar>) rs) = x"
  shows "computes m r x s"
  unfolding computes_def using assms by blast

lemma computes_neg: "computes m r x s \<Longrightarrow> computes (bindS m (\<lambda>n. ret (- n))) r (- x) s"
  unfolding computes_def by (elim exE conjE) (rule exI, rule exI, rule exI, rule exI, auto simp: bindS_def sgn_minus)

text \<open>The size is stored, with a sign.\<close>

lemma computes_size:
  assumes "computes m r x s" "e = 1 \<or> e = - 1" "\<And>n u. f n u = set_size r (e * n) u"
  shows "\<exists>t. bindS m f s = Inr ((), t) \<and> zres r (e * x) s t"
proof -
  from assms(1) obtain n u z rs where c: "m s = Inr (n, u\<lparr>zmem := put (zmem u) (mp_d z) rs\<rparr>)" "zgood {} u" "zvar u r = Some z"
    "others r s u" "length rs \<le> nat (mp_alloc z)" "\<bar>n\<bar> \<le> int (length rs)" "\<bar>n\<bar> < 2 ^ 31"
    "n \<noteq> 0 \<longrightarrow> rs ! (nat \<bar>n\<bar> - 1) \<noteq> 0" "sgn n * lval (take (nat \<bar>n\<bar>) rs) = x" unfolding computes_def by blast
  let ?n = "e * n"
  have a: "\<bar>?n\<bar> = \<bar>n\<bar>" "?n \<noteq> 0 \<longleftrightarrow> n \<noteq> 0" "sgn ?n = e * sgn n" "is_int ?n" using assms(2) c(7) by (auto simp: sgn_minus is_int_def)
  have "zres r (sgn ?n * lval (take (nat \<bar>?n\<bar>) rs)) u (stored u r rs ?n)"
    by (rule stored_spec [OF zgood_mono [OF c(2)] c(3,5)]) (use c(6,8) a in auto)
  then have "zres r (e * x) s (stored u r rs ?n)" unfolding a using c(9) others_trans [OF c(4)] by (auto simp: zres_def mult.assoc)
  moreover have "bindS m f s = Inr ((), stored u r rs ?n)"
    using c(1,3) a(4) by (simp add: bindS_def assms(3) set_size_run [of _ r z] stored_def)
  ultimately show ?thesis by blast
qed

text \<open>The size of a sum or product with the carry \<open>cy\<close> on top.\<close>

lemma top_nonzero: "rs \<noteq> [] \<Longrightarrow> LIMB_B ^ (length rs - 1) \<le> lval rs \<Longrightarrow> last rs \<noteq> 0"
proof
  assume r: "rs \<noteq> []" "LIMB_B ^ (length rs - 1) \<le> lval rs" "last rs = 0"
  from r(1) have "rs = butlast rs @ [last rs]" by simp
  then have "lval rs = lval (butlast rs)" using lval_append [of "butlast rs" "[last rs]"] r(3) by simp
  with r(2) lval_less [of "butlast rs"] show False by simp
qed

lemma carry_size:
  assumes len: "length rs = k" "length xs = k" and top: "xs \<noteq> [] \<Longrightarrow> last xs \<noteq> 0" and ge: "lval xs \<le> lval rs + LIMB_B ^ k * uint cy"
    and n: "n = int k + of_bool (cy \<noteq> 0)"
  shows "\<bar>n\<bar> \<le> int (length (rs @ [cy]))" "n \<noteq> 0 \<Longrightarrow> (rs @ [cy]) ! (nat \<bar>n\<bar> - 1) \<noteq> 0"
    "sgn n * lval (take (nat \<bar>n\<bar>) (rs @ [cy])) = lval rs + LIMB_B ^ k * uint cy"
proof -
  show "\<bar>n\<bar> \<le> int (length (rs @ [cy]))" using n len by (cases "cy = 0") auto
  have last: "last rs \<noteq> 0" if "cy = 0" "0 < k"
  proof (rule top_nonzero)
    show "rs \<noteq> []" using that len by auto
    have "xs \<noteq> []" using that len by auto
    then have "LIMB_B ^ (length xs - 1) \<le> lval xs" using lval_ge_top top by blast
    then show "LIMB_B ^ (length rs - 1) \<le> lval rs" using ge that len by simp
  qed
  show "(rs @ [cy]) ! (nat \<bar>n\<bar> - 1) \<noteq> 0" if "n \<noteq> 0"
  proof (cases "cy = 0")
    case True
    with that n have k: "0 < k" "nat \<bar>n\<bar> = k" by auto
    moreover have "rs \<noteq> []" using k(1) len(1) by auto
    ultimately show ?thesis using last [OF True] len(1) by (simp add: nth_append last_conv_nth)
  next
    case False
    with n have "nat \<bar>n\<bar> = Suc k" by simp
    with False len(1) show ?thesis by (simp add: nth_append)
  qed
  show "sgn n * lval (take (nat \<bar>n\<bar>) (rs @ [cy])) = lval rs + LIMB_B ^ k * uint cy"
  proof (cases "cy = 0")
    case True
    with n len(1) show ?thesis by (cases "k = 0") auto
  next
    case False
    with n have k: "nat \<bar>n\<bar> = Suc k" "sgn n = 1" by auto
    show ?thesis unfolding k using len(1) by (simp add: lval_append)
  qed
qed

text \<open>The state in which \<open>r\<close> has room for \<open>n\<close> limbs, and an operand \<open>a\<close> of the operation in it.\<close>

definition room_for :: "int \<Rightarrow> nat \<Rightarrow> mpz_state \<Rightarrow> mpz_state \<Rightarrow> mpz \<Rightarrow> bool" where
  "room_for n r s t z \<longleftrightarrow> MPZ_REALLOC r n s = Inr (mp_d z, t) \<and> zgood {} t \<and> zvar t r = Some z \<and> others r s t \<and> mp_size z = mp_size (the (zvar s r)) \<and> nat n \<le> nat (mp_alloc z) \<and> room (zmem t) (mp_d z) (nat n) \<and> znext t = znext s"

definition operand_in :: "nat \<Rightarrow> int \<Rightarrow> mpz_state \<Rightarrow> mpz_state \<Rightarrow> mpz \<Rightarrow> mpz \<Rightarrow> bool" where
  "operand_in a n s t z x \<longleftrightarrow> zvar t a = Some x \<and> mp_size x = mp_size (the (zvar s a)) \<and> limbs_at (zmem t) (mp_d x) (zl s a) \<and> length (zl s a) = nat \<bar>mp_size x\<bar> \<and> up_ok (mp_d z) (mp_d x) (nat \<bar>mp_size x\<bar>) \<and> (zl s a \<noteq> [] \<longrightarrow> last (zl s a) \<noteq> 0) \<and> (\<bar>mp_size x\<bar> \<le> n \<longrightarrow> down_ok (mp_d z) (mp_d x) (nat \<bar>mp_size x\<bar>))"

lemma room_forD:
  assumes "room_for n r s t z"
  shows "MPZ_REALLOC r n s = Inr (mp_d z, t)" "zgood {} t" "zvar t r = Some z" "others r s t" "mp_size z = mp_size (the (zvar s r))" "nat n \<le> nat (mp_alloc z)" "room (zmem t) (mp_d z) (nat n)" "znext t = znext s"
  using assms by (simp_all add: room_for_def)

lemma operandD:
  assumes "operand_in a n s t z x"
  shows "zvar t a = Some x" "mp_size x = mp_size (the (zvar s a))" "limbs_at (zmem t) (mp_d x) (zl s a)" "length (zl s a) = nat \<bar>mp_size x\<bar>" "up_ok (mp_d z) (mp_d x) (nat \<bar>mp_size x\<bar>)" "zl s a \<noteq> [] \<Longrightarrow> last (zl s a) \<noteq> 0" "\<bar>mp_size x\<bar> \<le> n \<Longrightarrow> down_ok (mp_d z) (mp_d x) (nat \<bar>mp_size x\<bar>)"
  using assms unfolding operand_in_def by blast+

lemma ready:
  assumes "zgood {} s" "zvar s r = Some z" "0 < n" "n < 2 ^ 31"
  obtains t z' where "room_for n r s t z'" "\<And>a x. zvar s a = Some x \<Longrightarrow> \<exists>x'. operand_in a n s t z' x'"
proof -
  obtain t z' where t: "MPZ_REALLOC r n s = Inr (mp_d z', t)" "zgood {} t" "zvar t r = Some z'" "n \<le> mp_alloc z'"
    "others r s t" "znext t = znext s"
    "\<And>a x. zvar s a = Some x \<Longrightarrow> \<exists>y. zvar t a = Some y \<and> mp_size y = mp_size x \<and> zl t a = zl s a" "mp_size z' = mp_size z"
    by (rule prepared [OF assms(1,2,4)]) blast
  have al: "0 < mp_alloc z'" "nat n \<le> nat (mp_alloc z')" using t(4) assms(3) by auto
  have room: "room (zmem t) (mp_d z') (nat n)"
    by (rule room_less [OF _ al(2)]) (use zgoodD(3) [OF t(2,3)] in \<open>simp add: zstore_def\<close>)
  have "\<exists>x'. operand_in a n s t z' x'" if live: "zvar s a = Some x" for a x
  proof -
    obtain x' where x: "zvar t a = Some x'" "mp_size x' = mp_size x" "zl t a = zl s a" using t(7) [OF live] by blast
    note o = operand [OF t(2,3) x(1) al(1)]
    have "down_ok (mp_d z') (mp_d x') (nat \<bar>mp_size x\<bar>)" if "\<bar>mp_size x\<bar> \<le> n"
      using o(5) nat_mono [OF that] al(2) by (simp add: zsize_def x(2))
    with x o live show ?thesis by (auto simp: operand_in_def zsize_def)
  qed
  moreover have "room_for n r s t z'" using t al(2) room assms(2) by (simp add: room_for_def)
  ultimately show ?thesis using that by blast
qed

lemma live_limbs: "zgood {} s \<Longrightarrow> zvar s a = Some x \<Longrightarrow> length (zl s a) = nat \<bar>mp_size x\<bar>"
  using zgood_limbs(2) [of "{}" s a x] by (simp add: zsize_def)

text \<open>A result of \<open>k\<close> limbs with a carry above them.\<close>

lemma computes_carry:
  assumes room: "room_for (n + 1) r s t z" and n: "n = int k" "n + 1 < 2 ^ 31"
    and xs: "length rs = k" "length xs = k" "xs \<noteq> [] \<Longrightarrow> last xs \<noteq> 0" "lval xs \<le> v" "lval rs + LIMB_B ^ k * uint cy = v"
    and run: "m s = Inr (n + of_bool (cy \<noteq> 0), t\<lparr>zmem := put (zmem t) (mp_d z) (rs @ [cy])\<rparr>)"
  shows "computes m r v s"
proof -
  note t = room_forD [OF room]
  have ge: "lval xs \<le> lval rs + LIMB_B ^ k * uint cy" and k: "n + of_bool (cy \<noteq> 0) = int k + of_bool (cy \<noteq> 0)" using xs(4,5) n(1) by simp_all
  let ?k = "n + of_bool (cy \<noteq> 0)"
  have cs: "\<bar>?k\<bar> \<le> int (length (rs @ [cy]))" "?k \<noteq> 0 \<Longrightarrow> (rs @ [cy]) ! (nat \<bar>?k\<bar> - 1) \<noteq> 0"
    "sgn ?k * lval (take (nat \<bar>?k\<bar>) (rs @ [cy])) = lval rs + LIMB_B ^ k * uint cy"
    by (rule carry_size [OF xs(1-3) ge k], assumption+)+
  show ?thesis
  proof (rule computesI, rule run, rule t(2), rule t(3), rule t(4), rule t(5))
    show "length (rs @ [cy]) \<le> nat (mp_alloc z)" using xs(1) t(6) n(1) by simp
    show "\<bar>?k\<bar> < 2 ^ 31" using n by simp
    show "sgn ?k * lval (take (nat \<bar>?k\<bar>) (rs @ [cy])) = v" using cs(3) xs(5) by simp
  qed (rule cs(1), erule cs(2))
qed

section \<open>Addition and subtraction\<close>

lemma abs_add_ge:
  assumes s: "zgood {} s" "zvar s r = Some z" "zvar s a = Some x" "zvar s b = Some y"
    and n: "\<bar>mp_size y\<bar> \<le> \<bar>mp_size x\<bar>" "\<bar>mp_size x\<bar> + 1 < 2 ^ 31"
  shows "computes (mpz_abs_add_ge r a b \<bar>mp_size x\<bar> \<bar>mp_size y\<bar>) r (lval (zl s a) + lval (zl s b)) s"
proof -
  let ?an = "\<bar>mp_size x\<bar>" and ?bn = "\<bar>mp_size y\<bar>"
  have p: "0 < ?an + 1" by simp
  obtain t z' where rf: "room_for (?an + 1) r s t z'" and op: "\<And>a x. zvar s a = Some x \<Longrightarrow> \<exists>x'. operand_in a (?an + 1) s t z' x'"
    by (rule ready [OF s(1,2) p n(2)]) (rule that)
  note t = room_forD [OF rf]
  from op [OF s(3)] op [OF s(4)] obtain x' y' where "operand_in a (?an + 1) s t z' x'" "operand_in b (?an + 1) s t z' y'" by blast
  note a = operandD [OF this(1)] and b = operandD [OF this(2)]
  have sz: "mp_size x' = mp_size x" "mp_size y' = mp_size y" using a(2) b(2) s by simp_all
  note a = a [unfolded sz] and b = b [unfolded sz]
  have room: "room (zmem t) (mp_d z') (nat ?an)" by (rule room_less [OF t(7)]) simp
  obtain cy rs where add: "mpn_add (mp_d z') (mp_d x') (nat ?an) (mp_d y') (nat ?bn) (zmem t) = Inr (cy, put (zmem t) (mp_d z') rs)"
    "length rs = nat ?an" "lval rs + LIMB_B ^ nat ?an * uint cy = lval (zl s a) + lval (zl s b)" "uint cy \<le> 1"
    using mpn_add_spec [OF a(3) b(3) a(4) b(4) nat_mono [OF n(1)] room a(5) b(5)] by blast
  have c: "uint cy = of_bool (cy \<noteq> 0)" using add(4) uint_pos [of cy] by (cases "cy = 0") auto
  have st: "st (mp_d z' + nat ?an) cy (put (zmem t) (mp_d z') rs) = Inr ((), put (zmem t) (mp_d z') (rs @ [cy]))"
    by (rule st_snoc [OF t(7)]) (use add(2) in auto)
  have run: "mpz_abs_add_ge r a b ?an ?bn s = Inr (?an + of_bool (cy \<noteq> 0), t\<lparr>zmem := put (zmem t) (mp_d z') (rs @ [cy])\<rparr>)"
    using t(1,3) a(1) b(1) add(1) st by (simp add: mpz_abs_add_ge_def bindS_def c)
  show ?thesis
    by (rule computes_carry [OF rf _ n(2) add(2) a(4) a(6) _ add(3)]) (simp_all add: run lval_nonneg)
qed

text \<open>The number of significant limbs of a difference.\<close>

lemma normalized:
  assumes "limbs_at m p rs" "length rs = k"
  obtains n where "mpn_normalized_size p k m = Inr (n, m)" "n \<le> k" "n \<noteq> 0 \<Longrightarrow> rs ! (n - 1) \<noteq> 0"
    "sgn (int n) * lval (take n rs) = lval rs"
proof -
  obtain n where n: "n \<le> k" "mpn_normalized_size p k m = Inr (n, m)" "lval (take n rs) = lval rs" "0 < n \<longrightarrow> rs ! (n - 1) \<noteq> 0"
    using mpn_normalized_size_spec [OF assms] by blast
  have "sgn (int n) * lval (take n rs) = lval rs" using n(3) by (cases "n = 0") auto
  with n that show ?thesis by blast
qed

lemma no_borrow: "length rs = k \<Longrightarrow> lval rs - LIMB_B ^ k * uint cy = v \<Longrightarrow> 0 \<le> v \<Longrightarrow> (cy :: limb) = 0"
proof (rule ccontr)
  assume l: "length rs = k" "lval rs - LIMB_B ^ k * uint cy = v" "0 \<le> v" "cy \<noteq> 0"
  have "LIMB_B ^ k * 1 \<le> LIMB_B ^ k * uint cy" using uint_pos [OF l(4)] by (intro mult_left_mono) simp_all
  with l lval_less [of rs] show False by simp
qed

lemma abs_sub_gt:
  assumes s: "zgood {} s" "zvar s r = Some z" "zvar s a = Some x" "zvar s b = Some y"
    and n: "\<bar>mp_size y\<bar> \<le> \<bar>mp_size x\<bar>" "lval (zl s b) \<le> lval (zl s a)" "\<bar>mp_size x\<bar> < 2 ^ 31" "0 < \<bar>mp_size x\<bar>"
  shows "computes (mpz_abs_sub_gt r a b \<bar>mp_size x\<bar> \<bar>mp_size y\<bar>) r (lval (zl s a) - lval (zl s b)) s"
proof -
  let ?an = "\<bar>mp_size x\<bar>" and ?bn = "\<bar>mp_size y\<bar>"
  obtain t z' where "room_for ?an r s t z'" and op: "\<And>a x. zvar s a = Some x \<Longrightarrow> \<exists>x'. operand_in a ?an s t z' x'"
    by (rule ready [OF s(1,2) n(4,3)]) (rule that)
  note t = room_forD [OF this(1)]
  from op [OF s(3)] op [OF s(4)] obtain x' y' where "operand_in a ?an s t z' x'" "operand_in b ?an s t z' y'" by blast
  note a = operandD [OF this(1)] and b = operandD [OF this(2)]
  have sz: "mp_size x' = mp_size x" "mp_size y' = mp_size y" using a(2) b(2) s by simp_all
  note a = a [unfolded sz] and b = b [unfolded sz]
  obtain cy rs where sub: "mpn_sub (mp_d z') (mp_d x') (nat ?an) (mp_d y') (nat ?bn) (zmem t) = Inr (cy, put (zmem t) (mp_d z') rs)"
    "length rs = nat ?an" "lval rs - LIMB_B ^ nat ?an * uint cy = lval (zl s a) - lval (zl s b)" "uint cy \<le> 1"
    using mpn_sub_spec [OF a(3) b(3) a(4) b(4) nat_mono [OF n(1)] t(7) a(5) b(5)] by blast
  have cy: "cy = 0" by (rule no_borrow [OF sub(2,3)]) (use n(2) in simp)
  obtain k where k: "mpn_normalized_size (mp_d z') (nat ?an) (put (zmem t) (mp_d z') rs) = Inr (k, put (zmem t) (mp_d z') rs)"
    "k \<le> nat ?an" "k \<noteq> 0 \<Longrightarrow> rs ! (k - 1) \<noteq> 0" "sgn (int k) * lval (take k rs) = lval rs"
    using normalized [OF limbs_at_put sub(2)] by blast
  have run: "mpz_abs_sub_gt r a b ?an ?bn s = Inr (int k, t\<lparr>zmem := put (zmem t) (mp_d z') rs\<rparr>)"
    using t(1,3) a(1) b(1) sub(1) k(1) cy by (simp add: mpz_abs_sub_gt_def bindS_def gmp_assert_nocarry_def)
  show ?thesis
  proof (rule computesI, rule run, rule t(2), rule t(3), rule t(4), rule t(5))
    show "length rs \<le> nat (mp_alloc z')" using sub(2) t(6) by simp
    show "\<bar>int k\<bar> \<le> int (length rs)" "\<bar>int k\<bar> < 2 ^ 31" using k(2) sub(2) n(3) by auto
    show "rs ! (nat \<bar>int k\<bar> - 1) \<noteq> 0" if "int k \<noteq> 0" using that k(3) by simp
    show "sgn (int k) * lval (take (nat \<bar>int k\<bar>) rs) = lval (zl s a) - lval (zl s b)" using k(4) sub(3) cy by simp
  qed
qed

lemma abs_add:
  assumes s: "zgood {} s" "zvar s r = Some z" "zvar s a = Some x" "zvar s b = Some y"
    and n: "\<bar>mp_size x\<bar> + 1 < 2 ^ 31" "\<bar>mp_size y\<bar> + 1 < 2 ^ 31"
  shows "computes (mpz_abs_add r a b) r (\<bar>zv s a\<bar> + \<bar>zv s b\<bar>) s"
proof -
  have c: "computes m r v s \<Longrightarrow> mpz_abs_add r a b s = m s \<Longrightarrow> computes (mpz_abs_add r a b) r v s" for m v
    unfolding computes_def by simp
  note v = zv_size(3) [OF s(3)] zv_size(3) [OF s(4)]
  show ?thesis
  proof (cases "\<bar>mp_size x\<bar> < \<bar>mp_size y\<bar>")
    case True
    with abs_add_ge [OF s(1,2,4,3) _ n(2)] show ?thesis unfolding v
      by (intro c) (use s True in \<open>auto simp: mpz_abs_add_def bindS_def GMP_ABS_abs Let_def add.commute\<close>)
  next
    case False
    with abs_add_ge [OF s _ n(1)] show ?thesis unfolding v
      by (intro c) (use s False in \<open>auto simp: mpz_abs_add_def bindS_def GMP_ABS_abs Let_def\<close>)
  qed
qed

text \<open>A normalised number with more limbs is larger.\<close>

lemma longer_larger:
  assumes "zgood {} s" "zvar s a = Some x" "zvar s b = Some y" "\<bar>mp_size x\<bar> < \<bar>mp_size y\<bar>"
  shows "lval (zl s a) < lval (zl s b)"
proof -
  note b = zgood_limbs [OF assms(1,3)] and l = live_limbs [OF assms(1,2)] live_limbs [OF assms(1,3)]
  have ne: "zl s b \<noteq> []" using l(2) assms(4) by auto
  have "LIMB_B ^ length (zl s a) \<le> LIMB_B ^ (length (zl s b) - 1)"
    using l assms(4) less_imp_le [OF LIMB_B_pos(3)] by (intro power_increasing) linarith+
  moreover have "last (zl s b) \<noteq> 0" using b(3) ne by simp
  ultimately show ?thesis using lval_less [of "zl s a"] lval_ge_top [OF ne] by linarith
qed

lemma abs_sub:
  assumes s: "zgood {} s" "zvar s r = Some z" "zvar s a = Some x" "zvar s b = Some y"
    and n: "\<bar>mp_size x\<bar> < 2 ^ 31" "\<bar>mp_size y\<bar> < 2 ^ 31"
  shows "computes (mpz_abs_sub r a b) r (\<bar>zv s a\<bar> - \<bar>zv s b\<bar>) s"
proof -
  have c: "computes m r v s \<Longrightarrow> mpz_abs_sub r a b s = m s \<Longrightarrow> computes (mpz_abs_sub r a b) r v s" for m v
    unfolding computes_def by simp
  note v = zv_size(3) [OF s(3)] zv_size(3) [OF s(4)]
  note la = zgood_limbs [OF s(1,3)] live_limbs [OF s(1,3)] and lb = zgood_limbs [OF s(1,4)] live_limbs [OF s(1,4)]
  have cmp: "mpn_cmp4 (mp_d x) (nat \<bar>mp_size x\<bar>) (mp_d y) (nat \<bar>mp_size y\<bar>) (zmem s) = Inr (sgn (lval (zl s a) - lval (zl s b)), zmem s)"
    using mpn_cmp4_spec [OF la(1) lb(1)] la(3,5) lb(3,5) by simp
  have self: "s\<lparr>zmem := zmem s\<rparr> = s" by simp
  have run: "mpz_abs_sub r a b s = (if lval (zl s a) > lval (zl s b) then mpz_abs_sub_gt r a b \<bar>mp_size x\<bar> \<bar>mp_size y\<bar> s
      else if lval (zl s a) < lval (zl s b) then bindS (mpz_abs_sub_gt r b a \<bar>mp_size y\<bar> \<bar>mp_size x\<bar>) (\<lambda>n. ret (- n)) s else Inr (0, s))"
    using s(3,4) cmp by (auto simp: mpz_abs_sub_def bindS_def GMP_ABS_abs Let_def sgn_if)
  consider "lval (zl s a) > lval (zl s b)" | "lval (zl s a) < lval (zl s b)" | "lval (zl s a) = lval (zl s b)" by linarith
  then show ?thesis unfolding v
  proof cases
    case 1
    then have "\<bar>mp_size y\<bar> \<le> \<bar>mp_size x\<bar>" using longer_larger [OF s(1,3,4)] by force
    moreover have "mp_size x \<noteq> 0" using 1 la(5) lval_nonneg [of "zl s b"] by auto
    ultimately show "computes (mpz_abs_sub r a b) r (lval (zl s a) - lval (zl s b)) s"
      using 1 by (intro c [OF abs_sub_gt [OF s _ _ n(1)]]) (simp_all add: run)
  next
    case 2
    then have y: "\<bar>mp_size x\<bar> \<le> \<bar>mp_size y\<bar>" using longer_larger [OF s(1,4,3)] by force
    have "mp_size y \<noteq> 0" using 2 lb(5) lval_nonneg [of "zl s a"] by auto
    with y 2 have "computes (mpz_abs_sub_gt r b a \<bar>mp_size y\<bar> \<bar>mp_size x\<bar>) r (lval (zl s b) - lval (zl s a)) s"
      by (intro abs_sub_gt [OF s(1,2,4,3) _ _ n(2)]) simp_all
    from computes_neg [OF this] show "computes (mpz_abs_sub r a b) r (lval (zl s a) - lval (zl s b)) s"
      by (intro c [where m = "bindS (mpz_abs_sub_gt r b a \<bar>mp_size y\<bar> \<bar>mp_size x\<bar>) (\<lambda>n. ret (- n))"]) (use 2 run in simp_all)
  next
    case 3
    show "computes (mpz_abs_sub r a b) r (lval (zl s a) - lval (zl s b)) s"
      by (rule computesI [where u = s and z = z and rs = "[]" and n = 0]) (use 3 s(1,2) run in auto)
  qed
qed

text \<open>The size of an operand is read again, after the result may have been stored in it.\<close>

lemma computes_then:
  assumes "computes m r x s" "zvar s a = Some y" "e = (if mp_size y \<ge> 0 then 1 else - 1)"
  shows "\<exists>t. bindS m (\<lambda>n. bindS (getz a) (\<lambda>y. set_size r (if mp_size y \<ge> 0 then n else - n))) s = Inr ((), t) \<and> zres r (e * x) s t"
proof -
  from assms(1) obtain n u z rs where c: "m s = Inr (n, u\<lparr>zmem := put (zmem u) (mp_d z) rs\<rparr>)" "zvar u r = Some z"
    "others r s u" "mp_size z = mp_size (the (zvar s r))" unfolding computes_def by blast
  have "\<exists>y'. zvar u a = Some y' \<and> mp_size y' = mp_size y"
    using c(2-4) assms(2) others_zv [OF c(3) _ assms(2)] by (cases "a = r") auto
  then obtain y' where y': "zvar u a = Some y'" "mp_size y' = mp_size y" by blast
  have "bindS m (\<lambda>n. bindS (getz a) (\<lambda>y. set_size r (if mp_size y \<ge> 0 then n else - n))) s = bindS m (\<lambda>n. set_size r (e * n)) s"
    using c(1) y' assms(3) by (simp add: bindS_def)
  then show ?thesis using computes_size [OF assms(1), of e "\<lambda>n. set_size r (e * n)"] assms(3) by auto
qed

lemma mpz_add_spec:
  assumes s: "zgood {} s" "zvar s r = Some z" "zvar s a = Some x" "zvar s b = Some y"
    and n: "\<bar>mp_size x\<bar> + 1 < 2 ^ 31" "\<bar>mp_size y\<bar> + 1 < 2 ^ 31"
  shows "\<exists>t. mpz_add r a b s = Inr ((), t) \<and> zres r (zv s a + zv s b) s t"
proof -
  let ?e = "if mp_size x \<ge> 0 then 1 else - 1 :: int"
  let ?k = "\<lambda>n. bindS (getz a) (\<lambda>y. set_size r (if mp_size y \<ge> 0 then n else - n))"
  note v = zv_size [OF s(3)] zv_size [OF s(4)]
  have xor: "0 \<le> mp_size x XOR mp_size y \<longleftrightarrow> (0 \<le> mp_size x \<longleftrightarrow> 0 \<le> mp_size y)" by (simp add: xor_nonnegative_int_iff)
  have run: "mpz_add r a b s = bindS (if 0 \<le> mp_size x XOR mp_size y then mpz_abs_add r a b else mpz_abs_sub r a b) ?k s"
    using s(3,4) by (simp add: mpz_add_def bindS_def)
  show ?thesis
  proof (cases "0 \<le> mp_size x \<longleftrightarrow> 0 \<le> mp_size y")
    case True
    have e: "?e * (\<bar>zv s a\<bar> + \<bar>zv s b\<bar>) = zv s a + zv s b" using True v by (cases "0 \<le> mp_size x") auto
    from computes_then [OF abs_add [OF s n] s(3) refl] True show ?thesis unfolding run e by (simp add: xor)
  next
    case False
    have e: "?e * (\<bar>zv s a\<bar> - \<bar>zv s b\<bar>) = zv s a + zv s b" using False v by (cases "0 \<le> mp_size x") auto
    from computes_then [OF abs_sub [OF s] s(3) refl] n False show ?thesis unfolding run e by (simp add: xor)
  qed
qed

lemma mpz_sub_spec:
  assumes s: "zgood {} s" "zvar s r = Some z" "zvar s a = Some x" "zvar s b = Some y"
    and n: "\<bar>mp_size x\<bar> + 1 < 2 ^ 31" "\<bar>mp_size y\<bar> + 1 < 2 ^ 31"
  shows "\<exists>t. mpz_sub r a b s = Inr ((), t) \<and> zres r (zv s a - zv s b) s t"
proof -
  let ?e = "if mp_size x \<ge> 0 then 1 else - 1 :: int"
  let ?k = "\<lambda>n. bindS (getz a) (\<lambda>y. set_size r (if mp_size y \<ge> 0 then n else - n))"
  note v = zv_size [OF s(3)] zv_size [OF s(4)]
  have xor: "0 \<le> mp_size x XOR mp_size y \<longleftrightarrow> (0 \<le> mp_size x \<longleftrightarrow> 0 \<le> mp_size y)" by (simp add: xor_nonnegative_int_iff)
  have run: "mpz_sub r a b s = bindS (if 0 \<le> mp_size x XOR mp_size y then mpz_abs_sub r a b else mpz_abs_add r a b) ?k s"
    using s(3,4) by (simp add: mpz_sub_def bindS_def)
  show ?thesis
  proof (cases "0 \<le> mp_size x \<longleftrightarrow> 0 \<le> mp_size y")
    case True
    have e: "?e * (\<bar>zv s a\<bar> - \<bar>zv s b\<bar>) = zv s a - zv s b" using True v by (cases "0 \<le> mp_size x") auto
    from computes_then [OF abs_sub [OF s] s(3) refl] n True show ?thesis unfolding run e by (simp add: xor)
  next
    case False
    have e: "?e * (\<bar>zv s a\<bar> + \<bar>zv s b\<bar>) = zv s a - zv s b" using False v by (cases "0 \<le> mp_size x") auto
    from computes_then [OF abs_add [OF s n] s(3) refl] False show ?thesis unfolding run e by (simp add: xor)
  qed
qed

end
