(* ===== verification/Mpz_Mul.thy ===== *)
theory Mpz_Mul
  imports Mpz_Props
begin

text \<open>
  Assignment, comparison and multiplication of mpz variables, and the operations that use a variable of their own: it is allocated,
  exchanged with the result or added to it, and cleared.
\<close>

section \<open>Assignment\<close>

lemma size_int: "zgood {} s \<Longrightarrow> zvar s a = Some x \<Longrightarrow> \<bar>mp_size x\<bar> < 2 ^ 31"
  using zgood_limbs(4) [of "{}" s a x] zgoodD(3) [of "{}" s a x] by (auto simp: zsize_def zstore_def)

lemma zres_trans: "zres r x s t \<Longrightarrow> zres r y t u \<Longrightarrow> zres r y s u"
  unfolding zres_def using others_trans by blast

lemma set_zero:
  assumes "zgood {} s" "zvar s r = Some z"
  shows "\<exists>t. set_size r 0 s = Inr ((), t) \<and> zres r 0 s t"
proof -
  have "zres r 0 s (stored s r [] 0)" using stored_spec [OF zgood_mono [OF assms(1)] assms(2), of "[]" 0] by simp
  moreover have "set_size r 0 s = Inr ((), stored s r [] 0)" using assms(2) by (simp add: set_size_run stored_def c_int_id is_int_def)
  ultimately show ?thesis by blast
qed

lemma set_sign:
  assumes s: "zgood {} s" "zvar s r = Some z" and e: "e = 1 \<or> e = - 1"
  shows "\<exists>t. set_size r (e * mp_size z) s = Inr ((), t) \<and> zres r (e * zv s r) s t"
proof -
  let ?n = "e * mp_size z"
  note l = zgood_limbs [OF s]
  have a: "\<bar>?n\<bar> = \<bar>mp_size z\<bar>" "sgn ?n = e * sgn (mp_size z)" using e by (auto simp: sgn_minus)
  have len: "length (zl s r) = nat \<bar>mp_size z\<bar>" using live_limbs [OF s] .
  have last: "zl s r ! (nat \<bar>?n\<bar> - 1) \<noteq> 0" if "?n \<noteq> 0"
  proof -
    have ne: "zl s r \<noteq> []" using that len by auto
    then have "last (zl s r) \<noteq> 0" using l(3) by simp
    with ne len show ?thesis unfolding a by (simp add: last_conv_nth)
  qed
  have "zres r (sgn ?n * lval (take (nat \<bar>?n\<bar>) (zl s r))) s (stored s r (zl s r) ?n)"
    by (rule stored_spec [OF zgood_mono [OF s(1)] s(2)]) (use l len last a in \<open>auto simp: zsize_def\<close>)
  moreover have "sgn ?n * lval (take (nat \<bar>?n\<bar>) (zl s r)) = e * zv s r" unfolding a using len s(2) by (simp add: zv_def)
  moreover have "set_size r ?n s = Inr ((), stored s r (zl s r) ?n)"
  proof -
    have "is_int ?n" using size_int [OF s] e by (auto simp: is_int_def)
    with put_same [OF l(1)] s(2) show ?thesis by (simp add: set_size_run stored_def c_int_id)
  qed
  ultimately show ?thesis by auto
qed

lemma mpz_set_spec:
  assumes s: "zgood {} s" "zvar s r = Some z" "zvar s a = Some x"
  shows "\<exists>t. mpz_set r a s = Inr ((), t) \<and> zres r (zv s a) s t"
proof (cases "r = a")
  case True
  with s show ?thesis by (auto simp: mpz_set_def zres_def)
next
  case ne: False
  show ?thesis
  proof (cases "mp_size x = 0")
    case True
    have "0 \<le> mp_alloc z" using zgoodD(3) [OF s(1,2)] by (simp add: zstore_def)
    then have "mpz_set r a s = set_size r 0 s"
      using ne s True by (simp add: mpz_set_def whenS_def bindS_def GMP_ABS_def MPZ_REALLOC_def mpn_copyi_def on_limbs_def)
    moreover have "zv s a = 0" using s(3) True by (simp add: zv_def)
    ultimately show ?thesis using set_zero [OF s(1,2)] by simp
  next
    case False
    let ?n = "\<bar>mp_size x\<bar>"
    obtain t z' where "room_for ?n r s t z'" and op: "\<And>a x. zvar s a = Some x \<Longrightarrow> \<exists>x'. operand_in a ?n s t z' x'"
      by (rule ready [OF s(1,2) _ size_int [OF s(1,3)]]) (use False in simp, rule that)
    note t = room_forD [OF this(1)]
    from op [OF s(3)] obtain x' where "operand_in a ?n s t z' x'" by blast
    note a = operandD [OF this]
    have sz: "mp_size x' = mp_size x" using a(2) s(3) by simp
    let ?t = "t\<lparr>zmem := put (zmem t) (mp_d z') (zl s a)\<rparr>"
    have cp: "mpn_copyi (mp_d z') (mp_d x') (nat ?n) (zmem t) = Inr ((), put (zmem t) (mp_d z') (zl s a))"
      using mpn_copyi_spec [OF a(3,4), of "mp_d z'"] a(5) t(7) sz by simp
    have run: "mpz_set r a s = bindS (\<lambda>_. Inr (mp_size x, ?t)) (\<lambda>n. set_size r (1 * n)) s"
      using ne s(3) t(1) a(1) cp sz by (simp add: mpz_set_def whenS_def bindS_def GMP_ABS_abs Let_def)
    have "computes (\<lambda>_. Inr (mp_size x, ?t)) r (zv s a) s"
    proof (rule computesI, rule refl, rule t(2), rule t(3), rule t(4), rule t(5))
      have ne: "zl s a \<noteq> []" using a(4) sz False by auto
      show "length (zl s a) \<le> nat (mp_alloc z')" using a(4) t(6) sz by simp
      show "\<bar>mp_size x\<bar> \<le> int (length (zl s a))" using a(4) sz by simp
      show "\<bar>mp_size x\<bar> < 2 ^ 31" using size_int [OF s(1,3)] .
      show "zl s a ! (nat \<bar>mp_size x\<bar> - 1) \<noteq> 0" using a(4,6) sz ne by (simp add: last_conv_nth)
      show "sgn (mp_size x) * lval (take (nat \<bar>mp_size x\<bar>) (zl s a)) = zv s a" using a(4) sz s(3) by (simp add: zv_def)
    qed
    from computes_size [OF this, of 1 "\<lambda>n. set_size r (1 * n)"] show ?thesis unfolding run by simp
  qed
qed

text \<open>The sign is changed after the number was copied.\<close>

lemma set_then_sign:
  assumes s: "zgood {} s" "zvar s r = Some z" "zvar s a = Some x"
    and e: "\<And>n. e n = 1 \<or> e n = - 1"
  shows "\<exists>t k. bindS (mpz_set r a) (\<lambda>_. bindS (getz r) (\<lambda>z. set_size r (e (mp_size z) * mp_size z))) s = Inr ((), t) \<and>
    zres r (e k * zv s a) s t \<and> sgn k = sgn (zv s a)"
proof -
  obtain u where u: "mpz_set r a s = Inr ((), u)" "zres r (zv s a) s u" using mpz_set_spec [OF s] by blast
  then obtain y where y: "zvar u r = Some y" by (auto simp: zres_def)
  obtain t where t: "set_size r (e (mp_size y) * mp_size y) u = Inr ((), t)" "zres r (e (mp_size y) * zv u r) u t"
    using set_sign [OF _ y e] u(2) by (auto simp: zres_def)
  have g: "zgood {} u" "zv u r = zv s a" using u(2) by (simp_all add: zres_def)
  have "sgn (mp_size y) = sgn (zv u r)"
  proof (cases "mp_size y = 0")
    case False
    then have "zl u r \<noteq> []" using live_limbs [OF g(1) y] by auto
    moreover have "last (zl u r) \<noteq> 0" using zgood_limbs(3) [OF g(1) y] calculation by simp
    ultimately have "0 < lval (zl u r)" using lval_ge_top [of "zl u r"] LIMB_B_pos(1) zero_less_power [of LIMB_B] by (meson less_le_trans)
    then show ?thesis using y by (simp add: zv_def sgn_mult)
  qed (use y in \<open>simp add: zv_def\<close>)
  with u t y g(2) zres_trans [OF u(2) t(2)] show ?thesis by (intro exI [of _ t] exI [of _ "mp_size y"]) (simp add: bindS_def)
qed

lemma mpz_neg_spec:
  assumes "zgood {} s" "zvar s r = Some z" "zvar s a = Some x"
  shows "\<exists>t. mpz_neg r a s = Inr ((), t) \<and> zres r (- zv s a) s t"
  using set_then_sign [OF assms, of "\<lambda>_. - 1"] by (auto simp: mpz_neg_def)

lemma mpz_abs_spec:
  assumes "zgood {} s" "zvar s r = Some z" "zvar s a = Some x"
  shows "\<exists>t. mpz_abs r a s = Inr ((), t) \<and> zres r \<bar>zv s a\<bar> s t"
proof -
  let ?e = "\<lambda>n :: int. if 0 \<le> n then 1 else - 1 :: int"
  have g: "GMP_ABS n = ?e n * n" for n by (simp add: GMP_ABS_def)
  obtain t k where t: "mpz_abs r a s = Inr ((), t)" "zres r (?e k * zv s a) s t" "sgn k = sgn (zv s a)"
    using set_then_sign [OF assms, of ?e] unfolding mpz_abs_def g by (atomize_elim) simp
  have "?e k * zv s a = \<bar>zv s a\<bar>" using t(3) by (auto simp: sgn_if split: if_splits)
  with t show ?thesis by auto
qed

section \<open>Comparison\<close>

lemma lval_positive:
  assumes "zgood {} s" "zvar s a = Some x" "mp_size x \<noteq> 0"
  shows "0 < lval (zl s a)"
proof -
  have ne: "zl s a \<noteq> []" using live_limbs [OF assms(1,2)] assms(3) by auto
  moreover have "last (zl s a) \<noteq> 0" using zgood_limbs(3) [OF assms(1,2)] ne by simp
  ultimately show ?thesis using lval_ge_top [of "zl s a"] zero_less_power [OF LIMB_B_pos(1)] by (meson less_le_trans)
qed

lemma size_less:
  assumes s: "zgood {} s" "zvar s a = Some x" "zvar s b = Some y" and l: "mp_size x < mp_size y"
  shows "zv s a < zv s b"
proof -
  note v = zv_size [OF s(2)] zv_size [OF s(3)] and n = lval_nonneg [of "zl s a"] lval_nonneg [of "zl s b"]
  consider "0 \<le> mp_size x" | "mp_size x < 0" "0 \<le> mp_size y" | "mp_size y < 0" using l by linarith
  then show ?thesis
  proof cases
    case 1
    with longer_larger [OF s] l v show ?thesis by simp
  next
    case 2
    with lval_positive [OF s(1,2)] v n show ?thesis by simp
  next
    case 3
    with longer_larger [OF s(1,3,2)] l v show ?thesis by simp
  qed
qed

lemma mpz_cmp_spec:
  assumes s: "zgood {} s" "zvar s a = Some x" "zvar s b = Some y"
  shows "mpz_cmp a b s = Inr (sgn (zv s a - zv s b), s)"
proof (cases "mp_size x = mp_size y")
  case True
  note la = zgood_limbs(1) [OF s(1,2)] live_limbs [OF s(1,2)] and lb = zgood_limbs(1) [OF s(1,3)] live_limbs [OF s(1,3)]
  note v = zv_size [OF s(2)] zv_size [OF s(3)]
  have self: "s\<lparr>zmem := zmem s\<rparr> = s" by simp
  show ?thesis
  proof (cases "0 \<le> mp_size x")
    case pos: True
    have "mpn_cmp (mp_d x) (mp_d y) (nat (mp_size x)) (zmem s) = Inr (sgn (lval (zl s a) - lval (zl s b)), zmem s)"
      by (rule mpn_cmp_spec) (use la lb True pos in simp_all)
    with s True pos v show ?thesis by (simp add: mpz_cmp_def bindS_def)
  next
    case neg: False
    have "mpn_cmp (mp_d y) (mp_d x) (nat (- mp_size x)) (zmem s) = Inr (sgn (lval (zl s b) - lval (zl s a)), zmem s)"
      by (rule mpn_cmp_spec) (use la lb True neg in simp_all)
    with s True neg v show ?thesis by (simp add: mpz_cmp_def bindS_def)
  qed
next
  case False
  consider "mp_size x < mp_size y" | "mp_size y < mp_size x" using False by linarith
  then show ?thesis
  proof cases
    case 1
    with size_less [OF s 1] s show ?thesis by (simp add: mpz_cmp_def bindS_def)
  next
    case 2
    with size_less [OF s(1,3,2) 2] s show ?thesis by (simp add: mpz_cmp_def bindS_def)
  qed
qed

section \<open>Multiplication by a limb\<close>

lemma mpz_mul_ui_spec:
  assumes s: "zgood {} s" "zvar s r = Some z" "zvar s a = Some x" and n: "\<bar>mp_size x\<bar> + 1 < 2 ^ 31"
  shows "\<exists>t. mpz_mul_ui r a v s = Inr ((), t) \<and> zres r (zv s a * uint v) s t"
proof (cases "mp_size x = 0 \<or> v = 0")
  case True
  then have p: "zv s a * uint v = 0" using s(3) by (auto simp: zv_def)
  have "mpz_mul_ui r a v s = set_size r 0 s" using True s(3) by (simp add: mpz_mul_ui_def bindS_def)
  then show ?thesis unfolding p using set_zero [OF s(1,2)] by simp
next
  case False
  let ?n = "\<bar>mp_size x\<bar>" and ?e = "if mp_size x < 0 then - 1 else 1 :: int"
  obtain t z' where rf: "room_for (?n + 1) r s t z'" and op: "\<And>a x. zvar s a = Some x \<Longrightarrow> \<exists>x'. operand_in a (?n + 1) s t z' x'"
    by (rule ready [OF s(1,2) _ n]) (simp, rule that)
  note t = room_forD [OF rf]
  from op [OF s(3)] obtain x' where "operand_in a (?n + 1) s t z' x'" by blast
  note a = operandD [OF this]
  have sz: "mp_size x' = mp_size x" using a(2) s(3) by simp
  note a = a [unfolded sz]
  have room: "room (zmem t) (mp_d z') (nat ?n)" by (rule room_less [OF t(7)]) simp
  obtain cy rs where m: "mpn_mul_1 (mp_d z') (mp_d x') (nat ?n) v (zmem t) = Inr (cy, put (zmem t) (mp_d z') rs)"
    "length rs = nat ?n" "lval rs + LIMB_B ^ nat ?n * uint cy = lval (zl s a) * uint v"
  proof -
    have "1 \<le> nat ?n" using False by (simp add: Suc_le_eq)
    from that mpn_mul_1_spec [OF a(3,4) room a(5) this, of v] show ?thesis by blast
  qed
  have st: "st (mp_d z' + nat ?n) cy (put (zmem t) (mp_d z') rs) = Inr ((), put (zmem t) (mp_d z') (rs @ [cy]))"
    by (rule st_snoc [OF t(7)]) (use m(2) in auto)
  let ?k = "?n + of_bool (cy \<noteq> 0)" and ?t = "t\<lparr>zmem := put (zmem t) (mp_d z') (rs @ [cy])\<rparr>"
  have run: "mpz_mul_ui r a v s = bindS (\<lambda>_. Inr (?k, ?t)) (\<lambda>n. set_size r (?e * n)) s"
    using False s(3) t(1) a(1) m(1) st by (simp add: mpz_mul_ui_def bindS_def GMP_ABS_abs Let_def word_gt_0)
  have "1 \<le> uint v" using False uint_pos [of v] by simp
  then have ge: "lval (zl s a) \<le> lval (zl s a) * uint v" using mult_left_mono [of 1 "uint v" "lval (zl s a)"] lval_nonneg [of "zl s a"] by simp
  have c: "computes (\<lambda>_. Inr (?k, ?t)) r (lval (zl s a) * uint v) s"
    by (rule computes_carry [OF rf _ n m(2) a(4) a(6) ge m(3)]) simp_all
  have e: "?e * (lval (zl s a) * uint v) = zv s a * uint v" using zv_size(1,2) [OF s(3)] by simp
  from computes_size [OF c, of ?e "\<lambda>n. set_size r (?e * n)"] show ?thesis unfolding run e by simp
qed

lemma sint_sign: "sint v = uint (v :: limb) - 2 ^ 64 * of_bool (sint v < 0)"
proof -
  have e: "sint v = uint v - 2 ^ 64 * of_bool (bit (uint v) 63)"
    using signed_take_bit_eq_take_bit_minus [of 63 "uint v"] take_bit_int_eq_self [of "uint v" 64] uint_lt2p [of v] by (simp add: sint_uint)
  have "0 \<le> uint v" "uint v < 2 ^ 64" using uint_lt2p [of v] by simp_all
  with e show ?thesis by (cases "bit (uint v) 63") auto
qed

lemma NEG_CAST_value: "sint v < 0 \<Longrightarrow> uint (GMP_NEG_CAST v) = - sint v"
proof -
  assume v: "sint v < 0"
  have "uint (- v) = (- uint v) mod 2 ^ 64" by (simp add: uint_word_ariths)
  moreover have "0 < uint v" using v uint_pos [of v] by (cases "v = 0") auto
  moreover have "uint v < 2 ^ 64" using uint_lt2p [of v] by simp
  ultimately show ?thesis using sint_sign [of v] v by (simp add: GMP_NEG_CAST_def zmod_zminus1_eq_if)
qed

lemma mpz_mul_si_spec:
  assumes s: "zgood {} s" "zvar s r = Some z" "zvar s a = Some x" and n: "\<bar>mp_size x\<bar> + 1 < 2 ^ 31"
  shows "\<exists>t. mpz_mul_si r a v s = Inr ((), t) \<and> zres r (zv s a * sint v) s t"
proof (cases "sint v < 0")
  case True
  obtain u where u: "mpz_mul_ui r a (GMP_NEG_CAST v) s = Inr ((), u)" "zres r (zv s a * - sint v) s u"
    using mpz_mul_ui_spec [OF s n, of "GMP_NEG_CAST v"] NEG_CAST_value [OF True] by auto
  then obtain y where y: "zgood {} u" "zvar u r = Some y" "zv u r = zv s a * - sint v" by (auto simp: zres_def)
  obtain t where t: "mpz_neg r r u = Inr ((), t)" "zres r (- zv u r) u t" using mpz_neg_spec [OF y(1,2,2)] by blast
  have "zres r (zv s a * sint v) s t" using zres_trans [OF u(2) t(2)] y(3) by simp
  with u t True show ?thesis by (simp add: mpz_mul_si_def bindS_def)
next
  case False
  then have "uint v = sint v" using sint_sign [of v] by simp
  with mpz_mul_ui_spec [OF s n, of v] False show ?thesis by (simp add: mpz_mul_si_def)
qed

section \<open>Local variables\<close>

lemma new_var_run: "bindS new_var f s = f (znext s) (s\<lparr>znext := Suc (znext s)\<rparr>)"
  by (simp add: new_var_def bindS_def)

lemma others_znext [simp]: "others r (s\<lparr>znext := k\<rparr>) u \<longleftrightarrow> others r s u"
  by (simp add: others_def zl_def)

lemma new_var_good:
  assumes "zgood {} s"
  shows "zgood {} (s\<lparr>znext := Suc (znext s)\<rparr>)" "zvar s (znext s) = None" "zvar s v = Some z \<Longrightarrow> v \<noteq> znext s"
proof -
  show "zgood {} (s\<lparr>znext := Suc (znext s)\<rparr>)" using assms unfolding zgood_def by (auto intro: less_SucI)
  have b: "v < znext s" if "zvar s v = Some z" for v z using zgoodD(2) [OF assms that] .
  then show "zvar s (znext s) = None" by (cases "zvar s (znext s)") auto
  show "zvar s v = Some z \<Longrightarrow> v \<noteq> znext s" using b by blast
qed

lemma mpz_init_spec:
  assumes "zgood {} s" "r < znext s"
  shows "\<exists>t. mpz_init r s = Inr ((), t) \<and> zres r 0 s t \<and> znext t = znext s"
proof -
  let ?z = "\<lparr>mp_alloc = 0, mp_size = 0, mp_d = dummy_limb\<rparr>"
  let ?t = "s\<lparr>zmem := zmem s, zvar := (zvar s)(r \<mapsto> ?z)\<rparr>"
  have m: "mem_ok (zmem s)" using assms(1) by (simp add: zgood_def)
  have z: "zstore (zmem s) ?z" "zfull (zmem s) ?z"
    by (simp_all add: zstore_def zfull_def room_def zsize_def zlimbs_def limbs_def limbs_at_def)
  have "zgood {} ?t" "others r s ?t"
    using zgood_update [OF assms(1,2) _ m z(1), of "{}" ?t] z(2) by (simp_all add: apart_def)
  moreover have "mpz_init r s = Inr ((), ?t)" by (simp add: mpz_init_def modify_def)
  ultimately show ?thesis by (intro exI [of _ ?t]) (simp add: zres_def zv_def)
qed



lemma mpz_clear_spec:
  assumes s: "zgood {} s" "zvar s r = Some z"
  shows "\<exists>t. mpz_clear r s = Inr ((), t) \<and> zgood {} t \<and> others r s t \<and> zvar t r = None"
proof -
  let ?m = "if mp_alloc z = 0 then zmem s else (zmem s)\<lparr>cells := (\<lambda>q. if mp_d z \<le> q \<and> q < mp_d z + nat (mp_alloc z) then None
    else cells (zmem s) q), blocks := (blocks (zmem s))(mp_d z := None)\<rparr>"
  let ?t = "s\<lparr>zmem := ?m, zvar := (zvar s)(r := None)\<rparr>"
  note st = zgoodD(3) [OF s]
  have run: "mpz_clear r s = Inr ((), ?t)"
    using s(2) st by (auto simp: mpz_clear_def bindS_def whenS_def modify_def gmp_free_def gets_def zstore_def)
  have ok: "mem_ok ?m" using zgoodD(1) [OF s] by (simp add: mem_ok_def)
  have ag: "agree (zmem s) ?m x" if "zvar s v = Some x" "v \<noteq> r" for v x
    using zgoodD(5) [OF s(1) that(1) s(2) that(2)] zgoodD(3) [OF s(1) that(1)] st by (auto simp: agree_def apart_def zstore_def)
  have z: "v < znext s \<and> zstore ?m x \<and> zfull ?m x \<and> zlimbs ?m x = zlimbs (zmem s) x" if v: "zvar s v = Some x" "v \<noteq> r" for v x
    using agree_store [OF ag [OF v]] agree_full [OF ag [OF v]] agree_limbs [OF ag [OF v]] zgoodD(2-4) [OF s(1) v(1)]
    by (auto simp: zfull_def)
  have "zgood {} ?t" unfolding zgood_def using ok z zgoodD(5) [OF s(1)] by (simp split: if_splits)
  moreover have "others r s ?t" unfolding others_def using z by (auto simp: zl_def)
  ultimately show ?thesis using run by (intro exI [of _ ?t]) simp
qed

section \<open>Products\<close>






text \<open>What the variables other than the result were before a local variable was made.\<close>

lemma local_done:
  assumes s: "zgood {} s" "zvar s r = Some z" and t: "t = znext s"
    and o: "\<And>v. v \<noteq> r \<Longrightarrow> v \<noteq> t \<Longrightarrow> zvar u v = zvar s v \<and> (zvar s v \<noteq> None \<longrightarrow> zl u v = zl s v)"
    and u: "zgood {} u" "zvar u t = None" "zvar u r \<noteq> None" "zv u r = x"
  shows "zres r x s u"
  unfolding zres_def others_def
proof (intro conjI allI impI)
  fix v assume v: "v \<noteq> r"
  show "zvar u v = zvar s v" using o [OF v] u(2) new_var_good(2) [OF s(1)] t by (cases "v = t") auto
  assume "zvar s v \<noteq> None"
  then have "v \<noteq> t" using new_var_good(2) [OF s(1)] t by auto
  with o [OF v] \<open>zvar s v \<noteq> None\<close> show "zl u v = zl s v" by blast
qed (use u in simp_all)



section \<open>Multiply and add\<close>

lemma size_bound:
  assumes "zgood {} s" "zvar s a = Some x" "\<bar>zv s a\<bar> < LIMB_B ^ k"
  shows "\<bar>mp_size x\<bar> \<le> int k"
proof (rule ccontr)
  assume b: "\<not> \<bar>mp_size x\<bar> \<le> int k"
  then have k: "k < length (zl s a)" using live_limbs [OF assms(1,2)] by simp
  then have ne: "zl s a \<noteq> []" by auto
  have "last (zl s a) \<noteq> 0" using zgood_limbs(3) [OF assms(1,2)] ne by simp
  from lval_ge_top [OF ne this] have "LIMB_B ^ (length (zl s a) - 1) \<le> lval (zl s a)" .
  moreover have "LIMB_B ^ k \<le> LIMB_B ^ (length (zl s a) - 1)" using k less_imp_le [OF LIMB_B_pos(3)] by (intro power_increasing) simp_all
  ultimately show False using assms(3) zv_size(3) [OF assms(2)] by linarith
qed

lemma zv_less:
  assumes "zgood {} s" "zvar s a = Some x"
  shows "\<bar>zv s a\<bar> < LIMB_B ^ nat \<bar>mp_size x\<bar>"
  using lval_less [of "zl s a"] live_limbs [OF assms] zv_size(3) [OF assms(2)] by simp

text \<open>A product in a local variable is added to the result or subtracted from it.\<close>

lemma with_product:
  assumes s: "zgood {} s" "zvar s r = Some z" "\<bar>mp_size z\<bar> + 1 < 2 ^ 31"
    and mul: "\<And>s' z'. zgood {} s' \<Longrightarrow> zvar s' (znext s) = Some z' \<Longrightarrow> others (znext s) s s' \<Longrightarrow>
      \<exists>u. m (znext s) s' = Inr ((), u) \<and> zres (znext s) p s' u"
    and p: "\<bar>p\<bar> < LIMB_B ^ k" "int k + 1 < 2 ^ 31"
    and op: "\<And>s' x y. zgood {} s' \<Longrightarrow> zvar s' r = Some x \<Longrightarrow> zvar s' (znext s) = Some y \<Longrightarrow> \<bar>mp_size x\<bar> + 1 < 2 ^ 31 \<Longrightarrow>
      \<bar>mp_size y\<bar> + 1 < 2 ^ 31 \<Longrightarrow> \<exists>u. f r (znext s) s' = Inr ((), u) \<and> zres r (g (zv s' r) (zv s' (znext s))) s' u"
  shows "\<exists>u. bindS new_var (\<lambda>t. bindS (mpz_init t) (\<lambda>_. bindS (m t) (\<lambda>_. bindS (f r t) (\<lambda>_. mpz_clear t)))) s = Inr ((), u) \<and>
    zres r (g (zv s r) p) s u"
proof -
  let ?t = "znext s" and ?s = "s\<lparr>znext := Suc (znext s)\<rparr>"
  note nv = new_var_good [OF s(1)]
  have ne: "r \<noteq> ?t" using nv(3) s(2) by blast
  obtain s1 where s1: "mpz_init ?t ?s = Inr ((), s1)" "zres ?t 0 ?s s1" using mpz_init_spec [OF nv(1), of ?t] by auto
  have o1: "others ?t s s1" using s1(2) by (simp add: zres_def)
  obtain z1 where z1: "zvar s1 ?t = Some z1" "zgood {} s1" using s1(2) by (auto simp: zres_def)
  obtain s2 where s2: "m ?t s1 = Inr ((), s2)" "zres ?t p s1 s2" using mul [OF z1(2,1) o1] by blast
  have o2: "others ?t s s2" "zgood {} s2" "zv s2 ?t = p" using s2(2) others_trans [OF o1] by (auto simp: zres_def)
  note r2 = others_zv [OF o2(1) ne s(2)]
  obtain y where y: "zvar s2 ?t = Some y" using s2(2) by (auto simp: zres_def)
  have "\<bar>mp_size y\<bar> + 1 < 2 ^ 31" using size_bound [OF o2(2) y, of k] o2(3) p by simp
  then obtain s3 where s3: "f r ?t s2 = Inr ((), s3)" "zres r (g (zv s r) p) s2 s3"
    using op [OF o2(2) r2 [THEN conjunct1] y s(3)] r2 o2(3) by auto
  have g3: "zgood {} s3" "others r s2 s3" using s3(2) by (simp_all add: zres_def)
  have y3: "zvar s3 ?t = Some y" using others_zv [OF g3(2) _ y] ne by auto
  obtain u where u: "mpz_clear ?t s3 = Inr ((), u)" "zgood {} u" "others ?t s3 u" "zvar u ?t = None"
    using mpz_clear_spec [OF g3(1) y3] by blast
  obtain z3 where z3: "zvar s3 r = Some z3" using s3(2) by (auto simp: zres_def)
  note ur = others_zv [OF u(3) ne z3]
  have "zres r (g (zv s r) p) s u"
  proof (rule local_done [OF s(1,2) refl _ u(2,4)])
    show "zvar u r \<noteq> None" "zv u r = g (zv s r) p" using ur s3(2) by (auto simp: zres_def)
    show "zvar u v = zvar s v \<and> (zvar s v \<noteq> None \<longrightarrow> zl u v = zl s v)" if "v \<noteq> r" "v \<noteq> ?t" for v
      using that o2(1) g3(2) u(3) by (auto simp: others_def)
  qed
  moreover have "bindS new_var (\<lambda>t. bindS (mpz_init t) (\<lambda>_. bindS (m t) (\<lambda>_. bindS (f r t) (\<lambda>_. mpz_clear t)))) s = Inr ((), u)"
    using s1(1) s2(1) s3(1) u(1) by (simp add: new_var_run) (simp add: bindS_def)
  ultimately show ?thesis by blast
qed




lemma mpz_addmul_ui_spec:
  assumes s: "zgood {} s" "zvar s r = Some z" "zvar s a = Some x"
    and n: "\<bar>mp_size x\<bar> + 2 < 2 ^ 31" "\<bar>mp_size z\<bar> + 1 < 2 ^ 31"
  shows "\<exists>u. mpz_addmul_ui r a v s = Inr ((), u) \<and> zres r (zv s r + zv s a * uint v) s u"
    "\<exists>u. mpz_submul_ui r a v s = Inr ((), u) \<and> zres r (zv s r - zv s a * uint v) s u"
proof -
  note ne = new_var_good(3) [OF s(1,3)]
  have mul: "\<exists>u. mpz_mul_ui (znext s) a v s' = Inr ((), u) \<and> zres (znext s) (zv s a * uint v) s' u"
    if "zgood {} s'" "zvar s' (znext s) = Some z'" "others (znext s) s s'" for s' z'
    using mpz_mul_ui_spec [OF that(1,2), of a x v] others_zv [OF that(3) ne s(3)] n(1) by auto
  have "\<bar>uint v\<bar> < LIMB_B" using uint_lt2p [of v] by (simp add: LIMB_B_def)
  from mult_strict_mono' [OF zv_less [OF s(1,3)] this] have p: "\<bar>zv s a * uint v\<bar> < LIMB_B ^ (nat \<bar>mp_size x\<bar> + 1)"
    by (simp add: abs_mult mult.commute)
  have k: "int (nat \<bar>mp_size x\<bar> + 1) + 1 < 2 ^ 31" using n(1) by simp
  show "\<exists>u. mpz_addmul_ui r a v s = Inr ((), u) \<and> zres r (zv s r + zv s a * uint v) s u"
    unfolding mpz_addmul_ui_def
    by (rule with_product [where m = "\<lambda>t. mpz_mul_ui t a v" and f = "\<lambda>r. mpz_add r r" and g = "(+)", OF s(1,2) n(2) mul p k])
      (auto intro: mpz_add_spec)
  show "\<exists>u. mpz_submul_ui r a v s = Inr ((), u) \<and> zres r (zv s r - zv s a * uint v) s u"
    unfolding mpz_submul_ui_def
    by (rule with_product [where m = "\<lambda>t. mpz_mul_ui t a v" and f = "\<lambda>r. mpz_sub r r" and g = "(-)", OF s(1,2) n(2) mul p k])
      (auto intro: mpz_sub_spec)
qed

section \<open>Shifts\<close>

lemma lval_zeros [simp]: "lval (replicate l 0) = 0"
  by (induction l) simp_all

lemma zero_below:
  assumes "room m rp l"
  shows "mpn_zero rp l (put m (rp + l) ys) = Inr ((), put m rp (replicate l 0 @ ys))"
proof -
  have "mpn_zero rp l (put m (rp + l) ys) = Inr ((), put (put m (rp + l) ys) rp (replicate l 0))" using assms by (intro mpn_zero_spec) simp
  moreover have "put (put m (rp + l) ys) rp (replicate l 0) = put m rp (replicate l 0 @ ys)"
    by (auto simp: put_def nth_append intro!: limb_mem.equality ext)
  ultimately show ?thesis by simp
qed

lemma mul_2exp_limbs:
  assumes t: "room (zmem t) rp (nat un + l + of_bool (0 < b))" "limbs_at (zmem t) ap xs" "length xs = nat un" "down_ok rp ap (nat un + l)" "0 < un" "b < 64"
    and top: "last xs \<noteq> 0"
  shows "\<exists>n rs. bindS (if b > 0 then bindS (on_limbs (mpn_lshift (rp + l) ap (nat un) b)) (\<lambda>cy.
          bindS (on_limbs (st (rp + nat (un + int l + of_bool (0 < b) - 1)) cy)) (\<lambda>_. ret (un + int l + of_bool (0 < b) - of_bool (cy = 0))))
        else bindS (on_limbs (mpn_copyd (rp + l) ap (nat un))) (\<lambda>_. ret (un + int l + of_bool (0 < b))))
      (\<lambda>n. bindS (on_limbs (mpn_zero rp l)) (\<lambda>_. ret n)) t = Inr (n, t\<lparr>zmem := put (zmem t) rp rs\<rparr>) \<and>
    length rs = nat un + l + of_bool (0 < b) \<and> 0 < n \<and> n \<le> int (length rs) \<and> rs ! (nat n - 1) \<noteq> 0 \<and> lval (take (nat n) rs) = lval xs * 2 ^ (64 * l + b)"
proof -
  have B: "LIMB_B ^ l = 2 ^ (64 * l)" by (simp add: LIMB_B_def power_mult)
  have d: "down_ok (rp + l) ap (nat un)" using t(4) by (auto simp: down_ok_def)
  have room: "room (zmem t) (rp + l) (nat un + of_bool (0 < b))" using t(1) by (simp add: room_def add.assoc)
  note zero = zero_below [OF room_less [OF t(1)], OF le_trans [OF le_add2 le_add1]]
  have nth: "(replicate l 0 @ ys) ! (l + j - 1) = ys ! (j - 1)" if "0 < j" for j and ys :: "limb list"
    using that by (cases j) (simp_all add: nth_append)
  have z: "lval (replicate l 0 @ ys) = LIMB_B ^ l * lval ys" for ys by (simp add: lval_append)
  show ?thesis
  proof (cases "0 < b")
    case True
    have "1 \<le> nat un" using t(5) by simp
    then obtain cy rs where m: "mpn_lshift (rp + l) ap (nat un) b (zmem t) = Inr (cy, put (zmem t) (rp + l) rs)" "length rs = nat un"
      "lval rs + LIMB_B ^ nat un * uint cy = 2 ^ b * lval xs"
      using mpn_lshift_spec [OF t(2,3) _ d _ True t(6)] room_less [OF room] by (metis le_add1)
    have p: "rp + nat (un + int l + of_bool (0 < b) - 1) = rp + l + nat un" using True t(5) by simp
    have st: "st (rp + l + nat un) cy (put (zmem t) (rp + l) rs) = Inr ((), put (zmem t) (rp + l) (rs @ [cy]))"
      by (rule st_snoc [OF room]) (use m(2) True in auto)
    have ge: "lval xs \<le> lval rs + LIMB_B ^ nat un * uint cy" unfolding m(3)
      using mult_right_mono [of 1 "2 ^ b" "lval xs"] lval_nonneg [of xs] by simp
    let ?k = "un + of_bool (cy \<noteq> 0)" and ?n = "un + int l + of_bool (0 < b) - of_bool (cy = 0)"
    have cs: "\<bar>?k\<bar> \<le> int (length (rs @ [cy]))" "(rs @ [cy]) ! (nat \<bar>?k\<bar> - 1) \<noteq> 0"
      "sgn ?k * lval (take (nat \<bar>?k\<bar>) (rs @ [cy])) = lval rs + LIMB_B ^ nat un * uint cy"
      using carry_size [OF m(2) t(3) top ge, of ?k] t(5) by auto
    have k: "nat ?n = l + nat \<bar>?k\<bar>" "0 < nat \<bar>?k\<bar>" "sgn ?k = 1" using t(5) True by (auto simp: sgn_if)
    let ?rs = "replicate l 0 @ rs @ [cy]"
    have "?rs ! (nat ?n - 1) = (rs @ [cy]) ! (nat \<bar>?k\<bar> - 1)" unfolding k(1) by (rule nth [OF k(2)])
    moreover have "lval (take (nat ?n) ?rs) = lval xs * 2 ^ (64 * l + b)"
      using k(1,3) cs(3) m(3) by (simp add: z B power_add mult_ac)
    moreover have "bindS (bindS (on_limbs (mpn_lshift (rp + l) ap (nat un) b)) (\<lambda>cy.
          bindS (on_limbs (st (rp + nat (un + int l + of_bool (0 < b) - 1)) cy)) (\<lambda>_. ret (un + int l + of_bool (0 < b) - of_bool (cy = 0)))))
        (\<lambda>n. bindS (on_limbs (mpn_zero rp l)) (\<lambda>_. ret n)) t = Inr (?n, t\<lparr>zmem := put (zmem t) rp ?rs\<rparr>)"
      unfolding p bindS_def using m(1) st zero [of "rs @ [cy]"] by simp
    moreover have "length ?rs = nat un + l + of_bool (0 < b)" "0 < ?n" "?n \<le> int (length ?rs)" using m(2) True t(5) by auto
    ultimately show ?thesis using True cs(2) by (intro exI [of _ ?n] exI [of _ ?rs]) simp
  next
    case False
    have cp: "mpn_copyd (rp + l) ap (nat un) (zmem t) = Inr ((), put (zmem t) (rp + l) xs)"
      by (rule mpn_copyd_spec [OF t(2,3) _ d]) (use room False in simp)
    let ?rs = "replicate l 0 @ xs"
    have ne: "xs \<noteq> []" using t(3,5) by auto
    have k: "nat (un + int l) = l + length xs" using t(3,5) by simp
    have "?rs ! (nat (un + int l) - 1) = last xs"
      using nth [of "length xs" xs] ne unfolding k by (simp add: last_conv_nth)
    moreover have "lval (take (nat (un + int l)) ?rs) = lval xs * 2 ^ (64 * l + b)" using False unfolding k by (simp add: z B)
    ultimately show ?thesis using cp zero [of xs] False t(3,5) top
      by (intro exI [of _ "un + int l"] exI [of _ ?rs]) (auto simp: bindS_def)
  qed
qed

lemma shift_down_ok:
  assumes t: "zgood {} t" "zvar t r = Some z" "zvar t a = Some x" and n: "mp_size x \<noteq> 0" "k \<le> nat (mp_alloc z)" "0 < k"
  shows "down_ok (mp_d z) (mp_d x) k"
proof (cases "a = r")
  case False
  have "zsize x \<le> nat (mp_alloc x)" using zgood_limbs(4) [OF t(1,3)] by simp
  then have al: "mp_alloc x \<noteq> 0" "mp_alloc z \<noteq> 0" using n by (auto simp: zsize_def)
  from zgoodD(5) [OF t] False al have "mp_d z + nat (mp_alloc z) \<le> mp_d x \<or> mp_d x + nat (mp_alloc x) \<le> mp_d z"
    unfolding apart_def by blast
  with n(2) show ?thesis unfolding down_ok_def by linarith
qed (use t in simp)

lemma mpz_mul_2exp_spec:
  assumes s: "zgood {} s" "zvar s r = Some z" "zvar s a = Some x"
    and n: "\<bar>mp_size x\<bar> + int (unat bits div 64) + 1 < 2 ^ 31"
  shows "\<exists>u. mpz_mul_2exp r a bits s = Inr ((), u) \<and> zres r (zv s a * 2 ^ unat bits) s u"
proof (cases "mp_size x = 0")
  case True
  then have p: "zv s a * 2 ^ unat bits = 0" using s(3) by (simp add: zv_def)
  have "mpz_mul_2exp r a bits s = set_size r 0 s" using True s(3) by (simp add: mpz_mul_2exp_def bindS_def GMP_ABS_abs)
  then show ?thesis unfolding p using set_zero [OF s(1,2)] by simp
next
  case False
  let ?un = "\<bar>mp_size x\<bar>" and ?l = "unat bits div 64" and ?b = "unat bits mod 64" and ?e = "if mp_size x < 0 then - 1 else 1 :: int"
  let ?rn = "?un + int ?l + of_bool (0 < ?b)"
  have rn: "0 < ?rn" "?rn < 2 ^ 31" "nat ?rn = nat ?un + ?l + of_bool (0 < ?b)" using False n by auto
  obtain t z' where "room_for ?rn r s t z'" and op: "\<And>a x. zvar s a = Some x \<Longrightarrow> \<exists>x'. operand_in a ?rn s t z' x'"
    by (rule ready [OF s(1,2) rn(1,2)]) (rule that)
  note t = room_forD [OF this(1)]
  from op [OF s(3)] obtain x' where "operand_in a ?rn s t z' x'" by blast
  note a = operandD [OF this]
  have sz: "mp_size x' = mp_size x" using a(2) s(3) by simp
  have ne: "zl s a \<noteq> []" using a(4) sz False by auto
  note top = a(6) [OF ne]
  have d: "down_ok (mp_d z') (mp_d x') (nat ?un + ?l)"
    by (rule shift_down_ok [OF t(2,3) a(1)]) (use sz False t(6) rn(3) in simp_all)
  define prog where "prog = bindS (if ?b > 0 then bindS (on_limbs (mpn_lshift (mp_d z' + ?l) (mp_d x') (nat ?un) ?b)) (\<lambda>cy.
          bindS (on_limbs (st (mp_d z' + nat (?rn - 1)) cy)) (\<lambda>_. ret (?rn - of_bool (cy = 0))))
        else bindS (on_limbs (mpn_copyd (mp_d z' + ?l) (mp_d x') (nat ?un))) (\<lambda>_. ret ?rn))
      (\<lambda>n. bindS (on_limbs (mpn_zero (mp_d z') ?l)) (\<lambda>_. ret n))"
  obtain k rs where m: "prog t = Inr (k, t\<lparr>zmem := put (zmem t) (mp_d z') rs\<rparr>)" "length rs = nat ?rn" "0 < k" "k \<le> int (length rs)"
    "rs ! (nat k - 1) \<noteq> 0" "lval (take (nat k) rs) = lval (zl s a) * 2 ^ (64 * ?l + ?b)"
    using mul_2exp_limbs [of t "mp_d z'" ?un ?l ?b "mp_d x'" "zl s a"] t(7) a(3,4) sz d False top
    unfolding prog_def rn(3) by auto
  have c: "computes (\<lambda>_. prog t) r (lval (zl s a) * 2 ^ (64 * ?l + ?b)) s"
  proof (rule computesI, rule m(1), rule t(2), rule t(3), rule t(4), rule t(5))
    show "length rs \<le> nat (mp_alloc z')" using m(2) t(6) by simp
    show "\<bar>k\<bar> \<le> int (length rs)" "\<bar>k\<bar> < 2 ^ 31" using m(2-4) rn by simp_all
    show "rs ! (nat \<bar>k\<bar> - 1) \<noteq> 0" "sgn k * lval (take (nat \<bar>k\<bar>) rs) = lval (zl s a) * 2 ^ (64 * ?l + ?b)" using m(3,5,6) by simp_all
  qed
  have g: "getz a (t\<lparr>zmem := put (zmem t) (mp_d z') rs\<rparr>) = Inr (x', t\<lparr>zmem := put (zmem t) (mp_d z') rs\<rparr>)" using a(1) by simp
  have "mpz_mul_2exp r a bits s = bindS prog (\<lambda>n. bindS (getz a) (\<lambda>z. set_size r (if mp_size z < 0 then - n else n))) t"
    unfolding mpz_mul_2exp_def prog_def Let_def bindS_assoc bindS_ret
    by (simp only: bindS_run(1) [of "getz a", OF getz_Some [OF s(3)]] GMP_ABS_abs abs_eq_0 False if_False bindS_run(1) [of "MPZ_REALLOC r ?rn", OF t(1)]
        bindS_run(1) [of "getz a", OF getz_Some [OF a(1)]] nat_int)
  then have run: "mpz_mul_2exp r a bits s = bindS (\<lambda>_. prog t) (\<lambda>n. set_size r (?e * n)) s"
    using m(1) g sz by (simp add: bindS_def)
  have e: "?e * (lval (zl s a) * 2 ^ (64 * ?l + ?b)) = zv s a * 2 ^ unat bits" using zv_size(1,2) [OF s(3)] by (simp add: mult.commute)
  from computes_size [OF c, of ?e "\<lambda>n. set_size r (?e * n)"] show ?thesis unfolding run e by simp
qed

section \<open>Sums and differences with a word\<close>

lemma one_limb:
  assumes s: "zgood {} s" "zvar s r = Some z" and e: "e = 1 \<or> e = - 1"
  shows "computes (bindS (MPZ_REALLOC r 1) (\<lambda>rp. bindS (on_limbs (st rp b)) (\<lambda>_. ret (e * of_bool (b > 0))))) r (e * uint b) s"
proof -
  have "0 < (1 :: int)" "(1 :: int) < 2 ^ 31" by simp_all
  then obtain t z' where "room_for 1 r s t z'" by (rule ready [OF s])
  note t = room_forD [OF this]
  have st: "st (mp_d z') b (zmem t) = Inr ((), put (zmem t) (mp_d z') [b])"
    using st_snoc [OF t(7), of "[]" "mp_d z'" b] by simp
  have run: "bindS (MPZ_REALLOC r 1) (\<lambda>rp. bindS (on_limbs (st rp b)) (\<lambda>_. ret (e * of_bool (b > 0)))) s =
      Inr (e * of_bool (b > 0), t\<lparr>zmem := put (zmem t) (mp_d z') [b]\<rparr>)"
    using t(1) st by (simp add: bindS_def)
  show ?thesis
  proof (rule computesI, rule run, rule t(2), rule t(3), rule t(4), rule t(5))
    show "length [b] \<le> nat (mp_alloc z')" using t(6) by simp
    show "\<bar>e * of_bool (b > 0)\<bar> \<le> int (length [b])" "\<bar>e * of_bool (b > 0)\<bar> < 2 ^ 31" using e by auto
    show "[b] ! (nat \<bar>e * of_bool (b > 0)\<bar> - 1) \<noteq> 0" if "e * of_bool (b > 0) \<noteq> 0" using that e by (auto simp: word_gt_0)
    show "sgn (e * of_bool (b > 0)) * lval (take (nat \<bar>e * of_bool (b > 0)\<bar>) [b]) = e * uint b"
      using e by (cases "b = 0") (auto simp: word_gt_0)
  qed
qed

lemma abs_add_ui:
  assumes s: "zgood {} s" "zvar s r = Some z" "zvar s a = Some x" and n: "\<bar>mp_size x\<bar> + 1 < 2 ^ 31"
  shows "computes (mpz_abs_add_ui r a b) r (\<bar>zv s a\<bar> + uint b) s"
proof (cases "mp_size x = 0")
  case True
  then have "mpz_abs_add_ui r a b s = bindS (MPZ_REALLOC r 1) (\<lambda>rp. bindS (on_limbs (st rp b)) (\<lambda>_. ret (1 * of_bool (b > 0)))) s"
    using s(3) by (simp add: mpz_abs_add_ui_def bindS_def GMP_ABS_def)
  moreover have "\<bar>zv s a\<bar> + uint b = 1 * uint b" using True s(3) by (simp add: zv_def)
  ultimately show ?thesis using one_limb [OF s(1,2), of 1 b] by (simp add: computes_def)
next
  case False
  let ?n = "\<bar>mp_size x\<bar>"
  obtain t z' where rf: "room_for (?n + 1) r s t z'" and op: "\<And>a x. zvar s a = Some x \<Longrightarrow> \<exists>x'. operand_in a (?n + 1) s t z' x'"
    by (rule ready [OF s(1,2) _ n]) (simp, rule that)
  note t = room_forD [OF rf]
  from op [OF s(3)] obtain x' where "operand_in a (?n + 1) s t z' x'" by blast
  note a = operandD [OF this]
  have sz: "mp_size x' = mp_size x" using a(2) s(3) by simp
  note a = a [unfolded sz]
  have room: "room (zmem t) (mp_d z') (nat ?n)" by (rule room_less [OF t(7)]) simp
  have "0 < nat ?n" using False by simp
  from mpn_add_1_spec [OF a(3,4) room a(5) this] obtain cy rs where
    m: "mpn_add_1 (mp_d z') (mp_d x') (nat ?n) b (zmem t) = Inr (cy, put (zmem t) (mp_d z') rs)" "length rs = nat ?n"
      "lval rs + LIMB_B ^ nat ?n * uint cy = lval (zl s a) + uint b" "uint cy \<le> 1" by blast
  have c: "uint cy = of_bool (cy \<noteq> 0)" using m(4) uint_pos [of cy] by (cases "cy = 0") auto
  have st: "st (mp_d z' + nat ?n) cy (put (zmem t) (mp_d z') rs) = Inr ((), put (zmem t) (mp_d z') (rs @ [cy]))"
    by (rule st_snoc [OF t(7)]) (use m(2) in auto)
  have run: "mpz_abs_add_ui r a b s = Inr (?n + of_bool (cy \<noteq> 0), t\<lparr>zmem := put (zmem t) (mp_d z') (rs @ [cy])\<rparr>)"
    using False s(3) t(1) a(1) m(1) st by (simp add: mpz_abs_add_ui_def bindS_def GMP_ABS_abs Let_def c)
  show ?thesis unfolding zv_size(3) [OF s(3)]
    by (rule computes_carry [OF rf _ n m(2) a(4) a(6) _ m(3)]) (simp_all add: run)
qed

lemma word_le_number:
  assumes "xs \<noteq> []" "last xs \<noteq> 0" "\<not> (length xs = 1 \<and> xs ! 0 < b)"
  shows "uint b \<le> lval xs"
proof (cases "length xs = 1")
  case True
  with assms(3) show ?thesis by (cases xs) (auto simp: word_less_def)
next
  case False
  have "0 < length xs" using assms(1) by simp
  with False have "1 \<le> length xs - 1" by linarith
  then have "LIMB_B ^ 1 \<le> LIMB_B ^ (length xs - 1)" using less_imp_le [OF LIMB_B_pos(3)] by (intro power_increasing) simp_all
  moreover have "uint b < LIMB_B" using uint_lt2p [of b] by (simp add: LIMB_B_def)
  ultimately show ?thesis using lval_ge_top [OF assms(1,2)] unfolding power_one_right by linarith
qed

lemma abs_sub_ui:
  assumes s: "zgood {} s" "zvar s r = Some z" "zvar s a = Some x"
  shows "computes (mpz_abs_sub_ui r a b) r (\<bar>zv s a\<bar> - uint b) s"
proof (cases "mp_size x = 0")
  case True
  then have "mpz_abs_sub_ui r a b s = bindS (MPZ_REALLOC r 1) (\<lambda>rp. bindS (on_limbs (st rp b)) (\<lambda>_. ret (- 1 * of_bool (b > 0)))) s"
    using s(3) by (simp add: mpz_abs_sub_ui_def bindS_def GMP_ABS_def)
  moreover have "\<bar>zv s a\<bar> - uint b = - 1 * uint b" using True s(3) by (simp add: zv_def)
  ultimately show ?thesis using one_limb [OF s(1,2), of "- 1" b] by (simp add: computes_def)
next
  case False
  let ?n = "\<bar>mp_size x\<bar>"
  obtain t z' where "room_for ?n r s t z'" and op: "\<And>a x. zvar s a = Some x \<Longrightarrow> \<exists>x'. operand_in a ?n s t z' x'"
    by (rule ready [OF s(1,2) _ size_int [OF s(1,3)]]) (use False in simp, rule that)
  note t = room_forD [OF this(1)]
  from op [OF s(3)] obtain x' where "operand_in a ?n s t z' x'" by blast
  note a = operandD [OF this]
  have sz: "mp_size x' = mp_size x" using a(2) s(3) by simp
  note a = a [unfolded sz]
  have pos: "0 < nat ?n" using False by simp
  have ne: "zl s a \<noteq> []" using a(4) pos by auto
  have ld: "ld (mp_d x') (zmem t) = Inr (zl s a ! 0, zmem t)" using ld_limbs_at [OF a(3), of 0] ne by simp
  show ?thesis unfolding zv_size(3) [OF s(3)]
  proof (cases "?n = 1 \<and> zl s a ! 0 < b")
    case True
    then have l: "lval (zl s a) = uint (zl s a ! 0)" using a(4) by (cases "zl s a") auto
    let ?d = "b - zl s a ! 0"
    have d: "uint ?d = uint b - uint (zl s a ! 0)" "?d \<noteq> 0"
      using True by (auto simp: uint_sub_lem [THEN iffD1] word_less_def)
    have st: "st (mp_d z') ?d (zmem t) = Inr ((), put (zmem t) (mp_d z') [?d])"
      using st_snoc [OF t(7), of "[]" "mp_d z'" ?d] pos by simp
    have run: "mpz_abs_sub_ui r a b s = Inr (- 1, t\<lparr>zmem := put (zmem t) (mp_d z') [?d]\<rparr>)"
      using False True s(3) t(1) a(1) ld st by (simp add: mpz_abs_sub_ui_def bindS_def GMP_ABS_abs Let_def)
    show "computes (mpz_abs_sub_ui r a b) r (lval (zl s a) - uint b) s"
      by (rule computesI, rule run, rule t(2), rule t(3), rule t(4), rule t(5)) (use t(6) pos d l in simp_all)
  next
    case less: False
    have "length (zl s a) = 1 \<longleftrightarrow> ?n = 1" using a(4) by auto
    with less have ge: "uint b \<le> lval (zl s a)" by (intro word_le_number [OF ne a(6) [OF ne]]) simp
    from mpn_sub_1_spec [OF a(3,4) t(7) a(5) pos] obtain cy rs where
      m: "mpn_sub_1 (mp_d z') (mp_d x') (nat ?n) b (zmem t) = Inr (cy, put (zmem t) (mp_d z') rs)" "length rs = nat ?n"
        "lval rs - LIMB_B ^ nat ?n * uint cy = lval (zl s a) - uint b" by blast
    have cy: "cy = 0" by (rule no_borrow [OF m(2,3)]) (use ge in simp)
    obtain k where k: "mpn_normalized_size (mp_d z') (nat ?n) (put (zmem t) (mp_d z') rs) = Inr (k, put (zmem t) (mp_d z') rs)"
      "k \<le> nat ?n" "k \<noteq> 0 \<Longrightarrow> rs ! (k - 1) \<noteq> 0" "sgn (int k) * lval (take k rs) = lval rs"
      using normalized [OF limbs_at_put m(2)] by blast
    have run: "mpz_abs_sub_ui r a b s = Inr (int k, t\<lparr>zmem := put (zmem t) (mp_d z') rs\<rparr>)"
      using False less s(3) t(1) a(1) ld m(1) k(1) cy
      by (cases "?n = 1") (simp_all add: mpz_abs_sub_ui_def bindS_def GMP_ABS_abs Let_def gmp_assert_nocarry_def)
    show "computes (mpz_abs_sub_ui r a b) r (lval (zl s a) - uint b) s"
      by (rule computesI, rule run, rule t(2), rule t(3), rule t(4), rule t(5))
        (use m(2,3) t(6) k(2-4) cy size_int [OF s(1,3)] in simp_all)
  qed
qed

lemma mpz_ui_spec:
  assumes s: "zgood {} s" "zvar s r = Some z" "zvar s a = Some x" and n: "\<bar>mp_size x\<bar> + 1 < 2 ^ 31"
  shows "\<exists>t. mpz_add_ui r a b s = Inr ((), t) \<and> zres r (zv s a + uint b) s t"
    "\<exists>t. mpz_sub_ui r a b s = Inr ((), t) \<and> zres r (zv s a - uint b) s t"
    "\<exists>t. mpz_ui_sub r b a s = Inr ((), t) \<and> zres r (uint b - zv s a) s t"
proof -
  note add = abs_add_ui [OF s n, of b] and sub = abs_sub_ui [OF s, of b] and v = zv_size [OF s(3)]
  have f: "\<exists>t. bindS m (\<lambda>n. set_size r n) s = Inr ((), t) \<and> zres r y s t"
    "\<exists>t. bindS m (\<lambda>n. set_size r (- n)) s = Inr ((), t) \<and> zres r (- y) s t" if "computes m r y s" for m y
    using computes_size [OF that, of 1 "\<lambda>n. set_size r n"] computes_size [OF that, of "- 1" "\<lambda>n. set_size r (- n)"] by auto
  have g: "bindS (getz a) h s = h x s" for h :: "mpz \<Rightarrow> unit zp" using s(3) by (simp add: bindS_def)
  show "\<exists>t. mpz_add_ui r a b s = Inr ((), t) \<and> zres r (zv s a + uint b) s t"
    using f(1) [OF add] f(2) [OF sub] v by (cases "0 \<le> mp_size x") (simp_all add: mpz_add_ui_def g algebra_simps)
  show "\<exists>t. mpz_sub_ui r a b s = Inr ((), t) \<and> zres r (zv s a - uint b) s t"
    using f(2) [OF add] f(1) [OF sub] v by (cases "0 \<le> mp_size x") (simp_all add: mpz_sub_ui_def g algebra_simps minus_diff_commute)
  show "\<exists>t. mpz_ui_sub r b a s = Inr ((), t) \<and> zres r (uint b - zv s a) s t"
    using f(1) [OF add] f(2) [OF sub] v by (cases "0 \<le> mp_size x") (simp_all add: mpz_ui_sub_def g algebra_simps)
qed

section \<open>Properties\<close>

text \<open>A state with the variables 0 and 2, which hold 7 and -3.\<close>

definition mpz_example :: mpz_state where
  "mpz_example = \<lparr>zmem = \<lparr>cells = [1 \<mapsto> Some 7, 3 \<mapsto> Some 3], brk = 5, blocks = [1 \<mapsto> 1, 3 \<mapsto> 1]\<rparr>,
     zvar = [0 \<mapsto> \<lparr>mp_alloc = 1, mp_size = 1, mp_d = 1\<rparr>, 2 \<mapsto> \<lparr>mp_alloc = 1, mp_size = - 1, mp_d = 3\<rparr>], znext = 3\<rparr>"

lemma mpz_example_vars:
  "zvar mpz_example 0 = Some \<lparr>mp_alloc = 1, mp_size = 1, mp_d = 1\<rparr>" "zvar mpz_example 2 = Some \<lparr>mp_alloc = 1, mp_size = - 1, mp_d = 3\<rparr>"
  "zv mpz_example 0 = 7" "zv mpz_example 2 = - 3"
  by (simp_all add: mpz_example_def zv_def zl_def zlimbs_def limbs_def zsize_def)

lemma mpz_example_good: "zgood {} mpz_example"
  unfolding zgood_def
proof (intro conjI allI impI)
  show "mem_ok (zmem mpz_example)" by (simp add: mpz_example_def mem_ok_def)
  fix v z assume v: "zvar mpz_example v = Some z"
  then have c: "v = 0 \<and> z = \<lparr>mp_alloc = 1, mp_size = 1, mp_d = 1\<rparr> \<or> v = 2 \<and> z = \<lparr>mp_alloc = 1, mp_size = - 1, mp_d = 3\<rparr>"
    by (auto simp: mpz_example_def split: if_splits)
  then show "v < znext mpz_example" "zstore (zmem mpz_example) z" "zfull (zmem mpz_example) z"
    by (auto simp: mpz_example_def zstore_def zfull_def zlimbs_def limbs_def zsize_def limbs_at_def room_def)
  fix w y assume "zvar mpz_example w = Some y" "v \<noteq> w"
  then show "apart z y" using c by (auto simp: mpz_example_def apart_def split: if_splits)
qed

text \<open>
  C21. On variables that satisfy the invariant, \<^verbatim>\<open>mpz_add\<close> and \<^verbatim>\<open>mpz_sub\<close> return, store the sum and the difference in the result
  variable, keep the invariant and leave every other variable as it was.  The result may be one of the operands or both.  The sizes are such
  that the size of the result fits \<open>int\<close>.
\<close>

theorem mpz_add_sub_correct:
  assumes "zgood {} s" "zvar s r = Some z" "zvar s a = Some x" "zvar s b = Some y"
    and "\<bar>mp_size x\<bar> + 1 < 2 ^ 31" "\<bar>mp_size y\<bar> + 1 < 2 ^ 31"
  shows "(\<exists>t. mpz_add r a b s = Inr ((), t) \<and> zres r (zv s a + zv s b) s t) \<and>
    (\<exists>t. mpz_sub r a b s = Inr ((), t) \<and> zres r (zv s a - zv s b) s t)"
  using mpz_add_spec [OF assms] mpz_sub_spec [OF assms] by blast

theorem mpz_add_sub_correct_witness:
  "(\<exists>t. mpz_add 0 0 2 mpz_example = Inr ((), t) \<and> zres 0 4 mpz_example t) \<and>
    (\<exists>t. mpz_sub 0 0 2 mpz_example = Inr ((), t) \<and> zres 0 10 mpz_example t)"
  using mpz_add_sub_correct [OF mpz_example_good mpz_example_vars(1,1,2)] by (simp add: mpz_example_vars)



text \<open>
  C24. \<^verbatim>\<open>mpz_cmp\<close> returns the sign of the difference of its operands and changes nothing; the comparison of the sizes that it starts
  with decides rightly for every two numbers, since the top limbs are not zero.
\<close>

theorem mpz_cmp_correct:
  assumes "zgood {} s" "zvar s a = Some x" "zvar s b = Some y"
  shows "mpz_cmp a b s = Inr (sgn (zv s a - zv s b), s)"
  by (rule mpz_cmp_spec [OF assms])

theorem mpz_cmp_correct_witness: "mpz_cmp 0 2 mpz_example = Inr (1, mpz_example)"
  using mpz_cmp_correct [OF mpz_example_good mpz_example_vars(1,2)] by (simp add: mpz_example_vars)

text \<open>
  C23. The operations with a word as operand: \<^verbatim>\<open>mpz_add_ui\<close>, \<^verbatim>\<open>mpz_sub_ui\<close> and \<^verbatim>\<open>mpz_ui_sub\<close> with an unsigned one, also where the
  difference changes the sign, \<^verbatim>\<open>mpz_mul_si\<close> with a signed one, the smallest included, and \<^verbatim>\<open>mpz_mul_2exp\<close> with a number of
  bits.  Each works in place.
\<close>

theorem mpz_word_operands_correct:
  assumes "zgood {} s" "zvar s r = Some z" "zvar s a = Some x" and "\<bar>mp_size x\<bar> + int (unat bits div 64) + 1 < 2 ^ 31"
  shows "(\<exists>t. mpz_add_ui r a v s = Inr ((), t) \<and> zres r (zv s a + uint v) s t) \<and>
    (\<exists>t. mpz_sub_ui r a v s = Inr ((), t) \<and> zres r (zv s a - uint v) s t) \<and>
    (\<exists>t. mpz_ui_sub r v a s = Inr ((), t) \<and> zres r (uint v - zv s a) s t) \<and>
    (\<exists>t. mpz_mul_si r a v s = Inr ((), t) \<and> zres r (zv s a * sint v) s t) \<and>
    (\<exists>t. mpz_mul_2exp r a bits s = Inr ((), t) \<and> zres r (zv s a * 2 ^ unat bits) s t)"
proof -
  have n: "\<bar>mp_size x\<bar> + 1 < 2 ^ 31" using assms(4) by simp
  from mpz_ui_spec [OF assms(1-3) n] mpz_mul_si_spec [OF assms(1-3) n] mpz_mul_2exp_spec [OF assms] show ?thesis by blast
qed

theorem mpz_word_operands_correct_witness:
  "(\<exists>t. mpz_add_ui 2 2 5 mpz_example = Inr ((), t) \<and> zres 2 2 mpz_example t) \<and>
    (\<exists>t. mpz_mul_si 2 2 5 mpz_example = Inr ((), t) \<and> zres 2 (- 15) mpz_example t) \<and>
    (\<exists>t. mpz_mul_2exp 2 2 2 mpz_example = Inr ((), t) \<and> zres 2 (- 12) mpz_example t)"
  using mpz_word_operands_correct [OF mpz_example_good mpz_example_vars(2,2), of 2 5] by (simp add: mpz_example_vars)

end
