(* ===== verification/Spec2Isabelle.thy ===== *)
theory Spec2Isabelle
  imports Server_Props Mpn_Str_Set Uint64gmp Mt64 Cpulimit Server_Win_Props Cpulimit_Win Mpz_Mul
begin

text \<open>
  Verification of the C programs of the Why3 platform: the proof server, which runs provers for the clients of Why3, the program
  \<^verbatim>\<open>why3cpulimit\<close>, which runs one command under limits, and the C code around the verified multiprecision library.  Paths are those of
  the repository, below \<^verbatim>\<open>src/\<close>.

  \<^bold>\<open>The programs and how they interact.\<close>  A client sends lines to the server (\<^verbatim>\<open>src/server/server-unix.c\<close> or \<^verbatim>\<open>server-win.c\<close>) over a
  socket or a pipe.  Bytes arrive in a read buffer (\<^verbatim>\<open>readbuf.c\<close>), lines are parsed into requests (\<^verbatim>\<open>request.c\<close>) that wait in a ring
  buffer (\<^verbatim>\<open>queue.c\<close>) until a slot is free.  Clients and processes are kept in keyed lists (\<^verbatim>\<open>arraylist.c\<close>, \<^verbatim>\<open>proc.c\<close>), answers leave
  through a write buffer (\<^verbatim>\<open>writebuf.c\<close>).  Options and the log are in \<^verbatim>\<open>options.c\<close> and \<^verbatim>\<open>logging.c\<close>.  mini-gmp
  (\<^verbatim>\<open>examples/multiprecision/mini-gmp\<close>) is the bignum library the extracted code is compared with: limb macros, natural numbers in
  arrays of limbs (mpn) and on top of them integers in variables (mpz).

  \<^bold>\<open>The language.\<close>  A C function is a HOL function with a result \<open>c_error + 'a\<close>, or a program \<open>('s, 'a) prog\<close> that also passes a
  state.  Every assertion, access out of bounds, read of an uninitialised cell, use after free, null pointer and call of \<^verbatim>\<open>exit\<close> is an
  error value.  Type \<^verbatim>\<open>int\<close> is \<open>int\<close> with its range checked or its conversion (\<open>c_int\<close>) written out, unsigned types are words.
    \<^item> \<open>C_Prelude\<close>: errors, integer types, heap arrays, C strings and their library functions.
    \<^item> \<open>C_Monad\<close>: sequencing, loops (\<open>whileS\<close>, with rules for loops that end and loops that do not) and the rules for invariants.
    \<^item> \<open>C_Double\<close>: the few operations on \<^verbatim>\<open>double\<close> that compute CPU times and random reals.

  \<^bold>\<open>Components of the servers.\<close>
    \<^item> \<open>C_Queue\<close>: \<open>init_queue\<close>, \<open>queue_push\<close>, \<open>queue_pop\<close> and the doubling copy of \<open>resize_queue\<close>; the locale \<open>fifo\<close> is the contract and is
      interpreted on them.  Sequences of operations refine a list.
    \<^item> \<open>C_Arraylist\<close>: appending, removal by moving the last entry, lookup; locale \<open>keyed_table\<close>.  Sequences refine a finite map.
    \<^item> \<open>C_Readbuf\<close>, \<open>C_Writebuf\<close>: the buffers; locale \<open>byte_sink\<close> of the write buffer: what was written and what is pending is what was
      pushed.
    \<^item> \<open>C_Request\<close>: the parser equals the reading of a line by its fields, request lines are parsed back, \<open>remove_from_queue\<close> is a filter.
    \<^item> \<open>C_Options\<close>, \<open>C_Proc\<close>: options, log file and process table.

  \<^bold>\<open>The Unix server.\<close>  \<open>Unix_Sys\<close> has the kernel as a script of answers, one for each call, and a trace of the calls others can see;
  answers that the documentation of a call rules out end the run.  \<open>Server_Unix\<close> is \<^verbatim>\<open>server-unix.c\<close>: the record \<open>server\<close> holds its global
  variables, one definition per function, and \<open>main_prog\<close> the program.  \<open>server_step\<close> is the step relation, with deliveries of
  \<^verbatim>\<open>SIGCHLD\<close> between turns of the loop.  \<open>Server_Poll\<close>, \<open>Server_Inv\<close>, \<open>Server_Ops\<close>, \<open>Server_Safe\<close>, \<open>Server_Loop\<close> and \<open>Server_Init\<close> prove
  an invariant on clients, poll list, process table and queue for each operation, the turn and the initialisation.  \<open>Server_Props\<close> has
  the results: safety against every client and script without failed writes, scheduling, messages, the system calls of a child,
  interruption, and what happens after a failed write.  A run is as long as its script: the loop of the server does not end by itself,
  and each turn is shown to consume an answer.

  \<^bold>\<open>The Windows server.\<close>  \<open>Win_Cmdline\<close> is the quoting of \<^verbatim>\<open>run_request\<close> in its buffer of 4096 characters: the documented splitting of a
  command line gives the arguments back, and the buffer overflows exactly for longer lines.  \<open>Server_Win\<close> is the rest of \<^verbatim>\<open>server-win.c\<close>,
  with the record \<open>win\<close> and a script of answers of the system; \<open>Server_Win_Props\<close> shows that keys identify objects, and the two ways
  in which the tables go wrong.

  \<^bold>\<open>why3cpulimit.\<close>  \<open>Cpulimit\<close> is \<^verbatim>\<open>cpulimit-unix.c\<close> (exit status, limits set before the command, wrap-around of the wall clock limit),
  \<open>Cpulimit_Win\<close> is \<^verbatim>\<open>cpulimit-win.c\<close> (limits, command line, exit code).

  \<^bold>\<open>Multiprecision arithmetic.\<close>
    \<^item> \<open>Limb\<close>, \<open>Limb_Div\<close>, \<open>Limb_Invert\<close>, \<open>Limb_Bits\<close>: the macros on 64-bit limbs, the inverses of \<^verbatim>\<open>mpn_invert_3by2\<close> and the divisions
      that use them, counting of zero bits.
    \<^item> \<open>Mpn_Mem\<close>: the memory of limbs with its blocks; \<open>Mpn_Basic\<close>, \<open>Mpn_Shift\<close>, \<open>Mpn_Div\<close>: the mpn operations.  Each has a specification on
      the value \<open>lval\<close> of a list of limbs that says which overlaps of the operands it allows.  \<open>Mpn_Div_Gen\<close> and \<open>Mpn_Div_Full\<close> prove
      the schoolbook division, \<open>Mpn_Str\<close> and \<open>Mpn_Str_Set\<close> the conversions to and from digits, \<open>Mpn_Props\<close> states the results.
    \<^item> \<open>Mpz\<close>: the record \<open>mpz\<close> and the functions of the mpz layer from \<^verbatim>\<open>mpz_init\<close> to \<^verbatim>\<open>mpz_submul\<close>.  \<open>Mpz_Inv\<close> has the invariant \<open>zgood\<close>
      (own blocks, initialised limbs, no leading zero) and the rules for allocating and storing a result; \<open>Mpz_Props\<close> and \<open>Mpz_Mul\<close>
      prove that addition, subtraction, multiplication, their variants with a word, shift, negation, absolute value, copy and comparison
      are exact for every choice of variables, and that local variables are given back.
    \<^item> \<open>Uint64gmp\<close>: the word primitives of \<^verbatim>\<open>overlays/uint64gmp.h\<close>.  \<open>Mt64\<close>: the generator of \<^verbatim>\<open>random/mt19937-64.c\<close>, which computes its linear
      recurrence.

  \<^bold>\<open>Bounds and loops.\<close>  No definition has a fuel argument chosen for a proof.  Loops that end are recursive functions with a measure;
  loops that need not end (\<^verbatim>\<open>gmp_clz\<close> of zero, bit scans, the base search for base 1) are partial functions whose missing result is
  \<open>No_return\<close>, with theorems that say when they return.  Allocations of less than \<open>max_alloc\<close> = \<open>2 ^ 34\<close> bytes succeed and larger ones fail
  as the code handles it; so sizes of mpz numbers stay below \<open>2 ^ 31\<close>, the range of \<open>int\<close>, and the theorems on mpz operations assume that
  the size of the result does.

  \<^bold>\<open>Not modelled.\<close>
    \<^item> In mini-gmp: the functions of the mpz layer after \<^verbatim>\<open>mpz_submul\<close> (division, gcd, powers, roots, primality, bit operations, strings,
      import and export), the mpn functions among them (\<^verbatim>\<open>mpn_gcd_11\<close>, \<^verbatim>\<open>mpn_popcount\<close>, \<^verbatim>\<open>mpn_perfect_square_p\<close>, \<^verbatim>\<open>mpn_sqrtrem\<close>), its conversions to and from \<^verbatim>\<open>double\<close>, and the exchange of the memory functions.
    \<^item> The kernels: signals interrupt the Unix server only between turns of its loop, where its handler only
      touches the pipe; threads do not occur.  The results of \<^verbatim>\<open>getopt_long\<close> and, on Windows, the function \<^verbatim>\<open>basename\<close> are arguments of
      the definitions that use them.
    \<^item> \<^verbatim>\<open>free_readbuf\<close>, which only gives memory back.
    \<^item> \<^verbatim>\<open>overlays/add.h\<close>, \<^verbatim>\<open>sub.h\<close>, \<^verbatim>\<open>mul.h\<close>: they only call an installed GMP library.  \<^verbatim>\<open>wmp.h\<close>: declarations of generated code.
      \<^verbatim>\<open>tests.c\<close>: measures times and prints them.  \<^verbatim>\<open>ide/resetgc.c\<close>: sets a field of the OCaml runtime.  The C files below \<^verbatim>\<open>jessie/tests\<close>,
      \<^verbatim>\<open>tests/microc\<close> and \<^verbatim>\<open>plugins/microc\<close> are inputs of verification front ends.
    \<^item> The OCaml and WhyML parts of Why3.
\<close>

end
